(* ===== verification/Prelude.thy ===== *)
theory Prelude
  imports "HOL-Library.Word" "HOL-Library.Sublist"
begin

unbundle bit_operations_syntax

text \<open>
  Shared vocabulary of the development: the machine integer types of the C and C++ sources
  (lwIP's \<open>u8_t\<close>, \<open>u16_t\<close>, \<open>u32_t\<close>, the \<open>uint64_t\<close> of the Ekaline sources), the collections that
  carry the component proofs, and generic lemmas on words and lists.
\<close>

section \<open>Machine integers\<close>

type_synonym u8 = "8 word"
type_synonym u16 = "16 word"
type_synonym u32 = "32 word"
type_synonym u64 = "64 word"

named_theorems unat_simps "unsigned readings of word operations"

lemma unat_u8_less [simp]: "unat (x :: u8) < 256"
  using unsigned_less [of x, where ?'a = nat] by simp

lemma unat_u16_less [simp]: "unat (x :: u16) < 65536"
  using unsigned_less [of x, where ?'a = nat] by simp

lemma unat_u32_less [simp]: "unat (x :: u32) < 4294967296"
  using unsigned_less [of x, where ?'a = nat] by simp

lemma unat_ucast_8_16 [unat_simps, simp]: "unat (ucast (x :: u8) :: u16) = unat x"
  by (simp add: unsigned_ucast_eq take_bit_nat_eq_self_iff less_trans [OF unat_u8_less])

lemma unat_ucast_8_32 [unat_simps, simp]: "unat (ucast (x :: u8) :: u32) = unat x"
  by (simp add: unsigned_ucast_eq take_bit_nat_eq_self_iff less_trans [OF unat_u8_less])

lemma unat_ucast_16_32 [unat_simps, simp]: "unat (ucast (x :: u16) :: u32) = unat x"
  by (simp add: unsigned_ucast_eq take_bit_nat_eq_self_iff less_trans [OF unat_u16_less])

lemma unat_ucast_32_16 [unat_simps]: "unat (ucast (x :: u32) :: u16) = unat x mod 65536"
  by (simp add: unsigned_ucast_eq take_bit_eq_mod)

lemma unat_ucast_16_8 [unat_simps]: "unat (ucast (x :: u16) :: u8) = unat x mod 256"
  by (simp add: unsigned_ucast_eq take_bit_eq_mod)

lemma unat_ucast_32_8 [unat_simps]: "unat (ucast (x :: u32) :: u8) = unat x mod 256"
  by (simp add: unsigned_ucast_eq take_bit_eq_mod)

lemma unat_of_nat_u8: "n < 256 \<Longrightarrow> unat (of_nat n :: u8) = n"
  by (simp add: unat_of_nat take_bit_eq_mod)

lemma unat_of_nat_u16: "n < 65536 \<Longrightarrow> unat (of_nat n :: u16) = n"
  by (simp add: unat_of_nat take_bit_eq_mod)

lemma unat_of_nat_u32: "n < 4294967296 \<Longrightarrow> unat (of_nat n :: u32) = n"
  by (simp add: unat_of_nat take_bit_eq_mod)

lemma unat_plus_u16 [unat_simps]: "unat (x + y :: u16) = (unat x + unat y) mod 65536"
  by (simp add: unat_word_ariths)

lemma unat_plus_u32 [unat_simps]: "unat (x + y :: u32) = (unat x + unat y) mod 4294967296"
  by (simp add: unat_word_ariths)

lemma unat_drop_bit_u32 [unat_simps]: "unat (drop_bit n x :: u32) = unat x div 2 ^ n"
  by (simp only: unat_drop_bit_eq) (simp add: drop_bit_eq_div)

lemma unat_drop_bit_u16 [unat_simps]: "unat (drop_bit n x :: u16) = unat x div 2 ^ n"
  by (simp only: unat_drop_bit_eq) (simp add: drop_bit_eq_div)

lemma unat_and_ffff [unat_simps]: "unat ((x :: u32) AND 0xffff) = unat x mod 65536"
proof -
  have "x AND 0xffff = take_bit 16 x"
    by (simp add: take_bit_eq_mask mask_eq_decr_exp)
  then show ?thesis by (simp add: take_bit_eq_mod unat_mod)
qed

lemma unat_and_ff_u32 [unat_simps]: "unat ((x :: u32) AND 0xff) = unat x mod 256"
proof -
  have "x AND 0xff = take_bit 8 x"
    by (simp add: take_bit_eq_mask mask_eq_decr_exp)
  then show ?thesis by (simp add: take_bit_eq_mod unat_mod)
qed

lemma unat_and_ff_u16 [unat_simps]: "unat ((x :: u16) AND 0xff) = unat x mod 256"
proof -
  have "x AND 0xff = take_bit 8 x"
    by (simp add: take_bit_eq_mask mask_eq_decr_exp)
  then show ?thesis by (simp add: take_bit_eq_mod unat_mod)
qed

section \<open>Wrap-around written out\<close>

text \<open>Unsigned 32-bit and 64-bit arithmetic on numbers.\<close>

definition sub32 :: "nat \<Rightarrow> nat \<Rightarrow> nat" where
  "sub32 a b = (a + 2 ^ 32 - b mod 2 ^ 32) mod 2 ^ 32"

definition sub64 :: "nat \<Rightarrow> nat \<Rightarrow> nat" where
  "sub64 a b = (a + 2 ^ 64 - b mod 2 ^ 64) mod 2 ^ 64"

definition add32 :: "nat \<Rightarrow> nat \<Rightarrow> nat" where
  "add32 a b = (a + b) mod 2 ^ 32"

lemma sub32_le [simp]: "b \<le> a \<Longrightarrow> a < 2 ^ 32 \<Longrightarrow> sub32 a b = a - b"
  by (simp add: sub32_def mod_if)

lemma sub64_le [simp]: "b \<le> a \<Longrightarrow> a < 2 ^ 64 \<Longrightarrow> sub64 a b = a - b"
  by (simp add: sub64_def mod_if)

lemma add32_less [simp]: "a + b < 2 ^ 32 \<Longrightarrow> add32 a b = a + b"
  by (simp add: add32_def)

section \<open>Outcomes of C functions\<close>

text \<open>
  A function that can hit an \<open>LWIP_ASSERT\<close> (which aborts the process in the configuration of
  \<open>src/src/lwipopts.h\<close>) or run forever returns a \<open>'a outcome\<close>: \<open>Inr\<close> a result,
  or \<open>Inl\<close> the failure. Assertions are named by their message; \<open>InvalidAccess\<close> is the use of a
  pointer to nothing that is allocated, and \<open>Undefined\<close> a shift by the width of the number or more, whose result C
  does not define.
\<close>

datatype failure = Assertion string | Diverges | InvalidAccess | Undefined

type_synonym 'a outcome = "failure + 'a"

definition lwip_assert :: "string \<Rightarrow> bool \<Rightarrow> 'a outcome \<Rightarrow> 'a outcome" where
  "lwip_assert message assertion rest = (if assertion then rest else Inl (Assertion message))"

definition obind :: "'a outcome \<Rightarrow> ('a \<Rightarrow> 'b outcome) \<Rightarrow> 'b outcome" where
  "obind r f = (case r of Inl e \<Rightarrow> Inl e | Inr x \<Rightarrow> f x)"

definition of_loop :: "'a option \<Rightarrow> 'a outcome" where
  "of_loop r = (case r of None \<Rightarrow> Inl Diverges | Some x \<Rightarrow> Inr x)"

lemma obind_simps [simp]: "obind (Inl e) f = Inl e" "obind (Inr x) f = f x"
  by (simp_all add: obind_def)

lemma of_loop_Some [simp]: "of_loop (Some x) = Inr x"
  by (simp add: of_loop_def)

lemma lwip_assert_True [simp]: "lwip_assert message True rest = rest"
  by (simp add: lwip_assert_def)

lemma lwip_assert_False [simp]: "lwip_assert message False rest = Inl (Assertion message)"
  by (simp add: lwip_assert_def)

lemma obind_Inr_iff: "obind r f = Inr y \<longleftrightarrow> (\<exists>x. r = Inr x \<and> f x = Inr y)"
  by (cases r) simp_all

lemma lwip_assert_Inr_iff: "lwip_assert message c rest = Inr y \<longleftrightarrow> c \<and> rest = Inr y"
  by (simp add: lwip_assert_def)

section \<open>Error codes\<close>

text \<open>lwIP's \<open>err_t\<close> (\<open>include/lwip/err.h\<close>).\<close>

datatype err_t = ERR_OK | ERR_MEM | ERR_BUF | ERR_TIMEOUT | ERR_RTE | ERR_INPROGRESS | ERR_VAL
  | ERR_WOULDBLOCK | ERR_USE | ERR_ALREADY | ERR_ISCONN | ERR_CONN | ERR_IF | ERR_ABRT | ERR_RST
  | ERR_CLSD | ERR_ARG

section \<open>Byte copies\<close>

text \<open>C's \<open>memcpy\<close> of \<open>xs\<close> to offset \<open>i\<close> of a buffer.\<close>

definition memcpy :: "'a list \<Rightarrow> nat \<Rightarrow> 'a list \<Rightarrow> 'a list" where
  "memcpy dst i xs = take i dst @ xs @ drop (i + length xs) dst"

lemma length_memcpy: "i + length xs \<le> length dst \<Longrightarrow> length (memcpy dst i xs) = length dst"
  by (simp add: memcpy_def)

lemma memcpy_Nil [simp]: "memcpy dst i [] = dst"
  by (simp add: memcpy_def)

lemma memcpy_memcpy:
  "i + length xs \<le> length dst \<Longrightarrow>
   memcpy (memcpy dst i xs) (i + length xs) ys = memcpy dst i (xs @ ys)"
  by (simp add: memcpy_def ac_simps)

lemma take_memcpy: "n \<le> i \<Longrightarrow> i \<le> length dst \<Longrightarrow> take n (memcpy dst i xs) = take n dst"
  by (simp add: memcpy_def min_def)

lemma drop_memcpy:
  "i + length xs \<le> n \<Longrightarrow> i + length xs \<le> length dst \<Longrightarrow> drop n (memcpy dst i xs) = drop n dst"
  by (simp add: memcpy_def)

lemma memcpy_append1:
  "i + length xs \<le> length as \<Longrightarrow> memcpy (as @ bs) i xs = memcpy as i xs @ bs"
  by (simp add: memcpy_def)

lemma memcpy_append2:
  "length as \<le> i \<Longrightarrow> memcpy (as @ bs) i xs = as @ memcpy bs (i - length as) xs"
  by (simp add: memcpy_def)

lemma take_drop_slice:
  assumes "i + k \<le> n"
  shows "take k (drop (a + i) xs) = take k (drop i (take n (drop a xs)))"
proof -
  have "drop i (take n (drop a xs)) = take (n - i) (drop (a + i) xs)"
    by (simp add: drop_take add.commute)
  moreover have "min k (n - i) = k" using assms by simp
  ultimately show ?thesis by (simp add: take_take)
qed

lemma memcpy_slice:
  assumes "a + n \<le> length m" and "i + length xs \<le> n"
  shows "take n (drop a (memcpy m (a + i) xs)) = memcpy (take n (drop a m)) i xs"
proof -
  define u v w where "u = take a m" and "v = take n (drop a m)" and "w = drop (a + n) m"
  have m: "m = u @ v @ w"
    unfolding u_def v_def w_def by (metis append_take_drop_id drop_drop add.commute)
  have u: "length u = a" and v: "length v = n"
    using assms(1) by (simp_all add: u_def v_def)
  have "memcpy m (a + i) xs = u @ memcpy v i xs @ w"
    unfolding m using u v assms(2) by (simp add: memcpy_append1 memcpy_append2)
  then have "take n (drop a (memcpy m (a + i) xs)) = memcpy v i xs"
    using u v assms(2) by (simp add: length_memcpy)
  then show ?thesis by (simp add: v_def)
qed

end
