(* ===== verification/LwDef.thy ===== *)
theory LwDef
  imports Prelude
begin

text \<open>
  lwIP's common helpers, \<open>LWIP/src/core/def.c\<close> (with the byte-order macros of
  \<open>include/lwip/def.h\<close> that its functions expand): host/network byte order on the
  little-endian hosts the library is built for, and the string functions lwIP brings with it.
  A C string is the list of its bytes; reading past the end of the list, or a 0 byte inside it,
  is the terminating NUL. Pointers into a string are offsets.
\<close>

section \<open>Byte order\<close>

definition PP_HTONS :: "u16 \<Rightarrow> u16" where
  "PP_HTONS x = push_bit 8 (x AND 0x00ff) OR drop_bit 8 (x AND 0xff00)"

definition PP_HTONL :: "u32 \<Rightarrow> u32" where
  "PP_HTONL x = push_bit 24 (x AND 0x000000ff) OR push_bit 8 (x AND 0x0000ff00) OR
     drop_bit 8 (x AND 0x00ff0000) OR drop_bit 24 (x AND 0xff000000)"

definition lwip_htons :: "u16 \<Rightarrow> u16" where
  "lwip_htons n = PP_HTONS n"

definition lwip_htonl :: "u32 \<Rightarrow> u32" where
  "lwip_htonl n = PP_HTONL n"

section \<open>C strings\<close>

definition cchar :: "u8 list \<Rightarrow> u8" where
  "cchar s = (case s of [] \<Rightarrow> 0 | c # _ \<Rightarrow> c)"

definition cstr :: "u8 list \<Rightarrow> u8 list" where
  "cstr s = takeWhile (\<lambda>c. c \<noteq> 0) s"

definition strlen :: "u8 list \<Rightarrow> nat" where
  "strlen s = length (cstr s)"

text \<open>The C library's \<open>strncmp\<close>, which \<open>lwip_strnstr\<close> calls.\<close>

fun strncmp :: "u8 list \<Rightarrow> u8 list \<Rightarrow> nat \<Rightarrow> int" where
  "strncmp s1 s2 0 = 0"
| "strncmp s1 s2 (Suc n) =
     (let c1 = cchar s1; c2 = cchar s2 in
      if c1 \<noteq> c2 then int (unat c1) - int (unat c2)
      else if c1 = 0 then 0
      else strncmp (tl s1) (tl s2) n)"

text \<open>
  The body of the comparison loops of \<open>lwip_stricmp\<close> and \<open>lwip_strnicmp\<close>: whether the
  loop returns 1 at this pair of characters.
\<close>

definition icase_differ :: "u8 \<Rightarrow> u8 \<Rightarrow> bool" where
  "icase_differ c1 c2 =
     (if c1 \<noteq> c2 then
        let c1_upc = c1 OR 0x20 in
        if 0x61 \<le> c1_upc \<and> c1_upc \<le> 0x7a
        then (let c2_upc = c2 OR 0x20 in c1_upc \<noteq> c2_upc)
        else True
      else False)"

function lwip_stricmp :: "u8 list \<Rightarrow> u8 list \<Rightarrow> int" where
  "lwip_stricmp str1 str2 =
     (let c1 = cchar str1; c2 = cchar str2 in
      if icase_differ c1 c2 then 1
      else if c1 \<noteq> 0 then lwip_stricmp (tl str1) (tl str2)
      else 0)"
  by pat_completeness auto
termination
  by (relation "measure (\<lambda>(s, _). length s)")
    (auto simp: cchar_def split: list.splits)

text \<open>
  \<open>len\<close> is a \<open>size_t\<close> and is decremented before it is tested: a call with
  \<open>len = 0\<close> wraps around.
\<close>

function lwip_strnicmp :: "u8 list \<Rightarrow> u8 list \<Rightarrow> u64 \<Rightarrow> int" where
  "lwip_strnicmp str1 str2 len =
     (let c1 = cchar str1; c2 = cchar str2 in
      if icase_differ c1 c2 then 1
      else let len' = len - 1 in
           if len' \<noteq> 0 \<and> c1 \<noteq> 0 then lwip_strnicmp (tl str1) (tl str2) len'
           else 0)"
  by pat_completeness auto
termination
  by (relation "measure (\<lambda>(s, _, _). length s)")
    (auto simp: cchar_def split: list.splits)

declare lwip_stricmp.simps [simp del] lwip_strnicmp.simps [simp del]

text \<open>The search loops; \<open>i\<close> is the offset of \<open>p\<close> from \<open>buffer\<close>.\<close>

fun strnstr_from :: "nat \<Rightarrow> u8 list \<Rightarrow> u8 list \<Rightarrow> nat \<Rightarrow> nat option" where
  "strnstr_from i [] token n = None"
| "strnstr_from i (c # p) token n =
     (if c \<noteq> 0 \<and> i + strlen token \<le> n then
        if c = cchar token \<and> strncmp (c # p) token (strlen token) = 0 then Some i
        else strnstr_from (Suc i) p token n
      else None)"

definition lwip_strnstr :: "u8 list \<Rightarrow> u8 list \<Rightarrow> nat \<Rightarrow> nat option" where
  "lwip_strnstr buffer token n =
     (if strlen token = 0 then Some 0 else strnstr_from 0 buffer token n)"

fun strnistr_from :: "nat \<Rightarrow> u8 list \<Rightarrow> u8 list \<Rightarrow> nat \<Rightarrow> nat option" where
  "strnistr_from i [] token n = None"
| "strnistr_from i (c # p) token n =
     (if c \<noteq> 0 \<and> i + strlen token \<le> n then
        if lwip_strnicmp (c # p) token (of_nat (strlen token)) = 0 then Some i
        else strnistr_from (Suc i) p token n
      else None)"

definition lwip_strnistr :: "u8 list \<Rightarrow> u8 list \<Rightarrow> nat \<Rightarrow> nat option" where
  "lwip_strnistr buffer token n =
     (if strlen token = 0 then Some 0 else strnistr_from 0 buffer token n)"

section \<open>Integer to string\<close>

text \<open>
  \<open>lwip_itoa\<close> writes the digits backwards from the end of the buffer (\<open>tmp\<close>), then moves
  them behind the sign (\<open>res\<close>). The buffer is a byte list of length \<open>bufsize\<close>;
  \<open>itoa_digits\<close> is its \<open>while\<close> loop and returns the buffer, \<open>tmp\<close> and what is left of
  \<open>n\<close>. \<open>number\<close> is a C \<open>int\<close>; the negation of the least one overflows (undefined in C),
  so callers stay above it.
\<close>

function itoa_digits :: "u8 list \<Rightarrow> nat \<Rightarrow> nat \<Rightarrow> nat \<Rightarrow> u8 list \<times> nat \<times> nat" where
  "itoa_digits buf res tmp n =
     (if n \<noteq> 0 \<and> tmp > res then
        let val = of_nat (48 + n mod 10); tmp' = tmp - 1 in
        itoa_digits (buf[tmp' := val]) res tmp' (n div 10)
      else (buf, tmp, n))"
  by pat_completeness auto
termination
  by (relation "measure (\<lambda>(_, _, _, n). n)") auto

declare itoa_digits.simps [simp del]

text \<open>C's \<open>memmove\<close> inside one buffer.\<close>

definition memmove :: "'a list \<Rightarrow> nat \<Rightarrow> nat \<Rightarrow> nat \<Rightarrow> 'a list" where
  "memmove buf dst src len =
     take dst buf @ take len (drop src buf) @ drop (dst + len) buf"

definition lwip_itoa :: "u8 list \<Rightarrow> int \<Rightarrow> u8 list" where
  "lwip_itoa buf number =
     (let bufsize = length buf;
          n = nat (if number \<ge> 0 then number else - number) in
      if bufsize < 2 then (if bufsize = 1 then buf[0 := 0] else buf)
      else
        let (buf, res) = (if number < 0 then (buf[0 := 0x2d], 1) else (buf, 0));
            tmp = bufsize - 1;
            buf = buf[tmp := 0];
            (buf, tmp, n) = itoa_digits buf res tmp n in
        if n \<noteq> 0 then buf[0 := 0]
        else if buf ! tmp = 0 then buf[res := 0x30, res + 1 := 0]
        else memmove buf res tmp (bufsize - tmp))"

section \<open>Properties: byte order\<close>

lemma ff_masks:
  "(0xff :: 'a::len word) = mask 8"
  "(0xff00 :: 'a::len word) = push_bit 8 (mask 8)"
  "(0xff0000 :: 'a::len word) = push_bit 16 (mask 8)"
  "(0xff000000 :: 'a::len word) = push_bit 24 (mask 8)"
  by (simp_all add: mask_eq_decr_exp push_bit_eq_mult)

lemma bit_PP_HTONS:
  "bit (PP_HTONS x) n \<longleftrightarrow> (if n < 8 then bit x (n + 8) else n < 16 \<and> bit x (n - 8))"
  unfolding PP_HTONS_def ff_masks
  by (auto simp: bit_simps add.commute dest: bit_imp_le_length)

lemma bit_PP_HTONL:
  "bit (PP_HTONL x) n \<longleftrightarrow>
     (if n < 8 then bit x (n + 24) else if n < 16 then bit x (n + 8)
      else if n < 24 then bit x (n - 8) else n < 32 \<and> bit x (n - 24))"
  unfolding PP_HTONL_def ff_masks
  by (auto simp: bit_simps add.commute dest: bit_imp_le_length)

lemma lwip_htons_htons [simp]: "lwip_htons (lwip_htons x) = x"
  unfolding lwip_htons_def by (rule bit_word_eqI) (auto simp: bit_PP_HTONS)

lemma lwip_htonl_htonl [simp]: "lwip_htonl (lwip_htonl x) = x"
  unfolding lwip_htonl_def by (rule bit_word_eqI) (auto simp: bit_PP_HTONL)

lemma PP_HTONS_plus: "PP_HTONS x = push_bit 8 (take_bit 8 x) + drop_bit 8 x"
proof -
  have "PP_HTONS x = push_bit 8 (take_bit 8 x) OR drop_bit 8 x"
    by (rule bit_word_eqI)
      (auto simp: bit_simps bit_PP_HTONS add.commute dest: bit_imp_le_length)
  also have "\<dots> = push_bit 8 (take_bit 8 x) + drop_bit 8 x"
    by (rule disjunctive_add [symmetric]) (auto simp: bit_simps dest: bit_imp_le_length)
  finally show ?thesis .
qed

lemma unat_lwip_htons:
  "unat (lwip_htons x) = unat x mod 256 * 256 + unat x div 256"
proof -
  have 1: "unat x div 256 < 256" by (simp add: less_mult_imp_div_less)
  have 2: "unat x mod 256 < 256" by simp
  show ?thesis using 1 2
    by (simp only: lwip_htons_def PP_HTONS_plus unat_plus_u16 unat_drop_bit_u16)
      (simp add: push_bit_eq_mult take_bit_eq_mod unat_word_ariths unat_mod)
qed

text \<open>The bytes of a 32-bit value in the order they have in memory.\<close>

definition bytes32 :: "u32 \<Rightarrow> u8 list" where
  "bytes32 x = [ucast x, ucast (drop_bit 8 x), ucast (drop_bit 16 x), ucast (drop_bit 24 x)]"

text \<open>The bytes of a 16-bit variable in memory.\<close>

definition mem16 :: "u16 \<Rightarrow> u8 list" where
  "mem16 x = [ucast x, ucast (drop_bit 8 x)]"

lemma mem16_htons: "mem16 (lwip_htons x) = [ucast (drop_bit 8 x), ucast x]"
  unfolding mem16_def lwip_htons_def
  by (simp, intro conjI; rule bit_word_eqI) (auto simp: bit_simps bit_PP_HTONS add.commute dest: bit_imp_le_length)

lemma bytes32_htonl: "bytes32 (lwip_htonl x) = rev (bytes32 x)"
  unfolding bytes32_def lwip_htonl_def
  by (simp, intro conjI; rule bit_word_eqI) (auto simp: bit_simps bit_PP_HTONL add.commute)

section \<open>Properties: case-insensitive comparison\<close>

definition tolower :: "u8 \<Rightarrow> u8" where
  "tolower c = (if 0x41 \<le> c \<and> c \<le> 0x5a then c OR 0x20 else c)"

lemma even_block_less: "n < 256 \<Longrightarrow> even (n div 32) \<Longrightarrow> n + 32 < (256 :: nat)"
proof -
  assume n: "n < 256" and e: "even (n div 32)"
  then have "n div 32 < 8" and "n div 32 \<noteq> 7" by (auto simp: less_mult_imp_div_less)
  then have "n div 32 \<le> 6" by linarith
  with div_mult_mod_eq [of n 32] mod_less_divisor [of 32 n] show ?thesis by linarith
qed

lemma unat_or_0x20: "unat (c OR 0x20 :: u8) = (if odd (unat c div 32) then unat c else unat c + 32)"
proof -
  have b: "bit c 5 \<longleftrightarrow> odd (unat c div 32)"
  proof -
    have "bit c 5 \<longleftrightarrow> bit (unat c) 5"
      by (simp add: bit_unsigned_iff)
    then show ?thesis by (simp add: bit_iff_odd)
  qed
  have m: "bit (0x20 :: u8) n \<longleftrightarrow> n = 5" for n
  proof -
    have "bit ((2 :: u8) ^ 5) n \<longleftrightarrow> n = 5"
      by (simp only: bit_exp_iff) auto
    then show ?thesis by simp
  qed
  show ?thesis
  proof (cases "bit c 5")
    case True
    then have "c OR 0x20 = c"
      by (intro bit_word_eqI) (metis bit_or_iff m)
    with True b show ?thesis by simp
  next
    case False
    then have "c OR 0x20 = c + 0x20"
      by (intro disjunctive_add [symmetric]) (metis m)
    moreover have "unat c + 32 < 256"
      using False b even_block_less [OF unat_u8_less [of c]] by simp
    ultimately show ?thesis
      using False b by (simp add: unat_word_ariths)
  qed
qed

lemma or_0x20_range:
  fixes n :: nat
  defines "m \<equiv> (if odd (n div 32) then n else n + 32)"
  assumes "n < 256"
  shows "0x61 \<le> m \<and> m \<le> 0x7a \<longleftrightarrow> (0x41 \<le> n \<and> n \<le> 0x5a) \<or> (0x61 \<le> n \<and> n \<le> 0x7a)"
    and "0x61 \<le> n \<Longrightarrow> n \<le> 0x7a \<Longrightarrow> m = n"
proof -
  define q r where "q = n div 32" and "r = n mod 32"
  have n: "n = 32 * q + r" and r: "r < 32" and q: "q < 8"
    using assms(2) by (simp_all add: q_def r_def)
  have "q = 0 \<or> q = 1 \<or> q = 2 \<or> q = 3 \<or> q = 4 \<or> q = 5 \<or> q = 6 \<or> q = 7"
    using q by linarith
  then have "(0x61 \<le> m \<and> m \<le> 0x7a \<longleftrightarrow> (0x41 \<le> n \<and> n \<le> 0x5a) \<or> (0x61 \<le> n \<and> n \<le> 0x7a)) \<and>
      (0x61 \<le> n \<and> n \<le> 0x7a \<longrightarrow> m = n)"
    unfolding m_def q_def [symmetric] using n r by (elim disjE; simp; linarith)
  then show "0x61 \<le> m \<and> m \<le> 0x7a \<longleftrightarrow> (0x41 \<le> n \<and> n \<le> 0x5a) \<or> (0x61 \<le> n \<and> n \<le> 0x7a)"
    and "0x61 \<le> n \<Longrightarrow> n \<le> 0x7a \<Longrightarrow> m = n"
    by auto
qed

lemma tolower_alt:
  "tolower c = (if 0x61 \<le> c OR 0x20 \<and> c OR 0x20 \<le> 0x7a then c OR 0x20 else c)"
  using or_0x20_range [OF unat_u8_less [of c]]
  by (auto simp: tolower_def word_le_nat_alt word_unat_eq_iff unat_or_0x20)

lemma or_0x20_idem [simp]: "(c OR 0x20) OR 0x20 = (c OR 0x20 :: u8)"
  by (simp add: or.assoc)

lemma icase_differ_iff: "icase_differ c1 c2 \<longleftrightarrow> tolower c1 \<noteq> tolower c2"
proof (cases "c1 = c2")
  case True
  then show ?thesis by (simp add: icase_differ_def)
next
  case False
  then show ?thesis
    unfolding icase_differ_def tolower_alt Let_def by (auto split: if_splits)
qed

lemma tolower_0_iff [simp]: "tolower c = 0 \<longleftrightarrow> c = 0"
  by (auto simp: tolower_def word_unat_eq_iff word_le_nat_alt unat_or_0x20)

lemma cstr_unfold: "cstr s = (if cchar s = 0 then [] else cchar s # cstr (tl s))"
  by (cases s) (auto simp: cstr_def cchar_def)

lemma cstr_NUL_free: "0 \<notin> set s \<Longrightarrow> cstr s = s"
  by (auto simp: cstr_def)

lemma lwip_stricmp_eq:
  "lwip_stricmp s1 s2 = (if map tolower (cstr s1) = map tolower (cstr s2) then 0 else 1)"
proof (induction s1 s2 rule: lwip_stricmp.induct)
  case (1 s1 s2)
  show ?case
  proof (cases "icase_differ (cchar s1) (cchar s2)")
    case True
    then show ?thesis
      by (subst lwip_stricmp.simps, subst (1 2) cstr_unfold) (auto simp: icase_differ_iff)
  next
    case False
    then have eq: "tolower (cchar s1) = tolower (cchar s2)"
      by (simp add: icase_differ_iff)
    then have z: "cchar s1 = 0 \<longleftrightarrow> cchar s2 = 0"
      by (metis tolower_0_iff)
    show ?thesis
      by (subst lwip_stricmp.simps, subst (1 2) cstr_unfold)
        (use "1.IH" [OF refl refl] False eq z in \<open>auto simp: Let_def\<close>)
  qed
qed

text \<open>
  The bounded comparison looks at the first \<open>len\<close> characters, for \<open>len > 0\<close>; with
  \<open>len = 0\<close> the decrement wraps and (for strings shorter than the address space) the whole
  strings are compared.
\<close>

lemma lwip_strnicmp_eq:
  "0 < unat len \<Longrightarrow> lwip_strnicmp s1 s2 len =
     (if map tolower (take (unat len) (cstr s1)) = map tolower (take (unat len) (cstr s2))
      then 0 else 1)"
proof (induction s1 s2 len rule: lwip_strnicmp.induct)
  case (1 s1 s2 len)
  obtain k where k: "unat len = Suc k"
    using "1.prems" by (cases "unat len") auto
  then have k': "unat (len - 1) = k"
    by (metis diff_Suc_1 unat_minus_one unat_eq_zero nat.simps(3) unsigned_0)
  show ?case
  proof (cases "icase_differ (cchar s1) (cchar s2)")
    case True
    then show ?thesis
      by (subst lwip_strnicmp.simps, subst (1 2) cstr_unfold) (auto simp: icase_differ_iff k)
  next
    case False
    then have eq: "tolower (cchar s1) = tolower (cchar s2)"
      by (simp add: icase_differ_iff)
    then have z: "cchar s1 = 0 \<longleftrightarrow> cchar s2 = 0"
      by (metis tolower_0_iff)
    have k0: "len - 1 = 0 \<longleftrightarrow> k = 0"
      by (metis k' unat_eq_zero unsigned_0)
    show ?thesis
      by (subst lwip_strnicmp.simps, subst (1 2) cstr_unfold)
        (use "1.IH" [OF refl refl] False eq z k k' k0 in \<open>auto simp: Let_def\<close>)
  qed
qed

section \<open>Properties: searching\<close>

lemma strlen_0_iff: "strlen s = 0 \<longleftrightarrow> cchar s = 0"
  unfolding strlen_def by (subst cstr_unfold) simp

lemma strncmp_eq_0_iff: "strncmp s t n = 0 \<longleftrightarrow> take n (cstr s) = take n (cstr t)"
proof (induction s t n rule: strncmp.induct)
  case (1 s t)
  show ?case by simp
next
  case (2 s t n)
  show ?case
    by (subst (1 2) cstr_unfold)
      (use "2.IH" [OF refl refl] in \<open>auto simp: Let_def word_uint_eq_iff\<close>)
qed

lemma strncmp_strlen: "strncmp s t (strlen t) = 0 \<longleftrightarrow> prefix (cstr t) (cstr s)"
  by (auto simp: strncmp_eq_0_iff strlen_def prefix_def) (metis append_take_drop_id)

lemma strnstr_from_Some_iff:
  assumes "strlen t \<noteq> 0"
  shows "strnstr_from k p t n = Some i \<longleftrightarrow>
     k \<le> i \<and> i + strlen t \<le> n \<and> prefix (cstr t) (drop (i - k) (cstr p)) \<and>
     (\<forall>j. k \<le> j \<and> j < i \<longrightarrow> \<not> prefix (cstr t) (drop (j - k) (cstr p)))"
proof (induction p arbitrary: k)
  case Nil
  then show ?case using assms by (auto simp: cstr_def strlen_def)
next
  case (Cons c p)
  have ne: "cstr t \<noteq> []"
    using assms by (auto simp: strlen_def)
  have hd: "prefix (cstr t) (cstr (c # p)) \<Longrightarrow> c = cchar t"
    using ne cstr_unfold [of t] cstr_unfold [of "c # p"]
    by (auto simp: cchar_def split: if_splits)
  show ?case
  proof (cases "c \<noteq> 0 \<and> k + strlen t \<le> n")
    case False
    then show ?thesis using ne by (auto simp: cstr_def)
  next
    case True
    then have cs: "cstr (c # p) = c # cstr p"
      by (simp add: cstr_def)
    show ?thesis
    proof (cases "prefix (cstr t) (cstr (c # p))")
      case True': True
      then have "strnstr_from k (c # p) t n = Some k"
        using True hd by (simp add: strncmp_strlen)
      then show ?thesis
        using True True' by (auto dest: spec [of _ k])
    next
      case False
      then have "strnstr_from k (c # p) t n = strnstr_from (Suc k) p t n"
        using True by (simp add: strncmp_strlen)
      have "k \<le> i \<and> prefix (cstr t) (drop (i - k) (cstr (c # p))) \<longleftrightarrow>
          Suc k \<le> i \<and> prefix (cstr t) (drop (i - Suc k) (cstr p))" for i
        using False cs by (cases "i = k") (auto simp: Suc_diff_le drop_Cons' dest: le_neq_implies_less)
      note eq = this
      have "(\<forall>j. k \<le> j \<and> j < i \<longrightarrow> \<not> prefix (cstr t) (drop (j - k) (cstr (c # p)))) \<longleftrightarrow>
          (\<forall>j. Suc k \<le> j \<and> j < i \<longrightarrow> \<not> prefix (cstr t) (drop (j - Suc k) (cstr p)))"
        using eq by metis
      then show ?thesis
        unfolding \<open>strnstr_from k (c # p) t n = _\<close> Cons.IH using eq [of i] by blast
    qed
  qed
qed

section \<open>Properties: decimal output\<close>

fun decimal :: "nat \<Rightarrow> u8 list" where
  "decimal n = (if n < 10 then [of_nat (48 + n)]
     else decimal (n div 10) @ [of_nat (48 + n mod 10)])"

declare decimal.simps [simp del]

definition decimal_int :: "int \<Rightarrow> u8 list" where
  "decimal_int k = (if k < 0 then [0x2d] else []) @ decimal (nat \<bar>k\<bar>)"

lemma decimal_not_Nil [simp]: "decimal n \<noteq> []"
  by (subst decimal.simps) simp

definition digits :: "nat \<Rightarrow> u8 list" where
  "digits n = (if n = 0 then [] else decimal n)"

lemma digits_step: "n \<noteq> 0 \<Longrightarrow> digits n = digits (n div 10) @ [of_nat (48 + n mod 10)]"
  unfolding digits_def by (subst decimal.simps) (auto simp: div_eq_0_iff)

lemma itoa_digits_fit:
  "res \<le> tmp \<Longrightarrow> tmp \<le> length buf \<Longrightarrow> length (digits n) \<le> tmp - res \<Longrightarrow>
   itoa_digits buf res tmp n =
     (take (tmp - length (digits n)) buf @ digits n @ drop tmp buf, tmp - length (digits n), 0)"
proof (induction n arbitrary: buf tmp rule: less_induct)
  case (less n)
  show ?case
  proof (cases "n = 0")
    case True
    then show ?thesis by (subst itoa_digits.simps) (simp add: digits_def)
  next
    case False
    let ?v = "of_nat (48 + n mod 10) :: u8"
    have len: "length (digits n) = Suc (length (digits (n div 10)))"
      using digits_step [OF False] by simp
    then have tmp: "res < tmp" using less.prems by simp
    have "itoa_digits buf res tmp n = itoa_digits (buf[tmp - 1 := ?v]) res (tmp - 1) (n div 10)"
      using False tmp by (subst itoa_digits.simps) (simp add: Let_def)
    also have "\<dots> = (take (tmp - 1 - length (digits (n div 10))) (buf[tmp - 1 := ?v]) @
        digits (n div 10) @ drop (tmp - 1) (buf[tmp - 1 := ?v]),
        tmp - 1 - length (digits (n div 10)), 0)"
      using False tmp less.prems len by (intro less.IH) auto
    also have "drop (tmp - 1) (buf[tmp - 1 := ?v]) = ?v # drop tmp buf"
      using tmp less.prems by (subst drop_update_swap) (auto simp: Cons_nth_drop_Suc [symmetric])
    finally show ?thesis
      using len digits_step [OF False] by simp
  qed
qed

lemma itoa_digits_overflow:
  "res \<le> tmp \<Longrightarrow> tmp - res < length (digits n) \<Longrightarrow> snd (snd (itoa_digits buf res tmp n)) \<noteq> 0"
proof (induction n arbitrary: buf tmp rule: less_induct)
  case (less n)
  then have n: "n \<noteq> 0" by (cases "n = 0") (auto simp: digits_def)
  then have len: "length (digits n) = Suc (length (digits (n div 10)))"
    using digits_step [OF n] by simp
  show ?case
  proof (cases "res < tmp")
    case True
    then show ?thesis
      using n len less.prems less.IH [of "n div 10" "tmp - 1"]
      by (subst itoa_digits.simps) (simp add: Let_def)
  next
    case False
    then show ?thesis using n by (subst itoa_digits.simps) simp
  qed
qed

lemma decimal_NUL_free: "0 \<notin> set (decimal n)"
proof (induction n rule: decimal.induct)
  case (1 n)
  have "(of_nat (48 + m) :: u8) \<noteq> 0" if "m < 10" for m
    using that by (simp add: word_unat_eq_iff unat_word_ariths unat_of_nat take_bit_eq_mod)
  then show ?case
    using 1 by (subst decimal.simps) auto
qed

lemma digits_NUL_free: "0 \<notin> set (digits n)"
  by (simp add: digits_def decimal_NUL_free)

text \<open>What the fitting case leaves in the buffer starts with the digits and a NUL.\<close>

lemma cstr_append_NUL: "0 \<notin> set xs \<Longrightarrow> cstr (xs @ 0 # ys) = xs"
  by (simp add: cstr_def takeWhile_append)

lemma drop_last_update:
  "xs \<noteq> [] \<Longrightarrow> drop (length xs - 1) (xs[length xs - 1 := v]) = [v]"
  by (cases xs rule: rev_cases) (simp_all add: list_update_append)

lemma lwip_itoa_fit:
  assumes "2 \<le> length buf" and "length (decimal_int k) < length buf"
  shows "cstr (lwip_itoa buf k) = decimal_int k"
proof (cases "k = 0")
  case True
  have "decimal 0 = [0x30]" by (subst decimal.simps) simp
  moreover have "buf[length buf - 1 := 0] ! (length buf - 1) = 0"
    using assms by simp
  moreover obtain a b bs where "buf = a # b # bs"
    using assms(1) by (cases buf; cases "tl buf") auto
  ultimately show ?thesis
    using True assms
    by (simp add: lwip_itoa_def decimal_int_def itoa_digits.simps cstr_def split: nat.split)
next
  case False
  let ?n = "nat \<bar>k\<bar>" and ?L = "length buf"
  define sgn where "sgn = (if k < 0 then [0x2d :: u8] else [])"
  define b0 where "b0 = (if k < 0 then buf[0 := 0x2d] else buf)[?L - 1 := 0]"
  define res where "res = length sgn"
  have ne: "buf \<noteq> []" using assms(1) by auto
  have n0: "?n \<noteq> 0" using False by simp
  have dg: "digits ?n = decimal ?n" using n0 by (simp add: digits_def)
  have int: "decimal_int k = sgn @ digits ?n"
    by (simp add: decimal_int_def sgn_def dg)
  have b0: "length b0 = ?L" "drop (?L - 1) b0 = [0]" "take res b0 = sgn"
  proof -
    show "length b0 = ?L" by (simp add: b0_def)
    show "drop (?L - 1) b0 = [0]"
      using ne drop_last_update [of "if k < 0 then buf[0 := 0x2d] else buf" 0]
      by (auto simp: b0_def)
    show "take res b0 = sgn"
      using assms(1) by (cases buf) (auto simp: b0_def res_def sgn_def)
  qed
  have fit: "length (digits ?n) \<le> ?L - 1 - res" and "res \<le> ?L - 1"
    using assms int by (auto simp: res_def)
  let ?t = "?L - 1 - length (digits ?n)"
  have id: "itoa_digits b0 res (?L - 1) ?n = (take ?t b0 @ digits ?n @ [0], ?t, 0)"
    using itoa_digits_fit [OF \<open>res \<le> ?L - 1\<close> _ fit, of b0] b0 by simp
  have Lt: "?L - ?t = Suc (length (digits ?n))"
    using fit assms(1) by linarith
  have t: "length (take ?t b0) = ?t"
    using b0 by simp
  have ne_dg: "digits ?n \<noteq> []" using dg by simp
  then have hd_nz: "hd (digits ?n) \<noteq> 0"
    using digits_NUL_free [of ?n] by (metis hd_in_set)
  have nz: "(take ?t b0 @ digits ?n @ [0]) ! ?t \<noteq> 0"
    using t hd_nz ne_dg by (simp add: nth_append hd_conv_nth)
  have rt: "res \<le> ?t" using fit assms int by (simp add: res_def)
  have mm: "memmove (take ?t b0 @ digits ?n @ [0]) res ?t (?L - ?t) =
      sgn @ digits ?n @ 0 # drop (res + (?L - ?t)) (take ?t b0 @ digits ?n @ [0])"
  proof -
    have "take res (take ?t b0 @ digits ?n @ [0]) = sgn"
    proof -
      have "res - ?t = 0" using rt by (rule diff_is_0_eq [THEN iffD2])
      then show ?thesis
        by (simp only: take_append t take_take min_absorb1 [OF rt] take0 append_Nil2 b0(3))
    qed
    moreover have "take (?L - ?t) (drop ?t (take ?t b0 @ digits ?n @ [0])) = digits ?n @ [0]"
    proof -
      have "drop ?t (take ?t b0 @ digits ?n @ [0]) = digits ?n @ [0]"
        by (simp only: drop_append t drop_all order_refl diff_self_eq_0 drop0 append_Nil)
      then show ?thesis by (simp only: Lt) simp
    qed
    ultimately show ?thesis unfolding memmove_def by (simp only: append_assoc append_Cons append_Nil)
  qed
  have "lwip_itoa buf k = memmove (take ?t b0 @ digits ?n @ [0]) res ?t (?L - ?t)"
    using assms(1) id nz
    by (auto simp: lwip_itoa_def Let_def b0_def res_def sgn_def split: if_splits)
  also note mm
  finally show ?thesis
    using digits_NUL_free [of ?n] cstr_append_NUL [of "sgn @ digits ?n"]
    by (auto simp: int sgn_def)
qed

lemma lwip_itoa_overflow:
  assumes "2 \<le> length buf" and "length buf \<le> length (decimal_int k)"
  shows "cstr (lwip_itoa buf k) = []"
proof -
  let ?n = "nat \<bar>k\<bar>" and ?L = "length buf"
  have k0: "k \<noteq> 0"
  proof
    assume "k = 0"
    moreover have "length (decimal 0) = 1" by (subst decimal.simps) simp
    ultimately show False using assms by (simp add: decimal_int_def)
  qed
  define b0 where "b0 = (if k < 0 then buf[0 := 0x2d] else buf)[?L - 1 := 0]"
  define res where "res = (if k < 0 then 1 else 0 :: nat)"
  have "snd (snd (itoa_digits b0 res (?L - 1) ?n)) \<noteq> 0"
    using assms k0 by (intro itoa_digits_overflow) (auto simp: res_def decimal_int_def digits_def)
  then obtain b t n where id: "itoa_digits b0 res (?L - 1) ?n = (b, t, n)" and "n \<noteq> 0"
    by (metis prod.collapse)
  then have "lwip_itoa buf k = b[0 := 0]"
    using assms(1) by (auto simp: lwip_itoa_def Let_def b0_def res_def split: if_splits)
  then show ?thesis by (cases b) (simp_all add: cstr_def)
qed

section \<open>Correctness of the helpers\<close>

text \<open>
  \<open>lwip_strnstr\<close> returns the first position at which the token occurs in the string such that
  the whole occurrence lies within the first \<open>n\<close> characters, and NULL when there is none.
\<close>

theorem lwip_strnstr_first:
  assumes "strlen token \<noteq> 0"
  shows "lwip_strnstr buffer token n = Some i \<longleftrightarrow>
     i + strlen token \<le> n \<and> prefix (cstr token) (drop i (cstr buffer)) \<and>
     (\<forall>j < i. \<not> prefix (cstr token) (drop j (cstr buffer)))"
  using assms by (auto simp: lwip_strnstr_def strnstr_from_Some_iff)

theorem lwip_strnstr_first_witness:
  "lwip_strnstr [0x61, 0x62, 0x62] [0x62] 3 = Some 1"
  by (subst lwip_strnstr_first) (auto simp: strlen_def cstr_def less_Suc_eq)

text \<open>
  \<open>lwip_itoa\<close> leaves the decimal representation of every \<open>int\<close> above the least one as a
  C string in a buffer that has room for it and the NUL, and the empty string in a smaller one.
\<close>

theorem lwip_itoa_decimal:
  assumes "2 \<le> length buf" and "- (2 ^ 31) < k" and "k < 2 ^ 31"
  shows "cstr (lwip_itoa buf k) =
     (if length (decimal_int k) < length buf then decimal_int k else [])"
  using assms lwip_itoa_fit lwip_itoa_overflow by auto

theorem lwip_itoa_decimal_witness:
  "cstr (lwip_itoa [1, 1, 1, 1] (- 42)) = [0x2d, 0x34, 0x32]"
  by (subst lwip_itoa_decimal) (simp_all add: decimal_int_def decimal.simps)

text \<open>
  The case-insensitive comparison returns 0 exactly for strings that agree after mapping
  ASCII letters to lower case.
\<close>

theorem lwip_stricmp_correct:
  "lwip_stricmp s1 s2 = 0 \<longleftrightarrow> map tolower (cstr s1) = map tolower (cstr s2)"
  by (simp add: lwip_stricmp_eq)

end
