(* ===== verification/Chksum.thy ===== *)
theory Chksum
  imports LwDef
begin

text \<open>
  lwIP's Internet checksum, \<open>LWIP/src/core/inet_chksum.c\<close> with the macros of
  \<open>include/lwip/inet_chksum.h\<close>: the three implementations of \<open>lwip_standard_chksum\<close> that
  \<open>LWIP_CHKSUM_ALGORITHM\<close> selects between (the build uses the default, number 2), the sums over
  pbuf chains, and the TCP/UDP pseudo header sums. Data is the list of its bytes together with
  its address, of which the code looks at the alignment; loads of 16 and 32 bits are little-endian.
  A pbuf chain is seen here as the list of its segments (payload address and bytes).
\<close>

section \<open>The code\<close>

definition le16 :: "u8 \<Rightarrow> u8 \<Rightarrow> u16" where
  "le16 lo hi = ucast lo + 256 * ucast hi"

definition le32 :: "u8 \<Rightarrow> u8 \<Rightarrow> u8 \<Rightarrow> u8 \<Rightarrow> u32" where
  "le32 b0 b1 b2 b3 = ucast b0 + 256 * ucast b1 + 65536 * ucast b2 + 16777216 * ucast b3"

definition SWAP_BYTES_IN_WORD :: "u32 \<Rightarrow> u32" where
  "SWAP_BYTES_IN_WORD w = push_bit 8 (w AND 0xff) OR drop_bit 8 (w AND 0xff00)"

definition FOLD_U32T :: "u32 \<Rightarrow> u32" where
  "FOLD_U32T u = drop_bit 16 u + (u AND 0x0000ffff)"

subsection \<open>Version 1\<close>

fun chksum1_loop :: "u8 list \<Rightarrow> u32 \<Rightarrow> u32 \<times> u8 list" where
  "chksum1_loop (b0 # b1 # bs) acc =
     (let src = push_bit 8 (ucast b0 :: u16) OR ucast b1 in chksum1_loop bs (acc + ucast src))"
| "chksum1_loop [b] acc = (acc, [b])"
| "chksum1_loop [] acc = (acc, [])"

definition lwip_standard_chksum_1 :: "nat \<Rightarrow> u8 list \<Rightarrow> u16" where
  "lwip_standard_chksum_1 dataptr bs =
     (let (acc, rest) = chksum1_loop bs 0;
          acc = (case rest of [] \<Rightarrow> acc
                 | b # _ \<Rightarrow> acc + ucast (push_bit 8 (ucast b :: u16)));
          acc = drop_bit 16 acc + (acc AND 0x0000ffff);
          acc = (if acc AND 0xffff0000 \<noteq> 0 then drop_bit 16 acc + (acc AND 0x0000ffff) else acc)
      in lwip_htons (ucast acc))"

subsection \<open>Version 2\<close>

fun chksum2_loop :: "u8 list \<Rightarrow> u32 \<Rightarrow> u32 \<times> u8 list" where
  "chksum2_loop (b0 # b1 # bs) sm = chksum2_loop bs (sm + ucast (le16 b0 b1))"
| "chksum2_loop bs sm = (sm, bs)"

text \<open>\<open>t\<close> is the pair of its bytes, which the code writes one at a time.\<close>

definition lwip_standard_chksum :: "nat \<Rightarrow> u8 list \<Rightarrow> u16" where
  "lwip_standard_chksum dataptr bs =
     (let is_odd = odd dataptr;
          (t1, pb) = (case bs of b # r \<Rightarrow> if is_odd then (b, r) else (0, bs) | [] \<Rightarrow> (0, bs));
          (sm, ps) = chksum2_loop pb 0;
          t0 = (case ps of [] \<Rightarrow> 0 | b # _ \<Rightarrow> b);
          sm = sm + ucast (le16 t0 t1);
          sm = FOLD_U32T sm;
          sm = FOLD_U32T sm;
          sm = (if is_odd then SWAP_BYTES_IN_WORD sm else sm)
      in ucast sm)"

subsection \<open>Version 3\<close>

definition add_carry :: "u32 \<Rightarrow> u32 \<Rightarrow> u32" where
  "add_carry sm w = (let tmp = sm + w in if tmp < sm then tmp + 1 else tmp)"

fun chksum3_loop :: "u8 list \<Rightarrow> u32 \<Rightarrow> u32 \<times> u8 list" where
  "chksum3_loop (b0 # b1 # b2 # b3 # b4 # b5 # b6 # b7 # bs) sm =
     (let tmp = add_carry sm (le32 b0 b1 b2 b3) in
      chksum3_loop bs (add_carry tmp (le32 b4 b5 b6 b7)))"
| "chksum3_loop bs sm = (sm, bs)"

definition lwip_standard_chksum_3 :: "nat \<Rightarrow> u8 list \<Rightarrow> u16" where
  "lwip_standard_chksum_3 dataptr bs =
     (let is_odd = odd dataptr;
          (t1, pb, addr) = (case bs of
              b # r \<Rightarrow> if is_odd then (b, r, dataptr + 1) else (0, bs, dataptr)
            | [] \<Rightarrow> (0, bs, dataptr));
          (sm, pl) = (case pb of
              b0 # b1 # r \<Rightarrow> if addr mod 4 \<noteq> 0 then (ucast (le16 b0 b1), r) else (0, pb)
            | _ \<Rightarrow> (0, pb));
          (sm, ps) = chksum3_loop pl sm;
          sm = FOLD_U32T sm;
          (sm, ps) = chksum2_loop ps sm;
          t0 = (case ps of [] \<Rightarrow> 0 | b # _ \<Rightarrow> b);
          sm = sm + ucast (le16 t0 t1);
          sm = FOLD_U32T sm;
          sm = FOLD_U32T sm;
          sm = (if is_odd then SWAP_BYTES_IN_WORD sm else sm)
      in ucast sm)"

subsection \<open>Sums over memory, chains and pseudo headers\<close>

type_synonym seg = "nat \<times> u8 list"

definition inet_chksum :: "nat \<Rightarrow> u8 list \<Rightarrow> u16" where
  "inet_chksum dataptr bs = NOT (lwip_standard_chksum dataptr bs)"

text \<open>The loop over the chain that the chain sums share: \<open>acc\<close> and \<open>swapped\<close>.\<close>

fun chain_loop :: "seg list \<Rightarrow> u32 \<Rightarrow> bool \<Rightarrow> u32 \<times> bool" where
  "chain_loop [] acc swapped = (acc, swapped)"
| "chain_loop ((payload, bs) # q) acc swapped =
     (let acc = acc + ucast (lwip_standard_chksum payload bs);
          acc = FOLD_U32T acc
      in if length bs mod 2 \<noteq> 0
         then chain_loop q (SWAP_BYTES_IN_WORD acc) (\<not> swapped)
         else chain_loop q acc swapped)"

definition inet_chksum_pbuf :: "seg list \<Rightarrow> u16" where
  "inet_chksum_pbuf p =
     (let (acc, swapped) = chain_loop p 0 False;
          acc = (if swapped then SWAP_BYTES_IN_WORD acc else acc)
      in NOT (ucast (acc AND 0xffff)))"

definition inet_cksum_pseudo_base :: "seg list \<Rightarrow> u8 \<Rightarrow> u16 \<Rightarrow> u32 \<Rightarrow> u16" where
  "inet_cksum_pseudo_base p proto proto_len acc =
     (let (acc, swapped) = chain_loop p acc False;
          acc = (if swapped then SWAP_BYTES_IN_WORD acc else acc);
          acc = acc + ucast (lwip_htons (ucast proto));
          acc = acc + ucast (lwip_htons proto_len);
          acc = FOLD_U32T acc;
          acc = FOLD_U32T acc
      in NOT (ucast (acc AND 0xffff)))"

definition pseudo_addrs :: "u32 \<Rightarrow> u32 \<Rightarrow> u32" where
  "pseudo_addrs src dest =
     (let acc = src AND 0xffff;
          acc = acc + (drop_bit 16 src AND 0xffff);
          acc = acc + (dest AND 0xffff);
          acc = acc + (drop_bit 16 dest AND 0xffff);
          acc = FOLD_U32T acc
      in FOLD_U32T acc)"

definition inet_chksum_pseudo :: "seg list \<Rightarrow> u8 \<Rightarrow> u16 \<Rightarrow> u32 \<Rightarrow> u32 \<Rightarrow> u16" where
  "inet_chksum_pseudo p proto proto_len src dest =
     inet_cksum_pseudo_base p proto proto_len (pseudo_addrs src dest)"

text \<open>
  The partial sum covers the first \<open>chksum_len\<close> bytes of the chain. Its loop asserts that what
  is left stays below 0x7fff; \<open>None\<close> is the failing assertion, which aborts.
\<close>

fun chain_partial_loop :: "seg list \<Rightarrow> nat \<Rightarrow> u32 \<Rightarrow> bool \<Rightarrow> (u32 \<times> bool) option" where
  "chain_partial_loop [] chksum_len acc swapped = Some (acc, swapped)"
| "chain_partial_loop ((payload, bs) # q) chksum_len acc swapped =
     (if chksum_len > 0 then
        let chklen = (if length bs > chksum_len then chksum_len else length bs);
            acc = acc + ucast (lwip_standard_chksum payload (take chklen bs));
            chksum_len = chksum_len - chklen
        in if \<not> chksum_len < 0x7fff then None
           else let acc = FOLD_U32T acc in
             if length bs mod 2 \<noteq> 0
             then chain_partial_loop q chksum_len (SWAP_BYTES_IN_WORD acc) (\<not> swapped)
             else chain_partial_loop q chksum_len acc swapped
      else Some (acc, swapped))"

definition inet_cksum_pseudo_partial_base ::
  "seg list \<Rightarrow> u8 \<Rightarrow> u16 \<Rightarrow> u16 \<Rightarrow> u32 \<Rightarrow> u16 option" where
  "inet_cksum_pseudo_partial_base p proto proto_len chksum_len acc =
     (case chain_partial_loop p (unat chksum_len) acc False of
        None \<Rightarrow> None
      | Some (acc, swapped) \<Rightarrow>
          let acc = (if swapped then SWAP_BYTES_IN_WORD acc else acc);
              acc = acc + ucast (lwip_htons (ucast proto));
              acc = acc + ucast (lwip_htons proto_len);
              acc = FOLD_U32T acc;
              acc = FOLD_U32T acc
          in Some (NOT (ucast (acc AND 0xffff))))"

definition inet_chksum_pseudo_partial ::
  "seg list \<Rightarrow> u8 \<Rightarrow> u16 \<Rightarrow> u16 \<Rightarrow> u32 \<Rightarrow> u32 \<Rightarrow> u16 option" where
  "inet_chksum_pseudo_partial p proto proto_len chksum_len src dest =
     inet_cksum_pseudo_partial_base p proto proto_len chksum_len (pseudo_addrs src dest)"

section \<open>One's complement sums\<close>

text \<open>
  The reference: the little-endian 16-bit sum of the bytes, padded with a zero byte
  (RFC 1071), and its reduction to 16 bits with end-around carry. The reduction of a positive
  sum is its representative in 1..65535 modulo 65535; only the empty sum and sums of zero bytes give 0.
\<close>

fun le_sum :: "u8 list \<Rightarrow> nat" where
  "le_sum (b0 # b1 # bs) = unat b0 + 256 * unat b1 + le_sum bs"
| "le_sum [b] = unat b"
| "le_sum [] = 0"

definition oc_norm :: "nat \<Rightarrow> nat" where
  "oc_norm s = (if s = 0 then 0 else Suc ((s - 1) mod 65535))"

lemma oc_norm_0 [simp]: "oc_norm 0 = 0"
  by (simp add: oc_norm_def)

lemma oc_norm_eq_0_iff [simp]: "oc_norm s = 0 \<longleftrightarrow> s = 0"
  by (simp add: oc_norm_def)

lemma oc_norm_le: "oc_norm s \<le> 65535"
  by (simp add: oc_norm_def Suc_le_eq)

lemma oc_norm_less [simp]: "oc_norm s < 65536"
  using oc_norm_le [of s] by simp

lemma oc_norm_small [simp]: "s \<le> 65535 \<Longrightarrow> oc_norm s = s"
  by (auto simp: oc_norm_def)

lemma oc_norm_mod [simp]: "oc_norm s mod 65535 = s mod 65535"
proof (cases s)
  case (Suc k)
  have "Suc (k mod 65535) mod 65535 = Suc k mod 65535"
    by (simp add: mod_Suc_eq)
  with Suc show ?thesis by (simp add: oc_norm_def)
qed simp

text \<open>The two facts that fix a reduced sum: its residue and whether it is zero.\<close>

lemma oc_norm_eqI:
  assumes "s mod 65535 = s' mod 65535" and "s = 0 \<longleftrightarrow> s' = 0"
  shows "oc_norm s = oc_norm s'"
proof (cases "s = 0")
  case False
  then have "s' \<noteq> 0" using assms by simp
  have "oc_norm s mod 65535 = oc_norm s' mod 65535"
    using assms(1) by simp
  moreover have "oc_norm s \<noteq> 0" "oc_norm s' \<noteq> 0" "oc_norm s \<le> 65535" "oc_norm s' \<le> 65535"
    using False \<open>s' \<noteq> 0\<close> oc_norm_le by (auto simp del: oc_norm_mod)
  ultimately show ?thesis
    by (cases "oc_norm s = 65535"; cases "oc_norm s' = 65535") (auto simp del: oc_norm_mod oc_norm_eq_0_iff)
qed (use assms in simp)

lemma oc_norm_eq_iff: "oc_norm s = oc_norm s' \<longleftrightarrow> s mod 65535 = s' mod 65535 \<and> (s = 0 \<longleftrightarrow> s' = 0)"
  by (metis oc_norm_eqI oc_norm_eq_0_iff oc_norm_mod)

lemma oc_norm_unique:
  "r \<le> 65535 \<Longrightarrow> oc_norm r = oc_norm s \<Longrightarrow> r = oc_norm s"
  by simp

lemma oc_norm_add_left: "oc_norm (oc_norm a + b) = oc_norm (a + b)"
  unfolding oc_norm_eq_iff by (auto simp: mod_simps) (metis mod_add_left_eq oc_norm_mod)

lemma oc_norm_add_right: "oc_norm (a + oc_norm b) = oc_norm (a + b)"
  using oc_norm_add_left [of b a] by (simp add: add.commute)

lemma oc_norm_mult: "oc_norm (k * oc_norm a) = oc_norm (k * a)"
  unfolding oc_norm_eq_iff by (metis mod_mult_right_eq mult_is_0 oc_norm_eq_0_iff oc_norm_mod)

lemmas oc_norm_simps = oc_norm_add_left oc_norm_add_right oc_norm_mult

lemma oc_norm_cong_add: "oc_norm a = oc_norm a' \<Longrightarrow> oc_norm b = oc_norm b' \<Longrightarrow>
  oc_norm (a + b) = oc_norm (a' + b')"
  by (metis oc_norm_add_left oc_norm_add_right)

lemma oc_norm_cong_mult: "oc_norm a = oc_norm a' \<Longrightarrow> oc_norm (k * a) = oc_norm (k * a')"
  by (metis oc_norm_mult)

lemma oc_norm_65536: "oc_norm (65536 * a) = oc_norm a"
proof -
  have "65536 * a = a + 65535 * a" by simp
  then have "65536 * a mod 65535 = a mod 65535"
    by (metis mod_mult_self2)
  then show ?thesis by (simp add: oc_norm_eq_iff)
qed

lemma oc_norm_256_256: "oc_norm (256 * (256 * a)) = oc_norm a"
  using oc_norm_65536 [of a] by simp

section \<open>The word operations on sums\<close>

lemma unat_FOLD: "unat (FOLD_U32T u) = unat u div 65536 + unat u mod 65536"
proof -
  have "unat u div 65536 < 65536"
    using unat_u32_less [of u] by (simp add: less_mult_imp_div_less)
  moreover have "unat u mod 65536 < 65536" by simp
  ultimately have "unat u div 65536 + unat u mod 65536 < 4294967296" by linarith
  then show ?thesis
    by (simp add: FOLD_U32T_def unat_plus_u32 unat_drop_bit_u32 unat_and_ffff)
qed

lemma FOLD_sum: "oc_norm (unat (FOLD_U32T u)) = oc_norm (unat u)"
proof -
  have "oc_norm (unat u) = oc_norm (65536 * (unat u div 65536) + unat u mod 65536)"
    by simp
  also have "\<dots> = oc_norm (unat u div 65536 + unat u mod 65536)"
    by (intro oc_norm_cong_add oc_norm_65536 refl)
  finally show ?thesis by (simp add: unat_FOLD)
qed

lemma FOLD_bound: "unat (FOLD_U32T u) \<le> 0x1fffe"
proof -
  have "unat u div 65536 < 65536"
    using unat_u32_less [of u] by (simp add: less_mult_imp_div_less)
  moreover have "unat u mod 65536 < 65536" by simp
  ultimately show ?thesis unfolding unat_FOLD by linarith
qed

lemma fold_nat_le: "n \<le> 0x1fffe \<Longrightarrow> n div 65536 + n mod 65536 \<le> (65535 :: nat)"
  by (cases "n < 65536") (simp_all add: mod_if div_if, arith)

lemma FOLD_small: "unat u \<le> 0x1fffe \<Longrightarrow> unat (FOLD_U32T u) = oc_norm (unat u)"
  by (rule oc_norm_unique [OF _ FOLD_sum]) (simp only: unat_FOLD fold_nat_le)

lemma FOLD_FOLD: "unat (FOLD_U32T (FOLD_U32T u)) = oc_norm (unat u)"
  by (simp add: FOLD_small FOLD_bound FOLD_sum)

lemma SWAP_htons: "SWAP_BYTES_IN_WORD w = ucast (lwip_htons (ucast w))"
  unfolding SWAP_BYTES_IN_WORD_def lwip_htons_def ff_masks
  by (rule bit_word_eqI) (auto simp: bit_simps bit_PP_HTONS add.commute)

lemma oc_norm_swap:
  assumes "n < 65536"
  shows "n mod 256 * 256 + n div 256 = oc_norm (256 * n)"
proof -
  define q r where "q = n div 256" and "r = n mod 256"
  have n: "n = 256 * q + r" by (simp add: q_def r_def)
  have "r < 256" by (simp add: r_def)
  then have le: "q + 256 * r \<le> 65535"
    using assms n by linarith
  have "oc_norm (256 * n) = oc_norm (256 * (256 * q) + 256 * r)"
    by (simp only: n distrib_left)
  also have "\<dots> = oc_norm (q + 256 * r)"
    by (rule oc_norm_cong_add [OF oc_norm_256_256 refl])
  also have "\<dots> = q + 256 * r"
    by (rule oc_norm_small [OF le])
  finally show ?thesis
    by (simp add: q_def r_def)
qed

lemma unat_htons: "unat (lwip_htons x) = oc_norm (256 * unat x)"
  unfolding unat_lwip_htons by (rule oc_norm_swap) simp

lemma unat_SWAP: "unat w \<le> 65535 \<Longrightarrow> unat (SWAP_BYTES_IN_WORD w) = oc_norm (256 * unat w)"
  by (simp add: SWAP_htons unat_htons unat_ucast_32_16)

lemma unat_le16: "unat (le16 a b) = unat a + 256 * unat b"
proof -
  have "unat a + 256 * unat b < 65536"
    using unat_u8_less [of a] unat_u8_less [of b] by linarith
  then show ?thesis by (simp add: le16_def unat_word_ariths)
qed

lemma unat_le32: "unat (le32 a b c d) = unat a + 256 * unat b + 65536 * unat c + 16777216 * unat d"
proof -
  have "unat a + 256 * unat b + 65536 * unat c + 16777216 * unat d < 4294967296"
    using unat_u8_less [of a] unat_u8_less [of b] unat_u8_less [of c] unat_u8_less [of d] by linarith
  then show ?thesis by (simp add: le32_def unat_word_ariths)
qed

lemma le32_sum: "oc_norm (unat (le32 a b c d)) = oc_norm (le_sum [a, b, c, d])"
proof -
  let ?A = "unat a + 256 * unat b" and ?B = "unat c + 256 * unat d"
  have "unat (le32 a b c d) = ?A + 65536 * ?B"
    by (simp add: unat_le32)
  moreover have "le_sum [a, b, c, d] = ?A + ?B"
    by simp
  moreover have "oc_norm (?A + 65536 * ?B) = oc_norm (?A + ?B)"
    by (rule oc_norm_cong_add [OF refl oc_norm_65536])
  ultimately show ?thesis by (simp only:)
qed

lemma nat_wrap: "M \<le> s \<Longrightarrow> s < 2 * M \<Longrightarrow> s mod M = s - (M :: nat)"
  by (simp add: le_mod_geq)

lemma add_carry_sum: "oc_norm (unat (add_carry a w)) = oc_norm (unat a + unat w)"
proof (cases "unat a + unat w < 4294967296")
  case True
  then have "unat (a + w) = unat a + unat w"
    by (simp add: unat_plus_u32)
  moreover from this have "\<not> a + w < a"
    by (simp only: word_less_nat_alt)
  ultimately show ?thesis by (simp add: add_carry_def)
next
  case False
  define s where "s = unat a + unat w"
  have s: "4294967296 \<le> s" "s < 2 * 4294967296" "s - 4294967296 < unat a" "s - 4294967296 + 1 < 4294967296"
    using False unat_u32_less [of a] unat_u32_less [of w] unfolding s_def by linarith+
  have t: "unat (a + w) = s - 4294967296"
    unfolding unat_plus_u32 s_def [symmetric] using s(1,2) by (rule nat_wrap)
  then have "a + w < a"
    using s(3) by (simp only: word_less_nat_alt)
  moreover have "unat (a + w + 1) = s - 4294967296 + 1"
    using s(4) by (simp add: unat_plus_u32 [of "a + w"] t)
  ultimately have r: "unat (add_carry a w) = s - 4294967296 + 1"
    by (simp add: add_carry_def)
  have "s = (s - 4294967296 + 1) + 65535 * 65537"
    using s(1) by simp
  then have "s mod 65535 = (s - 4294967296 + 1) mod 65535"
    by (metis mod_mult_self2)
  then show ?thesis
    using r s(1) unfolding s_def [symmetric] oc_norm_eq_iff by simp
qed

section \<open>The loops compute the reference sum\<close>

lemma le_sum_eq_0_iff: "le_sum bs = 0 \<longleftrightarrow> (\<forall>b \<in> set bs. b = 0)"
  by (induction bs rule: le_sum.induct) (auto simp: unat_eq_0)

lemma le_sum_append_even:
  "even (length xs) \<Longrightarrow> le_sum (xs @ ys) = le_sum xs + le_sum ys"
  by (induction xs rule: le_sum.induct) auto

lemma le_sum_Cons: "oc_norm (le_sum (b # bs)) = oc_norm (unat b + 256 * le_sum bs)"
proof (induction bs arbitrary: b rule: le_sum.induct)
  case (1 b0 b1 bs)
  have "oc_norm (le_sum (b # b0 # b1 # bs)) = oc_norm (unat b + 256 * unat b0 + le_sum (b1 # bs))"
    by simp
  also have "\<dots> = oc_norm (unat b + 256 * unat b0 + (unat b1 + 256 * le_sum bs))"
    by (intro oc_norm_cong_add refl 1)
  also have "\<dots> = oc_norm (unat b + 256 * unat b0 + (65536 * unat b1 + 256 * le_sum bs))"
    by (intro oc_norm_cong_add refl oc_norm_65536 [symmetric])
  also have "unat b + 256 * unat b0 + (65536 * unat b1 + 256 * le_sum bs) =
      unat b + 256 * le_sum (b0 # b1 # bs)"
    by simp
  finally show ?case .
qed simp_all

text \<open>The weight of bytes that start at an odd offset.\<close>

definition wt :: "bool \<Rightarrow> nat" where
  "wt b = (if b then 256 else 1)"

lemma oc_norm_wt_wt: "oc_norm (wt b * (wt b * a)) = oc_norm a"
  by (simp add: wt_def oc_norm_256_256 [simplified])

lemma le_sum_append:
  "oc_norm (le_sum (xs @ ys)) = oc_norm (le_sum xs + wt (odd (length xs)) * le_sum ys)"
proof (cases "even (length xs)")
  case True
  then show ?thesis by (simp add: le_sum_append_even wt_def)
next
  case False
  then obtain zs z where xs: "xs = zs @ [z]" and zs: "even (length zs)"
    by (cases xs rule: rev_cases) auto
  have "oc_norm (le_sum (xs @ ys)) = oc_norm (le_sum zs + le_sum (z # ys))"
    using zs by (simp add: xs le_sum_append_even)
  also have "\<dots> = oc_norm (le_sum zs + (unat z + 256 * le_sum ys))"
    by (intro oc_norm_cong_add refl le_sum_Cons)
  also have "le_sum zs + (unat z + 256 * le_sum ys) = le_sum xs + 256 * le_sum ys"
    using zs by (simp add: xs le_sum_append_even)
  finally show ?thesis using False by (simp add: wt_def)
qed

lemma le_sum_bound: "le_sum bs \<le> 65535 * ((length bs + 1) div 2)"
proof (induction bs rule: le_sum.induct)
  case (1 b0 b1 bs)
  have "unat b0 + 256 * unat b1 \<le> 65535"
    using unat_u8_less [of b0] unat_u8_less [of b1] by linarith
  moreover have "(length (b0 # b1 # bs) + 1) div 2 = Suc ((length bs + 1) div 2)"
    by simp
  ultimately show ?case using 1 by simp
next
  case (2 b)
  have "unat b \<le> 65535" using unat_u8_less [of b] by linarith
  then show ?case by simp
qed simp

lemma ucast_u16_of_nat: "(ucast (w :: u16) :: u32) = of_nat (unat w)"
  by simp

lemma chksum2_loop_eq:
  "chksum2_loop bs sm =
     (sm + of_nat (le_sum (take (2 * (length bs div 2)) bs)), drop (2 * (length bs div 2)) bs)"
proof (induction bs sm rule: chksum2_loop.induct)
  case (1 b0 b1 bs sm)
  have "(ucast (le16 b0 b1) :: u32) = of_nat (unat (le16 b0 b1))"
    by (rule ucast_u16_of_nat)
  with 1 show ?case by (simp add: add.assoc unat_le16)
qed simp_all

text \<open>The loop and the trailing byte together: \<open>hi\<close> is the odd first byte.\<close>

lemma chksum2_loop_total:
  assumes "chksum2_loop bs sm = (sm', ps)"
    and "unat sm + le_sum bs + 256 * unat hi < 4294967296"
  shows "unat (sm' + ucast (le16 (case ps of [] \<Rightarrow> 0 | b # _ \<Rightarrow> b) hi)) =
    unat sm + le_sum bs + 256 * unat hi"
proof -
  let ?k = "2 * (length bs div 2)"
  let ?t = "case ps of [] \<Rightarrow> 0 | b # _ \<Rightarrow> b"
  have ps: "ps = drop ?k bs" and sm': "sm' = sm + of_nat (le_sum (take ?k bs))"
    using assms(1) by (simp_all add: chksum2_loop_eq)
  have "length ps = length bs mod 2"
    by (simp add: ps minus_mult_div_eq_mod)
  then have "le_sum ps = unat ?t"
    using mod_less_divisor [of 2 "length bs"] by (cases ps; cases "tl ps") auto
  moreover have "le_sum bs = le_sum (take ?k bs) + le_sum ps"
    using le_sum_append_even [of "take ?k bs" "drop ?k bs"]
    by (simp add: ps min_absorb2)
  ultimately have "le_sum bs = le_sum (take ?k bs) + unat ?t" by simp
  with assms(2) show ?thesis
    by (simp add: sm' unat_plus_u32 unat_le16 unat_of_nat take_bit_eq_mod mod_simps)
qed

section \<open>The three versions compute the Internet checksum\<close>

definition cksum :: "u8 list \<Rightarrow> u16" where
  "cksum bs = of_nat (oc_norm (le_sum bs))"

lemma unat_cksum: "unat (cksum bs) = oc_norm (le_sum bs)"
  using oc_norm_less [of "le_sum bs"] by (simp add: cksum_def unat_of_nat take_bit_eq_mod)

lemma eq_cksumI: "unat w = oc_norm (le_sum bs) \<Longrightarrow> w = cksum bs"
  by (simp add: word_unat_eq_iff unat_cksum)

lemma cksum_cong: "oc_norm (le_sum xs) = oc_norm (le_sum ys) \<Longrightarrow> cksum xs = cksum ys"
  by (simp add: cksum_def)

text \<open>The common tail of versions 2 and 3.\<close>

lemma chksum_tail:
  assumes "oc_norm (unat sm) = oc_norm (wt is_odd * le_sum bs)"
  shows "ucast (let sm = FOLD_U32T sm; sm = FOLD_U32T sm in
      if is_odd then SWAP_BYTES_IN_WORD sm else sm) = cksum bs"
proof (cases is_odd)
  case True
  have "unat (SWAP_BYTES_IN_WORD (FOLD_U32T (FOLD_U32T sm))) = oc_norm (256 * oc_norm (unat sm))"
    by (simp add: unat_SWAP FOLD_FOLD oc_norm_le)
  also have "\<dots> = oc_norm (256 * unat sm)"
    by (rule oc_norm_mult)
  also have "\<dots> = oc_norm (256 * (256 * le_sum bs))"
    using True assms by (intro oc_norm_cong_mult) (simp add: wt_def)
  also have "\<dots> = oc_norm (le_sum bs)"
    by (rule oc_norm_256_256)
  finally show ?thesis
    using True by (intro eq_cksumI) (simp add: unat_ucast_32_16)
next
  case False
  then show ?thesis
    using assms by (intro eq_cksumI) (simp add: unat_ucast_32_16 FOLD_FOLD wt_def)
qed

lemma odd_head_sum:
  "oc_norm (le_sum r + 256 * unat b) = oc_norm (256 * le_sum (b # r))"
proof -
  have "oc_norm (256 * le_sum (b # r)) = oc_norm (256 * (unat b + 256 * le_sum r))"
    by (intro oc_norm_cong_mult le_sum_Cons)
  also have "\<dots> = oc_norm (256 * unat b + 256 * (256 * le_sum r))"
    by (simp only: distrib_left)
  also have "\<dots> = oc_norm (256 * unat b + le_sum r)"
    by (intro oc_norm_cong_add refl oc_norm_256_256)
  finally show ?thesis by (simp add: add.commute)
qed

lemma lwip_standard_chksum_eq:
  assumes "length bs \<le> 0x20000"
  shows "lwip_standard_chksum dataptr bs = cksum bs"
proof -
  define is_odd where "is_odd = odd dataptr"
  obtain t1 pb where pb: "(case bs of b # r \<Rightarrow> if is_odd then (b, r) else (0, bs) | [] \<Rightarrow> (0, bs)) = (t1, pb)"
    by fastforce
  obtain sm ps where loop: "chksum2_loop pb 0 = (sm, ps)"
    by fastforce
  have "le_sum pb + 256 * unat t1 < 4294967296"
  proof -
    have "(length pb + 1) div 2 \<le> 65536" and "t1 = 0 \<or> (length pb + 1) div 2 \<le> 65536 \<and> length pb < 0x20000"
      using pb assms by (auto split: list.splits if_splits)
    moreover have "t1 \<noteq> 0 \<Longrightarrow> length pb < 0x20000 \<Longrightarrow> (length pb + 1) div 2 \<le> 65536" by simp
    moreover have "256 * unat t1 \<le> 65280" using unat_u8_less [of t1] by linarith
    ultimately show ?thesis using le_sum_bound [of pb] by linarith
  qed
  then have total: "unat (sm + ucast (le16 (case ps of [] \<Rightarrow> 0 | b # _ \<Rightarrow> b) t1)) = le_sum pb + 256 * unat t1"
    using chksum2_loop_total [OF loop] by simp
  have "oc_norm (le_sum pb + 256 * unat t1) = oc_norm (wt is_odd * le_sum bs)"
  proof (cases "is_odd \<and> bs \<noteq> []")
    case True
    then show ?thesis
      using pb odd_head_sum [of pb t1] by (cases bs) (auto simp: wt_def)
  next
    case False
    then have "t1 = 0 \<and> pb = bs" and "wt is_odd * le_sum bs = le_sum bs"
      using pb by (auto simp: wt_def split: list.splits)
    then show ?thesis by (simp only:) simp
  qed
  then show ?thesis
    using chksum_tail [of "sm + ucast (le16 (case ps of [] \<Rightarrow> 0 | b # _ \<Rightarrow> b) t1)" is_odd bs]
    by (simp add: lwip_standard_chksum_def Let_def is_odd_def [symmetric] pb loop total)
qed

subsection \<open>Version 1\<close>

lemma unat_src_be:
  fixes b0 b1 :: u8
  shows "unat (push_bit 8 (ucast b0 :: u16) OR ucast b1) = 256 * unat b0 + unat b1"
proof -
  have "push_bit 8 (ucast b0 :: u16) OR ucast b1 = push_bit 8 (ucast b0) + ucast b1"
    by (rule disjunctive_add [symmetric]) (auto simp: bit_simps dest: bit_imp_le_length)
  also have "unat \<dots> = (256 * unat b0 + unat b1) mod 65536"
    by (simp add: unat_word_ariths push_bit_eq_mult mult.commute mod_simps)
  also have "\<dots> = 256 * unat b0 + unat b1"
    using unat_u8_less [of b0] unat_u8_less [of b1] by (intro mod_less) linarith
  finally show ?thesis .
qed

fun be_sum :: "u8 list \<Rightarrow> nat" where
  "be_sum (b0 # b1 # bs) = 256 * unat b0 + unat b1 + be_sum bs"
| "be_sum [b] = 256 * unat b"
| "be_sum [] = 0"

lemma be_sum_eq: "oc_norm (be_sum bs) = oc_norm (256 * le_sum bs)"
proof (induction bs rule: be_sum.induct)
  case (1 b0 b1 bs)
  have "oc_norm (be_sum (b0 # b1 # bs)) = oc_norm (256 * unat b0 + unat b1 + 256 * le_sum bs)"
    by (simp only: be_sum.simps) (intro oc_norm_cong_add refl 1)
  also have "\<dots> = oc_norm (256 * unat b0 + 65536 * unat b1 + 256 * le_sum bs)"
    by (intro oc_norm_cong_add refl oc_norm_65536 [symmetric])
  finally show ?case by (simp add: distrib_left)
qed simp_all

lemma be_sum_bound: "be_sum bs \<le> 65535 * ((length bs + 1) div 2)"
proof (induction bs rule: be_sum.induct)
  case (1 b0 b1 bs)
  have "256 * unat b0 + unat b1 \<le> 65535"
    using unat_u8_less [of b0] unat_u8_less [of b1] by linarith
  moreover have "(length (b0 # b1 # bs) + 1) div 2 = Suc ((length bs + 1) div 2)"
    by simp
  ultimately show ?case using 1 by simp
next
  case (2 b)
  have "256 * unat b \<le> 65535" using unat_u8_less [of b] by linarith
  then show ?case by simp
qed simp

lemma chksum1_loop_total:
  assumes "chksum1_loop bs acc = (acc', rest)" and "unat acc + be_sum bs < 4294967296"
  shows "unat (case rest of [] \<Rightarrow> acc' | b # _ \<Rightarrow> acc' + ucast (push_bit 8 (ucast b :: u16)))
    = unat acc + be_sum bs"
  using assms
proof (induction bs acc rule: chksum1_loop.induct)
  case (1 b0 b1 bs acc)
  let ?src = "push_bit 8 (ucast b0 :: u16) OR ucast b1"
  have "unat (acc + ucast ?src) = unat acc + (256 * unat b0 + unat b1)"
    using "1.prems"(2) by (simp add: unat_plus_u32 unat_src_be)
  with "1.IH" [OF refl] "1.prems" show ?case by simp
next
  case (2 v acc)
  have "unat (push_bit 8 (ucast v :: u16)) = 256 * unat v"
    using unat_src_be [of v 0] by simp
  with 2 show ?case by (auto simp: unat_plus_u32)
qed auto

lemma and_ffff0000: "(acc AND 0xffff0000 \<noteq> 0) \<longleftrightarrow> 65536 \<le> unat (acc :: u32)"
proof -
  have m: "(0xffff0000 :: u32) = push_bit 16 (mask 16)"
    by (simp add: mask_eq_decr_exp push_bit_eq_mult)
  have "acc AND 0xffff0000 = push_bit 16 (drop_bit 16 acc)"
    unfolding m by (rule bit_word_eqI) (auto simp: bit_simps)
  moreover have "push_bit 16 (drop_bit 16 acc) = 0 \<longleftrightarrow> drop_bit 16 acc = 0"
  proof
    assume "push_bit 16 (drop_bit 16 acc) = 0"
    then have "drop_bit 16 (push_bit 16 (drop_bit 16 acc)) = 0" by simp
    moreover have "drop_bit 16 (push_bit 16 (drop_bit 16 acc)) = drop_bit 16 acc"
      by (rule bit_word_eqI) (auto simp: bit_simps dest: bit_imp_le_length)
    ultimately show "drop_bit 16 acc = 0" by simp
  qed simp
  moreover have "drop_bit 16 acc = 0 \<longleftrightarrow> unat acc div 65536 = 0"
    using unat_drop_bit_u32 [of 16 acc] by (simp add: word_unat_eq_iff)
  ultimately show ?thesis by (simp add: div_eq_0_iff not_less)
qed

lemma lwip_standard_chksum_1_eq:
  assumes "length bs \<le> 0x20000"
  shows "lwip_standard_chksum_1 dataptr bs = cksum bs"
proof -
  obtain a0 rest where loop: "chksum1_loop bs 0 = (a0, rest)"
    by fastforce
  define acc where "acc = (case rest of [] \<Rightarrow> a0 | b # _ \<Rightarrow> a0 + ucast (push_bit 8 (ucast b :: u16)))"
  have "be_sum bs < 4294967296"
  proof -
    have "(length bs + 1) div 2 \<le> 65536" using assms by simp
    then show ?thesis using be_sum_bound [of bs] by linarith
  qed
  then have acc: "unat acc = be_sum bs"
    using chksum1_loop_total [OF loop] by (simp add: acc_def)
  let ?f = "FOLD_U32T acc"
  let ?r = "if ?f AND 0xffff0000 \<noteq> 0 then FOLD_U32T ?f else ?f"
  have "unat ?r = oc_norm (be_sum bs)"
  proof (cases "?f AND 0xffff0000 \<noteq> 0")
    case True
    then show ?thesis by (simp add: FOLD_FOLD acc)
  next
    case False
    then have "unat ?f \<le> 65535" by (simp add: and_ffff0000)
    then have "unat ?f = oc_norm (unat acc)"
      by (rule oc_norm_unique [OF _ FOLD_sum])
    with False show ?thesis by (simp add: acc)
  qed
  moreover have "lwip_standard_chksum_1 dataptr bs = lwip_htons (ucast ?r)"
    by (simp add: lwip_standard_chksum_1_def Let_def loop acc_def FOLD_U32T_def split: list.splits)
  ultimately have "unat (lwip_standard_chksum_1 dataptr bs) = oc_norm (256 * oc_norm (be_sum bs))"
    by (simp add: unat_htons unat_ucast_32_16)
  also have "\<dots> = oc_norm (256 * (256 * le_sum bs))"
    unfolding oc_norm_mult by (intro oc_norm_cong_mult be_sum_eq)
  finally show ?thesis
    by (intro eq_cksumI) (simp only: oc_norm_256_256)
qed

subsection \<open>Version 3\<close>

lemma chksum3_loop_sum:
  "chksum3_loop bs sm = (sm', ps) \<Longrightarrow>
     length ps < 8 \<and> oc_norm (unat sm' + le_sum ps) = oc_norm (unat sm + le_sum bs)"
proof (induction bs sm rule: chksum3_loop.induct)
  case (1 b0 b1 b2 b3 b4 b5 b6 b7 bs sm)
  let ?w1 = "le32 b0 b1 b2 b3" and ?w2 = "le32 b4 b5 b6 b7"
  let ?l1 = "le_sum [b0, b1, b2, b3]" and ?l2 = "le_sum [b4, b5, b6, b7]"
  have "oc_norm (unat (add_carry (add_carry sm ?w1) ?w2)) = oc_norm (unat (add_carry sm ?w1) + unat ?w2)"
    by (rule add_carry_sum)
  also have "\<dots> = oc_norm (unat sm + ?l1 + ?l2)"
    by (intro oc_norm_cong_add le32_sum) (metis add_carry_sum oc_norm_cong_add le32_sum)
  finally have "oc_norm (unat (add_carry (add_carry sm ?w1) ?w2) + le_sum bs) =
      oc_norm (unat sm + ?l1 + ?l2 + le_sum bs)"
    by (intro oc_norm_cong_add refl)
  moreover have "unat sm + ?l1 + ?l2 + le_sum bs = unat sm + le_sum (b0 # b1 # b2 # b3 # b4 # b5 # b6 # b7 # bs)"
    by simp
  ultimately show ?case
    using "1.IH" [OF refl] "1.prems" by (simp only: chksum3_loop.simps Let_def)
qed auto

lemma lwip_standard_chksum_3_eq: "lwip_standard_chksum_3 dataptr bs = cksum bs"
proof -
  define is_odd where "is_odd = odd dataptr"
  obtain t1 pb addr where pb: "(case bs of
      b # r \<Rightarrow> if is_odd then (b, r, dataptr + 1) else (0, bs, dataptr)
    | [] \<Rightarrow> (0, bs, dataptr)) = (t1, pb, addr)"
    by (metis prod_cases3)
  obtain s0 pl where pl: "(case pb of
      b0 # b1 # r \<Rightarrow> if addr mod 4 \<noteq> 0 then (ucast (le16 b0 b1), r) else (0, pb)
    | _ \<Rightarrow> (0, pb)) = (s0 :: u32, pl)"
    by fastforce
  obtain s1 ps where l3: "chksum3_loop pl s0 = (s1, ps)"
    by fastforce
  obtain s2 ps' where l2: "chksum2_loop ps (FOLD_U32T s1) = (s2, ps')"
    by fastforce
  let ?sm = "s2 + ucast (le16 (case ps' of [] \<Rightarrow> 0 | b # _ \<Rightarrow> b) t1)"
  have "length ps < 8" and sum3: "oc_norm (unat s1 + le_sum ps) = oc_norm (unat s0 + le_sum pl)"
    using chksum3_loop_sum [OF l3] by auto
  then have "le_sum ps \<le> 65535 * 4"
    using le_sum_bound [of ps] by simp
  moreover have "256 * unat t1 \<le> 65280" using unat_u8_less [of t1] by linarith
  ultimately have "unat (FOLD_U32T s1) + le_sum ps + 256 * unat t1 < 4294967296"
    using FOLD_bound [of s1] by linarith
  then have total: "unat ?sm = unat (FOLD_U32T s1) + le_sum ps + 256 * unat t1"
    by (rule chksum2_loop_total [OF l2])
  have "oc_norm (unat ?sm) = oc_norm (unat s1 + le_sum ps + 256 * unat t1)"
    unfolding total by (intro oc_norm_cong_add refl FOLD_sum)
  also have "\<dots> = oc_norm (unat s0 + le_sum pl + 256 * unat t1)"
    by (intro oc_norm_cong_add sum3 refl)
  also have "unat s0 + le_sum pl = le_sum pb"
    using pl by (auto simp: unat_le16 split: list.splits if_splits)
  also have "oc_norm (le_sum pb + 256 * unat t1) = oc_norm (wt is_odd * le_sum bs)"
  proof (cases "is_odd \<and> bs \<noteq> []")
    case True
    then show ?thesis
      using pb odd_head_sum [of pb t1] by (cases bs) (auto simp: wt_def)
  next
    case False
    then have "t1 = 0 \<and> pb = bs" and "wt is_odd * le_sum bs = le_sum bs"
      using pb by (auto simp: wt_def split: list.splits)
    then show ?thesis by (simp only:) simp
  qed
  finally show ?thesis
    using chksum_tail [of ?sm is_odd bs]
    by (simp add: lwip_standard_chksum_3_def Let_def is_odd_def [symmetric] pb pl l3 l2)
qed

section \<open>Chains\<close>

definition chain_bytes :: "seg list \<Rightarrow> u8 list" where
  "chain_bytes p = concat (map snd p)"

lemma chain_bytes_simps [simp]:
  "chain_bytes [] = []" "chain_bytes ((a, bs) # q) = bs @ chain_bytes q"
  by (simp_all add: chain_bytes_def)

lemma wt_xor: "oc_norm (wt (a \<noteq> b) * s) = oc_norm (wt a * (wt b * s))"
  by (simp add: wt_def oc_norm_256_256 [simplified])

lemma unat_plus_small: "unat (a :: u32) + unat b < 4294967296 \<Longrightarrow> unat (a + b) = unat a + unat b"
  by (simp add: unat_plus_u32)

text \<open>
  One segment: the folded accumulator adds the segment's reduced sum.
\<close>

lemma chain_step:
  assumes "unat acc \<le> 65535" and "length bs \<le> 0x20000"
  shows "unat (FOLD_U32T (acc + ucast (lwip_standard_chksum payload bs))) = oc_norm (unat acc + le_sum bs)"
proof -
  have c: "unat (ucast (lwip_standard_chksum payload bs) :: u32) = oc_norm (le_sum bs)"
    using assms(2) by (simp add: lwip_standard_chksum_eq unat_cksum)
  then have sm: "unat (acc + ucast (lwip_standard_chksum payload bs)) = unat acc + oc_norm (le_sum bs)"
    using assms(1) oc_norm_le [of "le_sum bs"] by (subst unat_plus_small) simp_all
  then have "unat (FOLD_U32T (acc + ucast (lwip_standard_chksum payload bs))) =
      oc_norm (unat acc + oc_norm (le_sum bs))"
    using assms(1) oc_norm_le [of "le_sum bs"] by (subst FOLD_small) simp_all
  then show ?thesis by (simp add: oc_norm_add_right)
qed

lemma wt_not: "oc_norm (wt (\<not> b) * s) = oc_norm (wt b * (256 * s))"
  by (simp add: wt_def oc_norm_256_256 [simplified])

text \<open>Swapping after a segment (of parity \<open>od\<close>) keeps the weighted sum.\<close>

lemma chain_swap:
  assumes "unat a = oc_norm t"
  shows "oc_norm (wt (sw \<noteq> od) * (unat (if od then SWAP_BYTES_IN_WORD a else a) + l)) =
    oc_norm (wt sw * (t + wt od * l))"
proof (cases od)
  case True
  have s: "unat (SWAP_BYTES_IN_WORD a) = oc_norm (256 * t)"
    using assms by (simp add: unat_SWAP oc_norm_le oc_norm_mult)
  have "oc_norm (wt (\<not> sw) * (unat (SWAP_BYTES_IN_WORD a) + l)) = oc_norm (wt sw * (256 * (256 * t + l)))"
    unfolding s wt_not by (metis oc_norm_add_left oc_norm_cong_mult)
  also have "\<dots> = oc_norm (wt sw * (t + 256 * l))"
    unfolding distrib_left [of 256]
    by (intro oc_norm_cong_mult oc_norm_cong_add refl oc_norm_256_256)
  finally show ?thesis using True by (simp add: wt_def)
next
  case False
  have "oc_norm (wt sw * (oc_norm t + l)) = oc_norm (wt sw * (t + l))"
    by (intro oc_norm_cong_mult oc_norm_add_left)
  with False assms show ?thesis
    by (simp add: wt_def [of False])
qed

lemma unat_swapped_le:
  "unat a = oc_norm t \<Longrightarrow> unat (if od then SWAP_BYTES_IN_WORD a else a) \<le> 65535"
  by (simp add: unat_SWAP oc_norm_le)

lemma chain_loop_sum:
  assumes "unat acc \<le> 65535" and "\<forall>s \<in> set p. length (snd s) \<le> 0x20000"
    and "chain_loop p acc sw = (acc', sw')"
  shows "unat acc' \<le> 65535 \<and>
    oc_norm (wt sw' * unat acc') = oc_norm (wt sw * (unat acc + le_sum (chain_bytes p)))"
  using assms
proof (induction p arbitrary: acc sw)
  case Nil
  then show ?case by simp
next
  case (Cons sg q)
  obtain payload bs where sg: "sg = (payload, bs)" by fastforce
  let ?a = "FOLD_U32T (acc + ucast (lwip_standard_chksum payload bs))"
  let ?o = "odd (length bs)"
  have a: "unat ?a = oc_norm (unat acc + le_sum bs)"
    using Cons.prems sg by (intro chain_step) auto
  have step: "chain_loop q (if ?o then SWAP_BYTES_IN_WORD ?a else ?a) (sw \<noteq> ?o) = (acc', sw')"
    using Cons.prems(3) by (auto simp: sg Let_def odd_iff_mod_2_eq_one split: if_splits)
  have "unat acc' \<le> 65535 \<and> oc_norm (wt sw' * unat acc') =
      oc_norm (wt (sw \<noteq> ?o) * (unat (if ?o then SWAP_BYTES_IN_WORD ?a else ?a) + le_sum (chain_bytes q)))"
    using Cons.prems(2) by (intro Cons.IH [OF unat_swapped_le [OF a] _ step]) simp
  moreover have "oc_norm (wt sw * (unat acc + le_sum bs + wt ?o * le_sum (chain_bytes q))) =
      oc_norm (wt sw * (unat acc + le_sum (bs @ chain_bytes q)))"
    unfolding add.assoc by (intro oc_norm_cong_mult oc_norm_cong_add refl le_sum_append [symmetric])
  ultimately show ?case
    by (simp only: chain_swap [OF a] sg chain_bytes_simps)
qed

lemma chain_unswap:
  "unat acc \<le> 65535 \<Longrightarrow> unat (if sw then SWAP_BYTES_IN_WORD acc else acc) = oc_norm (wt sw * unat acc)"
  by (simp add: wt_def unat_SWAP)

lemma inet_chksum_pbuf_eq:
  assumes "\<forall>s \<in> set p. length (snd s) \<le> 0x20000"
  shows "inet_chksum_pbuf p = NOT (cksum (chain_bytes p))"
proof -
  obtain acc sw where loop: "chain_loop p 0 False = (acc, sw)" by fastforce
  let ?r = "if sw then SWAP_BYTES_IN_WORD acc else acc"
  have "unat acc \<le> 65535" and "oc_norm (wt sw * unat acc) = oc_norm (le_sum (chain_bytes p))"
    using chain_loop_sum [OF _ assms loop] by (auto simp: wt_def)
  then have r: "unat ?r = oc_norm (le_sum (chain_bytes p))"
    by (subst chain_unswap) auto
  then have "ucast (?r AND 0xffff) = cksum (chain_bytes p)"
    by (intro eq_cksumI) (simp add: unat_and_ffff unat_ucast_32_16 del: if_split)
  then show ?thesis
    by (simp add: inet_chksum_pbuf_def loop Let_def del: if_split)
qed

section \<open>Pseudo headers\<close>

text \<open>The bytes the pseudo header stands for (RFC 793), addresses and length in network order.\<close>

definition pseudo_header :: "u32 \<Rightarrow> u32 \<Rightarrow> u8 \<Rightarrow> u16 \<Rightarrow> u8 list" where
  "pseudo_header src dest proto proto_len =
     bytes32 src @ bytes32 dest @ [0, proto, ucast (drop_bit 8 proto_len), ucast proto_len]"

lemma length_bytes32 [simp]: "length (bytes32 x) = 4"
  by (simp add: bytes32_def)

lemma length_pseudo_header [simp]: "length (pseudo_header src dest proto proto_len) = 12"
  by (simp add: pseudo_header_def)

lemma mod_65536_le: "n mod 65536 \<le> (65535 :: nat)"
  using mod_less_divisor [of 65536 n] by linarith

lemma le_sum_bytes32: "le_sum (bytes32 x) = unat (x AND 0xffff) + unat (drop_bit 16 x AND 0xffff)"
proof -
  have "n mod 256 + 256 * (n div 256 mod 256) = n mod 65536" for n :: nat
    using mod_mult2_eq [of n 256 256] by simp
  from this [of "unat x"] this [of "unat x div 65536"] show ?thesis
    by (simp add: bytes32_def unat_ucast_32_8 unat_drop_bit_u32 unat_and_ffff div_mult2_eq [symmetric])
qed

lemma unat_pseudo_addrs: "unat (pseudo_addrs src dest) = oc_norm (le_sum (bytes32 src @ bytes32 dest))"
proof -
  let ?a = "src AND 0xffff" and ?b = "drop_bit 16 src AND 0xffff"
  let ?c = "dest AND 0xffff" and ?d = "drop_bit 16 dest AND 0xffff"
  have le: "unat (x AND 0xffff :: u32) \<le> 65535" for x :: u32
    unfolding unat_and_ffff by (rule mod_65536_le)
  have "unat (?a + ?b + ?c + ?d) = unat ?a + unat ?b + unat ?c + unat ?d"
    using le [of src] le [of "drop_bit 16 src"] le [of dest] le [of "drop_bit 16 dest"]
    by (simp add: unat_plus_u32)
  then show ?thesis
    by (simp add: pseudo_addrs_def Let_def FOLD_FOLD le_sum_append_even le_sum_bytes32 add.assoc)
qed

lemma unat_htons_proto: "unat (lwip_htons (ucast (proto :: u8))) = le_sum [0, proto]"
  using unat_u8_less [of proto] by (simp add: unat_lwip_htons)

lemma unat_htons_len: "unat (lwip_htons n) = le_sum [ucast (drop_bit 8 n), ucast n]"
proof -
  have "unat n div 256 < 256" by (simp add: less_mult_imp_div_less)
  then show ?thesis
    by (simp add: unat_lwip_htons unat_ucast_16_8 unat_drop_bit_u16)
qed

text \<open>The tail that the two pseudo header sums share.\<close>

lemma pseudo_tail:
  assumes "unat acc = oc_norm s"
  shows "ucast ((let acc = acc + ucast (lwip_htons (ucast (proto :: u8)));
           acc = acc + ucast (lwip_htons proto_len); acc = FOLD_U32T acc in FOLD_U32T acc) AND 0xffff)
       = (of_nat (oc_norm (s + le_sum [0, proto, ucast (drop_bit 8 proto_len), ucast proto_len])) :: u16)"
proof -
  let ?p = "lwip_htons (ucast proto)" and ?l = "lwip_htons proto_len"
  have b: "unat acc \<le> 65535" "unat ?p \<le> 65535" "unat ?l \<le> 65535"
    using assms by (simp_all only: oc_norm_le unat_htons)
  then have "unat (acc + ucast ?p + ucast ?l) = unat acc + unat ?p + unat ?l"
    by (simp add: unat_plus_u32)
  then have "unat (FOLD_U32T (FOLD_U32T (acc + ucast ?p + ucast ?l))) = oc_norm (oc_norm s + (unat ?p + unat ?l))"
    by (simp add: FOLD_FOLD assms add.assoc)
  also have "\<dots> = oc_norm (s + le_sum [0, proto, ucast (drop_bit 8 proto_len), ucast proto_len])"
    unfolding oc_norm_add_left unat_htons_proto unat_htons_len [of proto_len] by (simp add: add.assoc)
  finally show ?thesis
    by (simp add: Let_def word_unat_eq_iff unat_ucast_32_16 unat_and_ffff unat_of_nat take_bit_eq_mod
        del: le_sum.simps)
qed

lemma le_sum_pseudo:
  "le_sum (bytes32 src @ bytes32 dest) + le_sum data +
     le_sum [0, proto, ucast (drop_bit 8 proto_len), ucast proto_len] =
   le_sum (pseudo_header src dest proto proto_len @ data)"
  by (simp add: le_sum_append_even pseudo_header_def)

lemma inet_chksum_pseudo_eq:
  assumes "\<forall>s \<in> set p. length (snd s) \<le> 0x20000"
  shows "inet_chksum_pseudo p proto proto_len src dest =
    NOT (cksum (pseudo_header src dest proto proto_len @ chain_bytes p))"
proof -
  let ?acc0 = "pseudo_addrs src dest"
  obtain acc sw where loop: "chain_loop p ?acc0 False = (acc, sw)" by fastforce
  let ?r = "if sw then SWAP_BYTES_IN_WORD acc else acc"
  have "unat ?acc0 \<le> 65535" by (simp add: unat_pseudo_addrs oc_norm_le)
  from chain_loop_sum [OF this assms loop]
  have "unat acc \<le> 65535" and
    "oc_norm (wt sw * unat acc) = oc_norm (le_sum (bytes32 src @ bytes32 dest) + le_sum (chain_bytes p))"
    by (auto simp: wt_def [of False] unat_pseudo_addrs oc_norm_add_left)
  then have "unat ?r = oc_norm (le_sum (bytes32 src @ bytes32 dest) + le_sum (chain_bytes p))"
    by (simp only: chain_unswap)
  from pseudo_tail [OF this, of proto proto_len] show ?thesis
    unfolding le_sum_pseudo
    by (simp add: inet_chksum_pseudo_def inet_cksum_pseudo_base_def loop cksum_def Let_def del: if_split)
qed

subsection \<open>Partial sums\<close>

lemma chain_partial_sum:
  assumes "unat acc \<le> 65535" and "\<forall>s \<in> set p. length (snd s) \<le> 0x20000"
    and "chain_partial_loop p n acc sw = Some (acc', sw')"
  shows "unat acc' \<le> 65535 \<and>
    oc_norm (wt sw' * unat acc') = oc_norm (wt sw * (unat acc + le_sum (take n (chain_bytes p))))"
  using assms
proof (induction p arbitrary: n acc sw)
  case Nil
  then show ?case by simp
next
  case (Cons sg q)
  obtain payload bs where sg: "sg = (payload, bs)" by fastforce
  show ?case
  proof (cases "n > 0")
    case False
    then show ?thesis using Cons.prems by (simp add: sg)
  next
    case True
    define k where "k = min n (length bs)"
    let ?a = "FOLD_U32T (acc + ucast (lwip_standard_chksum payload (take k bs)))"
    let ?o = "odd (length bs)" and ?X = "take (n - k) (chain_bytes q)"
    have a: "unat ?a = oc_norm (unat acc + le_sum (take k bs))"
      using Cons.prems sg by (intro chain_step) auto
    have k: "(if length bs > n then n else length bs) = k"
      by (simp add: k_def)
    have step: "chain_partial_loop q (n - k) (if ?o then SWAP_BYTES_IN_WORD ?a else ?a) (sw \<noteq> ?o)
        = Some (acc', sw')"
      using Cons.prems(3) True
      by (auto simp: sg Let_def k odd_iff_mod_2_eq_one simp del: take_all_iff split: if_splits)
    have "unat acc' \<le> 65535 \<and> oc_norm (wt sw' * unat acc') =
        oc_norm (wt (sw \<noteq> ?o) * (unat (if ?o then SWAP_BYTES_IN_WORD ?a else ?a) + le_sum ?X))"
      using Cons.prems(2) by (intro Cons.IH [OF unat_swapped_le [OF a] _ step]) simp
    moreover have "take n (bs @ chain_bytes q) = take k bs @ ?X"
      by (simp add: k_def min_def)
    moreover have "oc_norm (le_sum (take k bs @ ?X)) = oc_norm (le_sum (take k bs) + wt ?o * le_sum ?X)"
    proof (cases "n < length bs")
      case True
      then show ?thesis by (simp add: k_def)
    next
      case False
      then show ?thesis using le_sum_append [of bs ?X] by (simp add: k_def)
    qed
    then have "oc_norm (wt sw * (unat acc + le_sum (take k bs) + wt ?o * le_sum ?X)) =
        oc_norm (wt sw * (unat acc + le_sum (take k bs @ ?X)))"
      unfolding add.assoc by (intro oc_norm_cong_mult oc_norm_cong_add refl) simp
    ultimately show ?thesis
      by (simp only: chain_swap [OF a] sg chain_bytes_simps)
  qed
qed

text \<open>Whether the assertion in the loop holds depends on the first segment only.\<close>

lemma chain_partial_Some_small:
  "n < 0x7fff \<Longrightarrow> chain_partial_loop p n acc sw \<noteq> None"
proof (induction p n acc sw rule: chain_partial_loop.induct)
  case (2 payload bs q n acc sw)
  then show ?case by (auto simp: Let_def)
qed simp

lemma chain_partial_Some_iff:
  "chain_partial_loop p n acc sw \<noteq> None \<longleftrightarrow>
     (case p of [] \<Rightarrow> True | s # _ \<Rightarrow> n - length (snd s) < 0x7fff)"
proof (cases p)
  case (Cons sg q)
  obtain payload bs where sg: "sg = (payload, bs)" by fastforce
  show ?thesis
    using chain_partial_Some_small [of "n - length bs" q] chain_partial_Some_small [of 0 q]
    by (auto simp: Cons sg Let_def)
qed simp

lemma inet_chksum_pseudo_partial_eq:
  assumes "\<forall>s \<in> set p. length (snd s) \<le> 0x20000"
  shows "inet_chksum_pseudo_partial p proto proto_len chksum_len src dest =
    (if p = [] \<or> unat chksum_len - length (snd (hd p)) < 0x7fff
     then Some (NOT (cksum (pseudo_header src dest proto proto_len @
            take (unat chksum_len) (chain_bytes p))))
     else None)"
proof (cases "chain_partial_loop p (unat chksum_len) (pseudo_addrs src dest) False")
  case None
  moreover from this have "\<not> (p = [] \<or> unat chksum_len - length (snd (hd p)) < 0x7fff)"
    using chain_partial_Some_iff [of p "unat chksum_len" "pseudo_addrs src dest" False]
    by (cases p) auto
  ultimately show ?thesis
    by (simp add: inet_chksum_pseudo_partial_def inet_cksum_pseudo_partial_base_def)
next
  case (Some r)
  then obtain acc sw where loop:
    "chain_partial_loop p (unat chksum_len) (pseudo_addrs src dest) False = Some (acc, sw)"
    by (cases r) auto
  let ?r = "if sw then SWAP_BYTES_IN_WORD acc else acc"
  let ?data = "take (unat chksum_len) (chain_bytes p)"
  have "unat (pseudo_addrs src dest) \<le> 65535" by (simp add: unat_pseudo_addrs oc_norm_le)
  from chain_partial_sum [OF this assms loop]
  have "unat acc \<le> 65535" and
    "oc_norm (wt sw * unat acc) = oc_norm (le_sum (bytes32 src @ bytes32 dest) + le_sum ?data)"
    by (auto simp: wt_def [of False] unat_pseudo_addrs oc_norm_add_left)
  then have "unat ?r = oc_norm (le_sum (bytes32 src @ bytes32 dest) + le_sum ?data)"
    by (simp only: chain_unswap)
  from pseudo_tail [OF this, of proto proto_len]
  have "inet_chksum_pseudo_partial p proto proto_len chksum_len src dest =
      Some (NOT (cksum (pseudo_header src dest proto proto_len @ ?data)))"
    unfolding le_sum_pseudo
    by (simp add: inet_chksum_pseudo_partial_def inet_cksum_pseudo_partial_base_def loop cksum_def
        Let_def del: if_split)
  moreover have "p = [] \<or> unat chksum_len - length (snd (hd p)) < 0x7fff"
    using chain_partial_Some_iff [of p "unat chksum_len" "pseudo_addrs src dest" False] loop
    by (cases p) auto
  ultimately show ?thesis by simp
qed

section \<open>Correctness of the checksum component\<close>

text \<open>
  C15. The three implementations of the checksum agree with each other and with the RFC 1071 sum
  of the data, whatever the alignment of the data, for up to 0x20000 bytes (the bound the source
  states for the version that is compiled).
\<close>

theorem lwip_standard_chksum_versions_agree:
  assumes "length bs \<le> 0x20000"
  shows "lwip_standard_chksum a bs = lwip_standard_chksum_1 a' bs \<and>
    lwip_standard_chksum a bs = lwip_standard_chksum_3 a'' bs \<and>
    unat (lwip_standard_chksum a bs) = oc_norm (le_sum bs)"
  using assms
  by (simp add: lwip_standard_chksum_eq lwip_standard_chksum_1_eq lwip_standard_chksum_3_eq unat_cksum)

theorem lwip_standard_chksum_versions_agree_witness:
  "lwip_standard_chksum 1 [0x45, 0x00, 0xff] = lwip_standard_chksum_1 0 [0x45, 0x00, 0xff] \<and>
   lwip_standard_chksum 1 [0x45, 0x00, 0xff] = lwip_standard_chksum_3 0 [0x45, 0x00, 0xff] \<and>
   unat (lwip_standard_chksum 1 [0x45, 0x00, 0xff]) = 0x144"
  using lwip_standard_chksum_versions_agree [of "[0x45, 0x00, 0xff]" 1 0 0]
  by (auto simp: oc_norm_def)

text \<open>
  C34. The checksum of a pbuf chain is the checksum of the concatenated payloads, however the data
  is split into segments (of even or odd lengths, at even or odd addresses).
\<close>

theorem inet_chksum_pbuf_is_chksum_of_data:
  assumes "\<forall>s \<in> set p. length (snd s) \<le> 0x20000" and "length (concat (map snd p)) \<le> 0x20000"
  shows "inet_chksum_pbuf p = inet_chksum a (concat (map snd p))"
  using assms
  by (simp add: inet_chksum_pbuf_eq inet_chksum_def lwip_standard_chksum_eq chain_bytes_def [symmetric])

theorem inet_chksum_pbuf_is_chksum_of_data_witness:
  "inet_chksum_pbuf [(0, [1, 2, 3]), (7, [4])] = inet_chksum 0 [1, 2, 3, 4]"
  using inet_chksum_pbuf_is_chksum_of_data [of "[(0, [1, 2, 3]), (7, [4])]" 0] by simp

text \<open>
  The TCP/UDP checksum of a chain is the Internet checksum of the 12-byte pseudo header
  followed by the data.
\<close>

theorem inet_chksum_pseudo_is_chksum_of_segment:
  assumes "\<forall>s \<in> set p. length (snd s) \<le> 0x20000" and "length (concat (map snd p)) \<le> 0xffff"
  shows "inet_chksum_pseudo p proto proto_len src dest =
    inet_chksum a (pseudo_header src dest proto proto_len @ concat (map snd p))"
  using assms
  by (simp add: inet_chksum_pseudo_eq inet_chksum_def lwip_standard_chksum_eq chain_bytes_def [symmetric])

theorem inet_chksum_pseudo_is_chksum_of_segment_witness:
  "inet_chksum_pseudo [(1, [9]), (2, [8, 7])] 17 3 0x0100007f 0x0200007f =
     inet_chksum 0 (pseudo_header 0x0100007f 0x0200007f 17 3 @ [9, 8, 7])"
  using inet_chksum_pseudo_is_chksum_of_segment [of "[(1, [9]), (2, [8, 7])]" 17 3 _ _ 0] by simp

text \<open>
  The partial pseudo header sum covers the pseudo header and exactly the first
  \<open>chksum_len\<close> bytes of the chain; its assertion aborts when 0x7fff or more bytes
  are left to sum behind the first segment.
\<close>

theorem inet_chksum_pseudo_partial_is_chksum_of_prefix:
  assumes "\<forall>s \<in> set p. length (snd s) \<le> 0x20000"
  shows "inet_chksum_pseudo_partial p proto proto_len chksum_len src dest =
    (if p = [] \<or> unat chksum_len - length (snd (hd p)) < 0x7fff
     then Some (inet_chksum a (pseudo_header src dest proto proto_len @
            take (unat chksum_len) (concat (map snd p))))
     else None)"
proof -
  have "length (pseudo_header src dest proto proto_len @ take (unat chksum_len) (concat (map snd p)))
      \<le> 0x20000"
    using unat_u16_less [of chksum_len] unfolding length_append length_take length_pseudo_header
    by linarith
  with inet_chksum_pseudo_partial_eq [OF assms] show ?thesis
    by (simp add: inet_chksum_def lwip_standard_chksum_eq chain_bytes_def)
qed

theorem inet_chksum_pseudo_partial_is_chksum_of_prefix_witness:
  "inet_chksum_pseudo_partial [(1, [9]), (2, [8, 7])] 17 3 2 0x0100007f 0x0200007f =
     Some (inet_chksum 0 (pseudo_header 0x0100007f 0x0200007f 17 3 @ [9, 8]))"
  using inet_chksum_pseudo_partial_is_chksum_of_prefix [of "[(1, [9]), (2, [8, 7])]" 17 3 2 _ _ 0]
  by (simp add: take_Cons')

lemma unat_not_u16: "unat (NOT w :: u16) = 65535 - unat w"
proof -
  have "NOT w = 0xffff - w"
    by (simp add: not_eq_complement)
  moreover have "w \<le> 0xffff"
  proof -
    have "unat w \<le> 65535" using unat_u16_less [of w] by linarith
    then show ?thesis by (simp add: word_le_nat_alt)
  qed
  ultimately show ?thesis by (simp add: unat_sub)
qed

lemma chksum_field_verifies:
  assumes "even (length xs)" and "length xs + length ys + 2 \<le> 0x20000"
    and "c = inet_chksum a (xs @ [0, 0] @ ys)"
  shows "inet_chksum a' (xs @ [ucast c, ucast (drop_bit 8 c)] @ ys) = 0"
proof -
  let ?z = "le_sum (xs @ [0, 0] @ ys)"
  have "unat c = 65535 - oc_norm ?z"
    using assms by (simp add: inet_chksum_def lwip_standard_chksum_eq unat_cksum unat_not_u16)
  then have c: "unat c + oc_norm ?z = 65535"
    using oc_norm_le [of ?z] by simp
  have f: "le_sum [ucast c, ucast (drop_bit 8 c)] = unat c"
    using unat_u16_less [of c]
    by (simp add: unat_ucast_16_8 unat_drop_bit_u16 less_mult_imp_div_less)
  have "le_sum (xs @ [ucast c, ucast (drop_bit 8 c)] @ ys) = unat c + ?z"
    using assms(1) f by (simp add: le_sum_append_even)
  then have "oc_norm (le_sum (xs @ [ucast c, ucast (drop_bit 8 c)] @ ys)) = 65535"
    using c by (metis oc_norm_add_right oc_norm_small order_refl)
  then have "cksum (xs @ [ucast c, ucast (drop_bit 8 c)] @ ys) = 0xffff"
    by (simp add: word_unat_eq_iff unat_cksum del: append.append_Cons)
  then show ?thesis
    using assms(2) by (simp add: inet_chksum_def lwip_standard_chksum_eq)
qed

lemma chksum_pseudo_field_verifies:
  assumes "even (length xs)" and "length xs + length ys + 14 \<le> 0x20000"
    and "c = inet_chksum_pseudo [(a, xs @ [0, 0] @ ys)] proto n src dest"
  shows "inet_chksum_pseudo [(a', xs @ [ucast c, ucast (drop_bit 8 c)] @ ys)] proto n src dest = 0"
proof -
  let ?h = "pseudo_header src dest proto n"
  have e: "inet_chksum_pseudo [(b, bs)] proto n src dest = inet_chksum b (?h @ bs)" if "length bs + 12 \<le> 0x20000" for b bs
    using that by (simp add: inet_chksum_pseudo_eq inet_chksum_def lwip_standard_chksum_eq)
  have "c = inet_chksum a ((?h @ xs) @ [0, 0] @ ys)" using assms(2,3) e by simp
  from chksum_field_verifies [OF _ _ this, of a'] show ?thesis using assms(1,2) e by simp
qed

text \<open>
  What a sender stores in the checksum field (the sum with the field zeroed, at an even
  offset) makes the receiver's sum over the whole data 0.
\<close>

theorem inet_chksum_verifies:
  assumes "even (length xs)" and "length xs + length ys + 2 \<le> 0x20000"
    and "c = inet_chksum a (xs @ [0, 0] @ ys)"
  shows "inet_chksum a' (xs @ [ucast c, ucast (drop_bit 8 c)] @ ys) = 0"
  using assms by (rule chksum_field_verifies)

theorem inet_chksum_verifies_witness:
  "inet_chksum 3 ([0xed, 0xff] @ [0x12, 0] @ []) = 0"
proof -
  have "(0x12 :: u16) = inet_chksum 0 ([0xed, 0xff] @ [0, 0] @ [])"
    by (simp add: inet_chksum_def lwip_standard_chksum_eq cksum_def oc_norm_def)
  from inet_chksum_verifies [OF _ _ this, where a' = "3"] show ?thesis by simp
qed

end
