(* ===== verification/Ip4Addr.thy ===== *)
theory Ip4Addr
  imports LwDef
begin

text \<open>
  lwIP's IPv4 addresses, \<open>LWIP/src/core/ipv4/ip4_addr.c\<close>: the broadcast and netmask tests, the
  dotted notation parser and printer. An \<open>ip4_addr_t\<close> is its 32-bit value in network byte order.
  The part of \<open>struct netif\<close> (\<open>include/lwip/netif.h\<close>) that the modelled components read is the
  record \<open>netif\<close>.
\<close>

section \<open>Network interfaces\<close>

record netif =
  netif_ip_addr :: u32
  netif_netmask :: u32
  netif_gw :: u32
  netif_mtu :: u16
  netif_hwaddr :: "u8 list"
  netif_flags :: u8
  netif_num :: u8

definition NETIF_FLAG_BROADCAST :: u8 where
  "NETIF_FLAG_BROADCAST = 0x02"

section \<open>Address tests\<close>

definition IPADDR_ANY :: u32 where "IPADDR_ANY = 0"
definition IPADDR_BROADCAST :: u32 where "IPADDR_BROADCAST = 0xffffffff"
definition IPADDR_NONE :: u32 where "IPADDR_NONE = 0xffffffff"

definition ip4_addr_net_eq :: "u32 \<Rightarrow> u32 \<Rightarrow> u32 \<Rightarrow> bool" where
  "ip4_addr_net_eq addr1 addr2 m = (addr1 AND m = addr2 AND m)"

definition ip4_addr_ismulticast :: "u32 \<Rightarrow> bool" where
  "ip4_addr_ismulticast addr = (addr AND PP_HTONL 0xf0000000 = PP_HTONL 0xe0000000)"

definition ip4_addr_islinklocal :: "u32 \<Rightarrow> bool" where
  "ip4_addr_islinklocal addr = (addr AND PP_HTONL 0xffff0000 = PP_HTONL 0xa9fe0000)"

definition ip4_addr_isbroadcast_u32 :: "u32 \<Rightarrow> netif \<Rightarrow> bool" where
  "ip4_addr_isbroadcast_u32 addr netif =
     (if NOT addr = IPADDR_ANY \<or> addr = IPADDR_ANY then True
      else if netif_flags netif AND NETIF_FLAG_BROADCAST = 0 then False
      else if addr = netif_ip_addr netif then False
      else if ip4_addr_net_eq addr (netif_ip_addr netif) (netif_netmask netif) \<and>
        addr AND NOT (netif_netmask netif) = IPADDR_BROADCAST AND NOT (netif_netmask netif)
      then True
      else False)"

text \<open>The two loops of \<open>ip4_addr_netmask_valid\<close>: the first returns \<open>m\<close> where it stops.\<close>

lemma drop_bit_1_less: "m \<noteq> 0 \<Longrightarrow> unat (drop_bit 1 m :: u32) < unat m"
  by (simp only: unat_drop_bit_u32) (simp add: unat_gt_0)

function nm_first_zero :: "u32 \<Rightarrow> u32 \<Rightarrow> u32" where
  "nm_first_zero nm_hostorder m =
     (if m \<noteq> 0 then
        if nm_hostorder AND m = 0 then m
        else nm_first_zero nm_hostorder (drop_bit 1 m)
      else m)"
  by pat_completeness auto
termination
  by (relation "measure (\<lambda>(_, m). unat m)") (auto intro: drop_bit_1_less [simplified])

function nm_no_more_ones :: "u32 \<Rightarrow> u32 \<Rightarrow> bool" where
  "nm_no_more_ones nm_hostorder m =
     (if m \<noteq> 0 then
        if nm_hostorder AND m \<noteq> 0 then False
        else nm_no_more_ones nm_hostorder (drop_bit 1 m)
      else True)"
  by pat_completeness auto
termination
  by (relation "measure (\<lambda>(_, m). unat m)") (auto intro: drop_bit_1_less [simplified])

declare nm_first_zero.simps [simp del] nm_no_more_ones.simps [simp del]

definition ip4_addr_netmask_valid :: "u32 \<Rightarrow> bool" where
  "ip4_addr_netmask_valid netmask =
     (let nm_hostorder = lwip_htonl netmask;
          m = nm_first_zero nm_hostorder (push_bit 31 1)
      in nm_no_more_ones nm_hostorder m)"

section \<open>Parsing\<close>

definition lwip_isdigit :: "u8 \<Rightarrow> bool" where
  "lwip_isdigit c = (0x30 \<le> c \<and> c \<le> 0x39)"

definition lwip_isxdigit :: "u8 \<Rightarrow> bool" where
  "lwip_isxdigit c = (lwip_isdigit c \<or> (0x61 \<le> c \<and> c \<le> 0x66) \<or> (0x41 \<le> c \<and> c \<le> 0x46))"

definition lwip_islower :: "u8 \<Rightarrow> bool" where
  "lwip_islower c = (0x61 \<le> c \<and> c \<le> 0x7a)"

definition lwip_isspace :: "u8 \<Rightarrow> bool" where
  "lwip_isspace c = (c = 0x20 \<or> c = 0x0c \<or> c = 0x0a \<or> c = 0x0d \<or> c = 0x09 \<or> c = 0x0b)"

text \<open>
  The inner loop of \<open>ip4addr_aton\<close> collects one number; \<open>aton_number\<close> is the part of the outer
  loop up to it, with the choice of the base. Both return what is left of the string, whose first
  character is the code's \<open>c\<close>.
\<close>

fun aton_digits :: "u8 \<Rightarrow> u32 \<Rightarrow> u8 list \<Rightarrow> u32 \<times> u8 list" where
  "aton_digits base val [] = (val, [])"
| "aton_digits base val (c # cp) =
     (if lwip_isdigit c then
        if base = 8 \<and> (ucast (c - 0x30) :: u32) \<ge> 8 then (val, c # cp)
        else aton_digits base (val * ucast base + ucast (c - 0x30)) cp
      else if base = 16 \<and> lwip_isxdigit c then
        aton_digits base (push_bit 4 val OR ucast (c + 10 - (if lwip_islower c then 0x61 else 0x41))) cp
      else (val, c # cp))"

definition aton_number :: "u8 list \<Rightarrow> (u32 \<times> u8 list) option" where
  "aton_number cp =
     (if \<not> lwip_isdigit (cchar cp) then None
      else Some
        (if cchar cp = 0x30 then
           let cp = tl cp in
           if cchar cp = 0x78 \<or> cchar cp = 0x58 then aton_digits 16 0 (tl cp)
           else aton_digits 8 0 cp
         else aton_digits 10 0 cp))"

text \<open>The outer loop: the numbers before the last one, the last one, and the rest.\<close>

function aton_parts :: "u32 list \<Rightarrow> u8 list \<Rightarrow> (u32 list \<times> u32 \<times> u8 list) option" where
  "aton_parts parts cp =
     (case aton_number cp of
        None \<Rightarrow> None
      | Some (val, cp) \<Rightarrow>
          if cchar cp = 0x2e then
            if length parts \<ge> 3 then None
            else aton_parts (parts @ [val]) (tl cp)
          else Some (parts, val, cp))"
  by pat_completeness auto
termination
  by (relation "measure (\<lambda>(parts, _). 3 - length parts)") auto

declare aton_parts.simps [simp del]

definition aton_combine :: "u32 list \<Rightarrow> u32 \<Rightarrow> u32 option" where
  "aton_combine parts val =
     (case parts of
        [] \<Rightarrow> Some val
      | [p0] \<Rightarrow>
          if val > 0xffffff then None
          else if p0 > 0xff then None
          else Some (val OR push_bit 24 p0)
      | [p0, p1] \<Rightarrow>
          if val > 0xffff then None
          else if p0 > 0xff \<or> p1 > 0xff then None
          else Some (val OR (push_bit 24 p0 OR push_bit 16 p1))
      | [p0, p1, p2] \<Rightarrow>
          if val > 0xff then None
          else if p0 > 0xff \<or> p1 > 0xff \<or> p2 > 0xff then None
          else Some (val OR (push_bit 24 p0 OR push_bit 16 p1 OR push_bit 8 p2))
      | _ \<Rightarrow> None)"

definition ip4addr_aton :: "u8 list \<Rightarrow> u32 option" where
  "ip4addr_aton cp =
     (case aton_parts [] cp of
        None \<Rightarrow> None
      | Some (parts, val, rest) \<Rightarrow>
          if cchar rest \<noteq> 0 \<and> \<not> lwip_isspace (cchar rest) then None
          else (case aton_combine parts val of
                  None \<Rightarrow> None
                | Some val \<Rightarrow> Some (lwip_htonl val)))"

definition ipaddr_addr :: "u8 list \<Rightarrow> u32" where
  "ipaddr_addr cp = (case ip4addr_aton cp of Some val \<Rightarrow> val | None \<Rightarrow> IPADDR_NONE)"

section \<open>Printing\<close>

text \<open>The \<open>do\<close> loop that fills \<open>inv\<close>: the digits of a byte, the last one first.\<close>

lemma u8_div_10_less: "ap div 10 \<noteq> 0 \<Longrightarrow> unat (ap div 10 :: u8) < unat ap"
  by (simp add: unat_div word_unat_eq_iff)

function ntoa_inv :: "u8 \<Rightarrow> u8 list" where
  "ntoa_inv ap =
     (let rem = ap mod 10; ap' = ap div 10 in
      if ap' \<noteq> 0 then (0x30 + rem) # ntoa_inv ap' else [0x30 + rem])"
  by pat_completeness auto
termination
  by (relation "measure unat") (simp_all add: u8_div_10_less)

declare ntoa_inv.simps [simp del]

text \<open>Writing characters while \<open>len\<close> stays below \<open>buflen\<close>; \<open>None\<close> is the NULL result.\<close>

fun ntoa_put :: "int \<Rightarrow> u8 list \<Rightarrow> int \<times> u8 list \<Rightarrow> (int \<times> u8 list) option" where
  "ntoa_put buflen [] (len, rp) = Some (len, rp)"
| "ntoa_put buflen (c # cs) (len, rp) =
     (if len \<ge> buflen then None else ntoa_put buflen cs (len + 1, rp @ [c]))"

fun ntoa_loop :: "int \<Rightarrow> u8 list \<Rightarrow> int \<times> u8 list \<Rightarrow> (int \<times> u8 list) option" where
  "ntoa_loop buflen [] st = Some st"
| "ntoa_loop buflen (ap # aps) st =
     (case ntoa_put buflen (rev (ntoa_inv ap)) st of
        None \<Rightarrow> None
      | Some st \<Rightarrow>
          (case ntoa_put buflen [0x2e] st of
             None \<Rightarrow> None
           | Some st \<Rightarrow> ntoa_loop buflen aps st))"

text \<open>The bytes written to \<open>buf\<close>, the terminating NUL over the last dot included.\<close>

definition ip4addr_ntoa_r :: "u32 \<Rightarrow> int \<Rightarrow> u8 list option" where
  "ip4addr_ntoa_r addr buflen =
     (case ntoa_loop buflen (bytes32 addr) (0, []) of
        None \<Rightarrow> None
      | Some (_, rp) \<Rightarrow> Some (rp[length rp - 1 := 0]))"

definition IP4ADDR_STRLEN_MAX :: int where
  "IP4ADDR_STRLEN_MAX = 16"

definition ip4addr_ntoa :: "u32 \<Rightarrow> u8 list option" where
  "ip4addr_ntoa addr = ip4addr_ntoa_r addr IP4ADDR_STRLEN_MAX"

section \<open>Netmasks\<close>

lemma and_exp_0: "nm AND 2 ^ k = 0 \<longleftrightarrow> \<not> bit (nm :: u32) k" if "k < 32"
  using that by (simp add: and_exp_eq_0_iff_not_bit)

lemma exp_neq_0: "k < 32 \<Longrightarrow> (2 ^ k :: u32) \<noteq> 0"
  by simp

lemma drop_bit_1_exp: "k < 32 \<Longrightarrow> drop_bit (Suc 0) (2 ^ k :: u32) = (if k = 0 then 0 else 2 ^ (k - 1))"
  by (rule bit_word_eqI) (auto simp: bit_simps bit_exp_iff)

lemma nm_no_more_ones_exp:
  "k < 32 \<Longrightarrow> nm_no_more_ones nm (2 ^ k) \<longleftrightarrow> (\<forall>j \<le> k. \<not> bit nm j)"
proof (induction k)
  case 0
  have "nm_no_more_ones nm (2 ^ 0) = (\<not> bit nm 0 \<and> nm_no_more_ones nm 0)"
    by (subst nm_no_more_ones.simps) (use and_exp_0 [of 0 nm] drop_bit_1_exp [of 0] in simp)
  then show ?case by (simp add: nm_no_more_ones.simps [of nm 0])
next
  case (Suc k)
  have "nm_no_more_ones nm (2 ^ Suc k) = (\<not> bit nm (Suc k) \<and> nm_no_more_ones nm (2 ^ k))"
    by (subst nm_no_more_ones.simps)
      (use Suc.prems and_exp_0 [of "Suc k" nm] drop_bit_1_exp [of "Suc k"] exp_neq_0 [of "Suc k"] in simp)
  with Suc show ?case by (auto simp: le_Suc_eq)
qed

lemma nm_valid_exp:
  "k < 32 \<Longrightarrow> nm_no_more_ones nm (nm_first_zero nm (2 ^ k)) \<longleftrightarrow>
     (\<forall>j \<le> k. \<forall>i < j. bit nm i \<longrightarrow> bit nm j)"
proof (induction k)
  case 0
  have "nm_first_zero nm (2 ^ 0) = (if bit nm 0 then nm_first_zero nm 0 else 2 ^ 0)"
    by (subst nm_first_zero.simps) (use and_exp_0 [of 0 nm] drop_bit_1_exp [of 0] in simp)
  then show ?case
    using nm_no_more_ones_exp [of 0 nm]
    by (simp add: nm_first_zero.simps [of nm 0] nm_no_more_ones.simps [of nm 0] split: if_splits)
next
  case (Suc k)
  have *: "nm_first_zero nm (2 ^ Suc k) =
      (if bit nm (Suc k) then nm_first_zero nm (2 ^ k) else 2 ^ Suc k)"
    by (subst nm_first_zero.simps)
      (use Suc.prems and_exp_0 [of "Suc k" nm] drop_bit_1_exp [of "Suc k"] exp_neq_0 [of "Suc k"] in simp)
  have IH: "nm_no_more_ones nm (nm_first_zero nm (2 ^ k)) \<longleftrightarrow>
      (\<forall>j \<le> k. \<forall>i < j. bit nm i \<longrightarrow> bit nm j)"
    using Suc by simp
  show ?case
  proof (cases "bit nm (Suc k)")
    case True
    then show ?thesis
      unfolding * using IH by (simp add: le_Suc_eq)
  next
    case False
    have "(\<forall>j \<le> Suc k. \<not> bit nm j) \<longleftrightarrow> (\<forall>j \<le> Suc k. \<forall>i < j. bit nm i \<longrightarrow> bit nm j)"
    proof
      assume "\<forall>j \<le> Suc k. \<forall>i < j. bit nm i \<longrightarrow> bit nm j"
      then have "\<forall>i < Suc k. \<not> bit nm i" using False by blast
      then show "\<forall>j \<le> Suc k. \<not> bit nm j" using False by (simp add: le_less)
    qed simp
    then show ?thesis
      unfolding * using False nm_no_more_ones_exp [OF Suc.prems, of nm] by simp
  qed
qed

text \<open>The netmask of a prefix length, in host byte order: \<open>n\<close> ones, then zeros.\<close>

definition prefix_mask :: "nat \<Rightarrow> u32" where
  "prefix_mask n = push_bit (32 - n) (mask n)"

lemma bit_prefix_mask: "n \<le> 32 \<Longrightarrow> bit (prefix_mask n) j \<longleftrightarrow> 32 - n \<le> j \<and> j < 32"
  by (auto simp: prefix_mask_def bit_simps)

lemma leading_ones_iff:
  "(\<forall>j < 32. \<forall>i < j. bit (nm :: u32) i \<longrightarrow> bit nm j) \<longleftrightarrow> (\<exists>n \<le> 32. nm = prefix_mask n)"
proof
  assume up: "\<forall>j < 32. \<forall>i < j. bit nm i \<longrightarrow> bit nm j"
  define m where "m = (LEAST m. m = 32 \<or> bit nm m)"
  have m: "m = 32 \<or> bit nm m" and least: "\<And>j. j < m \<Longrightarrow> \<not> (j = 32 \<or> bit nm j)"
    unfolding m_def by (rule LeastI [of _ 32], simp, rule not_less_Least)
  have "m \<le> 32" using least [of 32] by (meson not_le)
  have "nm = prefix_mask (32 - m)"
  proof (rule bit_word_eqI)
    fix j assume "j < LENGTH(32)"
    then show "bit nm j = bit (prefix_mask (32 - m)) j"
      using m least [of j] up \<open>m \<le> 32\<close> by (cases m j rule: linorder_cases) (auto simp: bit_prefix_mask)
  qed
  then show "\<exists>n \<le> 32. nm = prefix_mask n" by (intro exI [of _ "32 - m"]) simp
qed (auto simp: bit_prefix_mask)

text \<open>
  A netmask is accepted exactly when, read in host byte order, it is a number of ones followed by
  zeros.
\<close>

theorem netmask_valid_iff_prefix:
  "ip4_addr_netmask_valid netmask \<longleftrightarrow> (\<exists>n \<le> 32. lwip_htonl netmask = prefix_mask n)"
proof -
  have "push_bit 31 1 = (2 ^ 31 :: u32)" by simp
  then have "ip4_addr_netmask_valid netmask \<longleftrightarrow>
      (\<forall>j \<le> 31. \<forall>i < j. bit (lwip_htonl netmask) i \<longrightarrow> bit (lwip_htonl netmask) j)"
    unfolding ip4_addr_netmask_valid_def Let_def using nm_valid_exp [of 31] by simp
  also have "\<dots> \<longleftrightarrow> (\<forall>j < 32. \<forall>i < j. bit (lwip_htonl netmask) i \<longrightarrow> bit (lwip_htonl netmask) j)"
    using less_Suc_eq_le [of _ 31] by simp
  finally show ?thesis unfolding leading_ones_iff .
qed

section \<open>The printer writes what the parser reads\<close>

lemma of_nat_48_mod: "(0x30 + b mod 10 :: u8) = of_nat (48 + unat b mod 10)"
  by (simp add: word_unat_eq_iff unat_word_ariths unat_of_nat take_bit_eq_mod unat_mod)

lemma rev_ntoa_inv: "rev (ntoa_inv b) = decimal (unat b)"
proof (induction b rule: ntoa_inv.induct)
  case (1 b)
  have d: "b div 10 \<noteq> 0 \<longleftrightarrow> \<not> unat b < 10"
    by (simp add: word_unat_eq_iff unat_div div_eq_0_iff)
  show ?case
  proof (cases "b div 10 = 0")
    case True
    then show ?thesis
      using d by (subst ntoa_inv.simps, subst decimal.simps) (simp add: of_nat_48_mod)
  next
    case False
    have "unat (b div 10) = unat b div 10" by (simp add: unat_div)
    with False "1.IH" [OF refl refl False] d show ?thesis
      by (subst ntoa_inv.simps, subst decimal.simps) (simp add: of_nat_48_mod)
  qed
qed

definition digit :: "nat \<Rightarrow> u8" where
  "digit d = of_nat (48 + d)"

lemma unat_digit: "d < 10 \<Longrightarrow> unat (digit d) = 48 + d"
  by (simp add: digit_def unat_of_nat take_bit_eq_mod unat_word_ariths)

lemma decimal_digit:
  "decimal n = (if n < 10 then [digit n] else decimal (n div 10) @ [digit (n mod 10)])"
  by (subst decimal.simps) (simp add: digit_def)

lemma isdigit_digit [simp]: "d < 10 \<Longrightarrow> lwip_isdigit (digit d)"
  by (simp add: lwip_isdigit_def word_le_nat_alt unat_digit)

lemma digit_minus [simp]: "digit d - 0x30 = of_nat d"
  by (simp add: digit_def)

lemma ucast_of_nat_digit: "d < 10 \<Longrightarrow> (ucast (of_nat d :: u8) :: u32) = of_nat d"
  by (simp add: word_unat_eq_iff unat_of_nat take_bit_eq_mod)

lemma aton_digits_decimal:
  "aton_digits 10 v (decimal n @ r) =
     aton_digits 10 (v * 10 ^ length (decimal n) + of_nat n) r"
proof (induction n arbitrary: v r rule: decimal.induct)
  case (1 n)
  show ?case
  proof (cases "n < 10")
    case True
    then show ?thesis
      by (subst (1 2) decimal_digit) (simp add: ucast_of_nat_digit)
  next
    case False
    have *: "of_nat n = (10 :: u32) * of_nat (n div 10) + of_nat (n mod 10)"
      by (metis mult_div_mod_eq of_nat_add of_nat_mult of_nat_numeral)
    have "aton_digits 10 v (decimal n @ r) =
        aton_digits 10 v (decimal (n div 10) @ digit (n mod 10) # r)"
      using False by (subst decimal_digit) simp
    also have "\<dots> = aton_digits 10 (v * 10 ^ length (decimal (n div 10)) + of_nat (n div 10))
        (digit (n mod 10) # r)"
      using False by (intro "1.IH")
    also have "\<dots> = aton_digits 10
        ((v * 10 ^ length (decimal (n div 10)) + of_nat (n div 10)) * 10 + of_nat (n mod 10)) r"
      by (simp add: ucast_of_nat_digit)
    finally show ?thesis
      using False * by (subst (2) decimal_digit) (simp add: algebra_simps)
  qed
qed

definition not_number :: "u8 list \<Rightarrow> bool" where
  "not_number r = (\<not> lwip_isdigit (cchar r) \<and> cchar r \<noteq> 0x78 \<and> cchar r \<noteq> 0x58)"

lemma aton_digits_stop: "not_number r \<Longrightarrow> base \<noteq> 16 \<Longrightarrow> aton_digits base v r = (v, r)"
  by (cases r) (auto simp: not_number_def cchar_def)

lemma decimal_hd:
  "0 < n \<Longrightarrow> \<exists>d ds. decimal n = digit d # ds \<and> 0 < d \<and> d < 10"
proof (induction n rule: decimal.induct)
  case (1 n)
  show ?case
  proof (cases "n < 10")
    case True
    with "1.prems" show ?thesis by (subst decimal_digit) auto
  next
    case False
    then obtain d ds where "decimal (n div 10) = digit d # ds \<and> 0 < d \<and> d < 10"
      using "1.IH" by (metis div_greater_zero_iff not_less zero_less_numeral)
    with False show ?thesis by (subst decimal_digit) auto
  qed
qed

lemma aton_number_decimal:
  assumes "not_number r"
  shows "aton_number (decimal n @ r) = Some (of_nat n, r)"
proof (cases "n = 0")
  case True
  have "digit 0 = 0x30" by (simp add: digit_def)
  then show ?thesis
    using True assms aton_digits_stop [OF assms]
    by (subst decimal_digit) (simp add: aton_number_def cchar_def not_number_def lwip_isdigit_def)
next
  case False
  then obtain d ds where d: "decimal n = digit d # ds" "0 < d" "d < 10"
    using decimal_hd [of n] by auto
  then have "cchar (decimal n @ r) = digit d" by (simp add: cchar_def)
  moreover have "digit d \<noteq> 0x30"
    using d by (simp add: word_unat_eq_iff unat_digit)
  ultimately have "aton_number (decimal n @ r) = Some (aton_digits 10 0 (decimal n @ r))"
    using d by (simp add: aton_number_def)
  then show ?thesis
    using assms by (simp add: aton_digits_decimal aton_digits_stop)
qed

text \<open>The dotted notation of the bytes of an address.\<close>

fun dotted :: "u8 list \<Rightarrow> u8 list" where
  "dotted [] = []"
| "dotted [b] = decimal (unat b)"
| "dotted (b # c # bs) = decimal (unat b) @ 0x2e # dotted (c # bs)"

lemma ntoa_put_eq:
  "ntoa_put buflen cs (len, rp) =
     (if cs = [] \<or> len + int (length cs) \<le> buflen
      then Some (len + int (length cs), rp @ cs) else None)"
  by (induction cs arbitrary: len rp) auto

lemma ntoa_loop_eq:
  "bs \<noteq> [] \<Longrightarrow> ntoa_loop buflen bs (len, rp) =
     (if len + int (length (dotted bs)) + 1 \<le> buflen
      then Some (len + int (length (dotted bs)) + 1, rp @ dotted bs @ [0x2e]) else None)"
  by (induction bs arbitrary: len rp rule: dotted.induct)
    (auto simp: ntoa_put_eq rev_ntoa_inv split: option.splits)

lemma ip4addr_ntoa_r_eq:
  "ip4addr_ntoa_r addr buflen =
     (if int (length (dotted (bytes32 addr))) < buflen
      then Some (dotted (bytes32 addr) @ [0]) else None)"
  using ntoa_loop_eq [of "bytes32 addr" buflen 0 "[]"]
  by (simp add: ip4addr_ntoa_r_def bytes32_def list_update_append)

lemma length_decimal_byte: "length (decimal (unat (b :: u8))) \<le> 3"
proof -
  have "length (decimal n) \<le> 3" if "n < 256" for n
  proof -
    have "n div 10 div 10 < 10" using that by (simp add: div_mult2_eq [symmetric] less_mult_imp_div_less)
    then show ?thesis by (subst decimal.simps, subst decimal.simps, subst decimal.simps) simp
  qed
  then show ?thesis by simp
qed

lemma length_dotted: "length (dotted (bytes32 addr)) \<le> 15"
  using length_decimal_byte [of "ucast addr"] length_decimal_byte [of "ucast (drop_bit 8 addr)"]
    length_decimal_byte [of "ucast (drop_bit 16 addr)"] length_decimal_byte [of "ucast (drop_bit 24 addr)"]
  by (simp add: bytes32_def)

lemma aton_combine_bytes:
  "aton_combine [ucast (ucast x :: u8), ucast (ucast (drop_bit 8 x) :: u8),
      ucast (ucast (drop_bit 16 x) :: u8)] (ucast (ucast (drop_bit 24 x) :: u8)) = Some (lwip_htonl x)"
proof -
  have le: "\<not> 0xff < (ucast (b :: u8) :: u32)" for b
    using unat_u8_less [of b] by (simp add: word_less_nat_alt del: unat_u8_less)
  show ?thesis
    unfolding aton_combine_def lwip_htonl_def using le
    by (simp add: not_less, intro bit_word_eqI)
      (auto simp: bit_simps bit_PP_HTONL add.commute dest: bit_imp_le_length)
qed

lemma not_number_dot [simp]: "not_number (0x2e # r)"
  by (simp add: not_number_def cchar_def lwip_isdigit_def word_le_nat_alt)

lemma not_number_NUL [simp]: "not_number [0]"
  by (simp add: not_number_def cchar_def lwip_isdigit_def word_le_nat_alt)

lemma aton_parts_dotted:
  "bs \<noteq> [] \<Longrightarrow> length parts + length bs \<le> 4 \<Longrightarrow>
   aton_parts parts (dotted bs @ [0]) =
     Some (parts @ map ucast (butlast bs), ucast (last bs), [0])"
proof (induction bs arbitrary: parts rule: dotted.induct)
  case (2 b)
  then show ?case
    by (subst aton_parts.simps) (simp add: aton_number_decimal, simp add: cchar_def)
next
  case (3 b c bs)
  then show ?case
    by (subst aton_parts.simps) (simp add: aton_number_decimal, simp add: cchar_def)
qed simp

text \<open>
  C37. Every address prints into the 16 bytes \<open>ip4addr_ntoa\<close> reserves, as its four bytes in decimal
  separated by dots, and the parser reads the address back.
\<close>

theorem ip4addr_ntoa_aton:
  "\<exists>s. ip4addr_ntoa addr = Some s \<and> s = dotted (bytes32 addr) @ [0] \<and>
       ip4addr_aton s = Some addr \<and> length s \<le> nat IP4ADDR_STRLEN_MAX"
proof -
  have "ip4addr_ntoa addr = Some (dotted (bytes32 addr) @ [0])"
    using length_dotted [of addr] by (simp add: ip4addr_ntoa_def ip4addr_ntoa_r_eq IP4ADDR_STRLEN_MAX_def)
  moreover have "ip4addr_aton (dotted (bytes32 addr) @ [0]) = Some addr"
    unfolding ip4addr_aton_def
    by (subst aton_parts_dotted)
      (simp_all add: bytes32_def cchar_def aton_combine_bytes)
  ultimately show ?thesis
    using length_dotted [of addr] by (simp add: IP4ADDR_STRLEN_MAX_def)
qed

text \<open>
  With a caller's buffer the printer returns NULL exactly when the text and its NUL do not fit,
  and never writes past \<open>buflen\<close> bytes otherwise.
\<close>

theorem ip4addr_ntoa_r_bounds:
  "ip4addr_ntoa_r addr buflen =
     (if int (length (dotted (bytes32 addr)) + 1) \<le> buflen
      then Some (dotted (bytes32 addr) @ [0]) else None)"
  by (auto simp: ip4addr_ntoa_r_eq)

section \<open>Broadcast addresses\<close>

text \<open>
  On an interface that can broadcast, the directed broadcast address of its network (network
  bits of the interface address, all host bits set) is recognised, unless it is the interface's own
  address; the interface's own address never is, unless it is one of the two all-equal addresses.
\<close>

theorem isbroadcast_iff:
  "ip4_addr_isbroadcast_u32 addr nif \<longleftrightarrow>
     addr = 0 \<or> addr = - 1 \<or>
     (netif_flags nif AND NETIF_FLAG_BROADCAST \<noteq> 0 \<and> addr \<noteq> netif_ip_addr nif \<and>
      addr = (netif_ip_addr nif AND netif_netmask nif) OR NOT (netif_netmask nif))"
proof -
  let ?m = "netif_netmask nif" and ?ip = "netif_ip_addr nif"
  have "addr AND ?m = ?ip AND ?m \<and> addr AND NOT ?m = NOT ?m \<longleftrightarrow> addr = (?ip AND ?m) OR NOT ?m"
    by (auto simp: bit_eq_iff bit_simps)
  moreover have "IPADDR_BROADCAST AND NOT ?m = NOT ?m"
  proof -
    have "IPADDR_BROADCAST = - 1" by (simp add: IPADDR_BROADCAST_def)
    then show ?thesis by (metis and.left_neutral)
  qed
  moreover have "NOT addr = 0 \<longleftrightarrow> addr = - 1"
    by (metis bit.compl_zero bit.double_compl)
  ultimately show ?thesis
    by (auto simp: ip4_addr_isbroadcast_u32_def ip4_addr_net_eq_def IPADDR_ANY_def)
qed

end
