(* ===== verification/PbufData.thy ===== *)
theory PbufData
  imports LwDef
begin

text \<open>
  The packet buffers of \<open>LWIP/src/core/pbuf.c\<close> as data: \<open>struct pbuf\<close> and the functions that read
  and write the bytes of a chain without changing its links. These take the chain as the list of
  the pbufs it links, \<open>[]\<close> being NULL. \<open>p_mem\<close> is the memory a pbuf can address (what follows the
  structure for \<open>PBUF_RAM\<close> and \<open>PBUF_POOL\<close>, the referenced data otherwise) and \<open>p_off\<close> where
  \<open>payload\<close> points in it. Different pbufs have different memory. The functions that allocate, link
  and free pbufs are in theory \<open>Pbuf\<close>.
\<close>

section \<open>Packet buffers\<close>

text \<open>A pbuf lives in the heap or in one of the pools \<open>MEMP_PBUF\<close>, \<open>MEMP_PBUF_POOL\<close>.\<close>

datatype pptr = Heap nat | Pbuf nat | Pool nat

record pbuf =
  p_next :: "pptr option"
  p_mem :: "u8 list"
  p_off :: int
  tot_len :: u16
  len :: u16
  type_internal :: u8
  flags :: u8
  ref :: u8
  if_idx :: u8

definition payload_at :: "pbuf \<Rightarrow> nat \<Rightarrow> nat \<Rightarrow> u8 list" where
  "payload_at b i n = take n (drop (nat (p_off b) + i) (p_mem b))"

definition store_at :: "pbuf \<Rightarrow> nat \<Rightarrow> u8 list \<Rightarrow> pbuf" where
  "store_at b i xs = b\<lparr>p_mem := memcpy (p_mem b) (nat (p_off b) + i) xs\<rparr>"

section \<open>Reading\<close>

fun copy_partial_loop ::
  "pbuf list \<Rightarrow> u8 list \<Rightarrow> u16 \<Rightarrow> u16 \<Rightarrow> u16 \<Rightarrow> u16 \<Rightarrow> u16 \<times> u8 list" where
  "copy_partial_loop [] dataptr l offset left copied_total = (copied_total, dataptr)"
| "copy_partial_loop (p # ps) dataptr l offset left copied_total =
     (if l = 0 then (copied_total, dataptr)
      else if offset \<noteq> 0 \<and> offset \<ge> len p then
        copy_partial_loop ps dataptr l (offset - len p) left copied_total
      else
        let buf_copy_len = len p - offset;
            buf_copy_len = (if buf_copy_len > l then l else buf_copy_len)
        in copy_partial_loop ps
             (memcpy dataptr (unat left) (payload_at p (unat offset) (unat buf_copy_len)))
             (l - buf_copy_len) 0 (left + buf_copy_len) (copied_total + buf_copy_len))"

definition pbuf_copy_partial :: "pbuf list \<Rightarrow> u8 list \<Rightarrow> u16 \<Rightarrow> u16 \<Rightarrow> u16 \<times> u8 list" where
  "pbuf_copy_partial buf dataptr l offset =
     (if buf = [] then (0, dataptr) else copy_partial_loop buf dataptr l offset 0 0)"

fun pbuf_skip_const :: "pbuf list \<Rightarrow> u16 \<Rightarrow> pbuf list \<times> u16" where
  "pbuf_skip_const [] offset_left = ([], offset_left)"
| "pbuf_skip_const (q # qs) offset_left =
     (if len q \<le> offset_left then pbuf_skip_const qs (offset_left - len q)
      else (q # qs, offset_left))"

definition pbuf_skip :: "pbuf list \<Rightarrow> u16 \<Rightarrow> pbuf list \<times> u16" where
  "pbuf_skip in_pbuf in_offset = pbuf_skip_const in_pbuf in_offset"

text \<open>
  \<open>pbuf_get_contiguous\<close> returns NULL, a pointer into the payload of a pbuf (given by the pbuf and
  the offset), or the buffer it has filled.
\<close>

datatype contiguous = Null | InPlace pbuf nat | Copied "u8 list"

definition pbuf_get_contiguous :: "pbuf list \<Rightarrow> u8 list \<Rightarrow> nat \<Rightarrow> u16 \<Rightarrow> u16 \<Rightarrow> contiguous" where
  "pbuf_get_contiguous p buffer bufsize l offset =
     (if p = [] then Null
      else if \<not> bufsize \<ge> unat l then Null
      else
        let (q, out_offset) = pbuf_skip_const p offset in
        case q of
          [] \<Rightarrow> Null
        | b # _ \<Rightarrow>
            if unat (len b) \<ge> unat out_offset + unat l then InPlace b (unat out_offset)
            else let (n, buffer) = pbuf_copy_partial q buffer l out_offset in
              if n \<noteq> l then Null else Copied buffer)"

text \<open>A negative result is \<open>None\<close>.\<close>

definition pbuf_try_get_at :: "pbuf list \<Rightarrow> u16 \<Rightarrow> u8 option" where
  "pbuf_try_get_at p offset =
     (let (q, q_idx) = pbuf_skip_const p offset in
      case q of
        [] \<Rightarrow> None
      | b # _ \<Rightarrow> if len b > q_idx then Some (p_mem b ! (nat (p_off b) + unat q_idx)) else None)"

definition pbuf_get_at :: "pbuf list \<Rightarrow> u16 \<Rightarrow> u8" where
  "pbuf_get_at p offset = (case pbuf_try_get_at p offset of Some c \<Rightarrow> c | None \<Rightarrow> 0)"

section \<open>Comparing and searching\<close>

text \<open>The comparison loop of \<open>pbuf_memcmp\<close> from index \<open>i\<close> on, with \<open>k\<close> bytes to go.\<close>

fun memcmp_loop :: "pbuf list \<Rightarrow> u16 \<Rightarrow> u8 list \<Rightarrow> nat \<Rightarrow> nat \<Rightarrow> u16" where
  "memcmp_loop q start s2 i 0 = 0"
| "memcmp_loop q start s2 i (Suc k) =
     (if pbuf_get_at q (start + of_nat i) \<noteq> s2 ! i then of_nat (min (i + 1) 0xFFFF)
      else memcmp_loop q start s2 (Suc i) k)"

text \<open>\<open>p\<close> is not NULL.\<close>

definition pbuf_memcmp :: "pbuf list \<Rightarrow> u16 \<Rightarrow> u8 list \<Rightarrow> u16 \<Rightarrow> u16" where
  "pbuf_memcmp p offset s2 n =
     (if unat (tot_len (hd p)) < unat offset + unat n then 0xffff
      else let (q, start) = pbuf_skip_const p offset in memcmp_loop q start s2 0 (unat n))"

partial_function (option) memfind_loop ::
  "pbuf list \<Rightarrow> u8 list \<Rightarrow> u16 \<Rightarrow> u16 \<Rightarrow> u16 \<Rightarrow> u16 option" where
  "memfind_loop p mem mem_len max_cmp_start i =
     (if i \<le> max_cmp_start then
        if pbuf_memcmp p i mem mem_len = 0 then Some i
        else memfind_loop p mem mem_len max_cmp_start (i + 1)
      else Some 0xFFFF)"

definition pbuf_memfind :: "pbuf list \<Rightarrow> u8 list \<Rightarrow> u16 \<Rightarrow> u16 \<Rightarrow> u16 option" where
  "pbuf_memfind p mem mem_len start_offset =
     (let max_cmp_start = tot_len (hd p) - mem_len in
      if unat (tot_len (hd p)) \<ge> unat mem_len + unat start_offset
      then memfind_loop p mem mem_len max_cmp_start start_offset
      else Some 0xFFFF)"

definition pbuf_strstr :: "pbuf list \<Rightarrow> u8 list \<Rightarrow> u16 option" where
  "pbuf_strstr p substr =
     (if cchar substr = 0 \<or> tot_len (hd p) = 0xFFFF then Some 0xFFFF
      else if strlen substr \<ge> 0xFFFF then Some 0xFFFF
      else pbuf_memfind p substr (of_nat (strlen substr)) 0)"

section \<open>Writing\<close>

definition pbuf_put_at :: "pbuf list \<Rightarrow> u16 \<Rightarrow> u8 \<Rightarrow> pbuf list" where
  "pbuf_put_at p offset data =
     (let (q, q_idx) = pbuf_skip p offset in
      case q of
        [] \<Rightarrow> p
      | b # bs \<Rightarrow>
          if len b > q_idx
          then take (length p - length q) p @ store_at b (unat q_idx) [data] # bs
          else p)"

fun take_loop :: "pbuf list \<Rightarrow> u8 list \<Rightarrow> nat \<Rightarrow> nat \<Rightarrow> (nat \<times> nat \<times> pbuf list) outcome" where
  "take_loop [] dataptr total_copy_len copied_total =
     (if total_copy_len \<noteq> 0 then Inl (Assertion ''pbuf_take: invalid pbuf'')
      else Inr (total_copy_len, copied_total, []))"
| "take_loop (p # ps) dataptr total_copy_len copied_total =
     (if total_copy_len \<noteq> 0 then
        let buf_copy_len = (if total_copy_len > unat (len p) then unat (len p) else total_copy_len) in
        obind (take_loop ps dataptr (total_copy_len - buf_copy_len) (copied_total + buf_copy_len))
          (\<lambda>(t, c, qs).
            Inr (t, c, store_at p 0 (take buf_copy_len (drop copied_total dataptr)) # qs))
      else Inr (total_copy_len, copied_total, p # ps))"

definition pbuf_take :: "pbuf list \<Rightarrow> u8 list \<Rightarrow> u16 \<Rightarrow> (err_t \<times> pbuf list) outcome" where
  "pbuf_take buf dataptr l =
     (if buf = [] then Inr (ERR_ARG, buf)
      else if \<not> tot_len (hd buf) \<ge> l then Inr (ERR_MEM, buf)
      else obind (take_loop buf dataptr (unat l) 0) (\<lambda>(total_copy_len, copied_total, buf).
        lwip_assert ''did not copy all data'' (total_copy_len = 0 \<and> copied_total = unat l)
          (Inr (ERR_OK, buf))))"

definition pbuf_take_at :: "pbuf list \<Rightarrow> u8 list \<Rightarrow> u16 \<Rightarrow> u16 \<Rightarrow> (err_t \<times> pbuf list) outcome" where
  "pbuf_take_at buf dataptr l offset =
     (let (q, target_offset) = pbuf_skip buf offset;
          front = take (length buf - length q) buf in
      case q of
        [] \<Rightarrow> Inr (ERR_MEM, buf)
      | b # bs \<Rightarrow>
          if unat (tot_len b) \<ge> unat target_offset + unat l then
            lwip_assert ''check pbuf_skip result'' (target_offset < len b)
           (let first_copy_len = min (unat (len b) - unat target_offset) (unat l);
                b = store_at b (unat target_offset) (take first_copy_len dataptr);
                remaining_len = l - of_nat first_copy_len in
            if remaining_len > 0 then
              obind (pbuf_take bs (drop first_copy_len dataptr) remaining_len)
                (\<lambda>(e, bs). Inr (e, front @ b # bs))
            else Inr (ERR_OK, front @ b # bs))
          else Inr (ERR_MEM, buf))"

text \<open>
  The \<open>do\<close> loop of \<open>pbuf_copy_partial_pbuf\<close>. The chains have no pbuf in common; the result is the
  error code and the destination chain from the current \<open>p_to\<close> on. The offsets are of type
  \<open>size_t\<close>, so the differences wrap at 64 bits.
\<close>

definition copy_amount :: "pbuf \<Rightarrow> pbuf \<Rightarrow> nat \<Rightarrow> nat \<Rightarrow> u16 \<Rightarrow> nat" where
  "copy_amount t f offset_to offset_from copy_len =
     (let room = sub64 (unat (len t)) offset_to; avail = sub64 (unat (len f)) offset_from in
      min (unat copy_len) (if room \<ge> avail then avail else room))"

definition is_queue :: "pbuf list \<Rightarrow> bool" where
  "is_queue p = (case p of [] \<Rightarrow> False | b # bs \<Rightarrow> len b = tot_len b \<and> bs \<noteq> [])"

lemma store_at_fields [simp]:
  "len (store_at b i xs) = len b" "tot_len (store_at b i xs) = tot_len b"
  "p_off (store_at b i xs) = p_off b" "p_next (store_at b i xs) = p_next b"
  by (simp_all add: store_at_def)

lemma copy_amount_eq:
  assumes "offset_to \<le> unat (len t)" and "offset_from \<le> unat (len f)"
  shows "copy_amount t f offset_to offset_from copy_len =
    min (unat copy_len) (min (unat (len f) - offset_from) (unat (len t) - offset_to))"
proof -
  have "unat (len t) < 2 ^ 64" "unat (len f) < 2 ^ 64"
    by (rule less_trans [OF unat_u16_less], simp)+
  then have "sub64 (unat (len t)) offset_to = unat (len t) - offset_to"
    "sub64 (unat (len f)) offset_from = unat (len f) - offset_from"
    using assms by simp_all
  then show ?thesis unfolding copy_amount_def Let_def by (auto simp: min_def)
qed

lemma copy_amount_all:
  assumes "offset_to + copy_amount t f offset_to offset_from copy_len < unat (len t)"
    and "offset_from + copy_amount t f offset_to offset_from copy_len < unat (len f)"
  shows "copy_amount t f offset_to offset_from copy_len = unat copy_len"
proof -
  have "offset_to \<le> unat (len t)" "offset_from \<le> unat (len f)" using assms by linarith+
  note eq = copy_amount_eq [OF this, of copy_len]
  show ?thesis using assms unfolding eq by linarith
qed

function copy_pbuf_loop ::
  "pbuf list \<Rightarrow> pbuf list \<Rightarrow> nat \<Rightarrow> nat \<Rightarrow> u16 \<Rightarrow> (err_t \<times> pbuf list) outcome" where
  "copy_pbuf_loop [] from offset_to offset_from copy_len = Inl InvalidAccess"
| "copy_pbuf_loop (t # ts) [] offset_to offset_from copy_len = Inl InvalidAccess"
| "copy_pbuf_loop (t # ts) (f # fs) offset_to offset_from copy_len =
     (let l = copy_amount t f offset_to offset_from copy_len;
          t = store_at t offset_to (payload_at f offset_from l);
          offset_to = offset_to + l;
          offset_from = offset_from + l;
          copy_len = copy_len - of_nat l in
      if \<not> offset_to \<le> unat (len t) then Inl (Assertion ''offset_to <= p_to->len'')
      else if \<not> offset_from \<le> unat (len f) then Inl (Assertion ''offset_from <= p_from->len'')
      else
        let (from', offset_from) = (if offset_from \<ge> unat (len f) then (fs, 0) else (f # fs, offset_from)) in
        if from' = [] \<and> copy_len \<noteq> 0 then Inr (ERR_ARG, t # ts)
        else
          let full = (offset_to = unat (len t)); to' = (if full then ts else t # ts) in
          if to' = [] \<and> copy_len \<noteq> 0 then Inr (ERR_ARG, t # ts)
          else if is_queue from' then Inr (ERR_VAL, t # ts)
          else if is_queue to' then Inr (ERR_VAL, t # ts)
          else if copy_len \<noteq> 0 then
            (if full
             then obind (copy_pbuf_loop ts from' 0 offset_from copy_len) (\<lambda>(e, ts). Inr (e, t # ts))
             else copy_pbuf_loop (t # ts) from' offset_to offset_from copy_len)
          else Inr (ERR_OK, t # ts))"
  by pat_completeness auto

termination
proof (relation "measure (\<lambda>(to, from, _). length to + length from)", goal_cases)
  case (3 t ts f fs offset_to offset_from copy_len l t' offset_to' offset_from' copy_len' z from' y full to')
  then show ?case
    using copy_amount_all [of offset_to t f offset_from copy_len] by (auto split: if_splits)
qed (auto split: if_splits)

declare copy_pbuf_loop.simps [simp del]

definition pbuf_copy_partial_pbuf ::
  "pbuf list \<Rightarrow> pbuf list \<Rightarrow> u16 \<Rightarrow> u16 \<Rightarrow> (err_t \<times> pbuf list) outcome" where
  "pbuf_copy_partial_pbuf p_to p_from copy_len offset =
     (if \<not> (p_from \<noteq> [] \<and> tot_len (hd p_from) \<ge> copy_len) then Inr (ERR_ARG, p_to)
      else if \<not> (p_to \<noteq> [] \<and> unat (tot_len (hd p_to)) \<ge> unat offset + unat copy_len)
      then Inr (ERR_ARG, p_to)
      else copy_pbuf_loop p_to p_from (unat offset) 0 copy_len)"

definition pbuf_copy :: "pbuf list \<Rightarrow> pbuf list \<Rightarrow> (err_t \<times> pbuf list) outcome" where
  "pbuf_copy p_to p_from =
     (if p_from = [] then Inr (ERR_ARG, p_to)
      else pbuf_copy_partial_pbuf p_to p_from (tot_len (hd p_from)) 0)"

section \<open>The bytes of a chain\<close>

definition wf_buf :: "pbuf \<Rightarrow> bool" where
  "wf_buf b \<longleftrightarrow> 0 \<le> p_off b \<and> nat (p_off b) + unat (len b) \<le> length (p_mem b)"

definition pdata :: "pbuf \<Rightarrow> u8 list" where
  "pdata b = payload_at b 0 (unat (len b))"

definition chain_data :: "pbuf list \<Rightarrow> u8 list" where
  "chain_data ps = concat (map pdata ps)"

text \<open>The invariant of \<open>struct pbuf\<close> for a chain that is one packet.\<close>

fun tot_ok :: "pbuf list \<Rightarrow> bool" where
  "tot_ok [] = True"
| "tot_ok (b # bs) \<longleftrightarrow>
     unat (tot_len b) = unat (len b) + (case bs of [] \<Rightarrow> 0 | c # _ \<Rightarrow> unat (tot_len c)) \<and> tot_ok bs"

lemma length_pdata [simp]: "wf_buf b \<Longrightarrow> length (pdata b) = unat (len b)"
  by (auto simp: wf_buf_def pdata_def payload_at_def min_def)

lemma payload_at_pdata:
  "wf_buf b \<Longrightarrow> i + n \<le> unat (len b) \<Longrightarrow> payload_at b i n = take n (drop i (pdata b))"
  unfolding payload_at_def pdata_def add_0_right by (rule take_drop_slice)

lemma chain_data_simps [simp]:
  "chain_data [] = []" "chain_data (b # bs) = pdata b @ chain_data bs"
  "chain_data (xs @ ys) = chain_data xs @ chain_data ys"
  by (simp_all add: chain_data_def)

lemma wf_store_at [simp]:
  "wf_buf b \<Longrightarrow> i + length xs \<le> unat (len b) \<Longrightarrow> wf_buf (store_at b i xs)"
  by (simp add: wf_buf_def store_at_def length_memcpy)

lemma pdata_store_at [simp]:
  assumes "wf_buf b" and "i + length xs \<le> unat (len b)"
  shows "pdata (store_at b i xs) = memcpy (pdata b) i xs"
  using assms memcpy_slice [of "nat (p_off b)" "unat (len b)" "p_mem b" i xs]
  by (simp add: pdata_def payload_at_def store_at_def wf_buf_def)

lemma tot_ok_length:
  "tot_ok ps \<Longrightarrow> list_all wf_buf ps \<Longrightarrow> ps \<noteq> [] \<Longrightarrow> unat (tot_len (hd ps)) = length (chain_data ps)"
  by (induction ps) (auto split: list.splits)

lemma tot_ok_append: "tot_ok (xs @ ys) \<Longrightarrow> tot_ok ys"
  by (induction xs) auto

section \<open>Reading: proofs\<close>

lemma unat_minus_le_u16: "(b :: u16) \<le> a \<Longrightarrow> unat (a - b) = unat a - unat b"
  by (simp add: unat_sub)

lemma unat_plus_less_u16: "unat (a :: u16) + unat b < 65536 \<Longrightarrow> unat (a + b) = unat a + unat b"
  by (simp add: unat_plus_u16)

lemma copy_partial_loop_eq:
  fixes l offset left c :: u16
  defines "s \<equiv> \<lambda>ps l offset. take (unat l) (drop (unat offset) (chain_data ps))"
  assumes "list_all wf_buf ps" and "unat left + unat l < 65536"
    and "unat left + length (s ps l offset) \<le> length dst"
  shows "copy_partial_loop ps dst l offset left c =
    (c + of_nat (length (s ps l offset)), memcpy dst (unat left) (s ps l offset))"
  using assms(2-)
proof (induction ps arbitrary: dst l offset left c)
  case Nil
  then show ?case by (simp add: s_def)
next
  case (Cons p ps)
  have wf: "wf_buf p" "list_all wf_buf ps" using Cons.prems by auto
  show ?case
  proof (cases "l = 0")
    case True
    then show ?thesis by (simp add: s_def)
  next
    case l: False
    show ?thesis
    proof (cases "offset \<noteq> 0 \<and> offset \<ge> len p")
      case True
      have "s (p # ps) l offset = s ps l (offset - len p)"
        using wf True by (simp add: s_def unat_minus_le_u16 word_le_nat_alt)
      then show ?thesis
        using True l Cons.IH [OF wf(2), of left l "offset - len p" dst c] Cons.prems by simp
    next
      case False
      then have ol: "offset \<le> len p"
        by (cases "offset = 0") auto
      define n where "n = (if len p - offset > l then l else len p - offset)"
      have nl: "unat n = min (unat l) (unat (len p) - unat offset)"
        by (simp add: n_def word_less_nat_alt unat_minus_le_u16 [OF ol])
      have nle: "n \<le> l" using nl by (simp add: word_le_nat_alt)
      let ?x = "payload_at p (unat offset) (unat n)"
      have x: "?x = take (unat l) (drop (unat offset) (pdata p))"
      proof -
        have "unat offset + unat n \<le> unat (len p)"
          using nl ol by (simp add: word_le_nat_alt)
        then have "?x = take (unat n) (drop (unat offset) (pdata p))"
          by (rule payload_at_pdata [OF wf(1)])
        also have "\<dots> = take (unat l) (drop (unat offset) (pdata p))"
          using wf(1) by (simp add: nl min_def)
        finally show ?thesis .
      qed
      have lx: "length ?x = unat n"
        using x nl wf(1) by simp
      have s: "s (p # ps) l offset = ?x @ s ps (l - n) 0"
        using wf(1) ol nl unfolding x
        by (auto simp: s_def unat_minus_le_u16 [OF nle] min_def word_le_nat_alt)
      have ln: "unat (left + n) = unat left + unat n"
        using Cons.prems(2) nle by (intro unat_plus_less_u16) (simp add: word_le_nat_alt)
      have room: "unat left + unat n \<le> length dst"
        using Cons.prems(3) s lx by simp
      have "copy_partial_loop (p # ps) dst l offset left c =
          copy_partial_loop ps (memcpy dst (unat left) ?x) (l - n) 0 (left + n) (c + n)"
        using l False by (auto simp: n_def Let_def)
      also have "\<dots> = (c + n + of_nat (length (s ps (l - n) 0)),
          memcpy (memcpy dst (unat left) ?x) (unat (left + n)) (s ps (l - n) 0))"
      proof (rule Cons.IH [OF wf(2)])
        show "unat (left + n) + unat (l - n) < 65536"
          using Cons.prems(2) ln nle by (simp add: unat_minus_le_u16 word_le_nat_alt)
        show "unat (left + n) + length (s ps (l - n) 0) \<le> length (memcpy dst (unat left) ?x)"
          using Cons.prems(3) ln s lx room by (simp add: length_memcpy)
      qed
      also have "memcpy (memcpy dst (unat left) ?x) (unat (left + n)) (s ps (l - n) 0) =
          memcpy dst (unat left) (s (p # ps) l offset)"
        using memcpy_memcpy [of "unat left" ?x dst] room by (simp add: ln lx s)
      also have "c + n + of_nat (length (s ps (l - n) 0)) = c + of_nat (length (s (p # ps) l offset))"
        by (simp add: s lx add.assoc)
      finally show ?thesis .
    qed
  qed
qed

lemma pbuf_copy_partial_eq:
  fixes l offset :: u16
  defines "s \<equiv> \<lambda>ps. take (unat l) (drop (unat offset) (chain_data ps))"
  assumes "list_all wf_buf ps" and "length (s ps) \<le> length dst"
  shows "pbuf_copy_partial ps dst l offset = (of_nat (length (s ps)), memcpy dst 0 (s ps))"
  using copy_partial_loop_eq [OF assms(2), of 0 l offset dst 0] assms(3)
  by (auto simp: pbuf_copy_partial_def s_def)

lemma pbuf_skip_constE:
  assumes "list_all wf_buf ps"
  obtains front q k where "pbuf_skip_const ps offset = (q, k)" and "ps = front @ q"
    and "unat offset = length (chain_data front) + unat k" and "q = [] \<or> k < len (hd q)"
proof -
  have "\<exists>front q k. pbuf_skip_const ps offset = (q, k) \<and> ps = front @ q \<and>
      unat offset = length (chain_data front) + unat k \<and> (q = [] \<or> k < len (hd q))"
    using assms
  proof (induction ps arbitrary: offset)
    case (Cons p ps)
    show ?case
    proof (cases "len p \<le> offset")
      case True
      obtain front q k where "pbuf_skip_const ps (offset - len p) = (q, k)" "ps = front @ q"
        "unat (offset - len p) = length (chain_data front) + unat k" "q = [] \<or> k < len (hd q)"
        using Cons.IH [of "offset - len p"] Cons.prems by auto
      then show ?thesis
        using True Cons.prems
        by (intro exI [of _ "p # front"] exI [of _ q] exI [of _ k])
          (auto simp: unat_minus_le_u16 word_le_nat_alt)
    next
      case False
      then show ?thesis
        by (intro exI [of _ "[]"] exI [of _ "p # ps"] exI [of _ offset]) auto
    qed
  qed auto
  then show thesis using that by blast
qed

lemma pbuf_try_get_at_eq:
  assumes "list_all wf_buf ps"
  shows "pbuf_try_get_at ps offset =
    (if unat offset < length (chain_data ps) then Some (chain_data ps ! unat offset) else None)"
proof -
  obtain front q k where sk: "pbuf_skip_const ps offset = (q, k)" and ps: "ps = front @ q"
    and off: "unat offset = length (chain_data front) + unat k" and q: "q = [] \<or> k < len (hd q)"
    using pbuf_skip_constE [OF assms] .
  show ?thesis
  proof (cases q)
    case Nil
    then show ?thesis using sk ps off by (simp add: pbuf_try_get_at_def)
  next
    case (Cons b bs)
    have "wf_buf b" "k < len b" using assms ps Cons q by auto
    then have "p_mem b ! (nat (p_off b) + unat k) = pdata b ! unat k" "unat k < length (pdata b)"
      by (auto simp: pdata_def payload_at_def wf_buf_def word_less_nat_alt)
    then show ?thesis
      using sk ps off Cons \<open>k < len b\<close> by (auto simp: pbuf_try_get_at_def nth_append)
  qed
qed

lemma pbuf_get_at_eq:
  "list_all wf_buf ps \<Longrightarrow> unat offset < length (chain_data ps) \<Longrightarrow>
   pbuf_get_at ps offset = chain_data ps ! unat offset"
  by (simp add: pbuf_get_at_def pbuf_try_get_at_eq)

section \<open>Comparing and searching: proofs\<close>

lemma memcmp_loop_zero_iff:
  "memcmp_loop q start s2 i k = 0 \<longleftrightarrow>
     (\<forall>j < k. pbuf_get_at q (start + of_nat (i + j)) = s2 ! (i + j))"
proof (induction k arbitrary: i)
  case (Suc k)
  have nz: "(of_nat (min (i + 1) 0xFFFF) :: u16) \<noteq> 0"
  proof -
    have "unat (of_nat (min (i + 1) 0xFFFF) :: u16) = min (i + 1) 0xFFFF"
      by (rule unat_of_nat_u16) (simp add: min_def)
    then show ?thesis by (metis add_is_0 min_def one_neq_zero unsigned_0 zero_neq_numeral)
  qed
  have "(\<forall>j < Suc k. P (i + j)) \<longleftrightarrow> P i \<and> (\<forall>j < k. P (Suc i + j))" for P
    by (auto simp: less_Suc_eq_0_disj)
  from this [of "\<lambda>m. pbuf_get_at q (start + of_nat m) = s2 ! m"] show ?case
    using nz Suc.IH [of "Suc i"] by simp
qed simp

text \<open>\<open>s2\<close> occurs at offset \<open>j\<close> of the data.\<close>

definition occurs_at :: "u8 list \<Rightarrow> u8 list \<Rightarrow> nat \<Rightarrow> bool" where
  "occurs_at xs d j \<longleftrightarrow> j + length xs \<le> length d \<and> take (length xs) (drop j d) = xs"

lemma pbuf_memcmp_zero_iff:
  assumes wf: "list_all wf_buf ps" "tot_ok ps" "ps \<noteq> []" and n: "unat n \<le> length s2"
  shows "pbuf_memcmp ps offset s2 n = 0 \<longleftrightarrow> occurs_at (take (unat n) s2) (chain_data ps) (unat offset)"
proof -
  let ?d = "chain_data ps"
  have tl: "unat (tot_len (hd ps)) = length ?d" using tot_ok_length [OF wf(2,1,3)] .
  show ?thesis
  proof (cases "unat offset + unat n \<le> length ?d")
    case False
    then show ?thesis using n tl by (auto simp: pbuf_memcmp_def occurs_at_def)
  next
    case True
    obtain front q k where sk: "pbuf_skip_const ps offset = (q, k)" and ps: "ps = front @ q"
      and off: "unat offset = length (chain_data front) + unat k"
      using pbuf_skip_constE [OF wf(1)] .
    have d: "length ?d < 65536" using tl unat_u16_less [of "tot_len (hd ps)"] by simp
    have get: "pbuf_get_at q (k + of_nat j) = ?d ! (unat offset + j)" if "j < unat n" for j
    proof -
      have j: "unat (of_nat j :: u16) = j"
        by (rule unat_of_nat_u16) (rule less_trans [OF that unat_u16_less])
      have kj: "unat (k + of_nat j) = unat k + j"
        using that True off d j by (subst unat_plus_less_u16) auto
      have "pbuf_get_at q (k + of_nat j) = chain_data q ! (unat k + j)"
        using wf(1) ps that True off by (subst pbuf_get_at_eq) (auto simp: kj)
      then show ?thesis using ps off by (simp add: nth_append)
    qed
    have "pbuf_memcmp ps offset s2 n = memcmp_loop q k s2 0 (unat n)"
      using True tl sk by (simp add: pbuf_memcmp_def)
    then have "pbuf_memcmp ps offset s2 n = 0 \<longleftrightarrow> (\<forall>j < unat n. ?d ! (unat offset + j) = s2 ! j)"
      by (simp add: memcmp_loop_zero_iff get)
    also have "\<dots> \<longleftrightarrow> take (unat n) (drop (unat offset) ?d) = take (unat n) s2"
      using True n by (simp add: list_eq_iff_nth_eq)
    finally show ?thesis using True n by (simp add: occurs_at_def)
  qed
qed

lemma memfind_loop_eq:
  assumes "\<And>j. j \<le> mx \<Longrightarrow> pbuf_memcmp p j mem ml = 0 \<longleftrightarrow> P (unat j)"
    and "i \<le> mx" and "mx = 0xFFFF \<longrightarrow> P (unat i)"
  shows "\<exists>r. memfind_loop p mem ml mx i = Some r \<and>
    (if \<exists>j \<ge> unat i. j \<le> unat mx \<and> P j
     then P (unat r) \<and> i \<le> r \<and> r \<le> mx \<and> (\<forall>j. unat i \<le> j \<and> j < unat r \<longrightarrow> \<not> P j)
     else r = 0xFFFF)"
  using assms(2,3)
proof (induction "unat mx - unat i" arbitrary: i rule: less_induct)
  case less
  show ?case
  proof (cases "P (unat i)")
    case True
    then have "memfind_loop p mem ml mx i = Some i"
      using less.prems assms(1) by (subst memfind_loop.simps) simp
    then show ?thesis
      using True less.prems by (intro exI [of _ i]) (auto simp: word_le_nat_alt)
  next
    case False
    then have mx: "mx \<noteq> 0xFFFF" using less.prems by blast
    have step: "memfind_loop p mem ml mx i = memfind_loop p mem ml mx (i + 1)"
      using False less.prems assms(1) by (subst memfind_loop.simps) simp
    have mxl: "unat mx < 65535"
    proof -
      have "unat mx \<noteq> 65535" using mx by (simp add: word_unat_eq_iff)
      then show ?thesis using unat_u16_less [of mx] by linarith
    qed
    have i1: "unat (i + 1) = Suc (unat i)"
      using less.prems(1) mxl by (subst unat_plus_less_u16) (simp_all add: word_le_nat_alt)
    have split: "(\<exists>j \<ge> unat i. j \<le> unat mx \<and> P j) \<longleftrightarrow> (\<exists>j \<ge> Suc (unat i). j \<le> unat mx \<and> P j)"
      using False by (metis le_eq_less_or_eq Suc_leI Suc_leD)
    show ?thesis
    proof (cases "i + 1 \<le> mx")
      case True
      then have "unat mx - unat (i + 1) < unat mx - unat i"
        using i1 by (simp add: word_le_nat_alt)
      then obtain r where r: "memfind_loop p mem ml mx (i + 1) = Some r"
        "if \<exists>j \<ge> unat (i + 1). j \<le> unat mx \<and> P j
         then P (unat r) \<and> i + 1 \<le> r \<and> r \<le> mx \<and> (\<forall>j. unat (i + 1) \<le> j \<and> j < unat r \<longrightarrow> \<not> P j)
         else r = 0xFFFF"
        using less.hyps [of "i + 1"] True mx by blast
      show ?thesis
      proof (intro exI [of _ r] conjI)
        show "memfind_loop p mem ml mx i = Some r" using step r(1) by simp
        show "if \<exists>j \<ge> unat i. j \<le> unat mx \<and> P j
           then P (unat r) \<and> i \<le> r \<and> r \<le> mx \<and> (\<forall>j. unat i \<le> j \<and> j < unat r \<longrightarrow> \<not> P j)
           else r = 0xFFFF"
        proof (cases "\<exists>j \<ge> Suc (unat i). j \<le> unat mx \<and> P j")
          case True
          then have c: "\<exists>j \<ge> unat (i + 1). j \<le> unat mx \<and> P j" unfolding i1 .
          have "P (unat r) \<and> i + 1 \<le> r \<and> r \<le> mx \<and> (\<forall>j. unat (i + 1) \<le> j \<and> j < unat r \<longrightarrow> \<not> P j)"
            using r(2) unfolding if_P [OF c] .
          then have r': "P (unat r)" "Suc (unat i) \<le> unat r" "r \<le> mx"
            "\<And>j. Suc (unat i) \<le> j \<Longrightarrow> j < unat r \<Longrightarrow> \<not> P j"
            unfolding i1 word_le_nat_alt by blast+
          have "\<not> P j" if "unat i \<le> j" "j < unat r" for j
            using that False r'(4) [of j] by (cases "j = unat i") auto
          moreover have "i \<le> r" using r'(2) by (simp add: word_le_nat_alt)
          ultimately show ?thesis using r'(1,3) True unfolding split by metis
        next
          case False
          then have c: "\<not> (\<exists>j \<ge> unat (i + 1). j \<le> unat mx \<and> P j)" unfolding i1 .
          have "r = 0xFFFF" using r(2) unfolding if_not_P [OF c] .
          then show ?thesis unfolding split if_not_P [OF False] .
        qed
      qed
    next
      case False': False
      then have "unat mx = unat i" using i1 less.prems(1) by (simp add: word_le_nat_alt)
      moreover have "memfind_loop p mem ml mx (i + 1) = Some 0xFFFF"
        using False' by (subst memfind_loop.simps) simp
      ultimately show ?thesis using step False by (auto dest: le_antisym)
    qed
  qed
qed

section \<open>Writing: proofs\<close>

text \<open>What writing to the payload does not change: everything but the bytes in \<open>p_mem\<close>.\<close>

definition shape :: "pbuf \<Rightarrow> pbuf \<times> nat" where
  "shape b = (b\<lparr>p_mem := []\<rparr>, length (p_mem b))"

lemma shape_fields:
  assumes "shape a = shape b"
  shows "len a = len b" and "tot_len a = tot_len b" and "wf_buf a = wf_buf b"
proof -
  have m: "a\<lparr>p_mem := []\<rparr> = b\<lparr>p_mem := []\<rparr>" "length (p_mem a) = length (p_mem b)"
    using assms by (simp_all add: shape_def)
  have "len (a\<lparr>p_mem := []\<rparr>) = len (b\<lparr>p_mem := []\<rparr>)" "tot_len (a\<lparr>p_mem := []\<rparr>) = tot_len (b\<lparr>p_mem := []\<rparr>)"
    "p_off (a\<lparr>p_mem := []\<rparr>) = p_off (b\<lparr>p_mem := []\<rparr>)"
    by (simp_all only: m(1))
  then show "len a = len b" "tot_len a = tot_len b" "wf_buf a = wf_buf b"
    using m(2) by (simp_all add: wf_buf_def)
qed

lemma shape_wf: "map shape xs = map shape ys \<Longrightarrow> list_all wf_buf xs = list_all wf_buf ys"
proof (induction xs arbitrary: ys)
  case (Cons a xs)
  then obtain b zs where "ys = b # zs" "shape a = shape b" "map shape xs = map shape zs" by auto
  then show ?case using Cons.IH shape_fields(3) [of a b] by auto
qed simp

lemma shape_store_at [simp]:
  "wf_buf b \<Longrightarrow> i + length xs \<le> unat (len b) \<Longrightarrow> shape (store_at b i xs) = shape b"
  by (simp add: shape_def store_at_def wf_buf_def length_memcpy)

lemma memcpy_whole: "length xs = length d \<Longrightarrow> memcpy (d @ r) 0 (xs @ ys) = xs @ memcpy r 0 ys"
  by (simp add: memcpy_def)

lemma take_loop_eq:
  assumes "list_all wf_buf ps" and "n \<le> length (chain_data ps)" and "c + n \<le> length dataptr"
  shows "\<exists>qs. take_loop ps dataptr n c = Inr (0, c + n, qs) \<and> map shape qs = map shape ps \<and>
    chain_data qs = memcpy (chain_data ps) 0 (take n (drop c dataptr))"
  using assms
proof (induction ps arbitrary: n c)
  case (Cons p ps)
  have wf: "wf_buf p" "list_all wf_buf ps" using Cons.prems by auto
  show ?case
  proof (cases "n = 0")
    case False
    define k where "k = min n (unat (len p))"
    let ?x = "take k (drop c dataptr)" and ?y = "take (n - k) (drop (c + k) dataptr)"
    have lx: "length ?x = k" using Cons.prems(3) by (auto simp: k_def)
    obtain qs where qs: "take_loop ps dataptr (n - k) (c + k) = Inr (0, c + k + (n - k), qs)"
      "map shape qs = map shape ps" "chain_data qs = memcpy (chain_data ps) 0 ?y"
    proof -
      have "n - k \<le> length (chain_data ps)"
        using Cons.prems(2) wf(1) unfolding k_def min_def by auto
      moreover have "c + k + (n - k) \<le> length dataptr" using Cons.prems(3) by (simp add: k_def)
      ultimately show thesis using Cons.IH [OF wf(2), of "n - k" "c + k"] that by blast
    qed
    have xy: "take n (drop c dataptr) = ?x @ ?y"
      using take_add [of k "n - k" "drop c dataptr"] by (simp add: k_def add.commute)
    have "take_loop (p # ps) dataptr n c = Inr (0, c + n, store_at p 0 ?x # qs)"
      using False qs(1) by (auto simp: k_def min_def)
    moreover have "shape (store_at p 0 ?x) = shape p"
      using wf(1) lx by (intro shape_store_at) (auto simp: k_def)
    moreover have "memcpy (pdata p) 0 ?x @ memcpy (chain_data ps) 0 ?y =
        memcpy (pdata p @ chain_data ps) 0 (?x @ ?y)"
    proof (cases "n \<le> unat (len p)")
      case True
      then show ?thesis using lx wf(1) by (simp add: k_def memcpy_append1)
    next
      case False
      then have "length ?x = length (pdata p)" using lx wf(1) by (simp add: k_def)
      then show ?thesis by (simp add: memcpy_whole) (simp add: memcpy_def)
    qed
    ultimately show ?thesis
      using qs wf(1) lx by (auto simp: xy k_def)
  qed simp
qed simp

lemma pbuf_take_eq:
  assumes "list_all wf_buf ps" and "tot_ok ps" and "ps \<noteq> []" and "unat l \<le> length dataptr"
    and "unat l \<le> length (chain_data ps)"
  shows "\<exists>qs. pbuf_take ps dataptr l = Inr (ERR_OK, qs) \<and> map shape qs = map shape ps \<and>
    chain_data qs = memcpy (chain_data ps) 0 (take (unat l) dataptr)"
proof -
  have "l \<le> tot_len (hd ps)"
    using tot_ok_length [OF assms(2,1,3)] assms(5) by (simp add: word_le_nat_alt)
  moreover obtain qs where "take_loop ps dataptr (unat l) 0 = Inr (0, unat l, qs)"
    "map shape qs = map shape ps" "chain_data qs = memcpy (chain_data ps) 0 (take (unat l) dataptr)"
    using take_loop_eq [OF assms(1), of "unat l" 0 dataptr] assms(4,5) by auto
  ultimately show ?thesis using assms(3) by (simp add: pbuf_take_def)
qed

lemma pbuf_put_at_eq:
  assumes "list_all wf_buf ps"
  shows "map shape (pbuf_put_at ps offset c) = map shape ps \<and>
    chain_data (pbuf_put_at ps offset c) =
      (if unat offset < length (chain_data ps) then memcpy (chain_data ps) (unat offset) [c]
       else chain_data ps)"
proof -
  obtain front q k where sk: "pbuf_skip_const ps offset = (q, k)" and ps: "ps = front @ q"
    and off: "unat offset = length (chain_data front) + unat k" and q: "q = [] \<or> k < len (hd q)"
    using pbuf_skip_constE [OF assms] .
  show ?thesis
  proof (cases q)
    case Nil
    then show ?thesis using sk ps off by (simp add: pbuf_put_at_def pbuf_skip_def)
  next
    case (Cons b bs)
    have b: "wf_buf b" "unat k + 1 \<le> unat (len b)" "k < len b"
      using assms ps Cons q by (auto simp: word_less_nat_alt)
    have "pbuf_put_at ps offset c = front @ store_at b (unat k) [c] # bs"
      using sk ps Cons b(3) by (simp add: pbuf_put_at_def pbuf_skip_def)
    moreover have "memcpy (chain_data ps) (unat offset) [c] =
        chain_data front @ memcpy (pdata b) (unat k) [c] @ chain_data bs"
      using ps Cons off b by (simp add: memcpy_append2 memcpy_append1)
    ultimately show ?thesis using ps Cons b off by simp
  qed
qed

lemma pbuf_take_at_eq:
  assumes wf: "list_all wf_buf ps" and tot: "tot_ok ps" and d: "unat l \<le> length dataptr"
  shows "\<exists>e qs. pbuf_take_at ps dataptr l offset = Inr (e, qs) \<and> map shape qs = map shape ps \<and>
    (if unat offset < length (chain_data ps) \<and> unat offset + unat l \<le> length (chain_data ps)
     then e = ERR_OK \<and> chain_data qs = memcpy (chain_data ps) (unat offset) (take (unat l) dataptr)
     else e = ERR_MEM \<and> qs = ps)"
proof -
  obtain front q k where sk: "pbuf_skip_const ps offset = (q, k)" and ps: "ps = front @ q"
    and off: "unat offset = length (chain_data front) + unat k" and q: "q = [] \<or> k < len (hd q)"
    using pbuf_skip_constE [OF wf] .
  show ?thesis
  proof (cases q)
    case Nil
    then show ?thesis using sk ps off by (simp add: pbuf_take_at_def pbuf_skip_def)
  next
    case (Cons b bs)
    have kb: "wf_buf b" "k < len b" "unat k < unat (len b)" "list_all wf_buf bs"
      using wf ps Cons q by (auto simp: word_less_nat_alt)
    have tq: "tot_ok (b # bs)" using tot_ok_append tot ps Cons by blast
    have tb: "unat (tot_len b) = length (chain_data (b # bs))"
      using tot_ok_length [OF tq] kb by simp
    have lt: "unat offset < length (chain_data ps)" using ps Cons off kb by simp
    have le: "unat offset + unat l \<le> length (chain_data ps) \<longleftrightarrow> unat k + unat l \<le> unat (tot_len b)"
      using ps Cons off tb by auto
    show ?thesis
    proof (cases "unat k + unat l \<le> unat (tot_len b)")
      case False
      then show ?thesis using sk ps Cons le by (simp add: pbuf_take_at_def pbuf_skip_def)
    next
      case True
      define n where "n = min (unat (len b) - unat k) (unat l)"
      let ?x = "take n dataptr" and ?b = "store_at b (unat k) (take n dataptr)"
      have lx: "length ?x = n" using d by (simp add: n_def)
      have fit: "unat k + length ?x \<le> unat (len b)" using lx kb by (auto simp: n_def)
      have nu: "unat (of_nat n :: u16) = n" "of_nat n \<le> l"
      proof -
        have "n \<le> unat l" by (simp add: n_def)
        then show "unat (of_nat n :: u16) = n" by (intro unat_of_nat_u16 le_less_trans [OF _ unat_u16_less])
        with \<open>n \<le> unat l\<close> show "of_nat n \<le> l" by (simp add: word_le_nat_alt)
      qed
      have rem: "unat (l - of_nat n) = unat l - n" using nu by (simp add: unat_minus_le_u16)
      define r where "r = take (unat l - n) (drop n dataptr)"
      have split: "take (unat l) dataptr = ?x @ r"
        using take_add [of n "unat l - n" dataptr] by (simp add: r_def n_def)
      have unf: "pbuf_take_at ps dataptr l offset =
         (if l - of_nat n > 0 then
            obind (pbuf_take bs (drop n dataptr) (l - of_nat n)) (\<lambda>(e, bs). Inr (e, front @ ?b # bs))
          else Inr (ERR_OK, front @ ?b # bs))"
        using sk ps Cons True kb(2) by (simp add: pbuf_take_at_def pbuf_skip_def n_def Let_def)
      have "\<exists>cs. pbuf_take_at ps dataptr l offset = Inr (ERR_OK, front @ ?b # cs) \<and>
          map shape cs = map shape bs \<and> chain_data cs = memcpy (chain_data bs) 0 r"
      proof (cases "l - of_nat n > 0")
        case False
        then have "unat l \<le> n" using rem by (simp add: word_less_nat_alt)
        then show ?thesis using unf False by (simp add: r_def)
      next
        case gt: True
        then have nl: "n < unat l" using rem by (simp add: word_less_nat_alt)
        then have nk: "n = unat (len b) - unat k" by (simp add: n_def)
        then have fits: "unat (l - of_nat n) \<le> length (chain_data bs)"
          using True tb kb rem by simp
        then have "bs \<noteq> []" using nl rem by auto
        then obtain cs where "pbuf_take bs (drop n dataptr) (l - of_nat n) = Inr (ERR_OK, cs)"
          "map shape cs = map shape bs" "chain_data cs = memcpy (chain_data bs) 0 r"
        proof -
          have "unat (l - of_nat n) \<le> length (drop n dataptr)" using d rem by simp
          then show thesis
            using pbuf_take_eq [OF kb(4) _ \<open>bs \<noteq> []\<close> _ fits, of "drop n dataptr"] tq that
            by (auto simp: r_def rem)
        qed
        then show ?thesis using unf gt by auto
      qed
      then obtain cs where cs: "pbuf_take_at ps dataptr l offset = Inr (ERR_OK, front @ ?b # cs)"
        "map shape cs = map shape bs" "chain_data cs = memcpy (chain_data bs) 0 r" by blast
      have "memcpy (chain_data ps) (unat offset) (?x @ r) =
          chain_data front @ memcpy (pdata b @ chain_data bs) (unat k) (?x @ r)"
        using ps Cons off by (simp add: memcpy_append2)
      also have "memcpy (pdata b @ chain_data bs) (unat k) (?x @ r) =
          memcpy (pdata b) (unat k) ?x @ memcpy (chain_data bs) 0 r"
      proof (cases "r = []")
        case True
        then show ?thesis using fit kb by (simp add: memcpy_append1)
      next
        case False
        then have "n < unat l" using d by (auto simp: r_def)
        then have e: "unat k + n = length (pdata b)" using kb by (auto simp: n_def)
        then show ?thesis
          using lx by (simp add: memcpy_def add.assoc [symmetric])
      qed
      finally show ?thesis
        using cs le True lt split fit kb(1) ps Cons by (intro exI conjI) auto
    qed
  qed
qed

section \<open>Copying between chains: proofs\<close>

definition no_empty :: "pbuf list \<Rightarrow> bool" where
  "no_empty ps \<longleftrightarrow> list_all (\<lambda>b. len b \<noteq> 0) ps"

lemma not_is_queue: "tot_ok ps \<Longrightarrow> no_empty ps \<Longrightarrow> \<not> is_queue ps"
proof (cases ps)
  case (Cons b bs)
  assume t: "tot_ok ps" and n: "no_empty ps"
  show ?thesis
  proof (cases bs)
    case (Cons c cs)
    have "len c \<noteq> 0" using n Cons \<open>ps = b # bs\<close> by (simp add: no_empty_def)
    then have "unat (len c) \<noteq> 0" by (simp add: unat_eq_zero)
    moreover have "unat (tot_len c) \<ge> unat (len c)" "unat (tot_len b) = unat (len b) + unat (tot_len c)"
      using t Cons \<open>ps = b # bs\<close> by auto
    ultimately have "unat (len b) \<noteq> unat (tot_len b)" by linarith
    then show ?thesis using \<open>ps = b # bs\<close> by (auto simp: is_queue_def)
  qed (simp add: Cons is_queue_def)
qed (simp add: is_queue_def)

lemma copy_pbuf_loop_eq:
  assumes "list_all wf_buf to" "tot_ok to" "no_empty to" "to \<noteq> []"
    and "list_all wf_buf from" "tot_ok from" "no_empty from" "from \<noteq> []"
    and "offset_to \<le> unat (len (hd to))" and "offset_from \<le> unat (len (hd from))"
    and "offset_to + unat copy_len \<le> length (chain_data to)"
    and "offset_from + unat copy_len \<le> length (chain_data from)"
  shows "\<exists>to'. copy_pbuf_loop to from offset_to offset_from copy_len = Inr (ERR_OK, to') \<and>
    map shape to' = map shape to \<and>
    chain_data to' = memcpy (chain_data to) offset_to
      (take (unat copy_len) (drop offset_from (chain_data from)))"
  using assms
proof (induction to "from" offset_to offset_from copy_len rule: copy_pbuf_loop.induct)
  case (3 t ts f fs offset_to offset_from copy_len)
  define n where "n = unat copy_len"
  define l where "l = copy_amount t f offset_to offset_from copy_len"
  have l: "l = min n (min (unat (len f) - offset_from) (unat (len t) - offset_to))"
    using "3.prems" by (simp add: l_def n_def copy_amount_eq)
  have wf: "wf_buf t" "wf_buf f" "list_all wf_buf ts" "list_all wf_buf fs"
    using "3.prems" by auto
  define t' where "t' = store_at t offset_to (payload_at f offset_from l)"
  define ot where "ot = offset_to + l"
  define fr where "fr = offset_from + l"
  define cl where "cl = copy_len - of_nat l"
  have bounds: "ot \<le> unat (len t)" "fr \<le> unat (len f)" "l \<le> n"
    using l "3.prems"(9,10) by (auto simp: ot_def fr_def)
  have "unat (of_nat l :: u16) = l"
    using le_less_trans [OF bounds(3) [unfolded n_def] unat_u16_less] by (rule unat_of_nat_u16)
  then have cl: "unat cl = n - l"
    using bounds(3) by (simp add: cl_def n_def unat_minus_le_u16 word_le_nat_alt)
  let ?x = "payload_at f offset_from l"
  have x: "?x = take l (drop offset_from (pdata f))"
    using bounds(2) by (intro payload_at_pdata [OF wf(2)]) (simp add: fr_def)
  have lx: "length ?x = l" using x bounds(2) wf(2) by (simp add: fr_def)
  have t': "shape t' = shape t" "pdata t' = memcpy (pdata t) offset_to ?x" "len t' = len t"
    "tot_len t' = tot_len t" "wf_buf t'"
    using wf(1) lx bounds(1) by (simp_all add: t'_def ot_def)
  define from' where "from' = (if fr \<ge> unat (len f) then fs else f # fs)"
  define fr' where "fr' = (if fr \<ge> unat (len f) then 0 else fr)"
  define full where "full = (ot = unat (len t))"
  define to1 where "to1 = (if full then ts else t' # ts)"
  have dfrom: "drop fr' (chain_data from') = drop fr (chain_data (f # fs))"
    using bounds(2) wf(2) by (auto simp: from'_def fr'_def)
  have D': "chain_data (t' # ts) = memcpy (chain_data (t # ts)) offset_to ?x"
    using t'(2) lx bounds(1) wf(1) by (simp add: memcpy_append1 ot_def)
  have split: "take n (drop offset_from (chain_data (f # fs))) =
      ?x @ take (n - l) (drop fr' (chain_data from'))"
  proof -
    have "take l (drop offset_from (chain_data (f # fs))) = ?x"
      using x bounds(2) wf(2) by (simp add: fr_def)
    moreover have "take n (drop offset_from xs) = take l (drop offset_from xs) @ take (n - l) (drop fr xs)"
      for xs :: "u8 list"
      using take_add [of l "n - l" "drop offset_from xs"] bounds(3) by (simp add: fr_def add.commute)
    ultimately show ?thesis unfolding dfrom by metis
  qed
  have qf: "\<not> is_queue from'" "tot_ok from'" "no_empty from'" "list_all wf_buf from'"
    using "3.prems" not_is_queue [of fs] not_is_queue [of "f # fs"]
    by (auto simp: from'_def no_empty_def)
  have tt': "tot_ok (t' # ts)" "no_empty (t' # ts)"
    using "3.prems" t' by (auto simp: no_empty_def)
  have qt: "\<not> is_queue to1" "tot_ok to1" "no_empty to1" "list_all wf_buf to1"
    using tt' not_is_queue [of ts] not_is_queue [of "t' # ts"] wf t'(5)
    by (auto simp: to1_def no_empty_def)
  have e1: "\<not> (from' = [] \<and> cl \<noteq> 0)"
  proof
    assume "from' = [] \<and> cl \<noteq> 0"
    then have "fs = []" "fr = unat (len f)" "n \<noteq> l" using bounds(2,3) cl by (auto simp: from'_def unat_eq_zero split: if_splits)
    then show False using "3.prems"(12) bounds(3) wf(2) by (simp add: fr_def n_def)
  qed
  have e2: "\<not> (to1 = [] \<and> cl \<noteq> 0)"
  proof
    assume "to1 = [] \<and> cl \<noteq> 0"
    then have "ts = []" "ot = unat (len t)" "n \<noteq> l" using bounds(3) cl by (auto simp: to1_def full_def unat_eq_zero split: if_splits)
    then show False using "3.prems"(11) bounds(3) wf(1) by (simp add: ot_def n_def)
  qed
  have pr: "(if unat (len f) \<le> fr then (fs, 0) else (f # fs, fr)) = (from', fr')"
    by (simp add: from'_def fr'_def)
  have unf: "copy_pbuf_loop (t # ts) (f # fs) offset_to offset_from copy_len =
      (if cl \<noteq> 0 then
         if full then obind (copy_pbuf_loop ts from' 0 fr' cl) (\<lambda>(e, ts). Inr (e, t' # ts))
         else copy_pbuf_loop (t' # ts) from' ot fr' cl
       else Inr (ERR_OK, t' # ts))"
    unfolding copy_pbuf_loop.simps(3) Let_def l_def [symmetric] t'_def [symmetric] ot_def [symmetric]
      fr_def [symmetric] cl_def [symmetric] pr prod.case t'(3) full_def [symmetric] to1_def [symmetric]
    using bounds(1,2) by (simp only: e1 e2 qf(1) qt(1) if_False not_True_eq_False)
  note IH = "3.IH" [OF l_def t'_def ot_def fr_def cl_def]
  show ?case
  proof (cases "cl = 0")
    case True
    then have "n = l" using cl bounds(3) by simp
    then have "take n (drop offset_from (chain_data (f # fs))) = ?x" using split by simp
    then have "chain_data (t' # ts) =
        memcpy (chain_data (t # ts)) offset_to (take n (drop offset_from (chain_data (f # fs))))"
      using D' by (simp only:)
    then show ?thesis
      unfolding n_def [symmetric] using unf True t'(1) by auto
  next
    case ncl: False
    have fne: "from' \<noteq> []" "to1 \<noteq> []" using e1 e2 ncl by auto
    have fr'_le: "fr' \<le> unat (len (hd from'))" by (auto simp: fr'_def from'_def)
    have flen: "fr' + unat cl \<le> length (chain_data from')"
      using "3.prems"(12) bounds(2,3) cl wf(2) by (auto simp: fr'_def from'_def fr_def n_def)
    have c: "\<not> \<not> ot \<le> unat (len t')" "\<not> \<not> fr \<le> unat (len f)" using bounds t' by auto
    have fulleq: "full = (ot = unat (len t'))" using t' by (simp add: full_def)
    show ?thesis
    proof (cases full)
      case True
      have "\<exists>to'. copy_pbuf_loop ts from' 0 fr' cl = Inr (ERR_OK, to') \<and> map shape to' = map shape ts \<and>
          chain_data to' = memcpy (chain_data ts) 0 (take (unat cl) (drop fr' (chain_data from')))"
      proof (rule IH(1) [OF c pr [symmetric] refl e1 fulleq to1_def e2 qf(1) qt(1) ncl True])
        show "0 + unat cl \<le> length (chain_data ts)"
          using "3.prems"(11) True cl wf(1) by (simp add: full_def ot_def n_def)
      qed (use e1 e2 qf qt True ncl fne fr'_le flen in \<open>auto simp: to1_def\<close>)
      then obtain to' where to': "copy_pbuf_loop ts from' 0 fr' cl = Inr (ERR_OK, to')"
        "map shape to' = map shape ts"
        "chain_data to' = memcpy (chain_data ts) 0 (take (unat cl) (drop fr' (chain_data from')))" by blast
      have "memcpy (chain_data (t # ts)) offset_to (take n (drop offset_from (chain_data (f # fs)))) =
          memcpy (chain_data (t' # ts)) ot (take (n - l) (drop fr' (chain_data from')))"
        unfolding split D' using memcpy_memcpy [of offset_to ?x "chain_data (t # ts)"] lx bounds(1) wf(1)
        by (simp add: ot_def)
      also have "\<dots> = pdata t' @ memcpy (chain_data ts) 0 (take (n - l) (drop fr' (chain_data from')))"
        using True t'(5,3) by (simp add: memcpy_append2 full_def)
      finally show ?thesis
        using unf ncl True to' t'(1) cl unfolding n_def [symmetric] by simp
    next
      case False
      have "\<exists>to'. copy_pbuf_loop (t' # ts) from' ot fr' cl = Inr (ERR_OK, to') \<and>
          map shape to' = map shape (t' # ts) \<and>
          chain_data to' = memcpy (chain_data (t' # ts)) ot (take (unat cl) (drop fr' (chain_data from')))"
      proof (rule IH(2) [OF c pr [symmetric] refl e1 fulleq to1_def e2 qf(1) qt(1) ncl False])
        show "ot + unat cl \<le> length (chain_data (t' # ts))"
          using "3.prems"(11) cl bounds(3) wf(1) t'(3,5) by (simp add: ot_def n_def)
        show "ot \<le> unat (len (hd (t' # ts)))" using bounds(1) t' by simp
      qed (use e1 e2 qf qt False ncl fne fr'_le flen in \<open>auto simp: to1_def\<close>)
      moreover have "memcpy (chain_data (t # ts)) offset_to (take n (drop offset_from (chain_data (f # fs)))) =
          memcpy (chain_data (t' # ts)) ot (take (n - l) (drop fr' (chain_data from')))"
        unfolding split D' using memcpy_memcpy [of offset_to ?x "chain_data (t # ts)"] lx bounds(1) wf(1)
        by (simp add: ot_def)
      ultimately show ?thesis
        using unf ncl False t'(1) cl unfolding n_def [symmetric] by auto
    qed
  qed
qed auto

section \<open>Correctness of reading and writing\<close>

text \<open>
  \<open>pbuf_copy_partial\<close> copies the \<open>len\<close> bytes of the packet from \<open>offset\<close> on (or as many as there
  are) to the start of the caller's buffer, whatever the segmentation, and returns their number.
\<close>

theorem pbuf_copy_partial_correct:
  fixes l offset :: u16
  assumes "list_all wf_buf ps"
    and "length (take (unat l) (drop (unat offset) (chain_data ps))) \<le> length dst"
  shows "pbuf_copy_partial ps dst l offset =
    (of_nat (length (take (unat l) (drop (unat offset) (chain_data ps)))),
     memcpy dst 0 (take (unat l) (drop (unat offset) (chain_data ps))))"
  using pbuf_copy_partial_eq [OF assms] .

text \<open>Two pbufs with the bytes 1, 2, 3 and 4, 5.\<close>

definition demo_chain :: "pbuf list" where
  "demo_chain =
    [\<lparr>p_next = Some (Pool 1), p_mem = [1, 2, 3], p_off = 0, tot_len = 5, len = 3, type_internal = 0x82,
      flags = 0, ref = 1, if_idx = 0\<rparr>,
     \<lparr>p_next = None, p_mem = [9, 4, 5], p_off = 1, tot_len = 2, len = 2, type_internal = 0x82,
      flags = 0, ref = 1, if_idx = 0\<rparr>]"

lemma demo_chain:
  "list_all wf_buf demo_chain" "tot_ok demo_chain" "demo_chain \<noteq> []" "no_empty demo_chain"
  "chain_data demo_chain = [1, 2, 3, 4, 5]"
  by (simp_all add: demo_chain_def wf_buf_def no_empty_def pdata_def payload_at_def)

theorem pbuf_copy_partial_correct_witness:
  "pbuf_copy_partial demo_chain [0, 0, 0] 3 1 = (3, [2, 3, 4])"
  using pbuf_copy_partial_correct [OF demo_chain(1), of 3 1 "[0, 0, 0]"]
  by (simp add: demo_chain(5) memcpy_def)

text \<open>
  C0. \<open>pbuf_get_contiguous\<close> returns the \<open>len\<close> bytes at \<open>offset\<close>, in place when one pbuf holds them
  and else in the caller's buffer, and NULL exactly when the buffer is too small or the packet does
  not reach that far.
\<close>

definition contiguous_bytes :: "contiguous \<Rightarrow> nat \<Rightarrow> u8 list option" where
  "contiguous_bytes c n =
     (case c of Null \<Rightarrow> None | InPlace b i \<Rightarrow> Some (payload_at b i n) | Copied buf \<Rightarrow> Some (take n buf))"

theorem pbuf_get_contiguous_correct:
  assumes wf: "list_all wf_buf ps" and buf: "bufsize \<le> length buffer"
  shows "contiguous_bytes (pbuf_get_contiguous ps buffer bufsize l offset) (unat l) =
    (if unat l \<le> bufsize \<and> unat offset < length (chain_data ps) \<and>
        unat offset + unat l \<le> length (chain_data ps)
     then Some (take (unat l) (drop (unat offset) (chain_data ps))) else None)"
proof -
  obtain front q k where sk: "pbuf_skip_const ps offset = (q, k)" and ps: "ps = front @ q"
    and off: "unat offset = length (chain_data front) + unat k" and q: "q = [] \<or> k < len (hd q)"
    using pbuf_skip_constE [OF wf] .
  show ?thesis
  proof (cases "ps = [] \<or> \<not> unat l \<le> bufsize \<or> q = []")
    case True
    then show ?thesis
      using sk ps off by (auto simp: pbuf_get_contiguous_def contiguous_bytes_def)
  next
    case False
    then obtain b bs where b: "q = b # bs" by (cases q) auto
    have wb: "wf_buf b" "list_all wf_buf q" "unat k < unat (len b)"
      using wf ps b q by (auto simp: word_less_nat_alt)
    have dr: "drop (unat offset) (chain_data ps) = drop (unat k) (chain_data q)"
      using ps off by simp
    show ?thesis
    proof (cases "unat k + unat l \<le> unat (len b)")
      case True
      then have "pbuf_get_contiguous ps buffer bufsize l offset = InPlace b (unat k)"
        using sk b False by (simp add: pbuf_get_contiguous_def)
      then show ?thesis
        using True False ps off b wb dr payload_at_pdata [OF wb(1) True]
        by (simp add: contiguous_bytes_def)
    next
      case False': False
      let ?s = "take (unat l) (drop (unat k) (chain_data q))"
      have ls: "length ?s \<le> length buffer" "length ?s < 65536"
        using buf False unat_u16_less [of l] by (auto simp del: unat_u16_less)
      have cp: "pbuf_copy_partial q buffer l k = (of_nat (length ?s), memcpy buffer 0 ?s)"
        using pbuf_copy_partial_eq [OF wb(2), of l k] ls(1) by simp
      have eq: "of_nat (length ?s) = l \<longleftrightarrow> unat k + unat l \<le> length (chain_data q)"
      proof -
        have "of_nat (length ?s) = l \<longleftrightarrow> length ?s = unat l"
          using unat_of_nat_u16 [OF ls(2)] by (metis word_unat_eq_iff)
        also have "\<dots> \<longleftrightarrow> unat k + unat l \<le> length (chain_data q)"
          using wb b by auto
        finally show ?thesis .
      qed
      have "pbuf_get_contiguous ps buffer bufsize l offset =
          (if unat k + unat l \<le> length (chain_data q) then Copied (memcpy buffer 0 ?s) else Null)"
        using sk b False False' cp eq by (simp add: pbuf_get_contiguous_def)
      moreover have "take (unat l) (memcpy buffer 0 ?s) = ?s" if "unat k + unat l \<le> length (chain_data q)"
        using that by (simp add: memcpy_def)
      ultimately show ?thesis
        using False ps off b wb dr by (auto simp: contiguous_bytes_def)
    qed
  qed
qed

theorem pbuf_get_contiguous_correct_witness:
  "contiguous_bytes (pbuf_get_contiguous demo_chain [0, 0, 0] 3 2 2) 2 = Some [3, 4]"
  using pbuf_get_contiguous_correct [OF demo_chain(1), of 3 "[0, 0, 0]" 2 2]
  by (simp add: demo_chain(5))

text \<open>
  \<open>pbuf_memfind\<close> terminates; it returns the least offset from \<open>start_offset\<close> on at which the
  searched bytes occur in the packet, across pbuf borders too, and 0xFFFF when there is none.
\<close>

theorem pbuf_memfind_first:
  assumes wf: "list_all wf_buf ps" "tot_ok ps" "ps \<noteq> []" and n: "unat n = length mem"
  shows "\<exists>r. pbuf_memfind ps mem n start = Some r \<and>
    (if \<exists>j \<ge> unat start. occurs_at mem (chain_data ps) j
     then occurs_at mem (chain_data ps) (unat r) \<and> start \<le> r \<and>
       (\<forall>j. unat start \<le> j \<and> j < unat r \<longrightarrow> \<not> occurs_at mem (chain_data ps) j)
     else r = 0xFFFF)"
proof -
  let ?P = "occurs_at mem (chain_data ps)" and ?mx = "tot_len (hd ps) - n"
  have tl: "unat (tot_len (hd ps)) = length (chain_data ps)" using tot_ok_length [OF wf(2,1,3)] .
  show ?thesis
  proof (cases "unat n + unat start \<le> length (chain_data ps)")
    case False
    then have "\<not> (\<exists>j \<ge> unat start. ?P j)" using n by (auto simp: occurs_at_def)
    then show ?thesis using False tl by (auto simp: pbuf_memfind_def)
  next
    case True
    have mx: "unat ?mx = length (chain_data ps) - length mem"
      using True tl n by (subst unat_minus_le_u16) (auto simp: word_le_nat_alt)
    have cmp: "pbuf_memcmp ps j mem n = 0 \<longleftrightarrow> ?P (unat j)" for j
      using pbuf_memcmp_zero_iff [OF wf, of n mem j] n by simp
    have le: "start \<le> ?mx" using True mx n by (simp add: word_le_nat_alt)
    have full: "?mx = 0xFFFF \<longrightarrow> ?P (unat start)"
    proof
      assume "?mx = 0xFFFF"
      then have "length (chain_data ps) - length mem = 65535" using mx by simp
      moreover have "length (chain_data ps) < 65536" using tl unat_u16_less [of "tot_len (hd ps)"] by simp
      ultimately have "mem = []" by (cases mem) auto
      then show "?P (unat start)" using True by (simp add: occurs_at_def)
    qed
    have ex: "(\<exists>j \<ge> unat start. j \<le> unat ?mx \<and> ?P j) \<longleftrightarrow> (\<exists>j \<ge> unat start. ?P j)"
      using mx by (auto simp: occurs_at_def)
    obtain r where r: "memfind_loop ps mem n ?mx start = Some r"
      "if \<exists>j \<ge> unat start. j \<le> unat ?mx \<and> ?P j
       then ?P (unat r) \<and> start \<le> r \<and> r \<le> ?mx \<and> (\<forall>j. unat start \<le> j \<and> j < unat r \<longrightarrow> \<not> ?P j)
       else r = 0xFFFF"
      using memfind_loop_eq [of ?mx ps mem n ?P start, OF cmp le full] by blast
    have "pbuf_memfind ps mem n start = Some r"
      using r(1) True tl by (simp add: pbuf_memfind_def)
    moreover have "if \<exists>j \<ge> unat start. ?P j
       then ?P (unat r) \<and> start \<le> r \<and> (\<forall>j. unat start \<le> j \<and> j < unat r \<longrightarrow> \<not> ?P j)
       else r = 0xFFFF"
      using r(2) unfolding ex by (cases "\<exists>j \<ge> unat start. ?P j") (simp_all only: if_True if_False, blast)
    ultimately show ?thesis by blast
  qed
qed

theorem pbuf_memfind_first_witness:
  "\<exists>r. pbuf_memfind demo_chain [3, 4] 2 0 = Some r \<and> occurs_at [3, 4] [1, 2, 3, 4, 5] (unat r)"
proof -
  have "occurs_at [3, 4] (chain_data demo_chain) 2"
    by (simp add: demo_chain(5) occurs_at_def)
  then have "\<exists>j \<ge> unat (0 :: u16). occurs_at [3, 4] (chain_data demo_chain) j" by auto
  with pbuf_memfind_first [OF demo_chain(1-3), of 2 "[3, 4]" 0] show ?thesis
    by (simp add: demo_chain(5)) blast
qed

text \<open>
  \<open>pbuf_take_at\<close> stores the caller's bytes at \<open>offset\<close> of the packet and changes no other byte
  and no field of the pbufs; it returns ERR_MEM and changes nothing when they do not fit.
\<close>

theorem pbuf_take_at_correct:
  assumes "list_all wf_buf ps" and "tot_ok ps" and "unat l \<le> length dataptr"
  shows "\<exists>e qs. pbuf_take_at ps dataptr l offset = Inr (e, qs) \<and> map shape qs = map shape ps \<and>
    (if unat offset < length (chain_data ps) \<and> unat offset + unat l \<le> length (chain_data ps)
     then e = ERR_OK \<and> chain_data qs = memcpy (chain_data ps) (unat offset) (take (unat l) dataptr)
     else e = ERR_MEM \<and> qs = ps)"
  using pbuf_take_at_eq [OF assms] .

theorem pbuf_take_at_correct_witness:
  "\<exists>qs. pbuf_take_at demo_chain [7, 8] 2 2 = Inr (ERR_OK, qs) \<and> chain_data qs = [1, 2, 7, 8, 5]"
  using pbuf_take_at_correct [OF demo_chain(1,2), of 2 "[7, 8]" 2]
  by (auto simp: demo_chain(5) memcpy_def)

text \<open>
  Copying between two chains without empty pbufs: when the source has \<open>copy_len\<close> bytes, the
  destination room for them at \<open>offset\<close>, and \<open>offset\<close> lies in its first pbuf, the loop terminates
  with ERR_OK and exactly those bytes of the destination have been replaced.
\<close>

theorem pbuf_copy_partial_pbuf_correct:
  assumes "list_all wf_buf to" "tot_ok to" "no_empty to" "to \<noteq> []"
    and "list_all wf_buf from" "tot_ok from" "no_empty from" "from \<noteq> []"
    and "offset \<le> len (hd to)"
    and "unat offset + unat copy_len \<le> length (chain_data to)"
    and "unat copy_len \<le> length (chain_data from)"
  shows "\<exists>to'. pbuf_copy_partial_pbuf to from copy_len offset = Inr (ERR_OK, to') \<and>
    map shape to' = map shape to \<and>
    chain_data to' = memcpy (chain_data to) (unat offset) (take (unat copy_len) (chain_data from))"
proof -
  have "copy_len \<le> tot_len (hd from)" "unat offset + unat copy_len \<le> unat (tot_len (hd to))"
    using assms tot_ok_length [OF assms(2,1,4)] tot_ok_length [OF assms(6,5,8)]
    by (auto simp: word_le_nat_alt)
  then have "pbuf_copy_partial_pbuf to from copy_len offset = copy_pbuf_loop to from (unat offset) 0 copy_len"
    using assms(4,8) by (simp add: pbuf_copy_partial_pbuf_def)
  then show ?thesis
    using copy_pbuf_loop_eq [OF assms(1-8), of "unat offset" 0 copy_len] assms(9-11)
    by (simp add: word_le_nat_alt)
qed

theorem pbuf_copy_partial_pbuf_correct_witness:
  "\<exists>to'. pbuf_copy_partial_pbuf demo_chain demo_chain 3 2 = Inr (ERR_OK, to') \<and>
     chain_data to' = [1, 2, 1, 2, 3]"
proof -
  have "\<exists>to'. pbuf_copy_partial_pbuf demo_chain demo_chain 3 2 = Inr (ERR_OK, to') \<and>
      map shape to' = map shape demo_chain \<and>
      chain_data to' = memcpy (chain_data demo_chain) (unat (2 :: u16))
        (take (unat (3 :: u16)) (chain_data demo_chain))"
    by (rule pbuf_copy_partial_pbuf_correct [OF demo_chain(1,2,4,3) demo_chain(1,2,4,3)])
      (simp_all add: demo_chain(5), simp add: demo_chain_def)
  then show ?thesis by (auto simp: demo_chain(5) memcpy_def)
qed

text \<open>
  An offset beyond the first pbuf of the destination never reaches the second one: the loop
  fails its assertion in the first round although the destination is long enough.
\<close>

theorem pbuf_copy_partial_pbuf_offset_aborts:
  assumes "to = t # ts" and "from = f # fs" and "len t < offset"
    and "copy_len \<le> tot_len f" and "unat offset + unat copy_len \<le> unat (tot_len t)"
  shows "pbuf_copy_partial_pbuf to from copy_len offset =
    Inl (Assertion ''offset_to <= p_to->len'')"
proof -
  have "unat (len t) < unat offset" using assms(3) by (simp add: word_less_nat_alt)
  then show ?thesis
    using assms by (simp add: pbuf_copy_partial_pbuf_def copy_pbuf_loop.simps Let_def)
qed

theorem pbuf_copy_partial_pbuf_offset_aborts_witness:
  "pbuf_copy_partial_pbuf demo_chain demo_chain 1 4 = Inl (Assertion ''offset_to <= p_to->len'')"
  by (rule pbuf_copy_partial_pbuf_offset_aborts [OF demo_chain_def demo_chain_def]) simp_all

end
