(* ===== verification/Alloc.thy ===== *)
theory Alloc
  imports Prelude
begin

text \<open>
  The contract between lwIP's memory managers (the heap of \<open>mem.c\<close>, the pools of \<open>memp.c\<close>) and
  their clients, as a locale: what an allocation and a release promise, and what follows for a
  client that releases only what it holds. \<open>live s\<close> gives the allocated addresses with the size
  of the memory there; a request \<open>r\<close> asks for \<open>need r\<close> bytes.
\<close>

section \<open>Clients\<close>

text \<open>
  A client is a sequence of requests and releases; it releases the \<open>i\<close>-th of the pointers it holds
  (nothing when there is none). A failed allocation leaves it as it was.
\<close>

datatype 'r client_op = Request 'r | Release nat

fun run_client ::
  "('r \<Rightarrow> 's \<Rightarrow> (nat option \<times> 's) outcome) \<Rightarrow> (nat \<Rightarrow> 's \<Rightarrow> 's outcome) \<Rightarrow>
   'r client_op list \<Rightarrow> nat list \<Rightarrow> 's \<Rightarrow> (nat list \<times> 's) outcome" where
  "run_client malloc free [] held s = Inr (held, s)"
| "run_client malloc free (Request r # ops) held s =
     obind (malloc r s) (\<lambda>(p, s).
       case p of
         None \<Rightarrow> run_client malloc free ops held s
       | Some p \<Rightarrow> run_client malloc free ops (p # held) s)"
| "run_client malloc free (Release i # ops) held s =
     (if i < length held then
        obind (free (held ! i) s) (\<lambda>s.
          run_client malloc free ops (take i held @ drop (Suc i) held) s)
      else run_client malloc free ops held s)"

section \<open>The contract\<close>

lemma distinct_middle:
  "distinct (xs @ x # ys) \<Longrightarrow> distinct (xs @ ys) \<and> x \<notin> set (xs @ ys)"
  "set (xs @ x # ys) = insert x (set (xs @ ys))"
  by auto

locale allocator =
  fixes inv :: "'s \<Rightarrow> bool"
    and live :: "'s \<Rightarrow> nat \<rightharpoonup> nat"
    and need :: "'r \<Rightarrow> nat"
    and malloc :: "'r \<Rightarrow> 's \<Rightarrow> (nat option \<times> 's) outcome"
    and free :: "nat \<Rightarrow> 's \<Rightarrow> 's outcome"
  assumes malloc_law: "inv s \<Longrightarrow> \<exists>p s'. malloc r s = Inr (p, s') \<and> inv s' \<and>
      (case p of None \<Rightarrow> s' = s
       | Some p \<Rightarrow> live s p = None \<and> (\<exists>k \<ge> need r. live s' = (live s)(p \<mapsto> k)))"
    and free_law: "inv s \<Longrightarrow> live s p \<noteq> None \<Longrightarrow>
      \<exists>s'. free p s = Inr s' \<and> inv s' \<and> live s' = (live s)(p := None)"
    and separated_law: "inv s \<Longrightarrow> live s p = Some j \<Longrightarrow> live s q = Some k \<Longrightarrow> p \<noteq> q \<Longrightarrow>
      p + j \<le> q \<or> q + k \<le> p"
begin

lemma mallocE:
  assumes "inv s"
  obtains s' where "malloc r s = Inr (None, s')" and "s' = s"
  | p s' k where "malloc r s = Inr (Some p, s')" and "inv s'" and "live s p = None"
    and "need r \<le> k" and "live s' = (live s)(p \<mapsto> k)"
proof -
  obtain p s' where "malloc r s = Inr (p, s')" "inv s'"
    "case p of None \<Rightarrow> s' = s
       | Some p \<Rightarrow> live s p = None \<and> (\<exists>k \<ge> need r. live s' = (live s)(p \<mapsto> k))"
    using malloc_law [OF assms, of r] by blast
  then show thesis using that by (cases p) auto
qed

lemma malloc_free_restores:
  assumes "inv s" and "malloc r s = Inr (Some p, s')"
  shows "\<exists>s''. free p s' = Inr s'' \<and> inv s'' \<and> live s'' = live s"
  using assms(1)
proof (cases rule: mallocE [of s r])
  case (2 q t k)
  then have "p = q" "s' = t" using assms(2) by auto
  with 2 free_law [of t q] show ?thesis by (auto simp: fun_upd_idem_iff)
qed (use assms in auto)

lemma malloc_does_not_overlap:
  assumes "inv s" and "malloc r s = Inr (Some p, s')" and "live s q = Some k"
  shows "p + need r \<le> q \<or> q + k \<le> p"
  using assms(1)
proof (cases rule: mallocE [of s r])
  case (2 p' t j)
  then have [simp]: "p' = p" "t = s'" using assms(2) by auto
  have "p \<noteq> q" using 2 assms(3) by auto
  then show ?thesis
    using 2 assms(3) separated_law [of s' p j q k] by auto
qed (use assms in auto)

lemma run_client_safe:
  "inv s \<Longrightarrow> distinct held \<Longrightarrow> dom (live s) = set held \<Longrightarrow>
   \<exists>held' s'. run_client malloc free ops held s = Inr (held', s') \<and> inv s' \<and>
     distinct held' \<and> dom (live s') = set held'"
proof (induction ops arbitrary: held s)
  case (Cons op ops)
  show ?case
  proof (cases op)
    case (Request r)
    from Cons.prems(1) show ?thesis
    proof (cases rule: mallocE [of s r])
      case 1
      then show ?thesis using Request Cons by simp
    next
      case (2 p s' k)
      then have "p \<notin> set held" using Cons.prems(3) by blast
      then have "distinct (p # held)" using Cons.prems(2) by simp
      moreover have "dom (live s') = set (p # held)"
        unfolding 2(5) using Cons.prems(3) by auto
      ultimately show ?thesis
        using 2(1) Request Cons.IH [OF 2(2)] by simp
    qed
  next
    case (Release i)
    show ?thesis
    proof (cases "i < length held")
      case True
      let ?rest = "take i held @ drop (Suc i) held"
      have split: "held = take i held @ held ! i # drop (Suc i) held"
        using True by (rule id_take_nth_drop)
      then have d: "distinct ?rest" "held ! i \<notin> set ?rest" "set held = insert (held ! i) (set ?rest)"
        using Cons.prems(2) distinct_middle [of "take i held" "held ! i" "drop (Suc i) held"] by auto
      have "live s (held ! i) \<noteq> None"
        using Cons.prems(3) True by (metis domIff nth_mem)
      then obtain s' where s': "free (held ! i) s = Inr s'" "inv s'" "live s' = (live s)(held ! i := None)"
        using free_law Cons.prems(1) by blast
      have "dom (live s') = set ?rest"
        using s'(3) Cons.prems(3) d by auto
      then show ?thesis using Cons.IH [OF s'(2) d(1)] s'(1) True Release by simp
    next
      case False
      then show ?thesis using Release Cons by simp
    qed
  qed
qed simp

end

end
