(* ===== verification/Mem.thy ===== *)
theory Mem
  imports Alloc
begin

text \<open>
  lwIP's heap, \<open>LWIP/src/core/mem.c\<close>, in the configuration of \<open>src/src/lwipopts.h\<close>: a heap of
  16 MiB (\<open>MEM_LIBC_MALLOC\<close> and \<open>MEM_USE_POOLS\<close> are 0, so \<open>mem_size_t\<close> is 32 bits wide),
  \<open>MEM_ALIGNMENT\<close> at its default of 1, no overflow regions, and all operations under \<open>mem_mutex\<close>.

  \<open>ram\<close> is the store of the \<open>struct mem\<close> headers by their offset in the array \<open>ram\<close>, and
  \<open>ram_data\<close> the bytes the users of the heap write. Pointers are offsets from \<open>ram\<close>: a
  \<open>nat\<close> for \<open>struct mem *\<close>, an \<open>int\<close> for the pointers that callers hand in (they may point below
  the heap), \<open>None\<close> for NULL. Sizes are natural numbers with the wrap-around of \<open>mem_size_t\<close>
  written out (\<open>SIZEOF_STRUCT_MEM\<close> is a \<open>size_t\<close>, so expressions with it are computed in 64
  bits unless they are cast back). The loops follow the \<open>next\<close> links, which may be cyclic in a corrupted heap: they
  are partial functions, and \<open>Diverges\<close> is a loop that does not end.
\<close>

section \<open>Constants\<close>

definition MEM_ALIGNMENT :: nat where
  "MEM_ALIGNMENT = 1"

definition MEM_SIZE :: nat where
  "MEM_SIZE = 16 * 1024 * 1024"

definition LWIP_MEM_ALIGN_SIZE :: "nat \<Rightarrow> nat" where
  "LWIP_MEM_ALIGN_SIZE sz = (sz + MEM_ALIGNMENT - 1) mod 2 ^ 32 div MEM_ALIGNMENT * MEM_ALIGNMENT"

definition MIN_SIZE :: nat where
  "MIN_SIZE = 12"

text \<open>Two \<open>mem_size_t\<close> and a \<open>u8_t\<close>: 12 bytes with the padding of a 32-bit structure.\<close>

definition sizeof_mem :: nat where
  "sizeof_mem = 12"

definition MIN_SIZE_ALIGNED :: nat where
  "MIN_SIZE_ALIGNED = LWIP_MEM_ALIGN_SIZE MIN_SIZE"

definition SIZEOF_STRUCT_MEM :: nat where
  "SIZEOF_STRUCT_MEM = LWIP_MEM_ALIGN_SIZE sizeof_mem"

definition MEM_SIZE_ALIGNED :: nat where
  "MEM_SIZE_ALIGNED = LWIP_MEM_ALIGN_SIZE MEM_SIZE"

section \<open>State\<close>

record mem =
  next_ptr :: nat
  prev_ptr :: nat
  used :: bool

record heap =
  ram :: "nat \<Rightarrow> mem"
  lfree :: nat
  ram_data :: "nat \<Rightarrow> u8"

definition ram_end :: nat where
  "ram_end = MEM_SIZE_ALIGNED"

definition set_next :: "nat \<Rightarrow> nat \<Rightarrow> heap \<Rightarrow> heap" where
  "set_next p v h = h\<lparr>ram := (ram h)(p := (ram h p)\<lparr>next_ptr := v\<rparr>)\<rparr>"

definition set_prev :: "nat \<Rightarrow> nat \<Rightarrow> heap \<Rightarrow> heap" where
  "set_prev p v h = h\<lparr>ram := (ram h)(p := (ram h p)\<lparr>prev_ptr := v\<rparr>)\<rparr>"

definition set_used :: "nat \<Rightarrow> bool \<Rightarrow> heap \<Rightarrow> heap" where
  "set_used p v h = h\<lparr>ram := (ram h)(p := (ram h p)\<lparr>used := v\<rparr>)\<rparr>"

definition put_mem :: "nat \<Rightarrow> mem \<Rightarrow> heap \<Rightarrow> heap" where
  "put_mem p v h = h\<lparr>ram := (ram h)(p := v)\<rparr>"

section \<open>Operations\<close>

text \<open>\<open>mem_init\<close>: what is in memory before is \<open>h\<close>; only the two headers are written.\<close>

definition mem_init :: "heap \<Rightarrow> heap" where
  "mem_init h =
     (let h = put_mem 0 \<lparr>next_ptr = MEM_SIZE_ALIGNED, prev_ptr = 0, used = False\<rparr> h;
          h = put_mem ram_end
                \<lparr>next_ptr = MEM_SIZE_ALIGNED, prev_ptr = MEM_SIZE_ALIGNED, used = True\<rparr> h
      in h\<lparr>lfree := 0\<rparr>)"

definition plug_forward :: "nat \<Rightarrow> heap \<Rightarrow> heap" where
  "plug_forward mem h =
     (let nmem = next_ptr (ram h mem) in
      if mem \<noteq> nmem \<and> \<not> used (ram h nmem) \<and> nmem \<noteq> ram_end then
        let h = (if lfree h = nmem then h\<lparr>lfree := mem\<rparr> else h);
            h = set_next mem (next_ptr (ram h nmem)) h
        in if next_ptr (ram h nmem) \<noteq> MEM_SIZE_ALIGNED
           then set_prev (next_ptr (ram h nmem)) mem h else h
      else h)"

definition plug_backward :: "nat \<Rightarrow> heap \<Rightarrow> heap" where
  "plug_backward mem h =
     (let pmem = prev_ptr (ram h mem) in
      if pmem \<noteq> mem \<and> \<not> used (ram h pmem) then
        let h = (if lfree h = mem then h\<lparr>lfree := pmem\<rparr> else h);
            h = set_next pmem (next_ptr (ram h mem)) h
        in if next_ptr (ram h mem) \<noteq> MEM_SIZE_ALIGNED
           then set_prev (next_ptr (ram h mem)) pmem h else h
      else h)"

definition plug_holes :: "nat \<Rightarrow> heap \<Rightarrow> heap outcome" where
  "plug_holes mem h =
     lwip_assert ''plug_holes: mem < ram_end'' (mem < ram_end)
    (lwip_assert ''plug_holes: mem->used == 0'' (\<not> used (ram h mem))
    (lwip_assert ''plug_holes: mem->next <= MEM_SIZE_ALIGNED''
       (next_ptr (ram h mem) \<le> MEM_SIZE_ALIGNED)
    (Inr (plug_backward mem (plug_forward mem h)))))"

definition mem_link_valid :: "heap \<Rightarrow> nat \<Rightarrow> bool" where
  "mem_link_valid h mem =
     (let rmem_idx = mem; nmem = next_ptr (ram h mem); pmem = prev_ptr (ram h mem) in
      \<not> (next_ptr (ram h mem) > MEM_SIZE_ALIGNED \<or> prev_ptr (ram h mem) > MEM_SIZE_ALIGNED \<or>
         (prev_ptr (ram h mem) \<noteq> rmem_idx \<and> next_ptr (ram h pmem) \<noteq> rmem_idx) \<or>
         (nmem \<noteq> ram_end \<and> prev_ptr (ram h nmem) \<noteq> rmem_idx)))"

text \<open>The loop of \<open>mem_sanity\<close>, from \<open>mem\<close> on.\<close>

partial_function (option) mem_sanity_loop :: "heap \<Rightarrow> nat \<Rightarrow> bool \<Rightarrow> (unit outcome) option" where
  "mem_sanity_loop h mem last_used =
     (if mem > 0 \<and> mem < ram_end then
        if \<not> mem mod MEM_ALIGNMENT = 0 then Some (Inl (Assertion ''heap element aligned''))
        else if \<not> prev_ptr (ram h mem) \<le> MEM_SIZE_ALIGNED
        then Some (Inl (Assertion ''heap element prev ptr valid''))
        else if \<not> next_ptr (ram h mem) \<le> MEM_SIZE_ALIGNED
        then Some (Inl (Assertion ''heap element next ptr valid''))
        else if \<not> last_used \<and> \<not> used (ram h mem)
        then Some (Inl (Assertion ''heap element unused?''))
        else if \<not> mem_link_valid h mem then Some (Inl (Assertion ''heap element link valid''))
        else mem_sanity_loop h (next_ptr (ram h mem)) (used (ram h mem))
      else Some
        (lwip_assert ''heap end ptr sanity'' (mem = MEM_SIZE_ALIGNED)
        (lwip_assert ''heap element used valid'' (used (ram h mem))
        (lwip_assert ''heap element prev ptr valid'' (prev_ptr (ram h mem) = MEM_SIZE_ALIGNED)
        (lwip_assert ''heap element next ptr valid'' (next_ptr (ram h mem) = MEM_SIZE_ALIGNED)
        (Inr ()))))))"

definition mem_sanity :: "heap \<Rightarrow> unit outcome" where
  "mem_sanity h =
     lwip_assert ''heap element prev ptr valid'' (prev_ptr (ram h 0) = 0)
    (lwip_assert ''heap element next ptr valid'' (next_ptr (ram h 0) \<le> MEM_SIZE_ALIGNED)
    (obind (of_loop (mem_sanity_loop h (next_ptr (ram h 0)) (used (ram h 0)))) (\<lambda>r. r)))"

definition mem_free :: "int option \<Rightarrow> heap \<Rightarrow> heap outcome" where
  "mem_free rmem h =
     (case rmem of
        None \<Rightarrow> Inr h
      | Some rmem \<Rightarrow>
          lwip_assert ''mem_free: sanity check alignment'' (rmem mod int MEM_ALIGNMENT = 0)
         (lwip_assert ''mem_free: illegal memory''
            (\<not> (rmem - int SIZEOF_STRUCT_MEM < 0 \<or> rmem + int MIN_SIZE_ALIGNED > int ram_end))
         (let mem = nat rmem - SIZEOF_STRUCT_MEM in
          lwip_assert ''mem_free: illegal memory: double free'' (used (ram h mem))
         (lwip_assert ''mem_free: illegal memory: non-linked: double free'' (mem_link_valid h mem)
         (let h = set_used mem False h;
              h = (if mem < lfree h then h\<lparr>lfree := mem\<rparr> else h)
          in plug_holes mem h)))))"

text \<open>
  \<open>mem_trim\<close> returns the pointer it returns (\<open>None\<close> for NULL) and the new state. \<open>rmem\<close> is
  not NULL.
\<close>

definition mem_trim :: "int \<Rightarrow> nat \<Rightarrow> heap \<Rightarrow> (int option \<times> heap) outcome" where
  "mem_trim rmem new_size h =
     (let newsize = LWIP_MEM_ALIGN_SIZE new_size;
          newsize = (if newsize < MIN_SIZE_ALIGNED then MIN_SIZE_ALIGNED else newsize) in
      if newsize > MEM_SIZE_ALIGNED \<or> newsize < new_size then Inr (None, h)
      else
        lwip_assert ''mem_trim: legal memory'' (0 \<le> rmem \<and> rmem < int ram_end)
       (let ptr = sub32 (nat rmem) SIZEOF_STRUCT_MEM;
            sz = sub32 (sub32 (next_ptr (ram h ptr)) ptr) SIZEOF_STRUCT_MEM in
        lwip_assert ''mem_trim can only shrink memory'' (newsize \<le> sz)
       (if newsize = sz then Inr (Some rmem, h)
        else
          let mem2 = next_ptr (ram h ptr) in
          if \<not> used (ram h mem2) then
            lwip_assert ''invalid next ptr'' (next_ptr (ram h ptr) \<noteq> MEM_SIZE_ALIGNED)
           (let nxt = next_ptr (ram h mem2);
                ptr2 = add32 (add32 ptr SIZEOF_STRUCT_MEM) newsize;
                h = (if lfree h = mem2 then h\<lparr>lfree := ptr2\<rparr> else h);
                h = put_mem ptr2 \<lparr>next_ptr = nxt, prev_ptr = ptr, used = False\<rparr> h;
                h = set_next ptr ptr2 h;
                h = (if nxt \<noteq> MEM_SIZE_ALIGNED then set_prev nxt ptr2 h else h)
            in Inr (Some rmem, h))
          else if newsize + SIZEOF_STRUCT_MEM + MIN_SIZE_ALIGNED \<le> sz then
            let ptr2 = add32 (add32 ptr SIZEOF_STRUCT_MEM) newsize in
            lwip_assert ''invalid next ptr'' (next_ptr (ram h ptr) \<noteq> MEM_SIZE_ALIGNED)
           (let nxt = next_ptr (ram h ptr);
                h = (if ptr2 < lfree h then h\<lparr>lfree := ptr2\<rparr> else h);
                h = put_mem ptr2 \<lparr>next_ptr = nxt, prev_ptr = ptr, used = False\<rparr> h;
                h = set_next ptr ptr2 h;
                h = (if nxt \<noteq> MEM_SIZE_ALIGNED then set_prev nxt ptr2 h else h)
            in Inr (Some rmem, h))
          else Inr (Some rmem, h))))"

text \<open>The scan of \<open>mem_malloc\<close>: the first block that fits, from \<open>ptr\<close> on.\<close>

partial_function (option) mem_scan :: "heap \<Rightarrow> nat \<Rightarrow> nat \<Rightarrow> (nat option) option" where
  "mem_scan h sz ptr =
     (if ptr < MEM_SIZE_ALIGNED - sz then
        if \<not> used (ram h ptr) \<and>
           sub64 (next_ptr (ram h ptr)) (ptr + SIZEOF_STRUCT_MEM) \<ge> sz
        then Some (Some ptr)
        else mem_scan h sz (next_ptr (ram h ptr))
      else Some None)"

definition mem_take :: "nat \<Rightarrow> nat \<Rightarrow> heap \<Rightarrow> heap outcome" where
  "mem_take ptr sz h =
     (if sub64 (next_ptr (ram h ptr)) (ptr + SIZEOF_STRUCT_MEM) \<ge>
         sz + SIZEOF_STRUCT_MEM + MIN_SIZE_ALIGNED
      then
        let ptr2 = add32 (add32 ptr SIZEOF_STRUCT_MEM) sz in
        lwip_assert ''invalid next ptr'' (ptr2 \<noteq> MEM_SIZE_ALIGNED)
       (let nxt = next_ptr (ram h ptr);
            h = put_mem ptr2 \<lparr>next_ptr = nxt, prev_ptr = ptr, used = False\<rparr> h;
            h = set_next ptr ptr2 h;
            h = set_used ptr True h
        in Inr (if nxt \<noteq> MEM_SIZE_ALIGNED then set_prev nxt ptr2 h else h))
      else Inr (set_used ptr True h))"

text \<open>The loop that moves \<open>lfree\<close> to the next free block.\<close>

partial_function (option) next_lfree :: "heap \<Rightarrow> nat \<Rightarrow> nat option" where
  "next_lfree h cur =
     (if used (ram h cur) \<and> cur \<noteq> ram_end then next_lfree h (next_ptr (ram h cur)) else Some cur)"

definition adjust_lfree :: "nat \<Rightarrow> heap \<Rightarrow> heap outcome" where
  "adjust_lfree mem h =
     (if mem = lfree h then
        obind (of_loop (next_lfree h (lfree h))) (\<lambda>cur.
          lwip_assert ''mem_malloc: !lfree->used'' (cur = ram_end \<or> \<not> used (ram h cur))
         (Inr (h\<lparr>lfree := cur\<rparr>)))
      else Inr h)"

definition mem_malloc :: "nat \<Rightarrow> heap \<Rightarrow> (nat option \<times> heap) outcome" where
  "mem_malloc size_in h =
     (if size_in = 0 then Inr (None, h)
      else
        let sz = LWIP_MEM_ALIGN_SIZE size_in;
            sz = (if sz < MIN_SIZE_ALIGNED then MIN_SIZE_ALIGNED else sz) in
        if sz > MEM_SIZE_ALIGNED \<or> sz < size_in then Inr (None, h)
        else
          obind (of_loop (mem_scan h sz (lfree h))) (\<lambda>r.
            case r of
              None \<Rightarrow> Inr (None, h)
            | Some mem \<Rightarrow>
                obind (mem_take mem sz h) (\<lambda>h.
                obind (adjust_lfree mem h) (\<lambda>h.
                lwip_assert ''mem_malloc: allocated memory not above ram_end.''
                  (mem + SIZEOF_STRUCT_MEM + sz \<le> ram_end)
               (lwip_assert ''mem_malloc: allocated memory properly aligned.''
                  ((mem + SIZEOF_STRUCT_MEM) mod MEM_ALIGNMENT = 0)
               (Inr (Some (mem + SIZEOF_STRUCT_MEM), h)))))))"

definition memset0 :: "nat \<Rightarrow> nat \<Rightarrow> heap \<Rightarrow> heap" where
  "memset0 p n h = h\<lparr>ram_data := (\<lambda>a. if p \<le> a \<and> a < p + n then 0 else ram_data h a)\<rparr>"

definition mem_calloc :: "nat \<Rightarrow> nat \<Rightarrow> heap \<Rightarrow> (nat option \<times> heap) outcome" where
  "mem_calloc count sz h =
     (let alloc_size = (count * sz) mod 2 ^ 64 in
      if alloc_size mod 2 ^ 32 \<noteq> alloc_size then Inr (None, h)
      else obind (mem_malloc (alloc_size mod 2 ^ 32) h) (\<lambda>(p, h).
        case p of
          None \<Rightarrow> Inr (None, h)
        | Some p \<Rightarrow> Inr (Some p, memset0 p alloc_size h)))"

section \<open>The heap as a list of blocks\<close>

lemma LWIP_MEM_ALIGN_SIZE_id [simp]: "n < 2 ^ 32 \<Longrightarrow> LWIP_MEM_ALIGN_SIZE n = n"
  by (simp add: LWIP_MEM_ALIGN_SIZE_def MEM_ALIGNMENT_def)

lemma mem_constants [simp]:
  "MIN_SIZE_ALIGNED = 12" "SIZEOF_STRUCT_MEM = 12" "MEM_SIZE_ALIGNED = 16777216" "ram_end = 16777216"
  "MEM_ALIGNMENT = 1"
  by (simp_all add: MIN_SIZE_ALIGNED_def SIZEOF_STRUCT_MEM_def MEM_SIZE_ALIGNED_def ram_end_def
      MIN_SIZE_def sizeof_mem_def MEM_SIZE_def MEM_ALIGNMENT_def LWIP_MEM_ALIGN_SIZE_def)

text \<open>
  A block is its size, header included, and whether it is used. \<open>chain m pv p bs e\<close>: the headers
  in \<open>m\<close> describe the adjacent blocks \<open>bs\<close>, the first at \<open>p\<close> with \<open>prev\<close> link \<open>pv\<close>, up to \<open>e\<close>.
\<close>

type_synonym block = "nat \<times> bool"

fun chain :: "(nat \<Rightarrow> mem) \<Rightarrow> nat \<Rightarrow> nat \<Rightarrow> block list \<Rightarrow> nat \<Rightarrow> bool" where
  "chain m pv p [] e = (p = e)"
| "chain m pv p ((s, u) # bs) e =
     (24 \<le> s \<and> m p = \<lparr>next_ptr = p + s, prev_ptr = pv, used = u\<rparr> \<and> chain m p (p + s) bs e)"

definition addr :: "nat \<Rightarrow> block list \<Rightarrow> nat" where
  "addr p bs = p + sum_list (map fst bs)"

fun last_addr :: "nat \<Rightarrow> nat \<Rightarrow> block list \<Rightarrow> nat" where
  "last_addr pv p [] = pv"
| "last_addr pv p ((s, u) # bs) = last_addr p (p + s) bs"

fun first_free :: "nat \<Rightarrow> block list \<Rightarrow> nat" where
  "first_free p [] = p"
| "first_free p ((s, u) # bs) = (if u then first_free (p + s) bs else p)"

fun no_adjacent_free :: "block list \<Rightarrow> bool" where
  "no_adjacent_free (b # c # bs) = ((snd b \<or> snd c) \<and> no_adjacent_free (c # bs))"
| "no_adjacent_free [b] = True"
| "no_adjacent_free [] = True"

definition end_mem :: mem where
  "end_mem = \<lparr>next_ptr = 16777216, prev_ptr = 16777216, used = True\<rparr>"

text \<open>The heap \<open>h\<close> is well-formed and holds the blocks \<open>bs\<close>.\<close>

definition heap_rel :: "heap \<Rightarrow> block list \<Rightarrow> bool" where
  "heap_rel h bs \<longleftrightarrow> chain (ram h) 0 0 bs ram_end \<and> ram h ram_end = end_mem \<and>
     no_adjacent_free bs \<and> lfree h = first_free 0 bs"

lemma addr_simps [simp]: "addr p [] = p" "addr p ((s, u) # bs) = addr (p + s) bs"
  "addr p (xs @ ys) = addr (addr p xs) ys"
  by (simp_all add: addr_def)

lemma addr_ge: "p \<le> addr p bs"
  by (simp add: addr_def)

lemma chain_end: "chain m pv p bs e \<Longrightarrow> e = addr p bs"
  by (induction m pv p bs e rule: chain.induct) auto

lemma chain_append [simp]:
  "chain m pv p (xs @ ys) e \<longleftrightarrow>
     chain m pv p xs (addr p xs) \<and> chain m (last_addr pv p xs) (addr p xs) ys e"
  by (induction xs arbitrary: pv p) (auto simp del: split_paired_All)

lemma last_addr_append [simp]:
  "last_addr pv p (xs @ ys) = last_addr (last_addr pv p xs) (addr p xs) ys"
  by (induction xs arbitrary: pv p) auto

lemma first_free_append [simp]:
  "first_free p (xs @ ys) = (if list_all snd xs then first_free (addr p xs) ys else first_free p xs)"
  by (induction xs arbitrary: p) (simp_all add: split_paired_all)

lemma first_free_ge: "p \<le> first_free p bs"
proof (induction bs arbitrary: p)
  case (Cons b bs)
  obtain s u where "b = (s, u)" by (cases b)
  then show ?case using Cons [of "p + s"] by simp
qed simp

lemma first_free_all_used: "list_all snd xs \<Longrightarrow> first_free p xs = addr p xs"
  by (induction xs arbitrary: p) auto

lemma first_free_less: "\<not> list_all snd xs \<Longrightarrow> chain m pv p xs e \<Longrightarrow> first_free p xs < e"
proof (induction m pv p xs e rule: chain.induct)
  case (2 m pv p s u bs e)
  then show ?case using chain_end [of m p "p + s" bs e] addr_ge [of "p + s" bs] by auto
qed simp

text \<open>Writes outside the blocks of a chain, and to the \<open>prev\<close> link of the first one.\<close>

lemma chain_upd_out:
  "q < p \<or> e \<le> q \<Longrightarrow> chain m pv p bs e \<Longrightarrow> chain (m(q := v)) pv p bs e"
proof (induction m pv p bs e rule: chain.induct)
  case (2 m pv p s u bs e)
  then show ?case using chain_end [of m p "p + s" bs e] addr_ge [of "p + s" bs] by auto
qed simp

lemma chain_set_prev:
  assumes "chain m pv p bs e" and "bs \<noteq> []"
  shows "chain (m(p := (m p)\<lparr>prev_ptr := pv'\<rparr>)) pv' p bs e"
proof -
  obtain s u cs where bs: "bs = (s, u) # cs"
    using assms(2) by (cases bs) auto
  with assms(1) have "chain (m(p := (m p)\<lparr>prev_ptr := pv'\<rparr>)) p (p + s) cs e"
    by (intro chain_upd_out) auto
  with assms(1) bs show ?thesis by simp
qed

lemma chain_le: "chain m pv p bs e \<Longrightarrow> p \<le> e"
  using chain_end [of m pv p bs e] addr_ge [of p bs] by simp

lemma chain_Nil_iff: "chain m pv p bs e \<Longrightarrow> p = e \<longleftrightarrow> bs = []"
  using chain_le [of m p _ _ e] by (cases bs) fastforce+

lemma chain_last_less:
  "chain m pv p bs e \<Longrightarrow> bs \<noteq> [] \<Longrightarrow> p \<le> last_addr pv p bs \<and> last_addr pv p bs + 24 \<le> e"
proof (induction m pv p bs e rule: chain.induct)
  case (2 m pv p s u bs e)
  then show ?case using chain_end [of m p "p + s" bs e] by (cases bs) auto
qed simp

lemma no_adjacent_free_append [simp]:
  "no_adjacent_free (xs @ ys) \<longleftrightarrow> no_adjacent_free xs \<and> no_adjacent_free ys \<and>
     (xs \<noteq> [] \<and> ys \<noteq> [] \<longrightarrow> snd (last xs) \<or> snd (hd ys))"
  by (induction xs rule: no_adjacent_free.induct) (cases ys, auto)+

lemmas set_field_defs = set_next_def set_prev_def set_used_def put_mem_def

section \<open>Freeing\<close>

fun merge_right :: "nat \<Rightarrow> block list \<Rightarrow> block list" where
  "merge_right s [] = [(s, False)]"
| "merge_right s ((s2, u) # zs) = (if u then (s, False) # (s2, u) # zs else (s + s2, False) # zs)"

definition merge_left :: "block list \<Rightarrow> block list \<Rightarrow> block list" where
  "merge_left xs ys =
     (if xs = [] \<or> snd (last xs) then xs @ ys
      else butlast xs @ (fst (last xs) + fst (hd ys), False) # tl ys)"

text \<open>The part of the invariant that holds in the middle of a free.\<close>

definition linked :: "heap \<Rightarrow> block list \<Rightarrow> bool" where
  "linked h bs \<longleftrightarrow> chain (ram h) 0 0 bs ram_end \<and> ram h ram_end = end_mem"

lemma linked_plug_forward:
  assumes "linked h (xs @ (s, False) # ys)"
  shows "linked (plug_forward (addr 0 xs) h) (xs @ merge_right s ys)"
    and "lfree (plug_forward (addr 0 xs) h) =
           (if ys \<noteq> [] \<and> \<not> snd (hd ys) \<and> lfree h = addr 0 xs + s then addr 0 xs else lfree h)"
proof -
  let ?a = "addr 0 xs" and ?e = "16777216 :: nat"
  have c: "chain (ram h) 0 0 xs ?a" "chain (ram h) ?a (?a + s) ys ?e" "24 \<le> s"
    and a: "ram h ?a = \<lparr>next_ptr = ?a + s, prev_ptr = last_addr 0 0 xs, used = False\<rparr>"
    and e: "ram h ?e = end_mem"
    using assms by (auto simp: linked_def)
  have "linked (plug_forward ?a h) (xs @ merge_right s ys) \<and> lfree (plug_forward ?a h) =
      (if ys \<noteq> [] \<and> \<not> snd (hd ys) \<and> lfree h = ?a + s then ?a else lfree h)"
  proof (cases "ys = [] \<or> snd (hd ys)")
    case True
    then have "plug_forward ?a h = h"
      using a c e by (cases ys) (auto simp: plug_forward_def Let_def)
    with True assms show ?thesis by (cases ys) auto
  next
    case False
    then obtain s2 zs where ys: "ys = (s2, False) # zs" by (cases ys) auto
    let ?n = "?a + s" and ?q = "?a + s + s2"
    have n: "ram h ?n = \<lparr>next_ptr = ?q, prev_ptr = ?a, used = False\<rparr>" "24 \<le> s2"
      and z: "chain (ram h) ?n ?q zs ?e"
      using c ys by auto
    have q: "?q \<le> ?e" using chain_le [OF z] .
    have zq: "?q = ?e \<longleftrightarrow> zs = []"
      using chain_Nil_iff [OF z] .
    let ?m = "(ram h)(?a := \<lparr>next_ptr = ?q, prev_ptr = last_addr 0 0 xs, used = False\<rparr>)"
    have m': "ram (plug_forward ?a h) =
        (if zs = [] then ?m else ?m(?q := (?m ?q)\<lparr>prev_ptr := ?a\<rparr>))"
      using a n c q zq \<open>24 \<le> s\<close> by (auto simp: plug_forward_def Let_def set_field_defs)
    have zm: "chain ?m ?n ?q zs ?e"
      using z n by (intro chain_upd_out) auto
    have "chain (ram (plug_forward ?a h)) ?a ?q zs ?e"
      using zm chain_set_prev [OF zm, of ?a] zq unfolding m' by (cases "zs = []") auto
    moreover have "chain (ram (plug_forward ?a h)) 0 0 xs ?a"
      unfolding m' using c by (auto intro!: chain_upd_out)
    moreover have "ram (plug_forward ?a h) ?e = end_mem"
      unfolding m' using e q zq n by auto
    moreover have "ram (plug_forward ?a h) ?a = \<lparr>next_ptr = ?q, prev_ptr = last_addr 0 0 xs, used = False\<rparr>"
      unfolding m' using n \<open>24 \<le> s\<close> by auto
    moreover have "lfree (plug_forward ?a h) = (if lfree h = ?n then ?a else lfree h)"
      using a n q zq \<open>24 \<le> s\<close> by (auto simp: plug_forward_def Let_def set_field_defs)
    ultimately show ?thesis
      using ys \<open>24 \<le> s\<close> by (simp add: linked_def add.assoc)
  qed
  then show "linked (plug_forward ?a h) (xs @ merge_right s ys)"
    and "lfree (plug_forward ?a h) =
      (if ys \<noteq> [] \<and> \<not> snd (hd ys) \<and> lfree h = ?a + s then ?a else lfree h)" by auto
qed

lemma linked_plug_backward:
  assumes "linked h (xs @ (s, False) # ys)"
  shows "linked (plug_backward (addr 0 xs) h) (merge_left xs ((s, False) # ys))"
    and "lfree (plug_backward (addr 0 xs) h) =
           (if xs \<noteq> [] \<and> \<not> snd (last xs) \<and> lfree h = addr 0 xs then addr 0 (butlast xs) else lfree h)"
proof -
  let ?a = "addr 0 xs" and ?e = "16777216 :: nat" and ?q = "addr 0 xs + s"
  have c: "chain (ram h) 0 0 xs ?a" "chain (ram h) ?a ?q ys ?e" "24 \<le> s"
    and a: "ram h ?a = \<lparr>next_ptr = ?q, prev_ptr = last_addr 0 0 xs, used = False\<rparr>"
    and e: "ram h ?e = end_mem"
    using assms by (auto simp: linked_def)
  have "linked (plug_backward ?a h) (merge_left xs ((s, False) # ys)) \<and> lfree (plug_backward ?a h) =
      (if xs \<noteq> [] \<and> \<not> snd (last xs) \<and> lfree h = ?a then addr 0 (butlast xs) else lfree h)"
  proof (cases xs rule: rev_cases)
    case Nil
    then show ?thesis using assms a by (auto simp: plug_backward_def merge_left_def)
  next
    case (snoc ws b)
    obtain s0 u where b: "b = (s0, u)" by (cases b)
    let ?p = "addr 0 ws"
    have ap: "?a = ?p + s0" using snoc b by simp
    have p: "ram h ?p = \<lparr>next_ptr = ?a, prev_ptr = last_addr 0 0 ws, used = u\<rparr>" "24 \<le> s0"
      and w: "chain (ram h) 0 0 ws ?p" and pv: "prev_ptr (ram h ?a) = ?p"
      using c a snoc b by auto
    show ?thesis
    proof (cases u)
      case True
      then have "plug_backward ?a h = h" using p pv by (auto simp: plug_backward_def Let_def)
      then show ?thesis using True snoc b assms by (simp add: merge_left_def)
    next
      case False
      have q: "?q \<le> ?e" using chain_le [OF c(2)] .
      have zq: "?q = ?e \<longleftrightarrow> ys = []"
        using chain_Nil_iff [OF c(2)] .
      let ?m = "(ram h)(?p := \<lparr>next_ptr = ?q, prev_ptr = last_addr 0 0 ws, used = False\<rparr>)"
      have m': "ram (plug_backward ?a h) =
          (if ys = [] then ?m else ?m(?q := (?m ?q)\<lparr>prev_ptr := ?p\<rparr>))"
        using a p pv False ap c q zq
        by (auto simp: plug_backward_def Let_def set_field_defs)
      have zm: "chain ?m ?a ?q ys ?e"
        using c(2,3) ap by (intro chain_upd_out) auto
      have "chain (ram (plug_backward ?a h)) ?p ?q ys ?e"
        using zm chain_set_prev [OF zm, of ?p] zq unfolding m' by (cases "ys = []") auto
      moreover have "chain (ram (plug_backward ?a h)) 0 0 ws ?p"
        unfolding m' using w ap by (auto intro!: chain_upd_out)
      moreover have "ram (plug_backward ?a h) ?e = end_mem"
        unfolding m' using e q zq p ap c(3) by auto
      moreover have "ram (plug_backward ?a h) ?p =
          \<lparr>next_ptr = ?q, prev_ptr = last_addr 0 0 ws, used = False\<rparr>"
        unfolding m' using p ap c(3) by auto
      moreover have "lfree (plug_backward ?a h) = (if lfree h = ?a then ?p else lfree h)"
        using a p pv False ap q zq by (auto simp: plug_backward_def Let_def set_field_defs)
      ultimately show ?thesis
        using snoc b False p c(3) ap by (simp add: linked_def merge_left_def add.assoc)
    qed
  qed
  then show "linked (plug_backward ?a h) (merge_left xs ((s, False) # ys))"
    and "lfree (plug_backward ?a h) =
      (if xs \<noteq> [] \<and> \<not> snd (last xs) \<and> lfree h = ?a then addr 0 (butlast xs) else lfree h)" by auto
qed

lemma linked_set_used:
  assumes "linked h (xs @ (s, u) # ys)"
  shows "linked (set_used (addr 0 xs) v h) (xs @ (s, v) # ys)"
  using assms chain_le [of "ram h" "addr 0 xs" "addr 0 xs + s" ys 16777216]
  by (auto simp: linked_def set_used_def intro!: chain_upd_out)

lemma linked_at:
  assumes "linked h (xs @ (s, u) # ys)"
  shows "ram h (addr 0 xs) = \<lparr>next_ptr = addr 0 xs + s, prev_ptr = last_addr 0 0 xs, used = u\<rparr>"
    and "24 \<le> s" and "addr 0 xs + s \<le> 16777216"
  using assms chain_le [of "ram h" "addr 0 xs" "addr 0 xs + s" ys 16777216] by (auto simp: linked_def)

lemma linked_link_valid:
  assumes "linked h (xs @ (s, u) # ys)"
  shows "mem_link_valid h (addr 0 xs)"
proof -
  let ?a = "addr 0 xs"
  note at = linked_at [OF assms]
  have y: "chain (ram h) ?a (?a + s) ys 16777216" using assms by (simp add: linked_def)
  have "last_addr 0 0 xs = ?a \<or> next_ptr (ram h (last_addr 0 0 xs)) = ?a"
    "last_addr 0 0 xs \<le> ?a"
    using assms by (cases xs rule: rev_cases; auto simp: linked_def)+
  moreover have "?a + s = 16777216 \<or> prev_ptr (ram h (?a + s)) = ?a"
    using y by (cases ys) auto
  ultimately show ?thesis
    using at by (auto simp: mem_link_valid_def Let_def)
qed

lemma heap_rel_linked: "heap_rel h bs \<longleftrightarrow> linked h bs \<and> no_adjacent_free bs \<and> lfree h = first_free 0 bs"
  by (auto simp: heap_rel_def linked_def)

lemma no_adjacent_free_merged:
  assumes "no_adjacent_free (xs @ (s, True) # ys)"
  shows "no_adjacent_free (merge_left xs (merge_right s ys))"
proof -
  have xs: "no_adjacent_free xs" and ys: "no_adjacent_free ys"
    using assms by (cases ys; auto)+
  have r: "\<exists>t. merge_right s ys = (t, False) # (if ys = [] \<or> snd (hd ys) then ys else tl ys) \<and>
      no_adjacent_free (merge_right s ys)"
    using ys by (cases ys; cases "tl ys") auto
  then obtain t zs where "merge_right s ys = (t, False) # zs" "no_adjacent_free ((t, False) # zs)"
    by auto
  then show ?thesis
    using xs by (cases xs rule: rev_cases) (auto simp: merge_left_def; cases zs; auto)+
qed

lemma merge_right_Cons: "\<exists>t zs. merge_right s ys = (t, False) # zs"
  by (cases ys; cases "snd (hd ys)") auto

lemma first_free_merge_right: "first_free p (merge_right s ys) = p"
  by (cases ys) auto

lemma plug_forward_frame [simp]: "ram_data (plug_forward a h) = ram_data h"
  by (simp add: plug_forward_def Let_def set_field_defs)

lemma plug_backward_frame [simp]: "ram_data (plug_backward a h) = ram_data h"
  by (simp add: plug_backward_def Let_def set_field_defs)

lemma mem_free_refines:
  assumes "heap_rel h (xs @ (s, True) # ys)"
  shows "\<exists>h'. mem_free (Some (int (addr 0 xs) + 12)) h = Inr h' \<and>
           heap_rel h' (merge_left xs (merge_right s ys)) \<and> ram_data h' = ram_data h"
proof -
  let ?a = "addr 0 xs"
  have l: "linked h (xs @ (s, True) # ys)" and naf: "no_adjacent_free (xs @ (s, True) # ys)"
    and lf: "lfree h = first_free 0 (xs @ (s, True) # ys)"
    using assms by (auto simp: heap_rel_linked)
  note at = linked_at [OF l]
  define h1 where "h1 = (let h = set_used ?a False h in if ?a < lfree h then h\<lparr>lfree := ?a\<rparr> else h)"
  have l1: "linked h1 (xs @ (s, False) # ys)"
    using linked_set_used [OF l, of False] by (auto simp: h1_def linked_def Let_def)
  have lf1: "lfree h1 = (if list_all snd xs then ?a else first_free 0 xs)"
  proof (cases "list_all snd xs")
    case True
    then show ?thesis
      using lf at(2) first_free_ge [of "?a + s" ys] by (auto simp: h1_def set_used_def Let_def)
  next
    case False
    then show ?thesis
      using lf first_free_less [OF False, of "ram h" 0 0 ?a] l
      by (auto simp: h1_def set_used_def Let_def linked_def)
  qed
  define h2 where "h2 = plug_backward ?a (plug_forward ?a h1)"
  obtain t zs where mr: "merge_right s ys = (t, False) # zs"
    using merge_right_Cons [of s ys] by auto
  have l2: "linked h2 (merge_left xs (merge_right s ys))"
    using linked_plug_forward(1) [OF l1] linked_plug_backward(1) [of "plug_forward ?a h1" xs t zs]
    unfolding mr h2_def by simp
  have lf2: "lfree h2 = first_free 0 (merge_left xs (merge_right s ys))"
  proof -
    have fw: "lfree (plug_forward ?a h1) = lfree h1"
      using linked_plug_forward(2) [OF l1] lf1 l first_free_less [of xs "ram h" 0 0 ?a]
      by (auto simp: linked_def split: if_splits)
    have "lfree h1 \<noteq> ?a" if "xs \<noteq> []" "\<not> snd (last xs)"
    proof -
      have "\<not> list_all snd xs" using that by (metis last_in_set list_all_iff)
      then show ?thesis
        using lf1 l first_free_less [of xs "ram h" 0 0 ?a] by (auto simp: linked_def)
    qed
    then have "lfree h2 = lfree h1"
      using linked_plug_forward(1) [OF l1] linked_plug_backward(2) [of "plug_forward ?a h1" xs t zs] fw
      unfolding mr h2_def by auto
    then show ?thesis
      using lf1 by (cases xs rule: rev_cases) (auto simp: merge_left_def first_free_merge_right)
  qed
  have na: "nat (int ?a + 12) - 12 = ?a" by simp
  have "mem_free (Some (int ?a + 12)) h = plug_holes ?a h1"
    using at linked_link_valid [OF l] by (simp only: mem_free_def h1_def Let_def option.case mem_constants na) simp
  also have "\<dots> = Inr h2"
    using linked_at [OF l1] by (simp add: plug_holes_def h2_def)
  finally show ?thesis
    using l2 lf2 no_adjacent_free_merged [OF naf]
    by (auto simp: heap_rel_linked h2_def h1_def Let_def set_used_def)
qed

section \<open>Allocating\<close>

definition split_block :: "nat \<Rightarrow> nat \<Rightarrow> block list" where
  "split_block s sz =
     (if sz + 36 \<le> s then [(sz + 12, True), (s - (sz + 12), False)] else [(s, True)])"

lemma first_free_takeWhile: "first_free p bs = addr p (takeWhile snd bs)"
  by (induction bs arbitrary: p) auto

lemma chain_takeWhile:
  assumes "chain m pv p bs e"
  shows "chain m (last_addr pv p (takeWhile snd bs)) (first_free p bs) (dropWhile snd bs) e"
proof -
  have "chain m pv p (takeWhile snd bs @ dropWhile snd bs) e"
    using assms by simp
  then show ?thesis by (simp only: chain_append first_free_takeWhile)
qed

definition fits :: "nat \<Rightarrow> block \<Rightarrow> bool" where
  "fits sz b \<longleftrightarrow> \<not> snd b \<and> sz + 12 \<le> fst b"

lemma mem_scan_eq:
  "chain (ram h) pv p bs 16777216 \<Longrightarrow> sz \<le> 16777216 \<Longrightarrow>
   mem_scan h sz p =
     Some (if list_ex (fits sz) bs then Some (addr p (takeWhile (\<lambda>b. \<not> fits sz b) bs)) else None)"
proof (induction bs arbitrary: pv p)
  case Nil
  then have "\<not> p < 16777216 - sz" by simp
  then show ?case by (subst mem_scan.simps) simp
next
  case (Cons b bs)
  obtain s u where b: "b = (s, u)" by (cases b)
  have c: "chain (ram h) p (p + s) bs 16777216" and s: "24 \<le> s"
    and m: "ram h p = \<lparr>next_ptr = p + s, prev_ptr = pv, used = u\<rparr>"
    using Cons.prems(1) b by auto
  note le = chain_le [OF c]
  have IH: "mem_scan h sz (p + s) =
     Some (if list_ex (fits sz) bs then Some (addr (p + s) (takeWhile (\<lambda>b. \<not> fits sz b) bs)) else None)"
    using Cons.IH [OF c Cons.prems(2)] .
  have eq: "sub64 (p + s) (p + 12) = s - 12"
    using le s by (subst sub64_le) auto
  show ?case
  proof (cases "p < 16777216 - sz")
    case True
    have "mem_scan h sz p = (if fits sz b then Some (Some p) else mem_scan h sz (p + s))"
      using True m eq s b by (subst mem_scan.simps) (auto simp: fits_def)
    with IH b show ?thesis by auto
  next
    case False
    have no: "\<not> list_ex (fits sz) bs" if "chain (ram h) pv p bs 16777216" "16777216 - sz \<le> p" for pv p bs
      using that
    proof (induction bs arbitrary: pv p)
      case (Cons c cs)
      obtain s' u' where c: "c = (s', u')" by (cases c)
      with Cons have "chain (ram h) p (p + s') cs 16777216" by simp
      with chain_le [OF this] Cons.IH [OF this] c Cons.prems(2) show ?case by (auto simp: fits_def)
    qed simp
    have "\<not> list_ex (fits sz) (b # bs)"
      using no [OF Cons.prems(1)] False by simp
    moreover have "mem_scan h sz p = Some None"
      using False by (subst mem_scan.simps) simp
    ultimately show ?thesis by simp
  qed
qed

lemma next_lfree_eq:
  "chain (ram h) pv p bs 16777216 \<Longrightarrow> next_lfree h p = Some (first_free p bs)"
proof (induction bs arbitrary: pv p)
  case Nil
  then show ?case by (subst next_lfree.simps) simp
next
  case (Cons b bs)
  obtain s u where b: "b = (s, u)" by (cases b)
  then have "chain (ram h) p (p + s) bs 16777216" "24 \<le> s" using Cons.prems by auto
  then show ?case
    using b Cons.IH Cons.prems chain_le [of "ram h" p "p + s" bs 16777216]
    by (subst next_lfree.simps) auto
qed

lemma chain_first_free:
  "chain m pv p bs e \<Longrightarrow> first_free p bs = e \<or> \<not> used (m (first_free p bs))"
  by (induction m pv p bs e rule: chain.induct) auto

lemma linked_mem_take:
  assumes "linked h (xs @ (s, False) # ys)" and "sz + 12 \<le> s" and "12 \<le> sz"
  shows "\<exists>h'. mem_take (addr 0 xs) sz h = Inr h' \<and> linked h' (xs @ split_block s sz @ ys) \<and>
           lfree h' = lfree h \<and> ram_data h' = ram_data h"
proof -
  let ?a = "addr 0 xs" and ?e = "16777216 :: nat"
  note at = linked_at [OF assms(1)]
  have eq: "sub64 (?a + s) (?a + 12) = s - 12"
    using at by (subst sub64_le) auto
  show ?thesis
  proof (cases "sz + 36 \<le> s")
    case False
    then have "mem_take ?a sz h = Inr (set_used ?a True h)"
      using at eq assms by (simp add: mem_take_def le_diff_conv2)
    then show ?thesis
      using linked_set_used [OF assms(1), of True] False by (simp add: split_block_def set_used_def)
  next
    case True
    let ?q = "?a + (sz + 12)" and ?n = "?a + s"
    have c: "chain (ram h) 0 0 xs ?a" "chain (ram h) ?a ?n ys ?e" and e: "ram h ?e = end_mem"
      using assms(1) by (auto simp: linked_def)
    have zq: "?n = ?e \<longleftrightarrow> ys = []"
      using chain_Nil_iff [OF c(2)] .
    let ?m = "((ram h)(?q := \<lparr>next_ptr = ?n, prev_ptr = ?a, used = False\<rparr>))
        (?a := \<lparr>next_ptr = ?q, prev_ptr = last_addr 0 0 xs, used = True\<rparr>)"
    define h' where "h' = h\<lparr>ram := (if ys = [] then ?m else ?m(?n := (?m ?n)\<lparr>prev_ptr := ?q\<rparr>))\<rparr>"
    have add: "add32 (add32 ?a 12) sz = ?q" using True at by simp
    have "mem_take ?a sz h = Inr h'"
      unfolding mem_take_def Let_def mem_constants add
      using at eq True zq assms(3) by (simp add: set_field_defs h'_def)
    moreover have "linked h' (xs @ split_block s sz @ ys)"
    proof -
      have zm: "chain ?m ?a ?n ys ?e"
        using c(2) at(2) True by (intro chain_upd_out) auto
      have "chain (ram h') ?q ?n ys ?e"
        using zm chain_set_prev [OF zm, of ?q] zq unfolding h'_def by (cases "ys = []") auto
      moreover have "chain (ram h') 0 0 xs ?a"
        unfolding h'_def using c by (auto intro!: chain_upd_out)
      moreover have "ram h' ?e = end_mem"
        unfolding h'_def using e at zq True by auto
      moreover have "ram h' ?a = \<lparr>next_ptr = ?q, prev_ptr = last_addr 0 0 xs, used = True\<rparr>"
        "ram h' ?q = \<lparr>next_ptr = ?n, prev_ptr = ?a, used = False\<rparr>"
        unfolding h'_def using True at(2) by auto
      ultimately show ?thesis
        using True at assms(3) by (simp add: linked_def split_block_def)
    qed
    ultimately show ?thesis by (auto simp: h'_def)
  qed
qed

lemma list_ex_split:
  "list_ex P xs \<Longrightarrow> \<exists>b ys. xs = takeWhile (\<lambda>b. \<not> P b) xs @ b # ys \<and> P b"
  by (induction xs) auto

lemma no_adjacent_free_split:
  assumes "no_adjacent_free (xs @ (s, False) # ys)"
  shows "no_adjacent_free (xs @ split_block s sz @ ys)"
proof -
  have "no_adjacent_free ys" and "ys = [] \<or> snd (hd ys)"
    using assms by (cases ys; auto)+
  then show ?thesis using assms by (cases ys) (auto simp: split_block_def)
qed

lemma first_free_split:
  "first_free p (xs @ split_block s sz @ ys) =
     (if list_all snd xs then first_free (addr p xs) (split_block s sz @ ys) else first_free p xs)"
  by simp

lemma mem_malloc_refines:
  assumes rel: "heap_rel h bs" and n: "0 < n" "n < 2 ^ 32"
  shows "(mem_malloc n h = Inr (None, h) \<and> \<not> list_ex (fits (max 12 n)) bs) \<or>
     (\<exists>xs s ys h'. bs = xs @ (s, False) # ys \<and> \<not> list_ex (fits (max 12 n)) xs \<and> max 12 n + 12 \<le> s \<and>
        mem_malloc n h = Inr (Some (addr 0 xs + 12), h') \<and>
        heap_rel h' (xs @ split_block s (max 12 n) @ ys) \<and> ram_data h' = ram_data h)"
proof -
  let ?sz = "max 12 n"
  have l: "linked h bs" and naf: "no_adjacent_free bs" and lf: "lfree h = first_free 0 bs"
    using rel by (auto simp: heap_rel_linked)
  have c: "chain (ram h) 0 0 bs 16777216" using l by (simp add: linked_def)
  have sz: "(if n < 12 then 12 else n) = ?sz" by auto
  let ?t = "takeWhile snd bs" and ?d = "dropWhile snd bs"
  have no_t: "\<not> list_ex (fits ?sz) ?t"
    by (auto simp: list_ex_iff fits_def dest: set_takeWhileD)
  have ex: "list_ex (fits ?sz) bs \<longleftrightarrow> list_ex (fits ?sz) ?d"
    using no_t by (metis list_ex_append takeWhile_dropWhile_id)
  show ?thesis
  proof (cases "?sz \<le> 16777216")
    case False
    have "\<not> fits ?sz b" if b: "b \<in> set bs" for b
    proof -
      obtain xs ys where "bs = xs @ (fst b, snd b) # ys" using split_list [OF b] by auto
      with l linked_at(3) [of h xs "fst b" "snd b" ys] have "fst b \<le> 16777216" by simp
      with False show ?thesis by (auto simp: fits_def)
    qed
    then have "\<not> list_ex (fits ?sz) bs" by (auto simp: list_ex_iff)
    moreover have "mem_malloc n h = Inr (None, h)"
      using False n by (simp add: mem_malloc_def sz Let_def)
    ultimately show ?thesis by simp
  next
    case True
    have m: "mem_malloc n h = obind (of_loop (mem_scan h ?sz (lfree h))) (\<lambda>r.
            case r of None \<Rightarrow> Inr (None, h)
            | Some mem \<Rightarrow> obind (mem_take mem ?sz h) (\<lambda>h. obind (adjust_lfree mem h) (\<lambda>h.
                lwip_assert ''mem_malloc: allocated memory not above ram_end.'' (mem + 12 + ?sz \<le> 16777216)
                  (Inr (Some (mem + 12), h)))))"
      using True n by (simp add: mem_malloc_def sz Let_def)
    have scan: "mem_scan h ?sz (lfree h) =
        Some (if list_ex (fits ?sz) ?d then Some (addr (lfree h) (takeWhile (\<lambda>b. \<not> fits ?sz b) ?d)) else None)"
      using mem_scan_eq [OF chain_takeWhile [OF c] True] lf by simp
    show ?thesis
    proof (cases "list_ex (fits ?sz) bs")
      case False
      then show ?thesis using m scan ex by simp
    next
      case True': True
      let ?w = "takeWhile (\<lambda>b. \<not> fits ?sz b) ?d"
      define xs where "xs = ?t @ ?w"
      obtain b ys where d: "?d = ?w @ b # ys" and fb: "fits ?sz b"
        using list_ex_split [of "fits ?sz" ?d] True' ex by auto
      then obtain s where b: "b = (s, False)" and s: "?sz + 12 \<le> s"
        by (cases b) (auto simp: fits_def)
      have bs: "bs = xs @ (s, False) # ys"
        unfolding xs_def append_assoc b [symmetric] d [symmetric] by simp
      have a: "addr (lfree h) ?w = addr 0 xs"
        by (simp add: xs_def lf first_free_takeWhile)
      have nx: "\<not> list_ex (fits ?sz) xs"
        using no_t by (auto simp: xs_def list_ex_iff dest: set_takeWhileD)
      obtain h1 where h1: "mem_take (addr 0 xs) ?sz h = Inr h1" "linked h1 (xs @ split_block s ?sz @ ys)"
        "lfree h1 = lfree h" "ram_data h1 = ram_data h"
        using linked_mem_take [of h xs s ys ?sz] l bs s by auto
      have lfx: "lfree h = (if list_all snd xs then addr 0 xs else first_free 0 xs)"
        using lf bs by simp
      have ne: "\<not> list_all snd xs \<Longrightarrow> lfree h \<noteq> addr 0 xs"
        using lfx first_free_less [of xs "ram h" 0 0 "addr 0 xs"] l bs by (auto simp: linked_def)
      define h2 where "h2 = h1\<lparr>lfree := first_free 0 (xs @ split_block s ?sz @ ys)\<rparr>"
      have "adjust_lfree (addr 0 xs) h1 = Inr h2"
      proof (cases "list_all snd xs")
        case True
        have c1: "chain (ram h1) (last_addr 0 0 xs) (addr 0 xs) (split_block s ?sz @ ys) 16777216"
          using h1(2) unfolding linked_def by (simp only: chain_append ram_end_def mem_constants)
        have "first_free (addr 0 xs) (split_block s ?sz @ ys) = 16777216 \<or>
            \<not> used (ram h1 (first_free (addr 0 xs) (split_block s ?sz @ ys)))"
          using c1 by (rule chain_first_free)
        then show ?thesis
          using True lfx h1(3) next_lfree_eq [OF c1]
          by (simp add: adjust_lfree_def h2_def del: first_free_append) simp
      next
        case False
        then show ?thesis
          using ne lfx h1(3) by (auto simp: adjust_lfree_def h2_def)
      qed
      moreover have "heap_rel h2 (xs @ split_block s ?sz @ ys)"
      proof -
        have "linked h2 (xs @ split_block s ?sz @ ys)"
          using h1(2) unfolding h2_def linked_def by simp
        moreover have "no_adjacent_free (xs @ split_block s ?sz @ ys)"
          using naf unfolding bs by (rule no_adjacent_free_split)
        ultimately show ?thesis unfolding heap_rel_linked h2_def by simp
      qed
      moreover have "addr 0 xs + 12 + ?sz \<le> 16777216"
        using linked_at(3) [of h xs s False ys] l bs s by simp
      ultimately have "mem_malloc n h = Inr (Some (addr 0 xs + 12), h2)"
        using m scan True' ex a h1 by simp
      moreover have "ram_data h2 = ram_data h"
        using h1(4) by (simp add: h2_def)
      ultimately show ?thesis
        using bs nx s \<open>heap_rel h2 _\<close> by blast
    qed
  qed
qed

section \<open>Trimming\<close>

text \<open>Two adjacent blocks written into the place of what was between \<open>xs\<close> and \<open>ys\<close>.\<close>

definition relink :: "nat \<Rightarrow> bool \<Rightarrow> nat \<Rightarrow> bool \<Rightarrow> nat \<Rightarrow> block list \<Rightarrow> block list \<Rightarrow> (nat \<Rightarrow> mem) \<Rightarrow> nat \<Rightarrow> mem" where
  "relink a u q v n xs ys m =
     (let m = m(q := \<lparr>next_ptr = n, prev_ptr = a, used = v\<rparr>,
                a := \<lparr>next_ptr = q, prev_ptr = last_addr 0 0 xs, used = u\<rparr>)
      in if ys = [] then m else m(n := (m n)\<lparr>prev_ptr := q\<rparr>))"

lemma chain_relink:
  assumes "chain m 0 0 xs a" and "chain m pv n ys 16777216" and "m 16777216 = end_mem"
    and "a + 24 \<le> q" and "q + 24 \<le> n"
  shows "chain (relink a u q v n xs ys m) 0 0 (xs @ (q - a, u) # (n - q, v) # ys) 16777216"
    and "relink a u q v n xs ys m 16777216 = end_mem"
proof -
  let ?m = "m(q := \<lparr>next_ptr = n, prev_ptr = a, used = v\<rparr>,
      a := \<lparr>next_ptr = q, prev_ptr = last_addr 0 0 xs, used = u\<rparr>)"
  have a: "addr 0 xs = a" using chain_end [OF assms(1)] by simp
  have zq: "n = 16777216 \<longleftrightarrow> ys = []" and n: "n \<le> 16777216"
    using chain_Nil_iff [OF assms(2)] chain_le [OF assms(2)] by auto
  have zm: "chain ?m pv n ys 16777216"
    using assms by (intro chain_upd_out) auto
  have "chain (relink a u q v n xs ys m) q n ys 16777216"
    using zm chain_set_prev [OF zm, of q] zq unfolding relink_def Let_def by (cases "ys = []") auto
  moreover have "chain (relink a u q v n xs ys m) 0 0 xs a"
    using assms by (auto simp: relink_def Let_def intro!: chain_upd_out)
  moreover have "relink a u q v n xs ys m a = \<lparr>next_ptr = q, prev_ptr = last_addr 0 0 xs, used = u\<rparr>"
    "relink a u q v n xs ys m q = \<lparr>next_ptr = n, prev_ptr = a, used = v\<rparr>"
    using assms by (auto simp: relink_def Let_def)
  ultimately show "chain (relink a u q v n xs ys m) 0 0 (xs @ (q - a, u) # (n - q, v) # ys) 16777216"
    using a assms(4,5) by (simp add: le_diff_conv2)
  show "relink a u q v n xs ys m 16777216 = end_mem"
    using assms n zq by (auto simp: relink_def Let_def)
qed

datatype trim_result = Trimmed "block list" | Unchanged | Grows | LastBlock

text \<open>What \<open>mem_trim\<close> does to a used block of size \<open>s\<close> in front of \<open>ys\<close>, for a new size \<open>nz\<close>.\<close>

definition trim_blocks :: "nat \<Rightarrow> nat \<Rightarrow> block list \<Rightarrow> trim_result" where
  "trim_blocks s nz ys =
     (if s < nz + 12 then Grows
      else if s = nz + 12 then Unchanged
      else case ys of
        [] \<Rightarrow> if nz + 36 \<le> s then LastBlock else Unchanged
      | (s2, u) # zs \<Rightarrow>
          if \<not> u then Trimmed ((nz + 12, True) # (s + s2 - (nz + 12), False) # zs)
          else if nz + 36 \<le> s then Trimmed ((nz + 12, True) # (s - (nz + 12), False) # ys)
          else Unchanged)"

lemma heap_rel_at:
  assumes "heap_rel h (xs @ (s, u) # ys)"
  shows "ram h (addr 0 xs) = \<lparr>next_ptr = addr 0 xs + s, prev_ptr = last_addr 0 0 xs, used = u\<rparr>"
    and "24 \<le> s" and "addr 0 xs + s \<le> 16777216"
    and "chain (ram h) 0 0 xs (addr 0 xs)" and "chain (ram h) (addr 0 xs) (addr 0 xs + s) ys 16777216"
    and "ram h 16777216 = end_mem" and "no_adjacent_free (xs @ (s, u) # ys)"
    and "lfree h = first_free 0 (xs @ (s, u) # ys)"
proof -
  have l: "linked h (xs @ (s, u) # ys)"
    and r: "no_adjacent_free (xs @ (s, u) # ys)" "lfree h = first_free 0 (xs @ (s, u) # ys)"
    using assms unfolding heap_rel_linked by blast+
  show "no_adjacent_free (xs @ (s, u) # ys)" "lfree h = first_free 0 (xs @ (s, u) # ys)"
    by (rule r)+
  show "ram h (addr 0 xs) = \<lparr>next_ptr = addr 0 xs + s, prev_ptr = last_addr 0 0 xs, used = u\<rparr>"
    "24 \<le> s" "addr 0 xs + s \<le> 16777216"
    by (rule linked_at [OF l])+
  show "chain (ram h) 0 0 xs (addr 0 xs)" "chain (ram h) (addr 0 xs) (addr 0 xs + s) ys 16777216"
    "ram h 16777216 = end_mem"
    using l by (simp_all add: linked_def)
qed

definition trim_outcome :: "trim_result \<Rightarrow> int \<Rightarrow> block list \<Rightarrow> heap \<Rightarrow> (int option \<times> heap) outcome \<Rightarrow> bool" where
  "trim_outcome t rmem xs h r =
     (case t of
        Grows \<Rightarrow> r = Inl (Assertion ''mem_trim can only shrink memory'')
      | LastBlock \<Rightarrow> r = Inl (Assertion ''invalid next ptr'')
      | Unchanged \<Rightarrow> r = Inr (Some rmem, h)
      | Trimmed cs \<Rightarrow> (\<exists>h'. r = Inr (Some rmem, h') \<and> heap_rel h' (xs @ cs) \<and> ram_data h' = ram_data h))"

lemma mem_trim_unfold:
  assumes rel: "heap_rel h (xs @ (s, True) # ys)" and n: "max 12 n \<le> 16777216"
  defines "a \<equiv> addr 0 xs" and "nz \<equiv> max 12 n"
  shows "mem_trim (int a + 12) n h =
     lwip_assert ''mem_trim can only shrink memory'' (nz + 12 \<le> s)
       (if s = nz + 12 then Inr (Some (int a + 12), h)
        else if \<not> used (ram h (a + s)) then
          lwip_assert ''invalid next ptr'' (a + s \<noteq> 16777216)
            (let nxt = next_ptr (ram h (a + s)); q = a + (nz + 12);
                h = (if lfree h = a + s then h\<lparr>lfree := q\<rparr> else h);
                h = put_mem q \<lparr>next_ptr = nxt, prev_ptr = a, used = False\<rparr> h;
                h = set_next a q h;
                h = (if nxt \<noteq> 16777216 then set_prev nxt q h else h)
             in Inr (Some (int a + 12), h))
        else if nz + 36 \<le> s then
          lwip_assert ''invalid next ptr'' (a + s \<noteq> 16777216)
            (let nxt = a + s; q = a + (nz + 12);
                h = (if q < lfree h then h\<lparr>lfree := q\<rparr> else h);
                h = put_mem q \<lparr>next_ptr = nxt, prev_ptr = a, used = False\<rparr> h;
                h = set_next a q h;
                h = (if nxt \<noteq> 16777216 then set_prev nxt q h else h)
             in Inr (Some (int a + 12), h))
        else Inr (Some (int a + 12), h))"
proof -
  note at = heap_rel_at [OF rel]
  have nz: "(if n < 12 then 12 else n) = nz" "n < 2 ^ 32" "\<not> nz < n" "\<not> 16777216 < nz"
    using n by (auto simp: nz_def)
  have p: "sub32 (nat (int a + 12)) 12 = a"
    using at by (subst sub32_le) (auto simp: a_def)
  have sz: "sub32 (sub32 (a + s) a) 12 = s - 12"
    using at by (auto simp: a_def)
  have q: "add32 (add32 a 12) nz = a + (nz + 12)"
    using at nz by (auto simp: a_def)
  have le: "nz \<le> s - 12 \<longleftrightarrow> nz + 12 \<le> s" "nz = s - 12 \<longleftrightarrow> s = nz + 12"
    "nz + 12 + 12 \<le> s - 12 \<longleftrightarrow> nz + 36 \<le> s" and lt: "a + 12 < 16777216"
    using at by (auto simp: a_def)
  have "0 \<le> int a + 12 \<and> int a + 12 < int 16777216" using lt by simp
  then show ?thesis
    unfolding mem_trim_def Let_def mem_constants LWIP_MEM_ALIGN_SIZE_id [OF nz(2)] nz p
      at(1) [folded a_def] mem.simps sz q le
    using nz(3,4) by simp
qed

lemma heap_rel_relink:
  assumes rel: "heap_rel h (xs @ (s, True) # ys)"
    and tail: "chain (ram h) pv n zs 16777216" "12 \<le> nz" "addr 0 xs + (nz + 12) + 24 \<le> n"
    and naf: "no_adjacent_free zs" "zs = [] \<or> snd (hd zs)"
    and h': "ram h' = relink (addr 0 xs) True (addr 0 xs + (nz + 12)) False n xs zs (ram h)"
    and lf: "lfree h' = (if list_all snd xs then addr 0 xs + (nz + 12) else first_free 0 xs)"
  shows "heap_rel h' (xs @ (nz + 12, True) # (n - (addr 0 xs + (nz + 12)), False) # zs)"
proof -
  note at = heap_rel_at [OF rel]
  have "chain (ram h') 0 0 (xs @ (nz + 12, True) # (n - (addr 0 xs + (nz + 12)), False) # zs) 16777216"
    "ram h' 16777216 = end_mem"
    using chain_relink [OF at(4) tail(1) at(6), of "addr 0 xs + (nz + 12)" True False] tail(2,3)
    unfolding h' by simp_all
  moreover have "no_adjacent_free (xs @ (nz + 12, True) # (n - (addr 0 xs + (nz + 12)), False) # zs)"
    using at(7) naf by (cases zs) auto
  moreover have "lfree h' = first_free 0 (xs @ (nz + 12, True) # (n - (addr 0 xs + (nz + 12)), False) # zs)"
    using lf by simp
  ultimately show ?thesis unfolding heap_rel_def ram_end_def mem_constants by blast
qed

lemma mem_trim_refines:
  assumes rel: "heap_rel h (xs @ (s, True) # ys)" and n: "max 12 n \<le> 16777216"
  shows "trim_outcome (trim_blocks s (max 12 n) ys) (int (addr 0 xs) + 12) xs h
           (mem_trim (int (addr 0 xs) + 12) n h)"
proof -
  let ?a = "addr 0 xs" and ?nz = "max 12 n"
  note at = heap_rel_at [OF rel]
  note unf = mem_trim_unfold [OF rel n]
  have lt: "\<not> list_all snd xs \<Longrightarrow> first_free 0 xs < ?a"
    using first_free_less [OF _ at(4)] .
  consider "s \<le> ?nz + 12" | "ys = []" | s2 zs where "?nz + 12 < s" "ys = (s2, False) # zs"
    | s2 zs where "?nz + 12 < s" "ys = (s2, True) # zs"
    by (cases ys; cases "snd (hd ys)") (auto simp: not_le [symmetric] simp del: max.bounded_iff)
  then show ?thesis
  proof cases
    case 1
    then show ?thesis unfolding unf by (auto simp: trim_outcome_def trim_blocks_def)
  next
    case 2
    then have "?a + s = 16777216" using at(5) by simp
    then show ?thesis
      unfolding unf using at(6) 2 by (auto simp: trim_outcome_def trim_blocks_def end_mem_def)
  next
    case (3 s2 zs)
    let ?q = "?a + (?nz + 12)" and ?n = "?a + s + s2"
    have c: "ram h (?a + s) = \<lparr>next_ptr = ?n, prev_ptr = ?a, used = False\<rparr>" "24 \<le> s2"
      "chain (ram h) (?a + s) ?n zs 16777216"
      using at(5) 3 by auto
    have ne: "?a + s \<noteq> 16777216" "?n = 16777216 \<longleftrightarrow> zs = []"
      using chain_le [OF c(3)] c(2) chain_Nil_iff [OF c(3)] by auto
    define h' where "h' = (let h = (if lfree h = ?a + s then h\<lparr>lfree := ?q\<rparr> else h);
        h = put_mem ?q \<lparr>next_ptr = ?n, prev_ptr = ?a, used = False\<rparr> h; h = set_next ?a ?q h
      in if ?n \<noteq> 16777216 then set_prev ?n ?q h else h)"
    have "mem_trim (int ?a + 12) n h = Inr (Some (int ?a + 12), h')"
      unfolding unf using 3(1) c(1) ne by (simp add: h'_def Let_def)
    moreover have "heap_rel h' (xs @ (?nz + 12, True) # (?n - ?q, False) # zs)"
    proof (rule heap_rel_relink [OF rel c(3)])
      show "ram h' = relink ?a True ?q False ?n xs zs (ram h)"
        using at(1) ne(2) by (auto simp: h'_def relink_def Let_def set_field_defs)
      show "lfree h' = (if list_all snd xs then ?q else first_free 0 xs)"
        using at(8) 3(2) lt by (auto simp: h'_def Let_def set_field_defs)
      show "no_adjacent_free zs" "zs = [] \<or> snd (hd zs)"
        using at(7) 3(2) by (cases zs; auto)+
    qed (use 3(1) c(2) in auto)
    moreover have "ram_data h' = ram_data h"
      by (simp add: h'_def Let_def set_field_defs)
    moreover have "?n - ?q = s + s2 - (?nz + 12)" by simp
    ultimately show ?thesis
      using 3 by (auto simp: trim_outcome_def trim_blocks_def)
  next
    case (4 s2 zs)
    let ?q = "?a + (?nz + 12)" and ?n = "?a + s"
    have ne: "?n \<noteq> 16777216" "used (ram h ?n)" "ys \<noteq> []"
      using at(5) 4 chain_le [of "ram h" "?n" "?n + s2" zs 16777216] by auto
    define h' where "h' = (let h = (if ?q < lfree h then h\<lparr>lfree := ?q\<rparr> else h);
        h = put_mem ?q \<lparr>next_ptr = ?n, prev_ptr = ?a, used = False\<rparr> h; h = set_next ?a ?q h
      in if ?n \<noteq> 16777216 then set_prev ?n ?q h else h)"
    show ?thesis
    proof (cases "?nz + 36 \<le> s")
      case False
      then show ?thesis
        unfolding unf using 4 ne by (auto simp: trim_outcome_def trim_blocks_def)
    next
      case True
      have "mem_trim (int ?a + 12) n h = Inr (Some (int ?a + 12), h')"
        unfolding unf using 4(1) ne True by (simp add: h'_def Let_def)
      moreover have "heap_rel h' (xs @ (?nz + 12, True) # (?n - ?q, False) # ys)"
      proof (rule heap_rel_relink [OF rel at(5)])
        show "ram h' = relink ?a True ?q False ?n xs ys (ram h)"
          using at(1) ne by (auto simp: h'_def relink_def Let_def set_field_defs)
        show "lfree h' = (if list_all snd xs then ?q else first_free 0 xs)"
        proof -
          have "lfree h' = (if ?q < lfree h then ?q else lfree h)"
            by (simp add: h'_def Let_def set_field_defs)
          moreover have "?q < first_free ?a ((s, True) # ys)"
            using 4 first_free_ge [of "?n + s2" zs] by simp
          ultimately show ?thesis
            using at(8) lt by (cases "list_all snd xs") auto
        qed
        show "no_adjacent_free ys" "ys = [] \<or> snd (hd ys)"
          using at(7) 4(2) by auto
      qed (use True in auto)
      moreover have "ram_data h' = ram_data h"
        by (simp add: h'_def Let_def set_field_defs)
      moreover have "?n - ?q = s - (?nz + 12)" by simp
      ultimately show ?thesis
        using 4 True by (auto simp: trim_outcome_def trim_blocks_def)
    qed
  qed
qed

section \<open>The allocated memory\<close>

text \<open>
  What the users of the heap see: the addresses of the used blocks' data with their sizes. The
  blocks are read off the headers by following the \<open>next\<close> links as long as they increase.
\<close>

fun allocs :: "nat \<Rightarrow> block list \<Rightarrow> (nat \<times> nat) list" where
  "allocs p [] = []"
| "allocs p ((s, u) # bs) = (if u then [(p + 12, s - 12)] else []) @ allocs (p + s) bs"

function blocks_from :: "(nat \<Rightarrow> mem) \<Rightarrow> nat \<Rightarrow> block list" where
  "blocks_from m p =
     (if p < 16777216 \<and> p < next_ptr (m p)
      then (next_ptr (m p) - p, used (m p)) # blocks_from m (next_ptr (m p)) else [])"
  by pat_completeness auto
termination
  by (relation "measure (\<lambda>(m, p). 16777216 - p)") auto

declare blocks_from.simps [simp del]

definition blocks :: "heap \<Rightarrow> block list" where
  "blocks h = blocks_from (ram h) 0"

definition heap_ok :: "heap \<Rightarrow> bool" where
  "heap_ok h \<longleftrightarrow> heap_rel h (blocks h)"

definition live :: "heap \<Rightarrow> nat \<rightharpoonup> nat" where
  "live h = map_of (allocs 0 (blocks h))"

lemma blocks_from_chain: "chain m pv p bs 16777216 \<Longrightarrow> blocks_from m p = bs"
proof (induction bs arbitrary: pv p)
  case Nil
  then show ?case by (subst blocks_from.simps) simp
next
  case (Cons b bs)
  obtain s u where b: "b = (s, u)" by (cases b)
  then have "chain m p (p + s) bs 16777216" "24 \<le> s" "m p = \<lparr>next_ptr = p + s, prev_ptr = pv, used = u\<rparr>"
    using Cons.prems by auto
  then show ?case
    using b Cons.IH chain_le by (subst blocks_from.simps) fastforce
qed

lemma heap_rel_blocks: "heap_rel h bs \<Longrightarrow> blocks h = bs"
  using blocks_from_chain by (auto simp: heap_rel_def blocks_def)

lemma heap_relD: "heap_rel h bs \<Longrightarrow> heap_ok h \<and> live h = map_of (allocs 0 bs)"
  using heap_rel_blocks by (auto simp: heap_ok_def live_def)

lemma allocs_append [simp]: "allocs p (xs @ ys) = allocs p xs @ allocs (addr p xs) ys"
  by (induction xs arbitrary: p) auto

lemma allocs_range:
  "chain m pv p bs e \<Longrightarrow> (q, k) \<in> set (allocs p bs) \<Longrightarrow> p + 12 \<le> q \<and> q + k \<le> e \<and> 12 \<le> k"
proof (induction m pv p bs e rule: chain.induct)
  case (2 m pv p s u bs e)
  then show ?case using chain_le [of m p "p + s" bs e] by (auto split: if_splits)
qed simp

lemma allocs_fresh_left: "chain m pv p bs e \<Longrightarrow> e \<le> q \<Longrightarrow> q \<notin> fst ` set (allocs p bs)"
  using allocs_range by fastforce

lemma allocs_fresh_right: "chain m pv p bs e \<Longrightarrow> q < p + 12 \<Longrightarrow> q \<notin> fst ` set (allocs p bs)"
  using allocs_range by fastforce

lemma map_of_middle:
  assumes "p \<notin> fst ` set as"
  shows "map_of (as @ (p, k) # bs) = (map_of (as @ bs))(p \<mapsto> k)"
proof
  fix x
  show "map_of (as @ (p, k) # bs) x = ((map_of (as @ bs))(p \<mapsto> k)) x"
    using assms map_of_eq_None_iff [of as p] by (auto simp: map_add_def split: option.splits)
qed

lemma map_of_remove:
  assumes "p \<notin> fst ` set as" and "p \<notin> fst ` set bs"
  shows "(map_of (as @ (p, k) # bs))(p := None) = map_of (as @ bs)"
  unfolding map_of_middle [OF assms(1)] using assms map_of_eq_None_iff [of "as @ bs" p]
  by (auto simp: fun_upd_idem_iff image_Un)

lemma live_split:
  assumes "heap_ok h" and "live h p = Some k"
  obtains xs ys where "blocks h = xs @ (k + 12, True) # ys" and "p = addr 0 xs + 12"
proof -
  have *: "(p, k) \<in> set (allocs a bs) \<Longrightarrow>
      \<exists>xs s ys. bs = xs @ (s, True) # ys \<and> p = addr a xs + 12 \<and> k = s - 12" for a bs
  proof (induction bs arbitrary: a)
    case (Cons b bs)
    obtain s u where b: "b = (s, u)" by (cases b)
    show ?case
    proof (cases "(p, k) \<in> set (allocs (a + s) bs)")
      case True
      from Cons.IH [OF this] obtain xs t ys where
        "bs = xs @ (t, True) # ys \<and> p = addr (a + s) xs + 12 \<and> k = t - 12" by blast
      then show ?thesis using b by (intro exI [of _ "b # xs"] exI [of _ t] exI [of _ ys]) simp
    next
      case False
      then have "u \<and> p = a + 12 \<and> k = s - 12"
        using Cons.prems b by (auto split: if_splits)
      then show ?thesis using b by (intro exI [of _ "[]"] exI [of _ s] exI [of _ bs]) simp
    qed
  qed simp
  have "(p, k) \<in> set (allocs 0 (blocks h))"
    using assms(2) by (simp add: live_def map_of_SomeD)
  then obtain xs s ys where bs: "blocks h = xs @ (s, True) # ys" "p = addr 0 xs + 12" "k = s - 12"
    using * by blast
  moreover have "24 \<le> s"
    using heap_rel_at(2) [of h xs s True ys] assms(1) bs by (simp add: heap_ok_def)
  ultimately show thesis using that by simp
qed

lemma allocs_merged: "allocs 0 (merge_left xs (merge_right s ys)) = allocs 0 xs @ allocs (addr 0 xs + s) ys"
proof -
  have "allocs p (merge_right s ys) = allocs (p + s) ys" for p
    by (cases ys) (auto simp: add.assoc)
  note eq = this [of "addr 0 xs"]
  obtain t zs where "merge_right s ys = (t, False) # zs"
    using merge_right_Cons by blast
  with eq show ?thesis
    by (cases xs rule: rev_cases) (auto simp: merge_left_def add.assoc)
qed

lemma heap_rel_chain_parts:
  assumes "heap_rel h (xs @ (s, u) # ys)"
  shows "q \<in> {addr 0 xs..<addr 0 xs + s + 12} \<Longrightarrow> q \<notin> fst ` set (allocs 0 xs)"
    and "q < addr 0 xs + s + 12 \<Longrightarrow> q \<notin> fst ` set (allocs (addr 0 xs + s) ys)"
  using heap_rel_at(4,5) [OF assms] allocs_fresh_left allocs_fresh_right by auto

lemma mem_free_live:
  assumes ok: "heap_ok h" and lv: "live h p = Some k"
  shows "\<exists>h'. mem_free (Some (int p)) h = Inr h' \<and> heap_ok h' \<and> live h' = (live h)(p := None) \<and>
           ram_data h' = ram_data h"
proof -
  obtain xs ys where bs: "blocks h = xs @ (k + 12, True) # ys" and p: "p = addr 0 xs + 12"
    using live_split [OF ok lv] .
  have rel: "heap_rel h (xs @ (k + 12, True) # ys)"
    using ok bs by (simp add: heap_ok_def)
  have lh: "live h = map_of (allocs 0 xs @ (p, k) # allocs (addr 0 xs + (k + 12)) ys)"
    using p by (simp add: live_def bs)
  obtain h' where h': "mem_free (Some (int (addr 0 xs) + 12)) h = Inr h'"
    "heap_rel h' (merge_left xs (merge_right (k + 12) ys))" "ram_data h' = ram_data h"
    using mem_free_refines [OF rel] by blast
  have "live h' = map_of (allocs 0 xs @ allocs (addr 0 xs + (k + 12)) ys)"
    using heap_relD [OF h'(2)] by (simp add: allocs_merged)
  also have "\<dots> = (live h)(p := None)"
    unfolding lh using heap_rel_chain_parts [OF rel, of p] p by (intro map_of_remove [symmetric]) auto
  finally have "live h' = (live h)(p := None)" .
  moreover have "int p = int (addr 0 xs) + 12" using p by simp
  ultimately show ?thesis
    using h' heap_relD [OF h'(2)] by metis
qed

lemma mem_malloc_live:
  assumes ok: "heap_ok h" and n: "n < 2 ^ 32"
  shows "\<exists>r h'. mem_malloc n h = Inr (r, h') \<and> heap_ok h' \<and> ram_data h' = ram_data h \<and>
     (case r of
        None \<Rightarrow> h' = h \<and> (n = 0 \<or> \<not> list_ex (fits (max 12 n)) (blocks h))
      | Some p \<Rightarrow> 0 < n \<and> live h p = None \<and> (\<exists>k \<ge> n. live h' = (live h)(p \<mapsto> k)))"
proof (cases "n = 0")
  case True
  then show ?thesis using ok by (simp add: mem_malloc_def)
next
  case False
  let ?sz = "max 12 n"
  have rel: "heap_rel h (blocks h)" using ok by (simp add: heap_ok_def)
  consider "mem_malloc n h = Inr (None, h)" "\<not> list_ex (fits ?sz) (blocks h)"
    | xs s ys h' where "blocks h = xs @ (s, False) # ys" "?sz + 12 \<le> s"
        "mem_malloc n h = Inr (Some (addr 0 xs + 12), h')"
        "heap_rel h' (xs @ split_block s ?sz @ ys)" "ram_data h' = ram_data h"
    using mem_malloc_refines [OF rel _ n] False by blast
  then show ?thesis
  proof cases
    case 1
    then show ?thesis using ok by simp
  next
    case (2 xs s ys h')
    let ?p = "addr 0 xs + 12"
    have rel': "heap_rel h (xs @ (s, False) # ys)" using rel 2(1) by simp
    have lh: "live h = map_of (allocs 0 xs @ allocs (addr 0 xs + s) ys)"
      by (simp add: live_def 2(1))
    define k where "k = (if ?sz + 36 \<le> s then ?sz else s - 12)"
    have lh': "live h' = map_of (allocs 0 xs @ (?p, k) # allocs (addr 0 xs + s) ys)"
      using heap_relD [OF 2(4)] 2(2) by (auto simp: split_block_def k_def)
    have fresh: "?p \<notin> fst ` set (allocs 0 xs)" "?p \<notin> fst ` set (allocs (addr 0 xs + s) ys)"
      using heap_rel_chain_parts [OF rel', of ?p] heap_rel_at(2) [OF rel'] by auto
    have "live h ?p = None"
      unfolding lh using fresh by (simp add: map_of_eq_None_iff image_Un)
    moreover have "live h' = (live h)(?p \<mapsto> k)"
      unfolding lh' lh by (rule map_of_middle [OF fresh(1)])
    moreover have "n \<le> k" using 2(2) by (auto simp: k_def)
    ultimately show ?thesis
      using 2 False heap_relD [OF 2(4)] by auto
  qed
qed

lemma live_in_heap:
  assumes ok: "heap_ok h" and lv: "live h p = Some k"
  shows "12 \<le> p \<and> p + k \<le> MEM_SIZE_ALIGNED \<and> 12 \<le> k"
proof -
  have "(p, k) \<in> set (allocs 0 (blocks h))"
    using lv by (simp add: live_def map_of_SomeD)
  moreover have "chain (ram h) 0 0 (blocks h) 16777216"
    using ok by (simp add: heap_ok_def heap_rel_def)
  ultimately show ?thesis using allocs_range by fastforce
qed

lemma live_separated_less:
  assumes ok: "heap_ok h" and p: "live h p = Some j" and q: "live h q = Some k" and "p < q"
  shows "p + j + 12 \<le> q"
proof -
  obtain xs ys where bs: "blocks h = xs @ (j + 12, True) # ys" and pa: "p = addr 0 xs + 12"
    using live_split [OF ok p] .
  have rel: "heap_rel h (xs @ (j + 12, True) # ys)"
    using ok bs by (simp add: heap_ok_def)
  have "(q, k) \<in> set (allocs 0 (blocks h))"
    using q by (simp add: live_def map_of_SomeD)
  then have "(q, k) \<in> set (allocs 0 xs) \<or> (q, k) \<in> set (allocs (addr 0 xs + (j + 12)) ys)"
    using bs pa \<open>p < q\<close> by auto
  then show ?thesis
    using heap_rel_at(4,5) [OF rel] pa \<open>p < q\<close> by (auto dest!: allocs_range)
qed

lemma live_separated:
  assumes "heap_ok h" and "live h p = Some j" and "live h q = Some k" and "p \<noteq> q"
  shows "p + j \<le> q \<or> q + k \<le> p"
  using live_separated_less [OF assms(1-3)] live_separated_less [OF assms(1,3,2)] assms(4)
  by (cases p q rule: linorder_cases) auto

lemma heap_ok_mem_init: "heap_ok (mem_init h) \<and> live (mem_init h) = Map.empty"
proof -
  have "heap_rel (mem_init h) [(16777216, False)]"
    by (simp add: heap_rel_def mem_init_def put_mem_def end_mem_def Let_def)
  from heap_relD [OF this] show ?thesis by simp
qed

section \<open>The sanity check\<close>

lemma mem_sanity_loop_ok:
  "linked h (xs @ ys) \<Longrightarrow> no_adjacent_free (xs @ ys) \<Longrightarrow> xs \<noteq> [] \<Longrightarrow>
   mem_sanity_loop h (addr 0 xs) (snd (last xs)) = Some (Inr ())"
proof (induction ys arbitrary: xs)
  case Nil
  then have "addr 0 xs = 16777216" "ram h 16777216 = end_mem"
    using chain_end [of "ram h" 0 0 xs 16777216] by (auto simp: linked_def)
  then show ?case by (subst mem_sanity_loop.simps) (simp add: end_mem_def)
next
  case (Cons b ys)
  obtain s u where b: "b = (s, u)" by (cases b)
  have l: "linked h (xs @ (s, u) # ys)" using Cons.prems(1) b by simp
  note at = linked_at [OF l]
  have "0 < addr 0 xs" and pv: "last_addr 0 0 xs \<le> 16777216"
    using chain_last_less [of "ram h" 0 0 xs "addr 0 xs"] l Cons.prems(3) at(3)
    by (auto simp: linked_def)
  moreover have "snd (last xs) \<or> u"
    using Cons.prems(2,3) b by simp
  moreover have "mem_sanity_loop h (addr 0 xs + s) u = Some (Inr ())"
    using Cons.IH [of "xs @ [b]"] Cons.prems b by simp
  ultimately show ?case
    using at linked_link_valid [OF l] by (subst mem_sanity_loop.simps) auto
qed

lemma heap_ok_mem_sanity: "heap_ok h \<Longrightarrow> mem_sanity h = Inr ()"
proof -
  assume ok: "heap_ok h"
  have l: "linked h (blocks h)" and naf: "no_adjacent_free (blocks h)"
    using ok by (auto simp: heap_ok_def heap_rel_linked)
  have "blocks h \<noteq> []" using l by (auto simp: linked_def)
  then obtain s u bs where b: "blocks h = (s, u) # bs" by (cases "blocks h") auto
  have "mem_sanity_loop h s u = Some (Inr ())"
    using mem_sanity_loop_ok [of h "[(s, u)]" bs] l naf b by simp
  moreover have "ram h 0 = \<lparr>next_ptr = s, prev_ptr = 0, used = u\<rparr>" "s \<le> 16777216"
    using linked_at [of h "[]" s u bs] l b by auto
  ultimately show ?thesis by (simp add: mem_sanity_def)
qed

section \<open>Returning memory\<close>

lemma live_empty_blocks:
  assumes ok: "heap_ok h" and "live h = Map.empty"
  shows "blocks h = [(16777216, False)]"
proof -
  have l: "linked h (blocks h)" and naf: "no_adjacent_free (blocks h)"
    using ok by (auto simp: heap_ok_def heap_rel_linked)
  have "allocs 0 (blocks h) = []"
    using assms(2) by (simp add: live_def)
  moreover have "allocs p bs = [] \<longleftrightarrow> list_all (\<lambda>b. \<not> snd b) bs" for p bs
    by (induction bs arbitrary: p) auto
  ultimately have fr: "list_all (\<lambda>b. \<not> snd b) (blocks h)" by simp
  have "blocks h \<noteq> []" using l by (auto simp: linked_def)
  then obtain s u bs where b: "blocks h = (s, u) # bs" by (cases "blocks h") auto
  have "bs = []" using b naf fr by (cases bs) auto
  with b l fr show ?thesis by (auto simp: linked_def)
qed

lemma allocs_trim:
  assumes "trim_blocks (k + 12) nz ys = Trimmed cs"
  shows "allocs a cs = (a + 12, nz) # allocs (a + (k + 12)) ys \<and> nz \<le> k"
proof -
  have "nz \<le> k" using assms by (auto simp: trim_blocks_def split: if_splits)
  then obtain d where "k = nz + d" using le_Suc_ex by blast
  with assms show ?thesis
    by (auto simp: trim_blocks_def ac_simps split: if_splits list.splits)
qed

lemma plug_holes_unused: "plug_holes a h = Inr h' \<Longrightarrow> \<not> used (ram h' a)"
proof -
  assume "plug_holes a h = Inr h'"
  then have h': "h' = plug_backward a (plug_forward a h)" and u: "\<not> used (ram h a)"
    by (auto simp: plug_holes_def lwip_assert_Inr_iff)
  have "used (ram (plug_forward a g) q) = used (ram g q)" for g q
    by (simp add: plug_forward_def Let_def set_field_defs)
  moreover have "used (ram (plug_backward a g) q) = used (ram g q)" for g q
    by (simp add: plug_backward_def Let_def set_field_defs)
  ultimately show ?thesis using h' u by simp
qed

section \<open>Correctness of the heap\<close>

interpretation heap: allocator heap_ok live unat "\<lambda>n. mem_malloc (unat (n :: u32))"
    "\<lambda>p. mem_free (Some (int p))"
proof
  fix h :: heap and n :: u32
  assume "heap_ok h"
  then show "\<exists>p h'. mem_malloc (unat n) h = Inr (p, h') \<and> heap_ok h' \<and>
      (case p of None \<Rightarrow> h' = h
       | Some p \<Rightarrow> live h p = None \<and> (\<exists>k \<ge> unat n. live h' = (live h)(p \<mapsto> k)))"
  proof -
    have "unat n < 2 ^ 32" using unat_u32_less [of n] by simp
    with \<open>heap_ok h\<close> obtain p h' where "mem_malloc (unat n) h = Inr (p, h')" "heap_ok h'"
      "case p of None \<Rightarrow> h' = h \<and> (unat n = 0 \<or> \<not> list_ex (fits (max 12 (unat n))) (blocks h))
      | Some p \<Rightarrow> 0 < unat n \<and> live h p = None \<and> (\<exists>k \<ge> unat n. live h' = (live h)(p \<mapsto> k))"
      using mem_malloc_live by blast
    then show ?thesis by (cases p) auto
  qed
next
  fix h p
  assume "heap_ok h" and "live h p \<noteq> None"
  then show "\<exists>h'. mem_free (Some (int p)) h = Inr h' \<and> heap_ok h' \<and> live h' = (live h)(p := None)"
    using mem_free_live [of h p] by auto
qed (rule live_separated)

text \<open>
  C31. \<open>mem_malloc\<close> terminates on a well-formed heap without failing an assertion and keeps it
  well-formed. It returns memory that was not allocated, of at least the requested size, and
  changes no other allocation and no data; it returns NULL only for size 0 or when no free block
  has room for the request (at least \<open>MIN_SIZE\<close> bytes).
\<close>

theorem mem_malloc_correct:
  assumes "heap_ok h" and "n < 2 ^ 32"
  shows "\<exists>r h'. mem_malloc n h = Inr (r, h') \<and> heap_ok h' \<and> ram_data h' = ram_data h \<and>
     (case r of
        None \<Rightarrow> h' = h \<and> (n = 0 \<or> \<not> list_ex (fits (max 12 n)) (blocks h))
      | Some p \<Rightarrow> 0 < n \<and> live h p = None \<and> (\<exists>k \<ge> n. live h' = (live h)(p \<mapsto> k)))"
  using mem_malloc_live [OF assms] .

definition zero_heap :: heap where
  "zero_heap = \<lparr>ram = (\<lambda>_. \<lparr>next_ptr = 0, prev_ptr = 0, used = False\<rparr>), lfree = 0, ram_data = (\<lambda>_. 0)\<rparr>"

theorem mem_malloc_correct_witness:
  "\<exists>r h'. mem_malloc 100 (mem_init zero_heap) = Inr (r, h') \<and> heap_ok h'"
  using mem_malloc_correct [OF conjunct1 [OF heap_ok_mem_init [of zero_heap]], of 100] by auto

text \<open>
  C32. Freeing an allocated address returns without failing an assertion, keeps the heap
  well-formed, removes exactly that allocation and touches no data.
\<close>

theorem mem_free_correct:
  assumes "heap_ok h" and "live h p = Some k"
  shows "\<exists>h'. mem_free (Some (int p)) h = Inr h' \<and> heap_ok h' \<and> live h' = (live h)(p := None) \<and>
           ram_data h' = ram_data h"
  using mem_free_live [OF assms] .

text \<open>A heap with one used block of 100 bytes, as \<open>mem_malloc 100\<close> leaves it.\<close>

definition heap100 :: heap where
  "heap100 = (mem_init zero_heap)\<lparr>ram := (\<lambda>_. end_mem)
     (0 := \<lparr>next_ptr = 112, prev_ptr = 0, used = True\<rparr>,
      112 := \<lparr>next_ptr = 16777216, prev_ptr = 0, used = False\<rparr>), lfree := 112\<rparr>"

lemma heap100_rel: "heap_rel heap100 [(112, True), (16777104, False)]"
  by (simp add: heap_rel_def heap100_def)

lemma heap100: "heap_ok heap100" "live heap100 12 = Some 100"
  using heap_relD [OF heap100_rel] by simp_all

theorem mem_free_correct_witness:
  "\<exists>h'. mem_free (Some 12) heap100 = Inr h' \<and> live h' = (live heap100)(12 := None)"
  using mem_free_correct [OF heap100] by auto

text \<open>
  The data of allocated blocks lies inside the heap and no two of them overlap; between them
  there is room for the header.
\<close>

theorem mem_live_disjoint:
  assumes "heap_ok h" and "live h p = Some j" and "live h q = Some k" and "p < q"
  shows "12 \<le> p \<and> p + j + SIZEOF_STRUCT_MEM \<le> q \<and> q + k \<le> MEM_SIZE_ALIGNED"
  using live_separated_less [OF assms] live_in_heap [OF assms(1,2)] live_in_heap [OF assms(1,3)] by simp

text \<open>A heap with two used blocks.\<close>

definition heap2 :: heap where
  "heap2 = (mem_init zero_heap)\<lparr>ram := (\<lambda>_. end_mem)
     (0 := \<lparr>next_ptr = 112, prev_ptr = 0, used = True\<rparr>,
      112 := \<lparr>next_ptr = 16777216, prev_ptr = 0, used = True\<rparr>), lfree := 16777216\<rparr>"

lemma heap2_rel: "heap_rel heap2 [(112, True), (16777104, True)]"
  by (simp add: heap_rel_def heap2_def)

lemma heap2: "heap_ok heap2" "live heap2 12 = Some 100" "live heap2 124 = Some 16777092"
  using heap_relD [OF heap2_rel] by simp_all

theorem mem_live_disjoint_witness: "12 + 100 + SIZEOF_STRUCT_MEM \<le> 124"
  using mem_live_disjoint [OF heap2] by simp

text \<open>
  Every well-formed heap passes \<open>mem_sanity\<close>, which then terminates: the links in both
  directions agree, no two free blocks are adjacent, and the end marker is intact.
\<close>

theorem mem_sanity_passes: "heap_ok h \<Longrightarrow> mem_sanity h = Inr ()"
  by (rule heap_ok_mem_sanity)

theorem mem_sanity_passes_witness: "mem_sanity heap100 = Inr ()"
  by (rule mem_sanity_passes [OF heap100(1)])

text \<open>
  C1. For every sequence of allocations and releases after \<open>mem_init\<close> in which a client releases
  what it holds, no call aborts or runs forever, the heap stays well-formed, and exactly what the
  client holds is allocated.
\<close>

theorem mem_client_safe:
  "\<exists>held h'. run_client (\<lambda>n. mem_malloc (unat (n :: u32))) (\<lambda>p. mem_free (Some (int p)))
       ops [] (mem_init h) = Inr (held, h') \<and>
     heap_ok h' \<and> distinct held \<and> dom (live h') = set held"
  using heap.run_client_safe [of "mem_init h" "[]" ops] heap_ok_mem_init [of h] by auto

text \<open>
  When everything has been released the free blocks have been joined into one again, and any
  request up to the whole heap less one header succeeds.
\<close>

theorem mem_all_returned:
  assumes "heap_ok h" and "live h = Map.empty" and "0 < n" and "n + 12 \<le> MEM_SIZE_ALIGNED"
  shows "blocks h = [(MEM_SIZE_ALIGNED, False)] \<and>
     (\<exists>p h'. mem_malloc n h = Inr (Some p, h') \<and> dom (live h') = {p})"
proof -
  have b: "blocks h = [(16777216, False)]"
    by (rule live_empty_blocks [OF assms(1,2)])
  have "list_ex (fits (max 12 n)) (blocks h)"
    using assms(4) by (simp add: b fits_def)
  moreover have "n < 2 ^ 32" using assms(4) by simp
  ultimately obtain p h' k where "mem_malloc n h = Inr (Some p, h')" "live h' = (live h)(p \<mapsto> k)"
    using mem_malloc_live [OF assms(1), of n] assms(3) by (auto split: option.splits)
  then show ?thesis using b assms(2) by auto
qed

theorem mem_all_returned_witness:
  "\<exists>p h'. mem_malloc 16777204 (mem_init zero_heap) = Inr (Some p, h')"
  using mem_all_returned [of "mem_init zero_heap" 16777204] heap_ok_mem_init [of zero_heap] by auto

lemma mem_trim_live:
  assumes ok: "heap_ok h" and lv: "live h p = Some k" and n: "max 12 n \<le> MEM_SIZE_ALIGNED"
  shows "mem_trim (int p) n h =
       Inl (Assertion ''mem_trim can only shrink memory'') \<and> k < max 12 n \<or>
     mem_trim (int p) n h =
       Inl (Assertion ''invalid next ptr'') \<and> p + k = MEM_SIZE_ALIGNED \<and> max 12 n + 24 \<le> k \<or>
     (\<exists>h' j. mem_trim (int p) n h = Inr (Some (int p), h') \<and> heap_ok h' \<and> n \<le> j \<and> j \<le> k \<and> j < max 12 n + 24 \<and>
        live h' = (live h)(p \<mapsto> j) \<and> ram_data h' = ram_data h)"
proof -
  let ?nz = "max 12 n"
  obtain xs ys where bs: "blocks h = xs @ (k + 12, True) # ys" and p: "p = addr 0 xs + 12"
    using live_split [OF ok lv] .
  have rel: "heap_rel h (xs @ (k + 12, True) # ys)"
    using ok bs by (simp add: heap_ok_def)
  have ip: "int (addr 0 xs) + 12 = int p" using p by simp
  have out: "trim_outcome (trim_blocks (k + 12) ?nz ys) (int p) xs h (mem_trim (int p) n h)"
    using mem_trim_refines [OF rel, of n] n unfolding ip by simp
  have lh: "live h = map_of (allocs 0 xs @ (p, k) # allocs (addr 0 xs + (k + 12)) ys)"
    using p by (simp add: live_def bs)
  show ?thesis
  proof (cases "trim_blocks (k + 12) ?nz ys")
    case Unchanged
    moreover have "?nz \<le> k" "k < ?nz + 24" using Unchanged by (auto simp: trim_blocks_def split: if_splits list.splits)
    moreover have "(live h)(p \<mapsto> k) = live h" using lv by (simp add: fun_upd_idem)
    ultimately show ?thesis using out ok
      by (intro disjI2 exI [of _ h] exI [of _ k]) (simp add: trim_outcome_def)
  next
    case Grows
    then show ?thesis using out
      by (auto simp: trim_outcome_def trim_blocks_def split: if_splits list.splits)
  next
    case LastBlock
    then have "ys = []" "?nz + 36 \<le> k + 12"
      by (auto simp: trim_blocks_def split: if_splits list.splits)
    moreover from this have "p + k = 16777216"
      using heap_rel_at(5) [OF rel] p by simp
    ultimately show ?thesis using out LastBlock by (simp add: trim_outcome_def)
  next
    case (Trimmed cs)
    then obtain h' where h': "mem_trim (int p) n h = Inr (Some (int p), h')" "heap_rel h' (xs @ cs)"
      "ram_data h' = ram_data h"
      using out by (auto simp: trim_outcome_def)
    have cs: "allocs (addr 0 xs) cs = (p, ?nz) # allocs (addr 0 xs + (k + 12)) ys" "?nz \<le> k"
      using allocs_trim [OF Trimmed] p by auto
    have "live h' = map_of (allocs 0 xs @ (p, ?nz) # allocs (addr 0 xs + (k + 12)) ys)"
      using heap_relD [OF h'(2)] cs(1) by simp
    also have "\<dots> = (live h)(p \<mapsto> ?nz)"
    proof -
      have f: "p \<notin> fst ` set (allocs 0 xs)" using heap_rel_chain_parts(1) [OF rel, of p] p by simp
      show ?thesis unfolding lh map_of_middle [OF f] by simp
    qed
    finally show ?thesis
      using h' heap_relD [OF h'(2)] cs(2) by (intro disjI2 exI [of _ h'] exI [of _ ?nz]) simp
  qed
qed

text \<open>
  Trimming an allocated block: growing it fails the assertion; otherwise the call returns the
  same pointer, the block afterwards has at least the new size and every other allocation is as
  before -- except that trimming the last block of the heap by 24 bytes or more fails the assertion
  on its \<open>next\<close> link.
\<close>

theorem mem_trim_correct:
  assumes ok: "heap_ok h" and lv: "live h p = Some k" and n: "max 12 n \<le> MEM_SIZE_ALIGNED"
  shows "mem_trim (int p) n h =
       Inl (Assertion ''mem_trim can only shrink memory'') \<and> k < max 12 n \<or>
     mem_trim (int p) n h =
       Inl (Assertion ''invalid next ptr'') \<and> p + k = MEM_SIZE_ALIGNED \<and> max 12 n + 24 \<le> k \<or>
     (\<exists>h' j. mem_trim (int p) n h = Inr (Some (int p), h') \<and> heap_ok h' \<and> n \<le> j \<and> j \<le> k \<and>
        live h' = (live h)(p \<mapsto> j) \<and> ram_data h' = ram_data h)"
  using mem_trim_live [OF assms] by blast

theorem mem_trim_correct_witness:
  "\<exists>h' j. mem_trim 12 40 heap100 = Inr (Some 12, h') \<and> heap_ok h' \<and> live h' = (live heap100)(12 \<mapsto> j)"
  using mem_trim_correct [OF heap100, of 40] by auto

text \<open>
  The last block of the heap cannot be trimmed: with the whole heap allocated in two blocks,
  shrinking the second one aborts on the assertion \<open>invalid next ptr\<close>.
\<close>

theorem mem_trim_last_block_aborts:
  "mem_trim 124 12 heap2 = Inl (Assertion ''invalid next ptr'')"
  using mem_trim_refines [of heap2 "[(112, True)]" 16777104 "[]" 12] heap2_rel
  by (simp add: trim_outcome_def trim_blocks_def)

text \<open>
  Freeing an address a second time right after the first aborts on an assertion instead of
  corrupting the heap.
\<close>

theorem mem_double_free_detected:
  assumes "heap_ok h" and "live h p = Some k" and "mem_free (Some (int p)) h = Inr h'"
  shows "mem_free (Some (int p)) h' = Inl (Assertion ''mem_free: illegal memory: double free'')"
proof -
  obtain xs ys where bs: "blocks h = xs @ (k + 12, True) # ys" and p: "p = addr 0 xs + 12"
    using live_split [OF assms(1,2)] .
  let ?a = "addr 0 xs"
  have na: "nat (int p) - 12 = ?a" and b: "\<not> (int p - 12 < 0 \<or> int p + 12 > 16777216)"
    using p live_in_heap [OF assms(1,2)] by auto
  obtain h1 where h1: "plug_holes ?a h1 = Inr h'"
    using assms(3) unfolding mem_free_def option.case mem_constants Let_def na
    by (auto simp: lwip_assert_Inr_iff split: if_splits)
  then have "\<not> used (ram h' ?a)"
    by (rule plug_holes_unused)
  then show ?thesis
    using b unfolding mem_free_def option.case mem_constants Let_def na by simp
qed

theorem mem_double_free_detected_witness:
  "\<exists>h'. mem_free (Some 12) heap100 = Inr h' \<and>
     mem_free (Some 12) h' = Inl (Assertion ''mem_free: illegal memory: double free'')"
  using mem_double_free_detected [OF heap100] mem_free_live [OF heap100] by auto

text \<open>
  \<open>mem_calloc\<close> returns memory for \<open>count\<close> objects filled with zeros, leaving all other data as
  it was, or NULL; a product beyond 32 bits gives NULL.
\<close>

theorem mem_calloc_correct:
  assumes "heap_ok h" and "count < 2 ^ 32" and "sz < 2 ^ 32"
  shows "\<exists>r h'. mem_calloc count sz h = Inr (r, h') \<and> heap_ok h' \<and>
     (case r of
        None \<Rightarrow> h' = h
      | Some p \<Rightarrow> count * sz < 2 ^ 32 \<and> live h p = None \<and>
          (\<exists>k \<ge> count * sz. live h' = (live h)(p \<mapsto> k)) \<and>
          (\<forall>i < count * sz. ram_data h' (p + i) = 0) \<and>
          (\<forall>a. a < p \<or> p + count * sz \<le> a \<longrightarrow> ram_data h' a = ram_data h a))"
proof -
  have "count * sz < 2 ^ 32 * 2 ^ 32"
    using assms(2,3) by (intro mult_strict_mono) auto
  then have m: "count * sz mod 2 ^ 64 = count * sz" by simp
  have ms: "heap_ok (memset0 p c h) = heap_ok h" "live (memset0 p c h) = live h" for p c h
    by (simp_all add: heap_ok_def live_def blocks_def memset0_def heap_rel_def)
  show ?thesis
  proof (cases "count * sz < 2 ^ 32")
    case False
    then have "count * sz mod 2 ^ 32 \<noteq> count * sz"
      by (metis mod_less_divisor zero_less_numeral zero_less_power)
    then show ?thesis using assms(1) m by (simp add: mem_calloc_def)
  next
    case True
    obtain r h' where r: "mem_malloc (count * sz) h = Inr (r, h')" "heap_ok h'" "ram_data h' = ram_data h"
      "case r of None \<Rightarrow> h' = h \<and> (count * sz = 0 \<or> \<not> list_ex (fits (max 12 (count * sz))) (blocks h))
      | Some p \<Rightarrow> 0 < count * sz \<and> live h p = None \<and> (\<exists>k \<ge> count * sz. live h' = (live h)(p \<mapsto> k))"
      using mem_malloc_live [OF assms(1) True] by blast
    then show ?thesis
      using True m assms(1) by (cases r) (auto simp: mem_calloc_def Let_def ms, simp_all add: memset0_def)
  qed
qed

theorem mem_calloc_correct_witness:
  "\<exists>r h'. mem_calloc 10 4 (mem_init zero_heap) = Inr (r, h') \<and> heap_ok h'"
  using mem_calloc_correct [of "mem_init zero_heap" 10 4] heap_ok_mem_init [of zero_heap] by auto

end
