(* ===== verification/Memp.thy ===== *)
theory Memp
  imports Alloc
begin

text \<open>
  lwIP's fixed-size pools, \<open>LWIP/src/core/memp.c\<close>, in the configuration of \<open>src/src/lwipopts.h\<close>:
  every pool has its own array (\<open>MEMP_MEM_MALLOC\<close> is 0) which is cleared at start
  (\<open>MEMP_MEM_INIT\<close> is 1); the overflow checks and statistics are off. A pool is its descriptor
  (the aligned element size, the number of elements), the head of its free list \<open>*desc->tab\<close> and
  the \<open>next\<close> links of the \<open>struct memp\<close> that free elements hold. Addresses are offsets from the
  aligned base of the pool's array, so NULL is \<open>None\<close>. The table \<open>memp_pools\<close> is generated from
  \<open>memp_std.h\<close> with the sizes of the compiled structures; it is the list of the pools.
\<close>

section \<open>Pools\<close>

record memp_pool =
  pool_size :: nat
  pool_num :: nat
  tab :: "nat option"
  memp_next :: "nat \<Rightarrow> nat option"

definition MEMP_SIZE :: nat where
  "MEMP_SIZE = 0"

definition sizeof_memp :: nat where
  "sizeof_memp = 8"

text \<open>The loop of \<open>memp_init_pool\<close>: \<open>i\<close> elements are left, \<open>memp\<close> is the next one.\<close>

fun init_pool_loop :: "nat \<Rightarrow> nat \<Rightarrow> memp_pool \<Rightarrow> memp_pool" where
  "init_pool_loop 0 memp d = d"
| "init_pool_loop (Suc i) memp d =
     init_pool_loop i (memp + MEMP_SIZE + pool_size d)
       (d\<lparr>memp_next := (memp_next d)(memp := tab d), tab := Some memp\<rparr>)"

definition memp_init_pool :: "memp_pool \<Rightarrow> memp_pool" where
  "memp_init_pool d =
     (let d = d\<lparr>tab := None\<rparr>;
          d = d\<lparr>memp_next := (\<lambda>a. if a < pool_num d * (MEMP_SIZE + pool_size d) then None else memp_next d a)\<rparr>
      in init_pool_loop (pool_num d) 0 d)"

definition memp_init :: "memp_pool list \<Rightarrow> memp_pool list" where
  "memp_init pools = map memp_init_pool pools"

definition do_memp_malloc_pool :: "memp_pool \<Rightarrow> nat option \<times> memp_pool" where
  "do_memp_malloc_pool d =
     (case tab d of
        None \<Rightarrow> (None, d)
      | Some memp \<Rightarrow> (Some (memp + MEMP_SIZE), d\<lparr>tab := memp_next d memp\<rparr>))"

definition do_memp_free_pool :: "nat \<Rightarrow> memp_pool \<Rightarrow> memp_pool" where
  "do_memp_free_pool mem d =
     (let memp = mem - MEMP_SIZE in
      d\<lparr>memp_next := (memp_next d)(memp := tab d), tab := Some memp\<rparr>)"

definition memp_malloc_pool :: "memp_pool \<Rightarrow> nat option \<times> memp_pool" where
  "memp_malloc_pool d = do_memp_malloc_pool d"

definition memp_free_pool :: "nat option \<Rightarrow> memp_pool \<Rightarrow> memp_pool" where
  "memp_free_pool mem d = (case mem of None \<Rightarrow> d | Some mem \<Rightarrow> do_memp_free_pool mem d)"

definition memp_malloc :: "nat \<Rightarrow> memp_pool list \<Rightarrow> nat option \<times> memp_pool list" where
  "memp_malloc type pools =
     (if type < length pools then
        let (p, d) = do_memp_malloc_pool (pools ! type) in (p, pools[type := d])
      else (None, pools))"

definition memp_free :: "nat \<Rightarrow> nat option \<Rightarrow> memp_pool list \<Rightarrow> memp_pool list" where
  "memp_free type mem pools =
     (if type < length pools then
        (case mem of
           None \<Rightarrow> pools
         | Some mem \<Rightarrow> pools[type := do_memp_free_pool mem (pools ! type)])
      else pools)"

text \<open>Floyd's cycle search over the free list; \<open>t\<close> moves one link, \<open>h\<close> two.\<close>

definition link :: "memp_pool \<Rightarrow> nat option \<Rightarrow> nat option" where
  "link d p = (case p of None \<Rightarrow> None | Some a \<Rightarrow> memp_next d a)"

partial_function (option) memp_sanity_loop :: "memp_pool \<Rightarrow> nat option \<Rightarrow> nat option \<Rightarrow> bool option" where
  "memp_sanity_loop d t h =
     (if t \<noteq> None \<and> h \<noteq> None then
        if t = h then Some False
        else memp_sanity_loop d (link d t) (if link d h \<noteq> None then link d (link d h) else None)
      else Some True)"

definition memp_sanity :: "memp_pool \<Rightarrow> bool option" where
  "memp_sanity d =
     (let t = tab d in if t \<noteq> None then memp_sanity_loop d t (link d t) else Some True)"

section \<open>The free list\<close>

fun free_list :: "(nat \<Rightarrow> nat option) \<Rightarrow> nat option \<Rightarrow> nat list \<Rightarrow> bool" where
  "free_list m p [] = (p = None)"
| "free_list m p (a # as) = (p = Some a \<and> free_list m (m a) as)"

definition elements :: "memp_pool \<Rightarrow> nat set" where
  "elements d = (\<lambda>i. i * pool_size d) ` {..<pool_num d}"

text \<open>The pool \<open>d\<close> is well-formed and \<open>as\<close> is its free list; what is not free is allocated.\<close>

definition pool_rel :: "memp_pool \<Rightarrow> nat list \<Rightarrow> bool" where
  "pool_rel d as \<longleftrightarrow> sizeof_memp \<le> pool_size d \<and> free_list (memp_next d) (tab d) as \<and>
     distinct as \<and> set as \<subseteq> elements d"

definition pool_ok :: "memp_pool \<Rightarrow> bool" where
  "pool_ok d \<longleftrightarrow> (\<exists>as. pool_rel d as)"

definition pool_live :: "memp_pool \<Rightarrow> nat \<rightharpoonup> nat" where
  "pool_live d p =
     (if p \<in> elements d \<and> \<not> (\<exists>as. pool_rel d as \<and> p \<in> set as) then Some (pool_size d) else None)"

lemma free_list_unique: "free_list m p as \<Longrightarrow> free_list m p bs \<Longrightarrow> as = bs"
  by (induction as arbitrary: p bs) (case_tac bs; auto)+

lemma pool_live_eq:
  "pool_rel d as \<Longrightarrow> pool_live d p = (if p \<in> elements d - set as then Some (pool_size d) else None)"
  using free_list_unique by (fastforce simp: pool_live_def pool_rel_def)

lemma free_list_upd: "a \<notin> set as \<Longrightarrow> free_list (m(a := v)) p as = free_list m p as"
  by (induction as arbitrary: p) auto

lemma elements_separated:
  assumes "p \<in> elements d" and "q \<in> elements d" and "p \<noteq> q"
  shows "p + pool_size d \<le> q \<or> q + pool_size d \<le> p"
proof -
  have *: "i * s + s \<le> j * s" if "i < j" for i j s :: nat
    using mult_le_mono1 [of "Suc i" j s] that by simp
  obtain i j where "p = i * pool_size d" "q = j * pool_size d"
    using assms by (auto simp: elements_def)
  then show ?thesis using * [of i j] * [of j i] assms(3) by (cases i j rule: linorder_cases) auto
qed

lemma elements_upd [simp]: "elements (d\<lparr>memp_next := f\<rparr>) = elements d"
  "elements (d\<lparr>tab := t\<rparr>) = elements d"
  by (simp_all add: elements_def)

lemma pool_rel_malloc:
  assumes "pool_rel d as"
  shows "do_memp_malloc_pool d =
    (case as of [] \<Rightarrow> (None, d) | a # _ \<Rightarrow> (Some a, d\<lparr>tab := memp_next d a\<rparr>))"
    and "as = a # bs \<Longrightarrow> pool_rel (d\<lparr>tab := memp_next d a\<rparr>) bs"
  using assms by (cases as; auto simp: do_memp_malloc_pool_def pool_rel_def MEMP_SIZE_def)+

lemma pool_rel_free:
  assumes "pool_rel d as" and "p \<in> elements d" and "p \<notin> set as"
  shows "pool_rel (do_memp_free_pool p d) (p # as)"
  using assms by (auto simp: pool_rel_def do_memp_free_pool_def MEMP_SIZE_def free_list_upd Let_def)

lemma do_memp_free_frame [simp]:
  "elements (do_memp_free_pool p d) = elements d" "pool_size (do_memp_free_pool p d) = pool_size d"
  by (simp_all add: do_memp_free_pool_def Let_def)

interpretation pool: allocator pool_ok pool_live "\<lambda>_ :: unit. sizeof_memp"
    "\<lambda>_ d. Inr (do_memp_malloc_pool d)" "\<lambda>p d. Inr (do_memp_free_pool p d)"
proof
  fix d
  assume "pool_ok d"
  then obtain as where as: "pool_rel d as" by (auto simp: pool_ok_def)
  show "\<exists>p d'. Inr (do_memp_malloc_pool d) = (Inr (p, d') :: (nat option \<times> memp_pool) outcome) \<and>
      pool_ok d' \<and> (case p of None \<Rightarrow> d' = d | Some p \<Rightarrow> pool_live d p = None \<and>
         (\<exists>k \<ge> sizeof_memp. pool_live d' = (pool_live d)(p \<mapsto> k)))"
  proof (cases as)
    case Nil
    then show ?thesis using pool_rel_malloc(1) [OF as] \<open>pool_ok d\<close> by simp
  next
    case (Cons a bs)
    let ?d = "d\<lparr>tab := memp_next d a\<rparr>"
    have rel: "pool_rel ?d bs" by (rule pool_rel_malloc(2) [OF as Cons])
    have "pool_live ?d = (pool_live d)(a \<mapsto> pool_size d)"
      using as Cons by (auto simp: pool_live_eq [OF rel] pool_live_eq [OF as] fun_eq_iff pool_rel_def)
    moreover have "pool_live d a = None"
      using Cons by (simp add: pool_live_eq [OF as])
    moreover have "sizeof_memp \<le> pool_size d" using as by (simp add: pool_rel_def)
    ultimately show ?thesis
      using pool_rel_malloc(1) [OF as] Cons rel by (auto simp: pool_ok_def)
  qed
next
  fix d p
  assume "pool_ok d" and lv: "pool_live d p \<noteq> None"
  then obtain as where as: "pool_rel d as" by (auto simp: pool_ok_def)
  have p: "p \<in> elements d" "p \<notin> set as" using lv by (auto simp: pool_live_eq [OF as] split: if_splits)
  note rel = pool_rel_free [OF as p]
  have "pool_live (do_memp_free_pool p d) = (pool_live d)(p := None)"
    by (auto simp: pool_live_eq [OF rel] pool_live_eq [OF as] fun_eq_iff)
  then show "\<exists>d'. Inr (do_memp_free_pool p d) = (Inr d' :: memp_pool outcome) \<and> pool_ok d' \<and>
      pool_live d' = (pool_live d)(p := None)"
    using rel by (auto simp: pool_ok_def)
next
  fix d p j q k
  assume "pool_ok d" and "pool_live d p = Some j" and "pool_live d q = Some k" and "p \<noteq> (q :: nat)"
  then show "p + j \<le> q \<or> q + k \<le> p"
    using elements_separated [of p d q] by (auto simp: pool_live_def split: if_splits)
qed

text \<open>The laws for the functions that clients of a pool call.\<close>

lemma pool_free_live:
  assumes "pool_ok d" and "pool_live d n \<noteq> None"
  shows "pool_ok (memp_free_pool (Some n) d) \<and>
    pool_live (memp_free_pool (Some n) d) = (pool_live d)(n := None)"
  using pool.free_law [OF assms] by (simp add: memp_free_pool_def)

lemma pool_mallocE:
  assumes "pool_ok d"
  obtains "memp_malloc_pool d = (None, d)"
  | n d' where "memp_malloc_pool d = (Some n, d')" and "pool_ok d'" and "pool_live d n = None"
    and "\<exists>k. pool_live d' = (pool_live d)(n \<mapsto> k)"
proof (cases rule: pool.mallocE [OF assms])
  case (2 n d' k)
  then show thesis using that(2) [of n d'] by (auto simp: memp_malloc_pool_def)
qed (use that(1) in \<open>simp add: memp_malloc_pool_def\<close>)

section \<open>Initialisation\<close>

lemma init_pool_loop_rel:
  "sizeof_memp \<le> pool_size d \<Longrightarrow> pool_rel d as \<Longrightarrow> set as = (\<lambda>k. k * pool_size d) ` {..<j} \<Longrightarrow>
   i + j = pool_num d \<Longrightarrow>
   \<exists>bs. pool_rel (init_pool_loop i (j * pool_size d) d) bs \<and>
     set bs = elements d \<and> length bs = i + length as \<and>
     pool_size (init_pool_loop i (j * pool_size d) d) = pool_size d \<and>
     elements (init_pool_loop i (j * pool_size d) d) = elements d"
proof (induction i arbitrary: j d as)
  case 0
  then show ?case by (auto simp: elements_def)
next
  case (Suc i)
  let ?a = "j * pool_size d"
  let ?d = "d\<lparr>memp_next := (memp_next d)(?a := tab d), tab := Some ?a\<rparr>"
  have a: "?a \<in> elements d" "?a \<notin> set as"
    using Suc.prems by (auto simp: elements_def sizeof_memp_def)
  have rel: "pool_rel ?d (?a # as)"
    using pool_rel_free [OF Suc.prems(2) a] by (simp add: do_memp_free_pool_def MEMP_SIZE_def Let_def)
  have "set (?a # as) = (\<lambda>k. k * pool_size ?d) ` {..<Suc j}"
    using Suc.prems(3) by (auto simp: lessThan_Suc)
  then have "\<exists>bs. pool_rel (init_pool_loop i (Suc j * pool_size ?d) ?d) bs \<and>
     set bs = elements ?d \<and> length bs = i + length (?a # as) \<and>
     pool_size (init_pool_loop i (Suc j * pool_size ?d) ?d) = pool_size ?d \<and>
     elements (init_pool_loop i (Suc j * pool_size ?d) ?d) = elements ?d"
    by (intro Suc.IH [OF _ rel]) (use Suc.prems in simp_all)
  moreover have "init_pool_loop (Suc i) ?a d = init_pool_loop i (Suc j * pool_size ?d) ?d"
    by (simp add: MEMP_SIZE_def add.commute)
  ultimately show ?case by simp
qed

lemma memp_init_pool_rel:
  assumes "sizeof_memp \<le> pool_size d"
  shows "\<exists>bs. pool_rel (memp_init_pool d) bs \<and> set bs = elements d \<and> length bs = pool_num d \<and>
    pool_size (memp_init_pool d) = pool_size d \<and> elements (memp_init_pool d) = elements d"
proof -
  let ?d = "d\<lparr>tab := None, memp_next := \<lambda>a. if a < pool_num d * pool_size d then None else memp_next d a\<rparr>"
  have "pool_rel ?d []" using assms by (simp add: pool_rel_def)
  from init_pool_loop_rel [OF _ this, of 0 "pool_num d"] assms show ?thesis
    by (simp add: memp_init_pool_def MEMP_SIZE_def Let_def cong: if_cong)
qed

section \<open>Cycle detection\<close>

definition pos :: "memp_pool \<Rightarrow> nat \<Rightarrow> nat option" where
  "pos d k = (link d ^^ k) (tab d)"

lemma pos_Suc: "pos d (Suc k) = link d (pos d k)"
  by (simp add: pos_def)

lemma pos_add: "pos d i = pos d j \<Longrightarrow> pos d (i + n) = pos d (j + n)"
  by (induction n) (simp_all add: pos_Suc)

lemma pos_None_mono: "pos d i = None \<Longrightarrow> i \<le> j \<Longrightarrow> pos d j = None"
proof (induction j)
  case (Suc j)
  then show ?case by (cases "i = Suc j") (auto simp: link_def pos_Suc)
qed simp

lemma pos_period: "pos d i = pos d (i + l) \<Longrightarrow> i \<le> k \<Longrightarrow> pos d k = pos d (k + m * l)"
proof (induction m)
  case (Suc m)
  have "pos d (i + (k + m * l - i)) = pos d (i + l + (k + m * l - i))"
    using Suc.prems(1) by (rule pos_add)
  with Suc show ?case by (simp add: add.commute add.left_commute)
qed simp

lemma sanity_step:
  "pos d k \<noteq> None \<Longrightarrow> pos d (2 * k + 1) \<noteq> None \<Longrightarrow> pos d k \<noteq> pos d (2 * k + 1) \<Longrightarrow>
   memp_sanity_loop d (pos d k) (pos d (2 * k + 1)) =
   memp_sanity_loop d (pos d (Suc k)) (pos d (2 * Suc k + 1))"
proof -
  assume a: "pos d k \<noteq> None" "pos d (2 * k + 1) \<noteq> None" "pos d k \<noteq> pos d (2 * k + 1)"
  have h: "(if link d (pos d (2 * k + 1)) \<noteq> None then link d (link d (pos d (2 * k + 1))) else None) =
      pos d (2 * Suc k + 1)"
    by (simp add: link_def pos_Suc)
  show ?thesis
    by (subst memp_sanity_loop.simps) (use a h in \<open>simp add: pos_Suc [of d k]\<close>)
qed

lemma sanity_ends:
  assumes "pos d n = None" and "\<not> (\<exists>i. pos d i \<noteq> None \<and> pos d i = pos d (2 * i + 1))"
  shows "memp_sanity_loop d (pos d k) (pos d (2 * k + 1)) = Some True"
proof (induction "n - k" arbitrary: k rule: less_induct)
  case less
  show ?case
  proof (cases "pos d k = None \<or> pos d (2 * k + 1) = None")
    case True
    then show ?thesis by (subst memp_sanity_loop.simps) auto
  next
    case False
    then have "k < n" using pos_None_mono [OF assms(1), of k] by (meson not_le)
    moreover have "pos d k \<noteq> pos d (2 * k + 1)" using False assms(2) by blast
    ultimately show ?thesis
      using sanity_step [of d k] False less [of "Suc k"] by auto
  qed
qed

lemma sanity_meets:
  assumes "\<forall>n. pos d n \<noteq> None" and "pos d i = pos d (2 * i + 1)"
  shows "k \<le> i \<Longrightarrow> memp_sanity_loop d (pos d k) (pos d (2 * k + 1)) = Some False"
proof (induction "i - k" arbitrary: k rule: less_induct)
  case less
  show ?case
  proof (cases "pos d k = pos d (2 * k + 1)")
    case True
    moreover have "pos d k \<noteq> None" "pos d (2 * k + 1) \<noteq> None" using assms(1) by blast+
    ultimately show ?thesis by (subst memp_sanity_loop.simps) simp
  next
    case False
    then have "k < i" using assms(2) less.prems by (cases "k = i") auto
    then show ?thesis
      using sanity_step [of d k] False assms(1) less.hyps [of "Suc k"] by auto
  qed
qed

lemma memp_sanity_pos: "memp_sanity d = memp_sanity_loop d (pos d 0) (pos d (2 * 0 + 1))"
proof (cases "tab d")
  case None
  have "memp_sanity_loop d None (link d None) = Some True"
    by (subst memp_sanity_loop.simps) simp
  with None show ?thesis by (simp add: memp_sanity_def pos_def)
qed (simp add: memp_sanity_def pos_def Let_def eval_nat_numeral)

section \<open>Correctness of the pools\<close>

text \<open>
  C38. After \<open>memp_init_pool\<close> every element of the pool is free, exactly once, and the pool hands out
  \<open>num\<close> elements before it returns NULL: for every sequence of requests and releases of held
  elements the pool stays well-formed and exactly the held elements are allocated, without overlap.
\<close>

theorem memp_client_safe:
  assumes "sizeof_memp \<le> pool_size d"
  shows "\<exists>held d'. run_client (\<lambda>_ :: unit. \<lambda>d. Inr (do_memp_malloc_pool d))
      (\<lambda>p d. Inr (do_memp_free_pool p d)) ops [] (memp_init_pool d) = Inr (held, d') \<and>
     pool_ok d' \<and> distinct held \<and> dom (pool_live d') = set held \<and>
     (\<forall>p \<in> set held. \<forall>q \<in> set held. p \<noteq> q \<longrightarrow>
        pool_live d' p \<noteq> None \<and> (p + the (pool_live d' p) \<le> q \<or> q + the (pool_live d' q) \<le> p))"
proof -
  obtain bs where bs: "pool_rel (memp_init_pool d) bs" "set bs = elements (memp_init_pool d)"
    using memp_init_pool_rel [OF assms] by metis
  have ok: "pool_ok (memp_init_pool d)" using bs(1) by (auto simp: pool_ok_def)
  have "dom (pool_live (memp_init_pool d)) = set []"
    by (auto simp: pool_live_eq [OF bs(1)] bs(2) split: if_splits)
  then obtain held d' where h: "run_client (\<lambda>_ :: unit. \<lambda>d. Inr (do_memp_malloc_pool d))
      (\<lambda>p d. Inr (do_memp_free_pool p d)) ops [] (memp_init_pool d) = Inr (held, d')"
    "pool_ok d'" "distinct held" "dom (pool_live d') = set held"
    using pool.run_client_safe [OF ok distinct.simps(1) [THEN iffD2, OF TrueI]] by blast
  have "pool_live d' p \<noteq> None \<and> (p + the (pool_live d' p) \<le> q \<or> q + the (pool_live d' q) \<le> p)"
    if pq: "p \<in> set held" "q \<in> set held" "p \<noteq> q" for p q
  proof -
    obtain j k where "pool_live d' p = Some j" "pool_live d' q = Some k"
      using pq(1,2) unfolding h(4) [symmetric] by auto
    then show ?thesis using pool.separated_law [OF h(2)] pq(3) by auto
  qed
  with h show ?thesis by blast
qed

definition demo_pool :: memp_pool where
  "demo_pool = \<lparr>pool_size = 16, pool_num = 3, tab = None, memp_next = (\<lambda>_. None)\<rparr>"

theorem memp_client_safe_witness:
  "\<exists>held d'. run_client (\<lambda>_ :: unit. \<lambda>d. Inr (do_memp_malloc_pool d))
      (\<lambda>p d. Inr (do_memp_free_pool p d)) [Request (), Request (), Release 1, Request ()] []
      (memp_init_pool demo_pool) = Inr (held, d') \<and> dom (pool_live d') = set held"
  using memp_client_safe [of demo_pool "[Request (), Request (), Release 1, Request ()]"]
  by (auto simp: demo_pool_def sizeof_memp_def)

text \<open>
  \<open>memp_malloc\<close> returns NULL exactly when all elements of the pool are allocated (or the type is
  out of range), and does not touch the other pools.
\<close>

theorem memp_malloc_exhausted:
  assumes ok: "\<forall>d \<in> set pools. pool_ok d"
  shows "(fst (memp_malloc type pools) = None \<longleftrightarrow>
       (type < length pools \<longrightarrow> dom (pool_live (pools ! type)) = elements (pools ! type))) \<and>
     (\<forall>i. i \<noteq> type \<longrightarrow> snd (memp_malloc type pools) ! i = pools ! i) \<and>
     (\<forall>d \<in> set (snd (memp_malloc type pools)). pool_ok d)"
proof (cases "type < length pools")
  case True
  then have okt: "pool_ok (pools ! type)" using ok by simp
  then obtain as where as: "pool_rel (pools ! type) as" by (auto simp: pool_ok_def)
  have "dom (pool_live (pools ! type)) = elements (pools ! type) - set as"
    by (auto simp: pool_live_eq [OF as] split: if_splits)
  then have ex: "fst (memp_malloc type pools) = None \<longleftrightarrow>
      dom (pool_live (pools ! type)) = elements (pools ! type)"
    using True as pool_rel_malloc(1) [OF as]
    by (cases as) (auto simp: memp_malloc_def pool_rel_def split: prod.splits)
  have "pool_ok (snd (do_memp_malloc_pool (pools ! type)))"
    using pool.malloc_law [OF okt] by auto
  moreover have sn: "snd (memp_malloc type pools) = pools[type := snd (do_memp_malloc_pool (pools ! type))]"
    using True by (simp add: memp_malloc_def split: prod.splits)
  ultimately have "\<forall>d \<in> set (snd (memp_malloc type pools)). pool_ok d"
    unfolding sn
    using ok set_update_subset_insert [of pools type "snd (do_memp_malloc_pool (pools ! type))"] by auto
  then show ?thesis
    using True ex by (simp add: sn)
qed (use ok in \<open>simp add: memp_malloc_def\<close>)

definition empty_pool :: memp_pool where
  "empty_pool = \<lparr>pool_size = 8, pool_num = 0, tab = None, memp_next = (\<lambda>_. None)\<rparr>"

theorem memp_malloc_exhausted_witness: "fst (memp_malloc 0 [empty_pool]) = None"
proof -
  have "pool_rel empty_pool []" by (simp add: pool_rel_def sizeof_memp_def empty_pool_def)
  then have "pool_ok empty_pool" by (auto simp: pool_ok_def)
  then have "\<forall>d \<in> set [empty_pool]. pool_ok d" by simp
  note ex = memp_malloc_exhausted [OF this, of 0, THEN conjunct1]
  have el: "elements empty_pool = {}" by (simp add: elements_def empty_pool_def)
  then have "dom (pool_live empty_pool) = {}" by (auto simp: pool_live_def split: if_splits)
  with ex el show ?thesis by simp
qed

text \<open>
  \<open>memp_sanity\<close> decides whether the free list is circular: on memory of finitely many elements
  it always terminates, with 0 when following the links never reaches NULL and with 1 otherwise.
\<close>

theorem memp_sanity_decides:
  assumes "finite S" and "tab d \<in> insert None (Some ` S)"
    and "\<forall>a \<in> S. memp_next d a \<in> insert None (Some ` S)"
  shows "memp_sanity d = Some (\<exists>n. pos d n = None)"
proof (cases "\<exists>n. pos d n = None")
  case True
  then obtain n where n: "pos d n = None" ..
  have "\<not> (pos d i \<noteq> None \<and> pos d i = pos d (2 * i + 1))" for i
  proof
    assume a: "pos d i \<noteq> None \<and> pos d i = pos d (2 * i + 1)"
    then have "pos d i = pos d (i + n * (i + 1))"
      by (intro pos_period [of d i "i + 1"]) (simp_all add: mult_2)
    moreover have "pos d (i + n * (i + 1)) = None"
      by (rule pos_None_mono [OF n]) simp
    ultimately show False using a by auto
  qed
  then show ?thesis
    unfolding memp_sanity_pos using sanity_ends [OF n, of 0] True by simp
next
  case False
  have "pos d k \<in> insert None (Some ` S)" for k
  proof (induction k)
    case 0
    then show ?case using assms(2) by (simp add: pos_def)
  next
    case (Suc k)
    then show ?case using assms(3) by (auto simp: pos_Suc link_def)
  qed
  then have "range (pos d) \<subseteq> Some ` S" using False by blast
  then have "finite (range (pos d))" using assms(1) by (meson finite_imageI finite_subset)
  then have "\<not> inj (pos d)" using finite_imageD infinite_UNIV_nat by blast
  then obtain i j where ij: "pos d i = pos d j" "i < j"
    by (auto simp: inj_on_def) (metis linorder_neqE_nat)
  define l where "l = j - i"
  define k where "k = Suc i * l - 1"
  have "Suc i * 1 \<le> Suc i * l" using ij(2) by (intro mult_le_mono2) (simp add: l_def)
  then have "Suc i \<le> Suc i * l" by (simp only: mult_1_right)
  then have k: "i \<le> k" and k2: "k + 1 = Suc i * l" unfolding k_def by linarith+
  have "pos d k = pos d (k + Suc i * l)"
    using pos_period [of d i l k "Suc i"] ij k by (simp add: l_def)
  also have "k + Suc i * l = 2 * k + 1" using k2 by simp
  finally have "memp_sanity_loop d (pos d 0) (pos d (2 * 0 + 1)) = Some False"
    using sanity_meets [of d k 0] False by auto
  then show ?thesis unfolding memp_sanity_pos using False by simp
qed

theorem memp_sanity_decides_witness:
  "memp_sanity \<lparr>pool_size = 8, pool_num = 2, tab = Some 0, memp_next = (\<lambda>a. if a = 0 then Some 8 else None)\<rparr> =
     Some True"
proof -
  let ?d = "\<lparr>pool_size = 8, pool_num = 2, tab = Some 0, memp_next = (\<lambda>a. if a = 0 then Some 8 else None)\<rparr>"
  have "memp_sanity ?d = Some (\<exists>n. pos ?d n = None)"
    by (rule memp_sanity_decides [of "{0, 8}"]) auto
  moreover have "pos ?d 2 = None" by (simp add: pos_def link_def eval_nat_numeral)
  ultimately show ?thesis by auto
qed

end
