(* ===== verification/Pbuf.thy ===== *)
theory Pbuf
  imports PbufData Mem Memp
begin

text \<open>
  Allocation, reference counting and linking of packet buffers, \<open>LWIP/src/core/pbuf.c\<close>. The state
  is the store of the live pbufs together with the allocators they come from: the heap of theory
  \<open>Mem\<close> and the pools \<open>MEMP_PBUF\<close> and \<open>MEMP_PBUF_POOL\<close> of theory \<open>Memp\<close>. Using a pointer to a pbuf
  that is not in the store is \<open>InvalidAccess\<close>. Fresh memory holds whatever \<open>garbage\<close> says. The
  sizes are those of \<open>src/src/lwipopts.h\<close> (\<open>TCP_MSS\<close> 1440, no padding); reference counts and the
  count of freed pbufs are 8 bits wide (\<open>LWIP_PBUF_REF_T\<close> and \<open>u8_t\<close>). Custom pbufs are compiled out.
\<close>

section \<open>Constants and state\<close>

definition PBUF_LINK_HLEN :: nat where "PBUF_LINK_HLEN = 14"
definition PBUF_IP_HLEN :: nat where "PBUF_IP_HLEN = 20"
definition PBUF_TRANSPORT_HLEN :: nat where "PBUF_TRANSPORT_HLEN = 20"
definition TCP_MSS :: nat where "TCP_MSS = 1440"

definition SIZEOF_STRUCT_PBUF :: nat where
  "SIZEOF_STRUCT_PBUF = LWIP_MEM_ALIGN_SIZE 24"

definition PBUF_POOL_BUFSIZE_ALIGNED :: nat where
  "PBUF_POOL_BUFSIZE_ALIGNED =
     LWIP_MEM_ALIGN_SIZE (TCP_MSS + PBUF_IP_HLEN + PBUF_TRANSPORT_HLEN + PBUF_LINK_HLEN)"

datatype pbuf_layer = PBUF_TRANSPORT | PBUF_IP | PBUF_LINK | PBUF_RAW_TX | PBUF_RAW

fun layer_offset :: "pbuf_layer \<Rightarrow> nat" where
  "layer_offset PBUF_TRANSPORT = PBUF_LINK_HLEN + PBUF_IP_HLEN + PBUF_TRANSPORT_HLEN"
| "layer_offset PBUF_IP = PBUF_LINK_HLEN + PBUF_IP_HLEN"
| "layer_offset PBUF_LINK = PBUF_LINK_HLEN"
| "layer_offset PBUF_RAW_TX = 0"
| "layer_offset PBUF_RAW = 0"

datatype pbuf_type = PBUF_RAM | PBUF_ROM | PBUF_REF | PBUF_POOL

text \<open>The type codes, of which \<open>type_internal\<close> keeps the low byte.\<close>

fun type_code :: "pbuf_type \<Rightarrow> u16" where
  "type_code PBUF_RAM = 0x0280"
| "type_code PBUF_ROM = 0x0001"
| "type_code PBUF_REF = 0x0041"
| "type_code PBUF_POOL = 0x0182"

definition PBUF_TYPE_FLAG_STRUCT_DATA_CONTIGUOUS :: u8 where
  "PBUF_TYPE_FLAG_STRUCT_DATA_CONTIGUOUS = 0x80"

definition PBUF_FLAG_TCP_FIN :: u8 where
  "PBUF_FLAG_TCP_FIN = 0x20"

definition pbuf_get_allocsrc :: "pbuf \<Rightarrow> u8" where
  "pbuf_get_allocsrc p = type_internal p AND 0x0F"

record pstate =
  pbufs :: "pptr \<rightharpoonup> pbuf"
  p_heap :: heap
  pool_pbuf :: memp_pool
  pool_pool :: memp_pool
  ooseq_pending :: bool
  ooseq_calls :: nat
  mbox_full :: bool
  garbage :: "pptr \<Rightarrow> nat \<Rightarrow> u8"

definition get_pbuf :: "pstate \<Rightarrow> pptr \<Rightarrow> (pbuf \<Rightarrow> 'a outcome) \<Rightarrow> 'a outcome" where
  "get_pbuf st a k = (case pbufs st a of None \<Rightarrow> Inl InvalidAccess | Some b \<Rightarrow> k b)"

definition put_pbuf :: "pptr \<Rightarrow> pbuf \<Rightarrow> pstate \<Rightarrow> pstate" where
  "put_pbuf a b st = st\<lparr>pbufs := (pbufs st)(a \<mapsto> b)\<rparr>"

section \<open>Freeing\<close>

definition pbuf_dealloc :: "pptr \<Rightarrow> pbuf \<Rightarrow> pstate \<Rightarrow> pstate outcome" where
  "pbuf_dealloc a b st =
     (let alloc_src = pbuf_get_allocsrc b; st = st\<lparr>pbufs := (pbufs st)(a := None)\<rparr> in
      if alloc_src = 0x02 then
        (case a of Pool n \<Rightarrow> Inr (st\<lparr>pool_pool := memp_free_pool (Some n) (pool_pool st)\<rparr>)
         | _ \<Rightarrow> Inl InvalidAccess)
      else if alloc_src = 0x01 then
        (case a of Pbuf n \<Rightarrow> Inr (st\<lparr>pool_pbuf := memp_free_pool (Some n) (pool_pbuf st)\<rparr>)
         | _ \<Rightarrow> Inl InvalidAccess)
      else if alloc_src = 0x00 then
        (case a of Heap n \<Rightarrow>
           obind (mem_free (Some (int n)) (p_heap st)) (\<lambda>h. Inr (st\<lparr>p_heap := h\<rparr>))
         | _ \<Rightarrow> Inl InvalidAccess)
      else Inl (Assertion ''invalid pbuf type''))"

partial_function (option) free_loop :: "pptr option \<Rightarrow> u8 \<Rightarrow> pstate \<Rightarrow> ((u8 \<times> pstate) outcome) option" where
  "free_loop p count st =
     (case p of
        None \<Rightarrow> Some (Inr (count, st))
      | Some a \<Rightarrow>
          (case pbufs st a of
             None \<Rightarrow> Some (Inl InvalidAccess)
           | Some b \<Rightarrow>
               if \<not> ref b > 0 then Some (Inl (Assertion ''pbuf_free: p->ref > 0''))
               else if ref b - 1 = 0 then
                 (case pbuf_dealloc a (b\<lparr>ref := 0\<rparr>) st of
                    Inl e \<Rightarrow> Some (Inl e)
                  | Inr st \<Rightarrow> free_loop (p_next b) (count + 1) st)
               else Some (Inr (count, put_pbuf a (b\<lparr>ref := ref b - 1\<rparr>) st))))"

definition pbuf_free :: "pptr option \<Rightarrow> pstate \<Rightarrow> (u8 \<times> pstate) outcome" where
  "pbuf_free p st =
     (if p = None then Inl (Assertion ''p != NULL'')
      else obind (of_loop (free_loop p 0 st)) (\<lambda>r. r))"

section \<open>Allocating\<close>

definition pbuf_init_alloced_pbuf ::
  "u8 list \<Rightarrow> int \<Rightarrow> u16 \<Rightarrow> u16 \<Rightarrow> pbuf_type \<Rightarrow> u8 \<Rightarrow> pbuf" where
  "pbuf_init_alloced_pbuf mem payload tlen l type fl =
     \<lparr>p_next = None, p_mem = mem, p_off = payload, tot_len = tlen, len = l,
      type_internal = ucast (type_code type), flags = fl, ref = 1, if_idx = 0\<rparr>"

definition fresh_mem :: "pstate \<Rightarrow> pptr \<Rightarrow> nat \<Rightarrow> u8 list" where
  "fresh_mem st a n = map (garbage st a) [0..<n]"

text \<open>\<open>tcpip_try_callback\<close> fails when the mailbox of the tcpip thread is full.\<close>

definition pbuf_pool_is_empty :: "pstate \<Rightarrow> pstate" where
  "pbuf_pool_is_empty st =
     (let queued = ooseq_pending st; st = st\<lparr>ooseq_pending := True\<rparr> in
      if \<not> queued then
        if mbox_full st then st\<lparr>ooseq_pending := False\<rparr>
        else st\<lparr>ooseq_calls := ooseq_calls st + 1\<rparr>
      else st)"

definition pbuf_alloc_reference ::
  "u8 list \<Rightarrow> u16 \<Rightarrow> pbuf_type \<Rightarrow> pstate \<Rightarrow> (pptr option \<times> pstate) outcome" where
  "pbuf_alloc_reference payload l type st =
     lwip_assert ''invalid pbuf_type'' (type = PBUF_REF \<or> type = PBUF_ROM)
    (case memp_malloc_pool (pool_pbuf st) of
       (None, d) \<Rightarrow> Inr (None, st\<lparr>pool_pbuf := d\<rparr>)
     | (Some n, d) \<Rightarrow>
         Inr (Some (Pbuf n), put_pbuf (Pbuf n) (pbuf_init_alloced_pbuf payload 0 l l type 0)
           (st\<lparr>pool_pbuf := d\<rparr>)))"

text \<open>
  The \<open>do\<close> loop of \<open>pbuf_alloc\<close> for \<open>PBUF_POOL\<close>; \<open>p\<close> is the head of the chain and \<open>last\<close> its
  last pbuf so far.
\<close>

definition pool_qlen :: "u16 \<Rightarrow> nat \<Rightarrow> u16" where
  "pool_qlen rem_len offset =
     min rem_len (of_nat (PBUF_POOL_BUFSIZE_ALIGNED - LWIP_MEM_ALIGN_SIZE offset))"

definition link_last :: "pptr option \<Rightarrow> pptr \<Rightarrow> pstate \<Rightarrow> pstate outcome" where
  "link_last last_p q st =
     (case last_p of
        None \<Rightarrow> Inr st
      | Some a \<Rightarrow> get_pbuf st a (\<lambda>b. Inr (put_pbuf a (b\<lparr>p_next := Some q\<rparr>) st)))"

lemma pool_bufsize [simp]: "PBUF_POOL_BUFSIZE_ALIGNED = 1494"
  by (simp add: PBUF_POOL_BUFSIZE_ALIGNED_def TCP_MSS_def PBUF_IP_HLEN_def PBUF_TRANSPORT_HLEN_def
      PBUF_LINK_HLEN_def)

lemma pool_qlen_pos:
  assumes "LWIP_MEM_ALIGN_SIZE offset < PBUF_POOL_BUFSIZE_ALIGNED" and "0 < rem_len"
  shows "0 < pool_qlen rem_len offset"
proof -
  let ?n = "PBUF_POOL_BUFSIZE_ALIGNED - LWIP_MEM_ALIGN_SIZE offset"
  have "unat (of_nat ?n :: u16) = ?n"
    by (rule unat_of_nat_u16) simp
  then have "0 < (of_nat ?n :: u16)"
    using assms(1) by (simp add: word_less_nat_alt)
  then show ?thesis using assms(2) by (simp add: pool_qlen_def min_def)
qed

lemma pool_qlen_le: "pool_qlen rem_len offset \<le> rem_len"
  by (simp add: pool_qlen_def)

lemma pool_loop_dec:
  assumes "LWIP_MEM_ALIGN_SIZE offset < PBUF_POOL_BUFSIZE_ALIGNED"
    and "0 < rem_len - pool_qlen rem_len offset"
  shows "unat (rem_len - pool_qlen rem_len offset) < unat rem_len"
proof -
  have "rem_len \<noteq> 0" using assms(2) by (auto simp: pool_qlen_def)
  then have "0 < pool_qlen rem_len offset" using assms(1) pool_qlen_pos by (simp add: word_neq_0_conv)
  then show ?thesis
    using pool_qlen_le [of rem_len offset] by (simp add: unat_sub word_less_nat_alt word_le_nat_alt)
qed

function pool_alloc_loop ::
  "u16 \<Rightarrow> nat \<Rightarrow> pptr option \<Rightarrow> pptr option \<Rightarrow> pstate \<Rightarrow> (pptr option \<times> pstate) outcome" where
  "pool_alloc_loop rem_len offset p last_p st =
     (case memp_malloc_pool (pool_pool st) of
        (None, d) \<Rightarrow>
          let st = pbuf_pool_is_empty (st\<lparr>pool_pool := d\<rparr>) in
          if p \<noteq> None then obind (pbuf_free p st) (\<lambda>(_, st). Inr (None, st)) else Inr (None, st)
      | (Some n, d) \<Rightarrow>
          if \<not> LWIP_MEM_ALIGN_SIZE offset < PBUF_POOL_BUFSIZE_ALIGNED then Inl (Assertion ''PBUF_POOL_BUFSIZE must be bigger than MEM_ALIGNMENT'')
          else
            let q = Pool n;
                st = st\<lparr>pool_pool := d\<rparr>;
                qlen = pool_qlen rem_len offset;
                st = put_pbuf q (pbuf_init_alloced_pbuf (fresh_mem st q PBUF_POOL_BUFSIZE_ALIGNED)
                       (int offset) rem_len qlen PBUF_POOL 0) st
            in obind (link_last last_p q st) (\<lambda>st.
              let p = (if p = None then Some q else p) in
              if rem_len - qlen > 0 then pool_alloc_loop (rem_len - qlen) 0 p (Some q) st
              else Inr (p, st)))"
  by pat_completeness auto
termination
  by (relation "measure (\<lambda>(rem_len, _). unat rem_len)") (simp_all add: pool_loop_dec)

declare pool_alloc_loop.simps [simp del]

definition pbuf_alloc :: "pbuf_layer \<Rightarrow> u16 \<Rightarrow> pbuf_type \<Rightarrow> pstate \<Rightarrow> (pptr option \<times> pstate) outcome" where
  "pbuf_alloc layer l type st =
     (let offset = layer_offset layer in
      case type of
        PBUF_REF \<Rightarrow> pbuf_alloc_reference [] l type st
      | PBUF_ROM \<Rightarrow> pbuf_alloc_reference [] l type st
      | PBUF_POOL \<Rightarrow> pool_alloc_loop l offset None None st
      | PBUF_RAM \<Rightarrow>
          (let payload_len = add32 (LWIP_MEM_ALIGN_SIZE offset) (LWIP_MEM_ALIGN_SIZE (unat l));
               alloc_len = add32 (LWIP_MEM_ALIGN_SIZE SIZEOF_STRUCT_PBUF) payload_len in
           if payload_len < LWIP_MEM_ALIGN_SIZE (unat l) \<or> alloc_len < LWIP_MEM_ALIGN_SIZE (unat l)
           then Inr (None, st)
           else obind (mem_malloc alloc_len (p_heap st)) (\<lambda>(r, h).
             case r of
               None \<Rightarrow> Inr (None, st\<lparr>p_heap := h\<rparr>)
             | Some n \<Rightarrow>
                 let q = Heap n; st = st\<lparr>p_heap := h\<rparr> in
                 Inr (Some q, put_pbuf q (pbuf_init_alloced_pbuf
                   (fresh_mem st q (alloc_len - SIZEOF_STRUCT_PBUF)) (int offset) l l PBUF_RAM 0) st))))"

section \<open>Headers\<close>

text \<open>These change one pbuf; the result is the return value (0 for success) and the pbuf.\<close>

definition pbuf_add_header_impl :: "nat \<Rightarrow> bool \<Rightarrow> pbuf \<Rightarrow> u8 \<times> pbuf" where
  "pbuf_add_header_impl header_size_increment force p =
     (if header_size_increment > 0xFFFF then (1, p)
      else if header_size_increment = 0 then (0, p)
      else
        let increment_magnitude = (of_nat header_size_increment :: u16) in
        if increment_magnitude + tot_len p < increment_magnitude then (1, p)
        else
          let payload = p_off p - int header_size_increment in
          if type_internal p AND PBUF_TYPE_FLAG_STRUCT_DATA_CONTIGUOUS \<noteq> 0 \<and> payload < 0 then (1, p)
          else if type_internal p AND PBUF_TYPE_FLAG_STRUCT_DATA_CONTIGUOUS = 0 \<and> \<not> force then (1, p)
          else (0, p\<lparr>p_off := payload, len := len p + increment_magnitude,
                 tot_len := tot_len p + increment_magnitude\<rparr>))"

definition pbuf_add_header :: "nat \<Rightarrow> pbuf \<Rightarrow> u8 \<times> pbuf" where
  "pbuf_add_header header_size_increment p = pbuf_add_header_impl header_size_increment False p"

definition pbuf_add_header_force :: "nat \<Rightarrow> pbuf \<Rightarrow> u8 \<times> pbuf" where
  "pbuf_add_header_force header_size_increment p = pbuf_add_header_impl header_size_increment True p"

definition pbuf_remove_header :: "nat \<Rightarrow> pbuf \<Rightarrow> u8 \<times> pbuf" where
  "pbuf_remove_header header_size_decrement p =
     (if header_size_decrement > 0xFFFF then (1, p)
      else if header_size_decrement = 0 then (0, p)
      else
        let increment_magnitude = (of_nat header_size_decrement :: u16) in
        if \<not> increment_magnitude \<le> len p then (1, p)
        else (0, p\<lparr>p_off := p_off p + int header_size_decrement, len := len p - increment_magnitude,
               tot_len := tot_len p - increment_magnitude\<rparr>))"

definition pbuf_header_impl :: "int \<Rightarrow> bool \<Rightarrow> pbuf \<Rightarrow> u8 \<times> pbuf" where
  "pbuf_header_impl header_size_increment force p =
     (if header_size_increment < 0 then pbuf_remove_header (nat (- header_size_increment)) p
      else pbuf_add_header_impl (nat header_size_increment) force p)"

definition pbuf_header :: "int \<Rightarrow> pbuf \<Rightarrow> u8 \<times> pbuf" where
  "pbuf_header header_size_increment p = pbuf_header_impl header_size_increment False p"

definition pbuf_header_force :: "int \<Rightarrow> pbuf \<Rightarrow> u8 \<times> pbuf" where
  "pbuf_header_force header_size_increment p = pbuf_header_impl header_size_increment True p"

text \<open>The loop of \<open>pbuf_free_header\<close>.\<close>

partial_function (option) free_header_loop ::
  "u16 \<Rightarrow> pptr option \<Rightarrow> pstate \<Rightarrow> ((pptr option \<times> pstate) outcome) option" where
  "free_header_loop free_left p st =
     (case p of
        None \<Rightarrow> Some (Inr (None, st))
      | Some a \<Rightarrow>
          if free_left = 0 then Some (Inr (p, st))
          else
            (case pbufs st a of
               None \<Rightarrow> Some (Inl InvalidAccess)
             | Some b \<Rightarrow>
                 if free_left \<ge> len b then
                   (case pbuf_free (Some a) (put_pbuf a (b\<lparr>p_next := None\<rparr>) st) of
                      Inl e \<Rightarrow> Some (Inl e)
                    | Inr (_, st) \<Rightarrow> free_header_loop (free_left - len b) (p_next b) st)
                 else
                   free_header_loop 0 p (put_pbuf a (snd (pbuf_remove_header (unat free_left) b)) st)))"

definition pbuf_free_header :: "pptr option \<Rightarrow> u16 \<Rightarrow> pstate \<Rightarrow> (pptr option \<times> pstate) outcome" where
  "pbuf_free_header q sz st = obind (of_loop (free_header_loop sz q st)) (\<lambda>r. r)"

section \<open>Linking\<close>

definition pbuf_ref :: "pptr option \<Rightarrow> pstate \<Rightarrow> pstate outcome" where
  "pbuf_ref p st =
     (case p of
        None \<Rightarrow> Inr st
      | Some a \<Rightarrow> get_pbuf st a (\<lambda>b.
          lwip_assert ''pbuf ref overflow'' (ref b + 1 > 0)
            (Inr (put_pbuf a (b\<lparr>ref := ref b + 1\<rparr>) st))))"

partial_function (option) clen_loop :: "pstate \<Rightarrow> pptr option \<Rightarrow> u16 \<Rightarrow> (u16 outcome) option" where
  "clen_loop st p l =
     (case p of
        None \<Rightarrow> Some (Inr l)
      | Some a \<Rightarrow>
          (case pbufs st a of
             None \<Rightarrow> Some (Inl InvalidAccess)
           | Some b \<Rightarrow> clen_loop st (p_next b) (l + 1)))"

definition pbuf_clen :: "pptr option \<Rightarrow> pstate \<Rightarrow> u16 outcome" where
  "pbuf_clen p st = obind (of_loop (clen_loop st p 0)) (\<lambda>r. r)"

text \<open>The loop of \<open>pbuf_cat\<close> to the last pbuf of \<open>h\<close>, which it returns.\<close>

partial_function (option) cat_loop :: "pptr \<Rightarrow> pptr \<Rightarrow> pstate \<Rightarrow> ((pptr \<times> pstate) outcome) option" where
  "cat_loop p t st =
     (case pbufs st p of
        None \<Rightarrow> Some (Inl InvalidAccess)
      | Some b \<Rightarrow>
          (case p_next b of
             None \<Rightarrow> Some (Inr (p, st))
           | Some q \<Rightarrow>
               (case pbufs st t of
                  None \<Rightarrow> Some (Inl InvalidAccess)
                | Some tb \<Rightarrow> cat_loop q t (put_pbuf p (b\<lparr>tot_len := tot_len b + tot_len tb\<rparr>) st))))"

definition pbuf_cat :: "pptr option \<Rightarrow> pptr option \<Rightarrow> pstate \<Rightarrow> pstate outcome" where
  "pbuf_cat h t st =
     (case (h, t) of
        (Some h, Some t) \<Rightarrow>
          obind (of_loop (cat_loop h t st)) (\<lambda>r. obind r (\<lambda>(p, st).
          get_pbuf st p (\<lambda>b.
          lwip_assert ''p->tot_len == p->len (of last pbuf in chain)'' (tot_len b = len b)
            (get_pbuf st t (\<lambda>tb.
               Inr (put_pbuf p (b\<lparr>tot_len := tot_len b + tot_len tb, p_next := Some t\<rparr>) st))))))
      | _ \<Rightarrow> Inr st)"

definition pbuf_chain :: "pptr option \<Rightarrow> pptr option \<Rightarrow> pstate \<Rightarrow> pstate outcome" where
  "pbuf_chain h t st = obind (pbuf_cat h t st) (\<lambda>st. pbuf_ref t st)"

definition pbuf_dechain :: "pptr \<Rightarrow> pstate \<Rightarrow> (pptr option \<times> pstate) outcome" where
  "pbuf_dechain p st =
     get_pbuf st p (\<lambda>b.
       case p_next b of
         None \<Rightarrow> lwip_assert ''p->tot_len == p->len'' (tot_len b = len b) (Inr (None, st))
       | Some q \<Rightarrow>
           get_pbuf st q (\<lambda>c.
           lwip_assert ''p->tot_len == p->len + q->tot_len''
             (int (unat (tot_len c)) = int (unat (tot_len b)) - int (unat (len b)))
          (let st = put_pbuf q (c\<lparr>tot_len := tot_len b - len b\<rparr>) st;
               st = put_pbuf p (b\<lparr>p_next := None, tot_len := len b\<rparr>) st in
           obind (pbuf_free (Some q) st) (\<lambda>(tail_gone, st).
             Inr (if tail_gone > 0 then None else Some q, st)))))"

section \<open>Shrinking\<close>

text \<open>The loop of \<open>pbuf_realloc\<close> to the new last pbuf.\<close>

partial_function (option) realloc_loop ::
  "u16 \<Rightarrow> u16 \<Rightarrow> pptr \<Rightarrow> pstate \<Rightarrow> ((pptr \<times> u16 \<times> pstate) outcome) option" where
  "realloc_loop shrink rem_len q st =
     (case pbufs st q of
        None \<Rightarrow> Some (Inl InvalidAccess)
      | Some b \<Rightarrow>
          if rem_len > len b then
            (case p_next b of
               None \<Rightarrow> Some (Inl (Assertion ''pbuf_realloc: q != NULL''))
             | Some r \<Rightarrow> realloc_loop shrink (rem_len - len b) r
                 (put_pbuf q (b\<lparr>tot_len := tot_len b - shrink\<rparr>) st))
          else Some (Inr (q, rem_len, st)))"

definition realloc_trim :: "pptr \<Rightarrow> u16 \<Rightarrow> pbuf \<Rightarrow> pstate \<Rightarrow> (pbuf \<times> pstate) outcome" where
  "realloc_trim q rem_len b st =
     (if pbuf_get_allocsrc b = 0x00 \<and> rem_len \<noteq> len b then
        (case q of
           Heap n \<Rightarrow>
             obind (mem_trim (int n) (SIZEOF_STRUCT_PBUF + nat (p_off b) + unat rem_len) (p_heap st)) (\<lambda>(r, h).
             lwip_assert ''mem_trim returned r == NULL'' (r \<noteq> None)
            (lwip_assert ''mem_trim returned r != q'' (r = Some (int n))
            (Inr (b\<lparr>p_mem := take (nat (p_off b) + unat rem_len) (p_mem b)\<rparr>, st\<lparr>p_heap := h\<rparr>))))
         | _ \<Rightarrow> Inl InvalidAccess)
      else Inr (b, st))"

definition pbuf_realloc :: "pptr \<Rightarrow> u16 \<Rightarrow> pstate \<Rightarrow> pstate outcome" where
  "pbuf_realloc p new_len st =
     get_pbuf st p (\<lambda>pb.
       if new_len \<ge> tot_len pb then Inr st
       else
         let shrink = tot_len pb - new_len in
         obind (of_loop (realloc_loop shrink new_len p st)) (\<lambda>r. obind r (\<lambda>(q, rem_len, st).
         get_pbuf st q (\<lambda>b.
         obind (realloc_trim q rem_len b st) (\<lambda>(b, st).
           let st = put_pbuf q (b\<lparr>len := rem_len, tot_len := rem_len\<rparr>) st in
           obind (case p_next b of None \<Rightarrow> Inr (0, st) | Some r \<Rightarrow> pbuf_free (Some r) st) (\<lambda>(_, st).
             get_pbuf st q (\<lambda>b. Inr (put_pbuf q (b\<lparr>p_next := None\<rparr>) st))))))))"

section \<open>Cloning\<close>

text \<open>The addresses of a chain, to hand it as a list to the functions of theory \<open>PbufData\<close>.\<close>

partial_function (option) walk :: "pstate \<Rightarrow> pptr option \<Rightarrow> (pptr list outcome) option" where
  "walk st p =
     (case p of
        None \<Rightarrow> Some (Inr [])
      | Some a \<Rightarrow>
          (case pbufs st a of
             None \<Rightarrow> Some (Inl InvalidAccess)
           | Some b \<Rightarrow>
               Option.bind (walk st (p_next b)) (\<lambda>r. Some (obind r (\<lambda>as. Inr (a # as))))))"

definition chain_list :: "pstate \<Rightarrow> pptr list \<Rightarrow> pbuf list" where
  "chain_list st as = map (\<lambda>a. the (pbufs st a)) as"

fun put_chain :: "pptr list \<Rightarrow> pbuf list \<Rightarrow> pstate \<Rightarrow> pstate" where
  "put_chain (a # as) (b # bs) st = put_chain as bs (put_pbuf a b st)"
| "put_chain [] bs st = st"
| "put_chain (a # as) [] st = st"

definition pbuf_clone :: "pbuf_layer \<Rightarrow> pbuf_type \<Rightarrow> pptr \<Rightarrow> pstate \<Rightarrow> (pptr option \<times> pstate) outcome" where
  "pbuf_clone layer type p st =
     get_pbuf st p (\<lambda>b.
       obind (pbuf_alloc layer (tot_len b) type st) (\<lambda>(q, st).
         case q of
           None \<Rightarrow> Inr (None, st)
         | Some q \<Rightarrow>
             obind (of_loop (walk st (Some q))) (\<lambda>r. obind r (\<lambda>qs.
             obind (of_loop (walk st (Some p))) (\<lambda>r. obind r (\<lambda>ps.
             obind (pbuf_copy (chain_list st qs) (chain_list st ps)) (\<lambda>(err, bs).
             lwip_assert ''pbuf_copy failed'' (err = ERR_OK)
               (Inr (Some q, put_chain qs bs st)))))))))"

definition pbuf_coalesce :: "pptr \<Rightarrow> pbuf_layer \<Rightarrow> pstate \<Rightarrow> (pptr \<times> pstate) outcome" where
  "pbuf_coalesce p layer st =
     get_pbuf st p (\<lambda>b.
       if p_next b = None then Inr (p, st)
       else obind (pbuf_clone layer PBUF_RAM p st) (\<lambda>(q, st).
         case q of
           None \<Rightarrow> Inr (p, st)
         | Some q \<Rightarrow> obind (pbuf_free (Some p) st) (\<lambda>(_, st). Inr (q, st))))"

section \<open>Splitting\<close>

text \<open>
  The loops of \<open>pbuf_split_64k\<close>: the search for the pbuf at which the sum of the lengths overflows
  (returning the last pbuf before it, and it), and the adjustment of \<open>tot_len\<close> in front of it.
\<close>

partial_function (option) split_loop ::
  "pstate \<Rightarrow> u16 \<Rightarrow> pptr \<Rightarrow> pptr option \<Rightarrow> ((pptr \<times> pptr option) outcome) option" where
  "split_loop st tot_len_front i r =
     (case r of
        None \<Rightarrow> Some (Inr (i, r))
      | Some a \<Rightarrow>
          (case pbufs st a of
             None \<Rightarrow> Some (Inl InvalidAccess)
           | Some b \<Rightarrow>
               if tot_len_front + len b \<ge> tot_len_front
               then split_loop st (tot_len_front + len b) a (p_next b)
               else Some (Inr (i, r))))"

partial_function (option) split_adjust :: "u16 \<Rightarrow> pptr option \<Rightarrow> pstate \<Rightarrow> (pstate outcome) option" where
  "split_adjust r_tot_len i st =
     (case i of
        None \<Rightarrow> Some (Inr st)
      | Some a \<Rightarrow>
          (case pbufs st a of
             None \<Rightarrow> Some (Inl InvalidAccess)
           | Some b \<Rightarrow>
               if p_next b \<noteq> None \<or> tot_len b - r_tot_len = len b
               then split_adjust r_tot_len (p_next b)
                      (put_pbuf a (b\<lparr>tot_len := tot_len b - r_tot_len\<rparr>) st)
               else Some (Inl (Assertion ''tot_len/len mismatch in last pbuf''))))"

text \<open>The result is \<open>*rest\<close> and the state.\<close>

definition pbuf_split_64k :: "pptr option \<Rightarrow> pstate \<Rightarrow> (pptr option \<times> pstate) outcome" where
  "pbuf_split_64k p st =
     (case p of
        None \<Rightarrow> Inr (None, st)
      | Some a \<Rightarrow>
          get_pbuf st a (\<lambda>pb.
          if p_next pb = None then Inr (None, st)
          else
            obind (of_loop (split_loop st (len pb) a (p_next pb))) (\<lambda>x. obind x (\<lambda>(i, r).
            get_pbuf st i (\<lambda>ib.
            let st = put_pbuf i (ib\<lparr>p_next := None\<rparr>) st in
            case r of
              None \<Rightarrow> Inr (None, st)
            | Some ra \<Rightarrow>
                get_pbuf st ra (\<lambda>rb.
                obind (of_loop (split_adjust (tot_len rb) p st)) (\<lambda>x. obind x (\<lambda>st.
                get_pbuf st a (\<lambda>pb.
                get_pbuf st ra (\<lambda>rb.
                  let st = (if flags pb AND PBUF_FLAG_TCP_FIN \<noteq> 0
                            then put_pbuf ra (rb\<lparr>flags := flags rb OR PBUF_FLAG_TCP_FIN\<rparr>) st else st)
                  in Inr (Some ra, st)))))))))))"

section \<open>Chains in the store\<close>

text \<open>\<open>pchain st p as\<close>: the pbufs at \<open>as\<close> are live and linked in this order from \<open>p\<close> to NULL.\<close>

fun pchain :: "(pptr \<rightharpoonup> pbuf) \<Rightarrow> pptr option \<Rightarrow> pptr list \<Rightarrow> bool" where
  "pchain s p [] = (p = None)"
| "pchain s p (a # as) = (p = Some a \<and> (\<exists>b. s a = Some b \<and> pchain s (p_next b) as))"

text \<open>
  The state is well-formed: the allocators are, every live pbuf is allocated in the one its type
  names, and that one has room for the pbuf's memory.
\<close>

definition owned :: "pstate \<Rightarrow> pptr \<Rightarrow> pbuf \<Rightarrow> bool" where
  "owned st a b =
     (case a of
        Heap n \<Rightarrow> pbuf_get_allocsrc b = 0x00 \<and>
          (\<exists>k. live (p_heap st) n = Some k \<and> SIZEOF_STRUCT_PBUF + length (p_mem b) \<le> k)
      | Pbuf n \<Rightarrow> pbuf_get_allocsrc b = 0x01 \<and> pool_live (pool_pbuf st) n \<noteq> None
      | Pool n \<Rightarrow> pbuf_get_allocsrc b = 0x02 \<and> pool_live (pool_pool st) n \<noteq> None)"

definition pst_ok :: "pstate \<Rightarrow> bool" where
  "pst_ok st \<longleftrightarrow> heap_ok (p_heap st) \<and> pool_ok (pool_pbuf st) \<and> pool_ok (pool_pool st) \<and>
     (\<forall>a b. pbufs st a = Some b \<longrightarrow> owned st a b)"

text \<open>What is allocated in the three allocators together.\<close>

definition allocated :: "pstate \<Rightarrow> pptr set" where
  "allocated st = Heap ` dom (live (p_heap st)) \<union> Pbuf ` dom (pool_live (pool_pbuf st)) \<union>
     Pool ` dom (pool_live (pool_pool st))"

lemma pchain_upd: "a \<notin> set as \<Longrightarrow> pchain (s(a := v)) p as = pchain s p as"
  by (induction as arbitrary: p) auto

lemma pbuf_dealloc_ok:
  assumes ok: "pst_ok st" and b: "pbufs st a = Some b" and src: "pbuf_get_allocsrc b' = pbuf_get_allocsrc b"
  shows "\<exists>st'. pbuf_dealloc a b' st = Inr st' \<and> pst_ok st' \<and> pbufs st' = (pbufs st)(a := None) \<and>
    allocated st' = allocated st - {a}"
proof -
  have own: "owned st a b" using ok b by (simp add: pst_ok_def)
  have others: "c \<noteq> a \<Longrightarrow> pbufs st c = Some d \<Longrightarrow> owned st c d" for c d
    using ok by (simp add: pst_ok_def)
  show ?thesis
  proof (cases a)
    case (Heap n)
    then obtain k where k: "pbuf_get_allocsrc b = 0" "live (p_heap st) n = Some k"
      using own by (auto simp: owned_def)
    then obtain h where h: "mem_free (Some (int n)) (p_heap st) = Inr h" "heap_ok h"
      "live h = (live (p_heap st))(n := None)"
      using mem_free_live [of "p_heap st" n] ok by (auto simp: pst_ok_def)
    let ?st = "st\<lparr>pbufs := (pbufs st)(a := None), p_heap := h\<rparr>"
    have "pbuf_dealloc a b' st = Inr ?st"
      using Heap k h src by (simp add: pbuf_dealloc_def)
    moreover have "pst_ok ?st"
      using ok others h Heap by (auto simp: pst_ok_def owned_def split: pptr.splits if_splits)
    moreover have "allocated ?st = allocated st - {a}"
      using h Heap by (auto simp: allocated_def)
    ultimately show ?thesis by auto
  next
    case (Pbuf n)
    then have k: "pbuf_get_allocsrc b = 1" "pool_live (pool_pbuf st) n \<noteq> None"
      using own by (auto simp: owned_def)
    have f: "pool_ok (memp_free_pool (Some n) (pool_pbuf st))"
      "pool_live (memp_free_pool (Some n) (pool_pbuf st)) = (pool_live (pool_pbuf st))(n := None)"
      using pool_free_live [OF _ k(2)] ok by (auto simp: pst_ok_def)
    let ?st = "st\<lparr>pbufs := (pbufs st)(a := None), pool_pbuf := memp_free_pool (Some n) (pool_pbuf st)\<rparr>"
    have "pbuf_dealloc a b' st = Inr ?st"
      using Pbuf k src by (simp add: pbuf_dealloc_def)
    moreover have "pst_ok ?st"
      using ok others f Pbuf by (auto simp: pst_ok_def owned_def split: pptr.splits if_splits)
    moreover have "allocated ?st = allocated st - {a}"
      using f Pbuf by (auto simp: allocated_def)
    ultimately show ?thesis by auto
  next
    case (Pool n)
    then have k: "pbuf_get_allocsrc b = 2" "pool_live (pool_pool st) n \<noteq> None"
      using own by (auto simp: owned_def)
    have f: "pool_ok (memp_free_pool (Some n) (pool_pool st))"
      "pool_live (memp_free_pool (Some n) (pool_pool st)) = (pool_live (pool_pool st))(n := None)"
      using pool_free_live [OF _ k(2)] ok by (auto simp: pst_ok_def)
    let ?st = "st\<lparr>pbufs := (pbufs st)(a := None), pool_pool := memp_free_pool (Some n) (pool_pool st)\<rparr>"
    have "pbuf_dealloc a b' st = Inr ?st"
      using Pool k src by (simp add: pbuf_dealloc_def)
    moreover have "pst_ok ?st"
      using ok others f Pool by (auto simp: pst_ok_def owned_def split: pptr.splits if_splits)
    moreover have "allocated ?st = allocated st - {a}"
      using f Pool by (auto simp: allocated_def)
    ultimately show ?thesis by auto
  qed
qed

subsection \<open>Chains end\<close>

lemma pchain_unique: "pchain s p xs \<Longrightarrow> pchain s p ys \<Longrightarrow> xs = ys"
proof (induction xs arbitrary: p ys)
  case Nil
  then show ?case by (cases ys) auto
next
  case (Cons x xs)
  then show ?case by (cases ys) auto
qed

lemma pchain_append: "pchain s p (xs @ a # ys) \<Longrightarrow> pchain s (Some a) (a # ys)"
  by (induction xs arbitrary: p) auto

lemma pchain_distinct: "pchain s p as \<Longrightarrow> distinct as"
proof (induction as arbitrary: p)
  case (Cons a as)
  have "a \<notin> set as"
  proof
    assume "a \<in> set as"
    then obtain us vs where as: "as = us @ a # vs" by (auto simp: in_set_conv_decomp)
    have "pchain s (Some a) (a # as)" using Cons.prems by simp
    moreover have "pchain s (Some a) (a # vs)"
      using pchain_append [of s p "a # us" a vs] Cons.prems as by simp
    ultimately have "a # as = a # vs" by (rule pchain_unique)
    then show False using arg_cong [of as vs length] as by simp
  qed
  with Cons show ?case by auto
qed simp

lemma pchain_live: "pchain s p as \<Longrightarrow> a \<in> set as \<Longrightarrow> \<exists>b. s a = Some b"
  by (induction as arbitrary: p) auto

lemma pchain_cong: "(\<And>a. a \<in> set as \<Longrightarrow> s a = t a) \<Longrightarrow> pchain s p as = pchain t p as"
  by (induction as arbitrary: p) auto

lemma put_pbuf_ok:
  assumes "pst_ok st" and "pbufs st a = Some b"
    and "type_internal b' = type_internal b" and "length (p_mem b') \<le> length (p_mem b)"
  shows "pst_ok (put_pbuf a b' st)" and "allocated (put_pbuf a b' st) = allocated st"
proof -
  have "owned st a b" using assms by (simp add: pst_ok_def)
  then have "owned st a b'"
    using assms(3,4) by (cases a) (auto simp: owned_def pbuf_get_allocsrc_def)
  then have "owned st c d" if "((pbufs st)(a \<mapsto> b')) c = Some d" for c d
    using assms(1) that by (auto simp: pst_ok_def split: if_splits)
  moreover have "owned (put_pbuf a b' st) c d = owned st c d" for c d
    by (cases c) (simp_all add: owned_def put_pbuf_def)
  ultimately show "pst_ok (put_pbuf a b' st)"
    using assms(1) by (simp add: pst_ok_def put_pbuf_def)
  show "allocated (put_pbuf a b' st) = allocated st"
    by (simp add: allocated_def put_pbuf_def)
qed

lemma pbufs_put [simp]: "pbufs (put_pbuf a b st) = (pbufs st)(a \<mapsto> b)"
  by (simp add: put_pbuf_def)

section \<open>Freeing a chain\<close>

text \<open>The pbufs that only the chain itself refers to, up to the first one with another reference.\<close>

definition unshared :: "(pptr \<rightharpoonup> pbuf) \<Rightarrow> pptr list \<Rightarrow> pptr list" where
  "unshared s as = takeWhile (\<lambda>a. \<exists>b. s a = Some b \<and> ref b = 1) as"

text \<open>What remains of the store: those are gone, the next one has one reference less.\<close>

fun release :: "(pptr \<rightharpoonup> pbuf) \<Rightarrow> pptr list \<Rightarrow> (pptr \<rightharpoonup> pbuf)" where
  "release s [] = s"
| "release s (a # as) =
     (case s a of
        None \<Rightarrow> s
      | Some b \<Rightarrow> if ref b = 1 then release (s(a := None)) as else s(a \<mapsto> b\<lparr>ref := ref b - 1\<rparr>))"

definition refs_pos :: "(pptr \<rightharpoonup> pbuf) \<Rightarrow> pptr list \<Rightarrow> bool" where
  "refs_pos s as \<longleftrightarrow> (\<forall>a \<in> set as. \<forall>b. s a = Some b \<longrightarrow> ref b > 0)"

lemma refs_pos_Cons: "refs_pos s (a # as) \<longleftrightarrow> (\<forall>b. s a = Some b \<longrightarrow> ref b > 0) \<and> refs_pos s as"
  by (auto simp: refs_pos_def)

lemma refs_pos_upd: "a \<notin> set as \<Longrightarrow> refs_pos (s(a := v)) as = refs_pos s as"
  by (auto simp: refs_pos_def)

lemma unshared_upd: "a \<notin> set as \<Longrightarrow> unshared (s(a := v)) as = unshared s as"
  by (induction as) (auto simp: unshared_def)

lemma unshared_subset: "set (unshared s as) \<subseteq> set as"
  by (auto simp: unshared_def dest: set_takeWhileD)

lemma word_minus_one_eq: "(x :: u8) - 1 = 0 \<longleftrightarrow> x = 1"
  by (metis diff_add_cancel diff_self add_0)

lemma free_loop_chain:
  assumes "pst_ok st" and "pchain (pbufs st) p as" and "refs_pos (pbufs st) as"
  shows "\<exists>st'. free_loop p count st = Some (Inr (count + of_nat (length (unshared (pbufs st) as)), st')) \<and>
    pst_ok st' \<and> pbufs st' = release (pbufs st) as \<and>
    allocated st' = allocated st - set (unshared (pbufs st) as)"
  using assms
proof (induction as arbitrary: p count st)
  case Nil
  then show ?case by (simp add: free_loop.simps unshared_def)
next
  case (Cons a as)
  then obtain b where p: "p = Some a" and b: "pbufs st a = Some b" and nxt: "pchain (pbufs st) (p_next b) as"
    by auto
  have a: "a \<notin> set as" using pchain_distinct [OF Cons.prems(2)] by simp
  have pos: "ref b > 0" using Cons.prems(3) b by (simp add: refs_pos_Cons)
  show ?case
  proof (cases "ref b = 1")
    case True
    obtain st1 where st1: "pbuf_dealloc a (b\<lparr>ref := 0\<rparr>) st = Inr st1" "pst_ok st1"
      "pbufs st1 = (pbufs st)(a := None)" "allocated st1 = allocated st - {a}"
      using pbuf_dealloc_ok [OF Cons.prems(1) b, of "b\<lparr>ref := 0\<rparr>"] by (auto simp: pbuf_get_allocsrc_def)
    have "pchain (pbufs st1) (p_next b) as" "refs_pos (pbufs st1) as"
      using nxt Cons.prems(3) a by (simp_all add: st1(3) pchain_upd refs_pos_upd refs_pos_Cons)
    from Cons.IH [OF st1(2) this, of "count + 1"]
    obtain st2 where st2: "free_loop (p_next b) (count + 1) st1 =
        Some (Inr (count + 1 + of_nat (length (unshared (pbufs st1) as)), st2))"
      "pst_ok st2" "pbufs st2 = release (pbufs st1) as"
      "allocated st2 = allocated st1 - set (unshared (pbufs st1) as)" by blast
    have u: "unshared (pbufs st) (a # as) = a # unshared (pbufs st1) as"
      using b True a by (simp add: st1(3) unshared_upd) (simp add: unshared_def)
    have "free_loop p count st = free_loop (p_next b) (count + 1) st1"
      by (subst free_loop.simps) (simp add: p b True st1(1))
    then show ?thesis using st2 st1 b True by (auto simp: u)
  next
    case False
    let ?st = "put_pbuf a (b\<lparr>ref := ref b - 1\<rparr>) st"
    have "free_loop p count st = Some (Inr (count, ?st))"
      using p b pos False by (subst free_loop.simps) (simp add: word_minus_one_eq)
    moreover have "unshared (pbufs st) (a # as) = []" using b False by (simp add: unshared_def)
    moreover have "pst_ok ?st" "allocated ?st = allocated st"
      using put_pbuf_ok [OF Cons.prems(1) b, of "b\<lparr>ref := ref b - 1\<rparr>"] by simp_all
    ultimately show ?thesis using b False by (simp add: fun_eq_iff)
  qed
qed

lemma pbuf_free_chain:
  assumes "pst_ok st" and "pchain (pbufs st) (Some a) as" and "refs_pos (pbufs st) as"
  shows "\<exists>st'. pbuf_free (Some a) st = Inr (of_nat (length (unshared (pbufs st) as)), st') \<and>
    pst_ok st' \<and> pbufs st' = release (pbufs st) as \<and>
    allocated st' = allocated st - set (unshared (pbufs st) as)"
  using free_loop_chain [OF assms, of 0] by (auto simp: pbuf_free_def)

lemma release_other: "a \<notin> set as \<Longrightarrow> release s as a = s a"
  by (induction as arbitrary: s) (auto split: option.splits)

lemma release_head: "pchain s p (a # as) \<Longrightarrow> (release s (a # as) a = None) = (unshared s (a # as) \<noteq> [])"
  using pchain_distinct [of s p "a # as"] by (auto simp: unshared_def release_other)

lemma of_nat_u8_zero: "(of_nat n :: u8) = 0 \<longleftrightarrow> 256 dvd n"
  by (simp add: word_of_nat_eq_0_iff)

lemma pbuf_dechain_chain:
  assumes ok: "pst_ok st" and chain: "pchain (pbufs st) (Some p) (p # q # as)"
    and refs: "refs_pos (pbufs st) (q # as)"
    and b: "pbufs st p = Some b" and c: "pbufs st q = Some c"
    and tot: "unat (tot_len b) = unat (len b) + unat (tot_len c)"
  shows "\<exists>st'. pbuf_dechain p st =
      Inr (if 256 dvd length (unshared (pbufs st) (q # as)) then Some q else None, st') \<and>
    pst_ok st' \<and> pbufs st' = release ((pbufs st)(p \<mapsto> b\<lparr>p_next := None, tot_len := len b\<rparr>)) (q # as) \<and>
    allocated st' = allocated st - set (unshared (pbufs st) (q # as))"
proof -
  have d: "p \<notin> set (q # as)" using pchain_distinct [OF chain] by simp
  have nx: "p_next b = Some q" using chain b by simp
  have le: "len b \<le> tot_len b" using tot by (simp add: word_le_nat_alt)
  have c': "c\<lparr>tot_len := tot_len b - len b\<rparr> = c"
  proof -
    have "tot_len b - len b = tot_len c"
      using tot le by (intro word_unat_eq_iff [THEN iffD2]) (simp add: unat_sub)
    then show ?thesis by simp
  qed
  let ?b = "b\<lparr>p_next := None, tot_len := len b\<rparr>"
  let ?su = "put_pbuf q c st" and ?st = "put_pbuf p ?b (put_pbuf q c st)"
  have s0: "pbufs ?su = pbufs st" using c by (simp add: fun_upd_idem)
  have ok0: "pst_ok ?su" "allocated ?su = allocated st" using put_pbuf_ok [OF ok c, of c] by simp_all
  have ok1: "pst_ok ?st" "allocated ?st = allocated st"
    using put_pbuf_ok [OF ok0(1), of p b ?b] ok0(2) b d by simp_all
  have s1: "pbufs ?st = (pbufs st)(p \<mapsto> ?b)" using s0 by simp
  have tail: "pchain (pbufs st) (Some q) (q # as)" using chain b nx by simp
  have "pchain (pbufs ?st) (Some q) (q # as)" "refs_pos (pbufs ?st) (q # as)"
    unfolding s1 using tail refs pchain_upd [OF d] refs_pos_upd [OF d] by blast+
  from pbuf_free_chain [OF ok1(1) this]
  obtain st' where st': "pbuf_free (Some q) ?st = Inr (of_nat (length (unshared (pbufs st) (q # as))), st')"
    "pst_ok st'" "pbufs st' = release (pbufs ?st) (q # as)"
    "allocated st' = allocated st - set (unshared (pbufs st) (q # as))"
    unfolding s1 unshared_upd [OF d] using ok1(2) s1 by auto
  have "pbuf_dechain p st = obind (pbuf_free (Some q) ?st)
      (\<lambda>(tail_gone, st). Inr (if tail_gone > 0 then None else Some q, st))"
    using b c nx tot c' by (simp add: pbuf_dechain_def get_pbuf_def Let_def)
  also have "\<dots> = Inr (if 256 dvd length (unshared (pbufs st) (q # as)) then Some q else None, st')"
    by (simp add: st'(1) word_gt_0 of_nat_u8_zero)
  finally show ?thesis using st'(2,4) st'(3)[unfolded s1] by blast
qed

lemma pbuf_dechain_result:
  assumes "pst_ok st" and "pchain (pbufs st) (Some p) (p # q # as)" and "refs_pos (pbufs st) (q # as)"
    and "pbufs st p = Some b" and "pbufs st q = Some c"
    and "unat (tot_len b) = unat (len b) + unat (tot_len c)"
  shows "\<exists>st'. pbuf_dechain p st =
      Inr (if 256 dvd length (unshared (pbufs st) (q # as)) then Some q else None, st') \<and>
    pst_ok st' \<and> pbufs st' p = Some (b\<lparr>p_next := None, tot_len := len b\<rparr>) \<and>
    (pbufs st' q = None \<longleftrightarrow> unshared (pbufs st) (q # as) \<noteq> [])"
proof -
  let ?s = "(pbufs st)(p \<mapsto> b\<lparr>p_next := None, tot_len := len b\<rparr>)"
  have d: "p \<notin> set (q # as)" using pchain_distinct [OF assms(2)] by simp
  have tail: "pchain ?s (Some q) (q # as)"
    using assms(2,4) pchain_upd [OF d, of "pbufs st" "Some (b\<lparr>p_next := None, tot_len := len b\<rparr>)" "Some q"] by simp
  obtain st' where st': "pbuf_dechain p st =
      Inr (if 256 dvd length (unshared (pbufs st) (q # as)) then Some q else None, st')" "pst_ok st'"
    "pbufs st' = release ?s (q # as)"
    using pbuf_dechain_chain [OF assms(1-6)] by blast
  have "pbufs st' q = None \<longleftrightarrow> unshared (pbufs st) (q # as) \<noteq> []"
    unfolding st'(3) using release_head [OF tail] unfolding unshared_upd [OF d] .
  moreover have "pbufs st' p = Some (b\<lparr>p_next := None, tot_len := len b\<rparr>)"
    unfolding st'(3) release_other [OF d] by simp
  ultimately show ?thesis by (intro exI [of _ st'] conjI st'(1,2))
qed

section \<open>States for examples\<close>

text \<open>A pool of \<open>n\<close> pbufs that are all in use, and the chain of all of them with empty payloads.\<close>

definition full_pool :: "nat \<Rightarrow> memp_pool" where
  "full_pool n = \<lparr>pool_size = 1518, pool_num = n, tab = None, memp_next = \<lambda>_. None\<rparr>"

definition chain_buf :: "nat \<Rightarrow> nat \<Rightarrow> pbuf" where
  "chain_buf n i = \<lparr>p_next = (if Suc i < n then Some (Pool (Suc i * 1518)) else None),
     p_mem = replicate 1494 0, p_off = 0, tot_len = 0, len = 0, type_internal = 0x82, flags = 0,
     ref = 1, if_idx = 0\<rparr>"

definition chain_state :: "nat \<Rightarrow> pstate" where
  "chain_state n =
     \<lparr>pbufs = (\<lambda>a. case a of
        Pool k \<Rightarrow> if k mod 1518 = 0 \<and> k div 1518 < n then Some (chain_buf n (k div 1518)) else None
      | _ \<Rightarrow> None),
      p_heap = mem_init \<lparr>ram = \<lambda>_. \<lparr>next_ptr = 0, prev_ptr = 0, used = False\<rparr>, lfree = 0, ram_data = \<lambda>_. 0\<rparr>,
      pool_pbuf = full_pool 0, pool_pool = full_pool n, ooseq_pending = False, ooseq_calls = 0,
      mbox_full = False, garbage = \<lambda>_ _. 0\<rparr>"

definition chain_addrs :: "nat \<Rightarrow> pptr list" where
  "chain_addrs n = map (\<lambda>i. Pool (i * 1518)) [0..<n]"

lemma full_pool_live: "pool_ok (full_pool n) \<and> (pool_live (full_pool n) (i * 1518) \<noteq> None) = (i < n)"
proof -
  have rel: "pool_rel (full_pool n) []"
    by (simp add: pool_rel_def full_pool_def sizeof_memp_def)
  moreover have "i * 1518 \<in> elements (full_pool n) \<longleftrightarrow> i < n"
    by (auto simp: elements_def full_pool_def)
  ultimately show ?thesis by (auto simp: pool_ok_def pool_live_eq [OF rel])
qed

lemma pst_ok_chain_state: "pst_ok (chain_state n)"
proof -
  have "owned (chain_state n) a b" if ab: "pbufs (chain_state n) a = Some b" for a b
  proof -
    obtain k where k: "a = Pool k" "k mod 1518 = 0" "k div 1518 < n" "b = chain_buf n (k div 1518)"
      using ab by (auto simp: chain_state_def split: pptr.splits if_splits)
    have "k = (k div 1518) * 1518" using k(2) by auto
    then have "pool_live (full_pool n) k \<noteq> None"
      using full_pool_live [of n "k div 1518"] k(3) by metis
    then show ?thesis using k by (simp add: owned_def chain_state_def chain_buf_def pbuf_get_allocsrc_def)
  qed
  then show ?thesis
    using heap_ok_mem_init full_pool_live by (simp add: pst_ok_def chain_state_def)
qed

lemma pbufs_chain_state: "i < n \<Longrightarrow> pbufs (chain_state n) (Pool (i * 1518)) = Some (chain_buf n i)"
  by (simp add: chain_state_def)

lemma pchain_chain_state:
  "i < n \<Longrightarrow> pchain (pbufs (chain_state n)) (Some (Pool (i * 1518))) (map (\<lambda>i. Pool (i * 1518)) [i..<n])"
proof (induction "n - i" arbitrary: i)
  case (Suc k)
  show ?case
  proof (cases "Suc i < n")
    case True
    then have "pchain (pbufs (chain_state n)) (Some (Pool (Suc i * 1518))) (map (\<lambda>i. Pool (i * 1518)) [Suc i..<n])"
      using Suc(1) [of "Suc i"] Suc(2) by linarith
    then show ?thesis
      using True Suc.prems pbufs_chain_state [of i n]
      by (simp add: upt_conv_Cons [of i n] chain_buf_def)
  next
    case False
    then have "n = Suc i" using Suc.prems by simp
    then show ?thesis using pbufs_chain_state [of i n] by (simp add: chain_buf_def)
  qed
qed simp

lemma unshared_chain_state:
  "refs_pos (pbufs (chain_state n)) (map (\<lambda>i. Pool (i * 1518)) [i..<n]) \<and>
   unshared (pbufs (chain_state n)) (map (\<lambda>i. Pool (i * 1518)) [i..<n]) = map (\<lambda>i. Pool (i * 1518)) [i..<n]"
  by (auto simp: refs_pos_def unshared_def pbufs_chain_state chain_buf_def takeWhile_eq_all_conv)

section \<open>Properties of reference counting\<close>

text \<open>
  C9. Freeing a chain releases exactly its leading pbufs that have no other reference, returns
  their memory to the heap or the pool it came from, takes one reference from the next pbuf, and
  touches nothing else; the returned count is the number of freed pbufs modulo 256.
\<close>

theorem pbuf_free_correct:
  assumes "pst_ok st" and "pchain (pbufs st) (Some a) as" and "refs_pos (pbufs st) as"
  shows "\<exists>st'. pbuf_free (Some a) st = Inr (of_nat (length (unshared (pbufs st) as)), st') \<and>
    pst_ok st' \<and> pbufs st' = release (pbufs st) as \<and>
    allocated st' = allocated st - set (unshared (pbufs st) as)"
  using assms by (rule pbuf_free_chain)

theorem pbuf_free_correct_witness:
  "\<exists>st'. pbuf_free (Some (Pool 0)) (chain_state 2) = Inr (2, st') \<and> pst_ok st'"
  using pbuf_free_correct [OF pst_ok_chain_state [of 2], of "Pool 0" "map (\<lambda>i. Pool (i * 1518)) [0..<2]"]
    pchain_chain_state [of 0 2] unshared_chain_state [of 2 0] by auto

text \<open>
  \<open>pbuf_dechain\<close> separates the first pbuf from its chain. It returns the tail as long as somebody
  else holds it and NULL when it has been freed, provided that fewer than 256 pbufs are freed.
\<close>

theorem pbuf_dechain_correct:
  assumes "pst_ok st" and "pchain (pbufs st) (Some p) (p # q # as)" and "refs_pos (pbufs st) (q # as)"
    and "pbufs st p = Some b" and "pbufs st q = Some c"
    and "unat (tot_len b) = unat (len b) + unat (tot_len c)"
    and "length (unshared (pbufs st) (q # as)) < 256"
  shows "\<exists>r st'. pbuf_dechain p st = Inr (r, st') \<and> pst_ok st' \<and>
    pbufs st' p = Some (b\<lparr>p_next := None, tot_len := len b\<rparr>) \<and>
    r = (if pbufs st' q = None then None else Some q) \<and>
    (pbufs st' q = None \<longleftrightarrow> ref c = 1)"
proof -
  obtain st' where st': "pbuf_dechain p st =
      Inr (if 256 dvd length (unshared (pbufs st) (q # as)) then Some q else None, st')" "pst_ok st'"
    "pbufs st' p = Some (b\<lparr>p_next := None, tot_len := len b\<rparr>)"
    "pbufs st' q = None \<longleftrightarrow> unshared (pbufs st) (q # as) \<noteq> []"
    using pbuf_dechain_result [OF assms(1-6)] by (elim exE conjE) (rule that)
  have dvd: "256 dvd length (unshared (pbufs st) (q # as)) \<longleftrightarrow> unshared (pbufs st) (q # as) = []"
    using assms(7) by (auto dest: dvd_imp_le)
  have ref: "unshared (pbufs st) (q # as) \<noteq> [] \<longleftrightarrow> ref c = 1"
    using assms(5) by (simp add: unshared_def)
  then have ref': "unshared (pbufs st) (q # as) = [] \<longleftrightarrow> ref c \<noteq> 1" by blast
  show ?thesis
    by (rule exI, rule exI [of _ st'], intro conjI, rule st'(1))
      (simp_all add: st'(2,3,4) dvd ref')
qed

theorem pbuf_dechain_correct_witness:
  "\<exists>r st'. pbuf_dechain (Pool 0) (chain_state 2) = Inr (r, st') \<and> r = None \<and> pbufs st' (Pool 1518) = None"
  using pbuf_dechain_correct [OF pst_ok_chain_state [of 2], of "Pool 0" "Pool 1518" "[]" "chain_buf 2 0" "chain_buf 2 1"]
    pchain_chain_state [of 0 2] unshared_chain_state [of 2 1] pbufs_chain_state [of 0 2] pbufs_chain_state [of 1 2]
  by (auto simp: upt_conv_Cons chain_buf_def)

text \<open>
  The count returned by \<open>pbuf_free\<close> has 8 bits: when a tail of exactly 256 pbufs is freed,
  \<open>pbuf_dechain\<close> takes the count 0 for a tail that is still referenced and returns a pointer to a
  pbuf that has been freed.
\<close>

theorem pbuf_dechain_dangling:
  "\<exists>st'. pbuf_dechain (Pool 0) (chain_state 257) = Inr (Some (Pool 1518), st') \<and>
     pst_ok (chain_state 257) \<and> pbufs st' (Pool 1518) = None"
proof -
  let ?as = "map (\<lambda>i. Pool (i * 1518)) [2..<257]" and ?s = "pbufs (chain_state 257)"
  have upt1: "map (\<lambda>i. Pool (i * 1518)) [1..<257] = Pool 1518 # ?as"
    by (subst upt_conv_Cons) (simp_all add: numeral_2_eq_2)
  have upt0: "map (\<lambda>i. Pool (i * 1518)) [0..<257] = Pool 0 # Pool 1518 # ?as"
    using upt1 by (subst upt_conv_Cons) simp_all
  have chain: "pchain ?s (Some (Pool 0)) (Pool 0 # Pool 1518 # ?as)"
    using pchain_chain_state [of 0 257] upt0 by (metis mult_0 zero_less_numeral)
  have refs: "refs_pos ?s (Pool 1518 # ?as)" and u: "unshared ?s (Pool 1518 # ?as) = Pool 1518 # ?as"
    using unshared_chain_state [of 257 1] unfolding upt1 by blast+
  have b: "?s (Pool 0) = Some (chain_buf 257 0)" "?s (Pool 1518) = Some (chain_buf 257 1)"
    using pbufs_chain_state [of 0 257] pbufs_chain_state [of 1 257] by simp_all
  have tot: "unat (tot_len (chain_buf 257 0)) = unat (len (chain_buf 257 0)) + unat (tot_len (chain_buf 257 1))"
    by (simp add: chain_buf_def)
  have dvd: "256 dvd length (unshared ?s (Pool 1518 # ?as))" unfolding u list.size length_map length_upt by simp
  obtain st' where st': "pbuf_dechain (Pool 0) (chain_state 257) =
      Inr (if 256 dvd length (unshared ?s (Pool 1518 # ?as)) then Some (Pool 1518) else None, st')"
    "pbufs st' (Pool 1518) = None \<longleftrightarrow> unshared ?s (Pool 1518 # ?as) \<noteq> []"
    using pbuf_dechain_result [OF pst_ok_chain_state chain refs b tot] by (elim exE conjE) (rule that)
  have "pbufs st' (Pool 1518) = None" unfolding st'(2) u by (rule list.distinct)
  with st'(1) show ?thesis unfolding if_P [OF dvd] using pst_ok_chain_state by blast
qed

section \<open>Allocated chains\<close>

lemma dom_allocated: "pst_ok st \<Longrightarrow> dom (pbufs st) \<subseteq> allocated st"
proof
  fix a
  assume "pst_ok st" and "a \<in> dom (pbufs st)"
  then obtain b where "owned st a b" by (auto simp: pst_ok_def)
  then show "a \<in> allocated st"
    by (cases a) (auto simp: owned_def allocated_def)
qed

text \<open>Adding a pbuf in memory that has just been allocated.\<close>

lemma put_fresh_pool:
  assumes ok: "pst_ok st" and m: "memp_malloc_pool (pool_pool st) = (Some n, d)"
    and src: "pbuf_get_allocsrc b = 2"
  shows "pst_ok (put_pbuf (Pool n) b (st\<lparr>pool_pool := d\<rparr>))"
    and "allocated (put_pbuf (Pool n) b (st\<lparr>pool_pool := d\<rparr>)) = insert (Pool n) (allocated st)"
    and "pbufs st (Pool n) = None"
proof -
  have pok: "pool_ok (pool_pool st)" using ok by (simp add: pst_ok_def)
  obtain k where d: "pool_ok d" "pool_live (pool_pool st) n = None" "pool_live d = (pool_live (pool_pool st))(n \<mapsto> k)"
    using pok by (cases rule: pool_mallocE) (use m in auto)
  show new: "pbufs st (Pool n) = None"
    using dom_allocated [OF ok] d(2) by (auto simp: allocated_def)
  show "pst_ok (put_pbuf (Pool n) b (st\<lparr>pool_pool := d\<rparr>))"
    using ok d src by (auto simp: pst_ok_def owned_def put_pbuf_def split: pptr.splits if_splits)
  show "allocated (put_pbuf (Pool n) b (st\<lparr>pool_pool := d\<rparr>)) = insert (Pool n) (allocated st)"
    using d(3) by (auto simp: allocated_def put_pbuf_def)
qed

text \<open>What the loop of \<open>pbuf_alloc\<close> builds for \<open>rem_len\<close> bytes.\<close>

fun pool_chain :: "(pptr \<rightharpoonup> pbuf) \<Rightarrow> nat \<Rightarrow> u16 \<Rightarrow> pptr list \<Rightarrow> bool" where
  "pool_chain s offset rem_len [] = False"
| "pool_chain s offset rem_len (q # qs) \<longleftrightarrow>
     (\<exists>b. s q = Some b \<and> ref b = 1 \<and> p_off b = int offset \<and> length (p_mem b) = PBUF_POOL_BUFSIZE_ALIGNED \<and>
       len b = pool_qlen rem_len offset \<and> tot_len b = rem_len \<and>
       (if rem_len - len b > 0 then pool_chain s 0 (rem_len - len b) qs else qs = []))"

lemma pool_chain_cong:
  "(\<And>a. a \<in> set qs \<Longrightarrow> s a = t a) \<Longrightarrow> pool_chain s offset rem_len qs = pool_chain t offset rem_len qs"
  by (induction qs arbitrary: offset rem_len) auto

lemma pchain_snoc:
  assumes "pchain s p (xs @ [a])" and "s a = Some b" and "q \<notin> set (xs @ [a])" and "s q = Some c"
    and "p_next c = None"
  shows "pchain (s(a \<mapsto> b\<lparr>p_next := Some q\<rparr>)) p (xs @ [a, q])"
  using assms
proof (induction xs arbitrary: p)
  case (Cons x xs)
  have "x \<noteq> a" using pchain_distinct [OF Cons.prems(1)] by auto
  then show ?case using Cons by auto
qed auto

lemma pchain_snoc_last:
  assumes "pchain s p xs" and "xs \<noteq> []" and "s (List.last xs) = Some b" and "q \<notin> set xs" and "s q = Some c"
    and "p_next c = None"
  shows "pchain (s(List.last xs \<mapsto> b\<lparr>p_next := Some q\<rparr>)) p (xs @ [q])"
proof -
  obtain ys a where xs: "xs = ys @ [a]" using assms(2) by (metis rev_exhaust)
  show ?thesis using pchain_snoc [of s p ys a b q c] assms by (simp add: xs)
qed

lemma release_all:
  "pchain s p as \<Longrightarrow> (\<And>a b. a \<in> set as \<Longrightarrow> s a = Some b \<Longrightarrow> ref b = 1) \<Longrightarrow>
   unshared s as = as \<and> release s as = (\<lambda>a. if a \<in> set as then None else s a) \<and> refs_pos s as"
proof (induction as arbitrary: s p)
  case (Cons a as)
  then obtain b where b: "s a = Some b" "pchain s (p_next b) as" by auto
  have a: "a \<notin> set as" using pchain_distinct [OF Cons.prems(1)] by simp
  have chain': "pchain (s(a := None)) (p_next b) as" using b(2) a by (simp only: pchain_upd not_False_eq_True)
  have "unshared (s(a := None)) as = as \<and>
      release (s(a := None)) as = (\<lambda>c. if c \<in> set as then None else (s(a := None)) c) \<and> refs_pos (s(a := None)) as"
    by (rule Cons.IH [OF chain']) (use Cons.prems(2) in \<open>auto split: if_splits\<close>)
  moreover have "ref b = 1" by (rule Cons.prems(2) [OF _ b(1)]) simp
  moreover have "unshared s (a # as) = a # unshared s as" using b(1) \<open>ref b = 1\<close> by (simp add: unshared_def)
  ultimately show ?case
    using b(1) a by (auto simp: unshared_upd refs_pos_upd refs_pos_Cons fun_eq_iff)
qed (simp add: unshared_def refs_pos_def)

text \<open>Appending a new pbuf to the chain allocated so far.\<close>

lemma link_last_ok:
  assumes ok: "pst_ok st" and chain: "pchain (pbufs st) p xs" and q: "q \<notin> set xs" "pbufs st q = Some c" "p_next c = None"
  shows "\<exists>st'. link_last (if xs = [] then None else Some (List.last xs)) q st = Inr st' \<and> pst_ok st' \<and>
    allocated st' = allocated st \<and> pchain (pbufs st') (if p = None then Some q else p) (xs @ [q]) \<and>
    (\<forall>a. a \<notin> set xs \<longrightarrow> pbufs st' a = pbufs st a) \<and>
    (\<forall>a b. pbufs st a = Some b \<longrightarrow> (\<exists>n. pbufs st' a = Some (b\<lparr>p_next := n\<rparr>)))"
proof (cases "xs = []")
  case True
  moreover have "\<exists>n. b = b\<lparr>p_next := n\<rparr>" for b :: pbuf by (rule exI [of _ "p_next b"]) simp
  ultimately show ?thesis using assms by (auto simp: link_last_def)
next
  case False
  let ?a = "List.last xs"
  obtain b where b: "pbufs st ?a = Some b" using pchain_live [OF chain] False by (meson last_in_set)
  let ?st = "put_pbuf ?a (b\<lparr>p_next := Some q\<rparr>) st"
  have "pchain (pbufs ?st) p (xs @ [q])"
    using pchain_snoc_last [OF chain False b q(1,2,3)] by simp
  moreover have "p \<noteq> None" using chain False by (cases xs) auto
  moreover have "pst_ok ?st" "allocated ?st = allocated st"
    using put_pbuf_ok [OF ok b, of "b\<lparr>p_next := Some q\<rparr>"] by simp_all
  moreover have "\<exists>n. pbufs ?st a = Some (d\<lparr>p_next := n\<rparr>)" if "pbufs st a = Some d" for a d
    using that b by (cases "a = ?a") (auto intro: exI [of _ "p_next d"] exI [of _ "Some q"])
  moreover have "pbufs ?st a = pbufs st a" if "a \<notin> set xs" for a
    using that False by auto
  ultimately show ?thesis using False b by (auto simp: link_last_def get_pbuf_def)
qed

text \<open>One round of the loop that gets a pbuf from the pool.\<close>

lemma pool_alloc_step:
  assumes ok: "pst_ok st" and chain: "pchain (pbufs st) p xs"
    and one: "\<forall>a b. a \<in> set xs \<longrightarrow> pbufs st a = Some b \<longrightarrow> ref b = 1"
    and m: "memp_malloc_pool (pool_pool st) = (Some n, d)"
    and c: "c = pbuf_init_alloced_pbuf mem (int offset) rem_len qlen PBUF_POOL 0"
  shows "\<exists>st'. link_last (if xs = [] then None else Some (List.last xs)) (Pool n)
      (put_pbuf (Pool n) c (st\<lparr>pool_pool := d\<rparr>)) = Inr st' \<and> pst_ok st' \<and>
    Pool n \<notin> allocated st \<and> allocated st' = insert (Pool n) (allocated st) \<and>
    pchain (pbufs st') (if p = None then Some (Pool n) else p) (xs @ [Pool n]) \<and>
    pbufs st' (Pool n) = Some c \<and>
    (\<forall>a. a \<notin> set (xs @ [Pool n]) \<longrightarrow> pbufs st' a = pbufs st a) \<and>
    (\<forall>a b. pbufs st a = Some b \<longrightarrow> (\<exists>n. pbufs st' a = Some (b\<lparr>p_next := n\<rparr>))) \<and>
    (\<forall>a b. a \<in> set (xs @ [Pool n]) \<longrightarrow> pbufs st' a = Some b \<longrightarrow> ref b = 1)"
proof -
  let ?st = "put_pbuf (Pool n) c (st\<lparr>pool_pool := d\<rparr>)"
  have pok: "pool_ok (pool_pool st)" using ok by (simp add: pst_ok_def)
  have "pbuf_get_allocsrc c = 2" by (simp add: c pbuf_get_allocsrc_def pbuf_init_alloced_pbuf_def)
  note fresh = put_fresh_pool [OF ok m this]
  have q: "Pool n \<notin> set xs" using pchain_live [OF chain, of "Pool n"] fresh(3) by auto
  have "pchain (pbufs ?st) p xs" using chain q by (simp add: pchain_upd del: fun_upd_apply)
  from link_last_ok [OF fresh(1) this q, of c]
  obtain st' where st': "link_last (if xs = [] then None else Some (List.last xs)) (Pool n) ?st = Inr st'"
    "pst_ok st'" "allocated st' = allocated ?st"
    "pchain (pbufs st') (if p = None then Some (Pool n) else p) (xs @ [Pool n])"
    and same: "\<And>a. a \<notin> set xs \<Longrightarrow> pbufs st' a = pbufs ?st a"
    and nx: "\<And>a b. pbufs ?st a = Some b \<Longrightarrow> \<exists>n. pbufs st' a = Some (b\<lparr>p_next := n\<rparr>)"
    by (auto simp: c pbuf_init_alloced_pbuf_def)
  have nx': "\<exists>n. pbufs st' a = Some (b\<lparr>p_next := n\<rparr>)" if "pbufs st a = Some b" for a b
    using nx [of a b] that fresh(3) by (cases "a = Pool n") auto
  have "ref b = 1" if "a \<in> set (xs @ [Pool n])" and b: "pbufs st' a = Some b" for a b
  proof (cases "a = Pool n")
    case True
    then show ?thesis using same [of a] q b by (auto simp: c pbuf_init_alloced_pbuf_def)
  next
    case False
    then have a: "a \<in> set xs" using that by simp
    then obtain b' where b': "pbufs st a = Some b'" using pchain_live [OF chain] by blast
    then show ?thesis using nx' [OF b'] one a b' b by auto
  qed
  moreover have "Pool n \<notin> allocated st"
    by (rule pool_mallocE [OF pok]) (use m in \<open>auto simp: allocated_def\<close>)
  ultimately show ?thesis using st' fresh(2) same q nx' by (intro exI [of _ st']) simp
qed

lemma pbuf_pool_is_empty_same [simp]:
  "pbufs (pbuf_pool_is_empty st) = pbufs st" "p_heap (pbuf_pool_is_empty st) = p_heap st"
  "pool_pbuf (pbuf_pool_is_empty st) = pool_pbuf st" "pool_pool (pbuf_pool_is_empty st) = pool_pool st"
  by (simp_all add: pbuf_pool_is_empty_def Let_def)

lemma same_allocators:
  assumes "pbufs st' = pbufs st" and "p_heap st' = p_heap st" and "pool_pbuf st' = pool_pbuf st"
    and "pool_pool st' = pool_pool st"
  shows "pst_ok st' = pst_ok st" and "allocated st' = allocated st"
  by (auto simp: pst_ok_def owned_def allocated_def assms split: pptr.splits)

text \<open>The outcome of the loop: the chain \<open>xs\<close> has been extended, or it has been freed.\<close>

definition pool_result :: "pstate \<Rightarrow> pptr list \<Rightarrow> nat \<Rightarrow> u16 \<Rightarrow> pptr option \<Rightarrow> pstate \<Rightarrow> bool" where
  "pool_result st xs offset rem_len r st' \<longleftrightarrow> pst_ok st' \<and>
     (case r of
        None \<Rightarrow> pbufs st' = (\<lambda>a. if a \<in> set xs then None else pbufs st a) \<and> allocated st' = allocated st - set xs
      | Some _ \<Rightarrow> \<exists>ys. pchain (pbufs st') r (xs @ ys) \<and> pool_chain (pbufs st') offset rem_len ys \<and>
          set ys \<inter> allocated st = {} \<and> allocated st' = allocated st \<union> set ys \<and>
          (\<forall>a. a \<notin> set (xs @ ys) \<longrightarrow> pbufs st' a = pbufs st a) \<and>
          (\<forall>a b. pbufs st a = Some b \<longrightarrow> (\<exists>n. pbufs st' a = Some (b\<lparr>p_next := n\<rparr>))))"

lemma pool_empty_result:
  assumes ok: "pst_ok st" and chain: "pchain (pbufs st) p xs"
    and one: "\<forall>a b. a \<in> set xs \<longrightarrow> pbufs st a = Some b \<longrightarrow> ref b = 1"
    and none: "memp_malloc_pool (pool_pool st) = (None, d)"
  shows "\<exists>st'. pool_alloc_loop rem_len offset p last_p st = Inr (None, st') \<and>
    pool_result st xs offset rem_len None st'"
proof -
  have pok: "pool_ok (pool_pool st)" using ok by (simp add: pst_ok_def)
  have d: "d = pool_pool st"
    by (rule pool_mallocE [OF pok]) (use none in auto)
  let ?st = "pbuf_pool_is_empty (st\<lparr>pool_pool := d\<rparr>)"
  have same: "pst_ok ?st = pst_ok st" "allocated ?st = allocated st" "pbufs ?st = pbufs st"
    using same_allocators [of ?st st] by (simp_all add: d)
  show ?thesis
  proof (cases p)
    case None
    then have "xs = []" using chain by (cases xs) auto
    then show ?thesis using None none same ok by (simp add: pool_alloc_loop.simps pool_result_def)
  next
    case (Some a)
    have rel: "unshared (pbufs ?st) xs = xs" "release (pbufs ?st) xs = (\<lambda>a. if a \<in> set xs then None else pbufs st a)"
      "refs_pos (pbufs ?st) xs"
      using release_all [OF chain] one same(3) by auto
    obtain st' where "pbuf_free (Some a) ?st = Inr (of_nat (length xs), st')" "pst_ok st'"
      "pbufs st' = (\<lambda>a. if a \<in> set xs then None else pbufs st a)" "allocated st' = allocated st - set xs"
      using pbuf_free_chain [of ?st a xs] chain Some ok same rel by auto
    then show ?thesis using Some none by (simp add: pool_alloc_loop.simps pool_result_def)
  qed
qed

text \<open>The rest of the loop after one round carries over to the loop.\<close>

lemma pool_result_step:
  assumes st2: "pbufs st2 (Pool n) = Some c" "Pool n \<notin> allocated st" "allocated st2 = insert (Pool n) (allocated st)"
      "\<And>a. a \<notin> set (xs @ [Pool n]) \<Longrightarrow> pbufs st2 a = pbufs st a"
      "\<And>a b. pbufs st a = Some b \<Longrightarrow> \<exists>n. pbufs st2 a = Some (b\<lparr>p_next := n\<rparr>)"
    and xs: "set xs \<subseteq> allocated st" and new: "pbufs st (Pool n) = None"
    and c: "c = pbuf_init_alloced_pbuf mem (int offset) rem_len (pool_qlen rem_len offset) PBUF_POOL 0"
      "length mem = PBUF_POOL_BUFSIZE_ALIGNED"
    and more: "rem_len - pool_qlen rem_len offset > 0"
    and res: "pool_result st2 (xs @ [Pool n]) 0 (rem_len - pool_qlen rem_len offset) r st'"
  shows "pool_result st xs offset rem_len r st'"
proof (cases r)
  case None
  have "pbufs st' = (\<lambda>a. if a \<in> set xs then None else pbufs st a)"
    using None res st2(4) new by (auto simp: pool_result_def fun_eq_iff)
  then show ?thesis using None res st2(2,3) xs by (auto simp: pool_result_def)
next
  case (Some a)
  then obtain ys where ys: "pchain (pbufs st') r (xs @ Pool n # ys)"
    "pool_chain (pbufs st') 0 (rem_len - pool_qlen rem_len offset) ys"
    "set ys \<inter> allocated st2 = {}" "allocated st' = allocated st2 \<union> set ys"
    "\<And>a. a \<notin> set (xs @ Pool n # ys) \<Longrightarrow> pbufs st' a = pbufs st2 a"
    "\<And>a b. pbufs st2 a = Some b \<Longrightarrow> \<exists>n. pbufs st' a = Some (b\<lparr>p_next := n\<rparr>)"
    using res by (auto simp: pool_result_def)
  obtain m where "pbufs st' (Pool n) = Some (c\<lparr>p_next := m\<rparr>)" using ys(6) [OF st2(1)] by blast
  then have "pool_chain (pbufs st') offset rem_len (Pool n # ys)"
    using ys(2) more c by (simp add: pbuf_init_alloced_pbuf_def)
  moreover have "\<exists>n. pbufs st' a = Some (b\<lparr>p_next := n\<rparr>)" if "pbufs st a = Some b" for a b
    using st2(5) [OF that] ys(6) by fastforce
  ultimately show ?thesis
    using Some res ys st2(2,3,4) xs by (auto simp: pool_result_def intro!: exI [of _ "Pool n # ys"])
qed

lemma pool_alloc_loop_ok:
  assumes "pst_ok st" and "pchain (pbufs st) p xs"
    and "\<forall>a b. a \<in> set xs \<longrightarrow> pbufs st a = Some b \<longrightarrow> ref b = 1"
    and "last_p = (if xs = [] then None else Some (List.last xs))"
    and "LWIP_MEM_ALIGN_SIZE offset < PBUF_POOL_BUFSIZE_ALIGNED"
  shows "\<exists>r st'. pool_alloc_loop rem_len offset p last_p st = Inr (r, st') \<and>
    pool_result st xs offset rem_len r st'"
  using assms
proof (induction "unat rem_len" arbitrary: rem_len offset p last_p st xs rule: less_induct)
  case less
  note ok = less.prems(1) and chain = less.prems(2) and one = less.prems(3)
  show ?case
  proof (cases "memp_malloc_pool (pool_pool st)")
    case (Pair r d)
    show ?thesis
    proof (cases r)
      case None
      then show ?thesis using pool_empty_result [OF ok chain one Pair [unfolded None]] by blast
    next
      case (Some n)
      let ?su = "st\<lparr>pool_pool := d\<rparr>" and ?qlen = "pool_qlen rem_len offset"
      define c where "c = pbuf_init_alloced_pbuf (fresh_mem ?su (Pool n) PBUF_POOL_BUFSIZE_ALIGNED)
        (int offset) rem_len ?qlen PBUF_POOL 0"
      have m: "memp_malloc_pool (pool_pool st) = (Some n, d)" using Pair Some by simp
      obtain st2 where st2: "link_last last_p (Pool n) (put_pbuf (Pool n) c ?su) = Inr st2" "pst_ok st2"
        "Pool n \<notin> allocated st" "allocated st2 = insert (Pool n) (allocated st)"
        "pchain (pbufs st2) (if p = None then Some (Pool n) else p) (xs @ [Pool n])" "pbufs st2 (Pool n) = Some c"
        and same: "\<And>a. a \<notin> set (xs @ [Pool n]) \<Longrightarrow> pbufs st2 a = pbufs st a"
        and nx: "\<And>a b. pbufs st a = Some b \<Longrightarrow> \<exists>n. pbufs st2 a = Some (b\<lparr>p_next := n\<rparr>)"
        and one2: "\<forall>a b. a \<in> set (xs @ [Pool n]) \<longrightarrow> pbufs st2 a = Some b \<longrightarrow> ref b = 1"
        using pool_alloc_step [OF ok chain one m c_def] less.prems(4) by auto
      have loop: "pool_alloc_loop rem_len offset p last_p st =
          (if rem_len - ?qlen > 0
           then pool_alloc_loop (rem_len - ?qlen) 0 (if p = None then Some (Pool n) else p) (Some (Pool n)) st2
           else Inr (if p = None then Some (Pool n) else p, st2))"
        using less.prems(5) m st2(1) by (subst pool_alloc_loop.simps) (simp add: Let_def c_def)
      have xs: "set xs \<subseteq> allocated st"
        using pchain_live [OF chain] dom_allocated [OF ok] by blast
      have new: "pbufs st (Pool n) = None" using dom_allocated [OF ok] st2(3) by blast
      have mem: "length (fresh_mem ?su (Pool n) PBUF_POOL_BUFSIZE_ALIGNED) = PBUF_POOL_BUFSIZE_ALIGNED"
        by (simp add: fresh_mem_def)
      show ?thesis
      proof (cases "rem_len - ?qlen > 0")
        case True
        obtain r st' where rec: "pool_alloc_loop (rem_len - ?qlen) 0 (if p = None then Some (Pool n) else p)
            (Some (Pool n)) st2 = Inr (r, st')" "pool_result st2 (xs @ [Pool n]) 0 (rem_len - ?qlen) r st'"
          using less.hyps [OF pool_loop_dec [OF less.prems(5) True] st2(2,5) one2, of "Some (Pool n)" 0] by auto
        have "pool_result st xs offset rem_len r st'"
          by (rule pool_result_step [OF st2(6,3,4) same nx xs new c_def mem True rec(2)])
        then show ?thesis using loop True rec(1) by simp
      next
        case False
        have "pool_chain (pbufs st2) offset rem_len [Pool n]"
          using False st2(6) mem by (simp add: c_def pbuf_init_alloced_pbuf_def)
        then have "pool_result st xs offset rem_len (if p = None then Some (Pool n) else p) st2"
          using st2 same nx by (auto simp: pool_result_def split: option.splits intro!: exI [of _ "[Pool n]"])
        then show ?thesis using loop False by simp
      qed
    qed
  qed
qed

lemma unat_pool_qlen:
  assumes "LWIP_MEM_ALIGN_SIZE offset \<le> PBUF_POOL_BUFSIZE_ALIGNED"
  shows "unat (pool_qlen rem_len offset) = min (unat rem_len) (PBUF_POOL_BUFSIZE_ALIGNED - LWIP_MEM_ALIGN_SIZE offset)"
proof -
  have "unat (of_nat (PBUF_POOL_BUFSIZE_ALIGNED - LWIP_MEM_ALIGN_SIZE offset) :: u16) =
      PBUF_POOL_BUFSIZE_ALIGNED - LWIP_MEM_ALIGN_SIZE offset"
    by (rule unat_of_nat_u16) simp
  then show ?thesis by (simp add: pool_qlen_def min_def word_le_nat_alt)
qed

lemma length_chain_data:
  "(\<And>b. b \<in> set bs \<Longrightarrow> wf_buf b) \<Longrightarrow> length (chain_data bs) = sum_list (map (\<lambda>b. unat (len b)) bs)"
  by (induction bs) (simp_all add: chain_data_def)

lemma pool_chain_ok:
  "pool_chain s offset rem_len qs \<Longrightarrow> offset \<le> PBUF_POOL_BUFSIZE_ALIGNED \<Longrightarrow>
   tot_ok (map (\<lambda>a. the (s a)) qs) \<and> qs \<noteq> [] \<and> tot_len (the (s (hd qs))) = rem_len \<and> p_off (the (s (hd qs))) = int offset \<and>
   (\<forall>b \<in> set (map (\<lambda>a. the (s a)) qs). wf_buf b \<and> ref b = 1) \<and>
   sum_list (map (\<lambda>a. unat (len (the (s a)))) qs) = unat rem_len"
proof (induction qs arbitrary: offset rem_len)
  case (Cons q qs)
  from Cons.prems(1) obtain b where b: "s q = Some b" "ref b = 1" "p_off b = int offset" "length (p_mem b) = PBUF_POOL_BUFSIZE_ALIGNED"
    "len b = pool_qlen rem_len offset" "tot_len b = rem_len"
    and rest: "if rem_len - len b > 0 then pool_chain s 0 (rem_len - len b) qs else qs = []"
    unfolding pool_chain.simps by (elim exE conjE) (rule that)
  have len: "unat (len b) = min (unat rem_len) (PBUF_POOL_BUFSIZE_ALIGNED - offset)"
    using Cons.prems(2) unat_pool_qlen [of offset rem_len] by (simp add: b(5))
  then have wf: "wf_buf b" using b Cons.prems(2) by (simp add: wf_buf_def)
  have le: "len b \<le> rem_len" using len by (simp add: word_le_nat_alt)
  show ?case
  proof (cases "rem_len - len b > 0")
    case True
    then have IH: "tot_ok (map (\<lambda>a. the (s a)) qs)" "qs \<noteq> []" "tot_len (the (s (hd qs))) = rem_len - len b"
      "\<forall>b \<in> set (map (\<lambda>a. the (s a)) qs). wf_buf b \<and> ref b = 1"
      "sum_list (map (\<lambda>a. unat (len (the (s a)))) qs) = unat (rem_len - len b)"
      using Cons.IH [of 0 "rem_len - len b"] rest by simp_all
    have "unat (rem_len - len b) = unat rem_len - unat (len b)" using le by (rule unat_sub)
    then show ?thesis
      using IH b wf le by (cases qs) (auto simp: word_le_nat_alt)
  next
    case False
    then have "qs = []" "len b = rem_len" using rest by (auto simp: word_gt_0)
    then show ?thesis using b wf by simp
  qed
qed simp

lemma layer_offset_le: "layer_offset layer \<le> 54"
  by (cases layer) (simp_all add: PBUF_LINK_HLEN_def PBUF_IP_HLEN_def PBUF_TRANSPORT_HLEN_def)

lemma sizeof_pbuf [simp]: "SIZEOF_STRUCT_PBUF = 24"
  by (simp add: SIZEOF_STRUCT_PBUF_def)

lemma put_fresh_heap:
  assumes ok: "pst_ok st" and h: "heap_ok h" "live (p_heap st) n = None" "live h = (live (p_heap st))(n \<mapsto> k)"
    and b: "pbuf_get_allocsrc b = 0" "SIZEOF_STRUCT_PBUF + length (p_mem b) \<le> k"
  shows "pst_ok (put_pbuf (Heap n) b (st\<lparr>p_heap := h\<rparr>))"
    and "allocated (put_pbuf (Heap n) b (st\<lparr>p_heap := h\<rparr>)) = insert (Heap n) (allocated st)"
    and "Heap n \<notin> allocated st"
proof -
  have old: "owned (st\<lparr>p_heap := h\<rparr>) a c" if "owned st a c" for a c
    using that h(2) by (cases a) (auto simp: owned_def h(3))
  have new: "owned (st\<lparr>p_heap := h\<rparr>) (Heap n) b" using b by (simp add: owned_def h(3))
  have "owned (put_pbuf (Heap n) b st) = owned st" for st
    by (auto simp: owned_def put_pbuf_def fun_eq_iff split: pptr.splits)
  then show "pst_ok (put_pbuf (Heap n) b (st\<lparr>p_heap := h\<rparr>))"
    using ok h(1) old new by (auto simp: pst_ok_def split: if_splits) (simp_all add: put_pbuf_def)
  show "allocated (put_pbuf (Heap n) b (st\<lparr>p_heap := h\<rparr>)) = insert (Heap n) (allocated st)"
    by (auto simp: allocated_def put_pbuf_def h(3))
  show "Heap n \<notin> allocated st" using h(2) by (auto simp: allocated_def)
qed

section \<open>Properties of allocation\<close>

text \<open>The chain \<open>as\<close> from \<open>a\<close> is new in \<open>st'\<close>, its pbufs are good, and their payloads have \<open>n\<close> bytes together.\<close>

definition new_chain :: "pstate \<Rightarrow> pptr \<Rightarrow> pptr list \<Rightarrow> nat \<Rightarrow> int \<Rightarrow> pstate \<Rightarrow> bool" where
  "new_chain st a as n offset st' \<longleftrightarrow>
     pchain (pbufs st') (Some a) as \<and> set as \<inter> allocated st = {} \<and>
     allocated st' = allocated st \<union> set as \<and> (\<forall>c. c \<notin> set as \<longrightarrow> pbufs st' c = pbufs st c) \<and>
     tot_ok (chain_list st' as) \<and> length (chain_data (chain_list st' as)) = n \<and>
     (\<forall>b \<in> set (chain_list st' as). wf_buf b \<and> ref b = 1) \<and> p_off (hd (chain_list st' as)) = offset"

lemma pbuf_alloc_ram:
  assumes ok: "pst_ok st"
  shows "\<exists>r st'. pbuf_alloc layer l PBUF_RAM st = Inr (r, st') \<and> pst_ok st' \<and>
    (case r of
       None \<Rightarrow> pbufs st' = pbufs st \<and> allocated st' = allocated st
     | Some a \<Rightarrow> a \<notin> allocated st \<and> allocated st' = insert a (allocated st) \<and>
         (\<exists>mem. length mem = layer_offset layer + unat l \<and>
            pbufs st' = (pbufs st)(a \<mapsto> pbuf_init_alloced_pbuf mem (int (layer_offset layer)) l l PBUF_RAM 0)))"
proof -
  let ?o = "layer_offset layer"
  have small: "24 + (?o + unat l) < 2 ^ 32"
  proof -
    have "unat l < 65536" by simp
    then have "24 + (?o + unat l) < 4294967296" using layer_offset_le [of layer] by linarith
    then show ?thesis by simp
  qed
  have "?o < 2 ^ 32" "unat l < 2 ^ 32" "?o + unat l < 2 ^ 32" using small by linarith+
  then have al: "LWIP_MEM_ALIGN_SIZE ?o = ?o" "LWIP_MEM_ALIGN_SIZE (unat l) = unat l"
    "add32 ?o (unat l) = ?o + unat l" "add32 24 (?o + unat l) = 24 + (?o + unat l)"
    using small by simp_all
  let ?len = "24 + (?o + unat l)"
  obtain r h where m: "mem_malloc ?len (p_heap st) = Inr (r, h)" "heap_ok h"
    "case r of None \<Rightarrow> h = p_heap st
     | Some p \<Rightarrow> live (p_heap st) p = None \<and> (\<exists>k \<ge> ?len. live h = (live (p_heap st))(p \<mapsto> k))"
    using mem_malloc_live [OF _ small, of "p_heap st"] ok by (auto simp: pst_ok_def split: option.splits)
  have alloc: "pbuf_alloc layer l PBUF_RAM st = (case r of
      None \<Rightarrow> Inr (None, st\<lparr>p_heap := h\<rparr>)
    | Some n \<Rightarrow> Inr (Some (Heap n), put_pbuf (Heap n) (pbuf_init_alloced_pbuf
        (fresh_mem (st\<lparr>p_heap := h\<rparr>) (Heap n) (?o + unat l)) (int ?o) l l PBUF_RAM 0) (st\<lparr>p_heap := h\<rparr>)))"
    unfolding pbuf_alloc_def Let_def al(1,2,3) sizeof_pbuf
    using al(4) m(1) by (simp add: Let_def split: option.splits)
  show ?thesis
  proof (cases r)
    case None
    then have "st\<lparr>p_heap := h\<rparr> = st" using m(3) by simp
    then show ?thesis using alloc None ok by simp
  next
    case (Some n)
    let ?b = "pbuf_init_alloced_pbuf (fresh_mem (st\<lparr>p_heap := h\<rparr>) (Heap n) (?o + unat l)) (int ?o) l l PBUF_RAM 0"
    obtain k where k: "live (p_heap st) n = None" "?len \<le> k" "live h = (live (p_heap st))(n \<mapsto> k)"
      using m(3) Some by auto
    have b: "pbuf_get_allocsrc ?b = 0" "SIZEOF_STRUCT_PBUF + length (p_mem ?b) \<le> k"
      using k(2) by (simp_all add: pbuf_get_allocsrc_def pbuf_init_alloced_pbuf_def fresh_mem_def)
    have "length (fresh_mem (st\<lparr>p_heap := h\<rparr>) (Heap n) (?o + unat l)) = ?o + unat l"
      by (simp add: fresh_mem_def)
    then show ?thesis using put_fresh_heap [OF ok m(2) k(1,3) b] alloc Some by auto
  qed
qed

text \<open>
  C16. \<open>pbuf_alloc\<close> for \<open>PBUF_RAM\<close> and \<open>PBUF_POOL\<close> terminates without failing an assertion. It
  returns NULL, and then nothing is allocated and no pbuf has changed (a chain that could only be
  built in part has been freed), or a chain of new pbufs with reference count 1 whose payloads lie
  in their memory, have the requested length together and agree with every \<open>tot_len\<close>; the first
  payload has the room for the headers of the layer in front of it, and other pbufs are unchanged.
\<close>

theorem pbuf_alloc_correct:
  assumes "pst_ok st" and "type = PBUF_RAM \<or> type = PBUF_POOL"
  shows "\<exists>r st'. pbuf_alloc layer l type st = Inr (r, st') \<and> pst_ok st' \<and>
    (case r of
       None \<Rightarrow> pbufs st' = pbufs st \<and> allocated st' = allocated st
     | Some a \<Rightarrow> \<exists>as. new_chain st a as (unat l) (int (layer_offset layer)) st')"
proof (cases "type = PBUF_RAM")
  case True
  obtain r st' where r: "pbuf_alloc layer l PBUF_RAM st = Inr (r, st')" "pst_ok st'"
    "case r of
       None \<Rightarrow> pbufs st' = pbufs st \<and> allocated st' = allocated st
     | Some a \<Rightarrow> a \<notin> allocated st \<and> allocated st' = insert a (allocated st) \<and>
         (\<exists>mem. length mem = layer_offset layer + unat l \<and>
            pbufs st' = (pbufs st)(a \<mapsto> pbuf_init_alloced_pbuf mem (int (layer_offset layer)) l l PBUF_RAM 0))"
    using pbuf_alloc_ram [OF assms(1)] by blast
  show ?thesis
  proof (cases r)
    case (Some a)
    then obtain mem where mem: "length mem = layer_offset layer + unat l"
      "pbufs st' = (pbufs st)(a \<mapsto> pbuf_init_alloced_pbuf mem (int (layer_offset layer)) l l PBUF_RAM 0)"
      using r(3) by auto
    define b where "b = pbuf_init_alloced_pbuf mem (int (layer_offset layer)) l l PBUF_RAM 0"
    have b: "wf_buf b" "ref b = 1" "p_next b = None" "tot_len b = l" "len b = l" "p_off b = int (layer_offset layer)"
      using mem(1) by (simp_all add: b_def wf_buf_def pbuf_init_alloced_pbuf_def)
    have st': "pbufs st' = (pbufs st)(a \<mapsto> b)" using mem(2) by (simp add: b_def)
    have "chain_list st' [a] = [b]" by (simp add: chain_list_def st')
    moreover have "length (chain_data [b]) = unat l" using b by (simp add: chain_data_def)
    moreover have "set [a] \<inter> allocated st = {}" "allocated st' = allocated st \<union> set [a]"
      using r(3) Some by auto
    ultimately have "new_chain st a [a] (unat l) (int (layer_offset layer)) st'" using b by (simp add: new_chain_def st')
    then show ?thesis using r(1,2) Some True by auto
  qed (use r True in auto)
next
  case False
  then have pool: "type = PBUF_POOL" using assms(2) by simp
  have off: "LWIP_MEM_ALIGN_SIZE (layer_offset layer) < PBUF_POOL_BUFSIZE_ALIGNED" "layer_offset layer \<le> PBUF_POOL_BUFSIZE_ALIGNED"
    using layer_offset_le [of layer] by simp_all
  obtain r st' where r: "pbuf_alloc layer l PBUF_POOL st = Inr (r, st')" "pool_result st [] (layer_offset layer) l r st'"
    using pool_alloc_loop_ok [OF assms(1), of None "[]" None "layer_offset layer" l] off(1) by (auto simp: pbuf_alloc_def)
  show ?thesis
  proof (cases r)
    case None
    then show ?thesis using r pool by (auto simp: pool_result_def)
  next
    case (Some a)
    then obtain ys where ys: "pchain (pbufs st') (Some a) ys" "pool_chain (pbufs st') (layer_offset layer) l ys"
      "set ys \<inter> allocated st = {}" "allocated st' = allocated st \<union> set ys"
      "\<forall>c. c \<notin> set ys \<longrightarrow> pbufs st' c = pbufs st c"
      using r(2) by (auto simp: pool_result_def)
    have cl: "chain_list st' ys = map (\<lambda>a. the (pbufs st' a)) ys" by (simp add: chain_list_def)
    note ok = pool_chain_ok [OF ys(2) off(2), folded cl]
    have wf: "\<forall>b \<in> set (chain_list st' ys). wf_buf b \<and> ref b = 1" using ok by blast
    have "length (chain_data (chain_list st' ys)) = sum_list (map (\<lambda>b. unat (len b)) (chain_list st' ys))"
      by (rule length_chain_data) (use wf in blast)
    also have "\<dots> = unat l" using ok by (simp add: chain_list_def comp_def)
    finally have "length (chain_data (chain_list st' ys)) = unat l" .
    moreover have "p_off (hd (chain_list st' ys)) = int (layer_offset layer)"
      using ok by (simp add: cl hd_map)
    moreover have "pst_ok st'" using r(2) by (simp add: pool_result_def)
    moreover have "tot_ok (chain_list st' ys)" using ok by blast
    ultimately have "new_chain st a ys (unat l) (int (layer_offset layer)) st'" unfolding new_chain_def using ys wf by blast
    then show ?thesis using r(1) Some pool \<open>pst_ok st'\<close> by auto
  qed
qed

theorem pbuf_alloc_correct_witness:
  "\<exists>r st'. pbuf_alloc PBUF_TRANSPORT 3000 PBUF_RAM (chain_state 2) = Inr (r, st') \<and> pst_ok st'"
  using pbuf_alloc_correct [OF pst_ok_chain_state [of 2], of PBUF_RAM PBUF_TRANSPORT 3000] by auto

section \<open>Shrinking a chain\<close>

text \<open>What the loop of \<open>pbuf_realloc\<close> makes of the pbufs it passes, and of the whole chain.\<close>

fun shrunk_front :: "pbuf list \<Rightarrow> u16 \<Rightarrow> pbuf list" where
  "shrunk_front [] n = []"
| "shrunk_front (b # bs) n = (if n > len b then b\<lparr>tot_len := n\<rparr> # shrunk_front bs (n - len b) else [])"

lemma word_sub_shrink:
  assumes "unat (t :: u16) = unat l + k" and "unat (r :: u16) < unat t" and "unat l < unat r"
  shows "t - (t - r) = r" and "unat (r - l) = unat r - unat l"
  using assms by (simp_all add: unat_sub word_le_nat_alt)

lemma realloc_loop_ok:
  assumes "pst_ok st" and "pchain (pbufs st) (Some q) as" and "tot_ok (chain_list st as)"
    and "rem_len < tot_len (the (pbufs st q))" and "shrink = tot_len (the (pbufs st q)) - rem_len"
  shows "\<exists>ys z zs r st'. as = ys @ z # zs \<and> realloc_loop shrink rem_len q st = Some (Inr (z, r, st')) \<and>
    pst_ok st' \<and> allocated st' = allocated st \<and> p_heap st' = p_heap st \<and> pchain (pbufs st') (Some q) as \<and>
    (\<forall>a. a \<notin> set ys \<longrightarrow> pbufs st' a = pbufs st a) \<and> chain_list st' ys = shrunk_front (chain_list st as) rem_len \<and>
    r \<le> len (the (pbufs st z)) \<and> unat rem_len = unat r + sum_list (map (\<lambda>a. unat (len (the (pbufs st a)))) ys)"
  using assms
proof (induction as arbitrary: q rem_len st)
  case (Cons a as)
  then obtain b where q: "q = a" and b: "pbufs st a = Some b" and nxt: "pchain (pbufs st) (p_next b) as" by auto
  have a: "a \<notin> set as" using pchain_distinct [OF Cons.prems(2)] by simp
  show ?case
  proof (cases "rem_len > len b")
    case False
    then have "realloc_loop shrink rem_len q st = Some (Inr (a, rem_len, st))"
      using b q by (subst realloc_loop.simps) simp
    then show ?thesis
      using Cons.prems(1,2) b q False
      by (intro exI [of _ "[]"] exI [of _ a] exI [of _ as] exI [of _ rem_len] exI [of _ st])
        (simp add: chain_list_def not_less)
  next
    case True
    have "as \<noteq> []"
      using Cons.prems(3,4) True b q by (auto simp: chain_list_def word_less_nat_alt)
    then obtain c as' where as: "as = c # as'" by (cases as) auto
    then obtain cb where c: "p_next b = Some c" "pbufs st c = Some cb" using nxt by auto
    have tot: "unat (tot_len b) = unat (len b) + unat (tot_len cb)"
      using Cons.prems(3) b c as by (simp add: chain_list_def)
    let ?st = "put_pbuf a (b\<lparr>tot_len := tot_len b - shrink\<rparr>) st"
    have rl: "tot_len b - shrink = rem_len" "unat (rem_len - len b) = unat rem_len - unat (len b)"
      using word_sub_shrink [OF tot, of rem_len] True Cons.prems(4,5) b q by (simp_all add: word_less_nat_alt)
    have same: "pbufs ?st x = pbufs st x" if "x \<in> set as" for x using that a by auto
    have cl: "chain_list ?st as = chain_list st as" using same by (simp add: chain_list_def)
    have c': "pbufs ?st c = Some cb" using same [of c] c as by simp
    have ok: "pst_ok ?st" "allocated ?st = allocated st"
      using put_pbuf_ok [OF Cons.prems(1) b, of "b\<lparr>tot_len := tot_len b - shrink\<rparr>"] by simp_all
    have ch: "pchain (pbufs ?st) (Some c) as" using nxt c(1) by (simp add: pchain_upd [OF a] del: fun_upd_apply)
    have sh: "rem_len - len b < tot_len (the (pbufs ?st c))" "shrink = tot_len (the (pbufs ?st c)) - (rem_len - len b)"
    proof -
      have "unat rem_len < unat (tot_len b)" using Cons.prems(4) b q by (simp add: word_less_nat_alt)
      then show "rem_len - len b < tot_len (the (pbufs ?st c))"
        using rl(2) tot c' True by (simp add: word_less_nat_alt)
      have "tot_len cb = tot_len b - len b"
        using tot by (intro word_unat_eq_iff [THEN iffD2]) (simp add: unat_sub word_le_nat_alt)
      then show "shrink = tot_len (the (pbufs ?st c)) - (rem_len - len b)"
        unfolding c' option.sel using Cons.prems(5) b q by simp
    qed
    have tk: "tot_ok (chain_list ?st as)" using Cons.prems(3) by (simp only: cl) (simp add: chain_list_def)
    obtain ys z zs r st' where IH: "as = ys @ z # zs" "realloc_loop shrink (rem_len - len b) c ?st = Some (Inr (z, r, st'))"
      "pst_ok st'" "allocated st' = allocated ?st" "pchain (pbufs st') (Some c) as" "p_heap st' = p_heap ?st"
      "\<forall>x. x \<notin> set ys \<longrightarrow> pbufs st' x = pbufs ?st x" "chain_list st' ys = shrunk_front (chain_list ?st as) (rem_len - len b)"
      "r \<le> len (the (pbufs ?st z))"
      "unat (rem_len - len b) = unat r + sum_list (map (\<lambda>a. unat (len (the (pbufs ?st a)))) ys)"
      using Cons.IH [OF ok(1) ch tk sh] by (elim exE conjE) (rule that)
    have ay: "a \<notin> set ys" "z \<noteq> a" using a IH(1) by auto
    have a': "pbufs st' a = Some (b\<lparr>tot_len := rem_len\<rparr>)" using IH(7) ay(1) rl(1) by simp
    have sum: "map (\<lambda>a. unat (len (the (pbufs ?st a)))) ys = map (\<lambda>a. unat (len (the (pbufs st a)))) ys"
      using ay(1) by (intro map_cong) auto
    have "realloc_loop shrink rem_len q st = Some (Inr (z, r, st'))"
      using b q True c IH(2) by (subst realloc_loop.simps) simp
    moreover have "chain_list st' (a # ys) = shrunk_front (chain_list st (a # as)) rem_len"
      using IH(8) a' True b by (simp only: cl) (simp add: chain_list_def)
    moreover have "pchain (pbufs st') (Some q) (a # as)" using IH(5) a' c(1) q by simp
    moreover have "r \<le> len (the (pbufs st z))" using IH(9) ay(2) by simp
    moreover have "unat rem_len = unat r + sum_list (map (\<lambda>a. unat (len (the (pbufs st a)))) (a # ys))"
      using IH(10) rl(2) True b unfolding sum by (simp add: word_less_nat_alt)
    moreover have "\<forall>x. x \<notin> set (a # ys) \<longrightarrow> pbufs st' x = pbufs st x" using IH(7) by simp
    moreover have "p_heap st' = p_heap st" using IH(6) by (simp add: put_pbuf_def)
    ultimately show ?thesis
      using IH(1,3,4) ok(2)
      by (intro exI [of _ "a # ys"] exI [of _ z] exI [of _ zs] exI [of _ r] exI [of _ st']) simp
  qed
qed simp

text \<open>Cutting a chain after one of its pbufs.\<close>

lemma pchain_cut:
  "pchain s p (ys @ z # zs) \<Longrightarrow> p_next b = None \<Longrightarrow> pchain (s(z \<mapsto> b)) p (ys @ [z])"
proof (induction ys arbitrary: p)
  case (Cons y ys)
  have "y \<noteq> z" using pchain_distinct [OF Cons.prems(1)] by auto
  then show ?case using Cons by auto
qed simp

lemma pchain_tail: "pchain s p (ys @ z # zs) \<Longrightarrow> s z = Some b \<Longrightarrow> pchain s (p_next b) zs"
  using pchain_append by fastforce

text \<open>The tail of the chain is given up.\<close>

lemma free_tail_ok:
  assumes "pst_ok st" and "pchain (pbufs st) p zs" and "refs_pos (pbufs st) zs"
  shows "\<exists>n st'. (case p of None \<Rightarrow> Inr (0, st) | Some r \<Rightarrow> pbuf_free (Some r) st) = Inr (n, st') \<and>
    pst_ok st' \<and> (\<forall>a. a \<notin> set zs \<longrightarrow> pbufs st' a = pbufs st a) \<and>
    allocated st' = allocated st - set (unshared (pbufs st) zs)"
proof (cases p)
  case None
  then have "zs = []" using assms(2) by (cases zs) auto
  then show ?thesis using None assms by (simp add: unshared_def)
next
  case (Some r)
  then show ?thesis using pbuf_free_chain [of st r zs] assms release_other by fastforce
qed

lemma tot_ok_Cons2: "tot_ok (b # c # bs) \<longleftrightarrow> unat (tot_len b) = unat (len b) + unat (tot_len c) \<and> tot_ok (c # bs)"
  by simp

lemma chain_data_shrunk:
  "(\<And>b. b \<in> set (bs @ c # cs) \<Longrightarrow> wf_buf b) \<Longrightarrow> length (shrunk_front (bs @ c # cs) n) = length bs \<Longrightarrow>
   unat n = unat r + sum_list (map (\<lambda>b. unat (len b)) bs) \<Longrightarrow> r \<le> len c \<Longrightarrow>
   nat (p_off c) + unat r \<le> length mem \<Longrightarrow> take (nat (p_off c) + unat r) mem = take (nat (p_off c) + unat r) (p_mem c) \<Longrightarrow>
   let new = shrunk_front (bs @ c # cs) n @ [c\<lparr>p_mem := mem, len := r, tot_len := r, p_next := None\<rparr>] in
   chain_data new = take (unat n) (chain_data (bs @ c # cs)) \<and> tot_ok new \<and> tot_len (hd new) = n \<and> (\<forall>b \<in> set new. wf_buf b)"
proof (induction bs arbitrary: n)
  case Nil
  have r: "n = r" using Nil.prems(3) by (simp add: word_unat_eq_iff)
  have "pdata (c\<lparr>p_mem := mem, len := r, tot_len := r, p_next := None\<rparr>) = take (unat r) (pdata c)"
    using Nil.prems(4) arg_cong [OF Nil.prems(6), of "drop (nat (p_off c))"]
    by (simp add: pdata_def payload_at_def min_def word_le_nat_alt drop_take)
  moreover have "unat r \<le> length (pdata c)" using Nil.prems(1,4) by (simp add: word_le_nat_alt)
  moreover have "wf_buf (c\<lparr>p_mem := mem, len := r, tot_len := r, p_next := None\<rparr>)"
    using Nil.prems(1) [of c] Nil.prems(5) by (simp add: wf_buf_def)
  ultimately show ?case using Nil.prems(2) r by (simp add: chain_data_def Let_def)
next
  case (Cons b bs)
  have gt: "n > len b" using Cons.prems(2) by (auto split: if_splits)
  then have sub: "unat (n - len b) = unat n - unat (len b)" by (simp add: unat_sub)
  have le: "unat (len b) \<le> unat n" using gt by (simp add: word_less_nat_alt)
  have wf: "wf_buf b" using Cons.prems(1) by simp
  then have wf': "wf_buf (b\<lparr>tot_len := n\<rparr>)" "pdata (b\<lparr>tot_len := n\<rparr>) = pdata b"
    by (simp_all add: wf_buf_def pdata_def payload_at_def)
  let ?new = "shrunk_front (bs @ c # cs) (n - len b) @ [c\<lparr>p_mem := mem, len := r, tot_len := r, p_next := None\<rparr>]"
  have IH: "chain_data ?new = take (unat (n - len b)) (chain_data (bs @ c # cs))" "tot_ok ?new"
    "tot_len (hd ?new) = n - len b" "\<forall>b \<in> set ?new. wf_buf b"
    using Cons.IH [of "n - len b"] Cons.prems gt sub by (simp_all add: Let_def)
  have "tot_ok (b\<lparr>tot_len := n\<rparr> # ?new)"
  proof (cases ?new)
    case (Cons d ds)
    have "unat n = unat (len b) + unat (n - len b)" using sub le by simp
    then show ?thesis using IH(2,3) unfolding Cons tot_ok_Cons2 list.sel by simp
  qed simp
  moreover have "chain_data (b\<lparr>tot_len := n\<rparr> # ?new) = take (unat n) (chain_data (b # bs @ c # cs))"
    using IH(1) wf wf' sub le by (simp add: chain_data_def)
  ultimately show ?case using gt IH(4) wf' by (simp add: Let_def)
qed

text \<open>
  The heap block of the last pbuf is cut to its new size. \<open>trim_limit\<close> excludes the block at the end of the heap, which
  \<open>mem_trim\<close> cannot cut.
\<close>

definition trim_limit :: "pstate \<Rightarrow> pptr \<Rightarrow> bool" where
  "trim_limit st a \<longleftrightarrow> (\<forall>n k. a = Heap n \<longrightarrow> live (p_heap st) n = Some k \<longrightarrow> n + k \<noteq> MEM_SIZE_ALIGNED)"

definition cut_block :: "pptr \<Rightarrow> nat \<Rightarrow> heap \<Rightarrow> heap \<Rightarrow> bool" where
  "cut_block a need h h' \<longleftrightarrow>
     (case a of
        Heap n \<Rightarrow> (\<exists>j. need \<le> j \<and> j < need + 24 \<and> live h' = (live h)(n \<mapsto> j))
      | _ \<Rightarrow> h' = h)"

lemma realloc_trim_ok:
  assumes ok: "pst_ok st" and c: "pbufs st z = Some c" and wf: "wf_buf c" and r: "r \<le> len c" and last: "trim_limit st z"
  shows "\<exists>mem h. realloc_trim z r c st = Inr (c\<lparr>p_mem := mem\<rparr>, st\<lparr>p_heap := h\<rparr>) \<and>
    nat (p_off c) + unat r \<le> length mem \<and> take (nat (p_off c) + unat r) mem = take (nat (p_off c) + unat r) (p_mem c) \<and>
    (\<forall>b. p_mem b = mem \<and> type_internal b = type_internal c \<longrightarrow>
       pst_ok (put_pbuf z b (st\<lparr>p_heap := h\<rparr>)) \<and> allocated (put_pbuf z b (st\<lparr>p_heap := h\<rparr>)) = allocated st) \<and>
    (r \<noteq> len c \<longrightarrow> cut_block z (SIZEOF_STRUCT_PBUF + nat (p_off c) + unat r) (p_heap st) h)"
proof -
  have own: "owned st z c" using ok c by (simp add: pst_ok_def)
  have room: "nat (p_off c) + unat r \<le> length (p_mem c)" using wf r by (simp add: wf_buf_def word_le_nat_alt)
  show ?thesis
  proof (cases "pbuf_get_allocsrc c = 0 \<and> r \<noteq> len c")
    case False
    have "realloc_trim z r c st = Inr (c\<lparr>p_mem := p_mem c\<rparr>, st\<lparr>p_heap := p_heap st\<rparr>)" using False by (auto simp: realloc_trim_def)
    moreover have "pst_ok (put_pbuf z b (st\<lparr>p_heap := p_heap st\<rparr>)) \<and> allocated (put_pbuf z b (st\<lparr>p_heap := p_heap st\<rparr>)) = allocated st"
      if "p_mem b = p_mem c \<and> type_internal b = type_internal c" for b
      using put_pbuf_ok [OF ok c, of b] that by simp
    moreover have "cut_block z n (p_heap st) (p_heap st)" if "r \<noteq> len c" for n
      using own False that by (cases z) (auto simp: owned_def cut_block_def)
    ultimately show ?thesis using room by blast
  next
    case True
    then obtain n where z: "z = Heap n" using own by (cases z) (auto simp: owned_def)
    then obtain k where k: "live (p_heap st) n = Some k" "24 + length (p_mem c) \<le> k" using own by (auto simp: owned_def)
    define need where "need = SIZEOF_STRUCT_PBUF + nat (p_off c) + unat r"
    have need: "need \<le> k" "max 12 need = need" using k(2) room by (simp_all add: need_def)
    have hp: "heap_ok (p_heap st)" using ok by (simp add: pst_ok_def)
    have "k \<le> MEM_SIZE_ALIGNED" using live_in_heap [OF hp k(1)] by simp
    then have fit: "max 12 need \<le> MEM_SIZE_ALIGNED" using need by simp
    have "n + k \<noteq> MEM_SIZE_ALIGNED" using last z k(1) by (simp add: trim_limit_def)
    then obtain h j where h: "mem_trim (int n) need (p_heap st) = Inr (Some (int n), h)" "heap_ok h" "need \<le> j" "j < need + 24"
      "live h = (live (p_heap st))(n \<mapsto> j)"
      using mem_trim_live [OF hp k(1) fit] need by auto
    let ?mem = "take (nat (p_off c) + unat r) (p_mem c)"
    have "realloc_trim z r c st = Inr (c\<lparr>p_mem := ?mem\<rparr>, st\<lparr>p_heap := h\<rparr>)"
      using True h(1) by (simp add: realloc_trim_def z need_def lwip_assert_def)
    moreover have "pst_ok (put_pbuf z b (st\<lparr>p_heap := h\<rparr>)) \<and> allocated (put_pbuf z b (st\<lparr>p_heap := h\<rparr>)) = allocated st"
      if b: "p_mem b = ?mem \<and> type_internal b = type_internal c" for b
    proof -
      have "24 + length (p_mem b) \<le> j" using b room h(3) by (simp add: need_def)
      then have new: "owned (put_pbuf z b (st\<lparr>p_heap := h\<rparr>)) z b"
        using b True by (simp add: owned_def z h(5) put_pbuf_def pbuf_get_allocsrc_def)
      have "owned (put_pbuf z b (st\<lparr>p_heap := h\<rparr>)) a d" if "owned st a d" "a \<noteq> z" for a d
        using that by (cases a) (auto simp: owned_def z h(5) put_pbuf_def)
      then have "pst_ok (put_pbuf z b (st\<lparr>p_heap := h\<rparr>))"
        using ok h(2) new unfolding pst_ok_def by (auto simp: put_pbuf_def)
      moreover have "allocated (put_pbuf z b (st\<lparr>p_heap := h\<rparr>)) = allocated st"
        using k(1) by (auto simp: allocated_def put_pbuf_def h(5))
      ultimately show ?thesis by blast
    qed
    moreover have "cut_block z need (p_heap st) h" using h(3-5) by (auto simp: cut_block_def z)
    ultimately show ?thesis using room unfolding need_def by (intro exI [of _ ?mem] exI [of _ h]) simp
  qed
qed

lemma realloc_shrinks:
  assumes ok: "pst_ok st" and chain: "pchain (pbufs st) (Some p) as" and tot: "tot_ok (chain_list st as)"
    and wf: "\<forall>b \<in> set (chain_list st as). wf_buf b"
    and refs: "refs_pos (pbufs st) as" and last: "\<forall>a \<in> set as. trim_limit st a"
    and pb: "pbufs st p = Some pb" and False: "\<not> new_len \<ge> tot_len pb"
  shows "\<exists>ys z zs c r mem st'. as = ys @ z # zs \<and> pbuf_realloc p new_len st = Inr st' \<and> pst_ok st' \<and>
    pchain (pbufs st') (Some p) (ys @ [z]) \<and> chain_list st' ys = shrunk_front (chain_list st as) new_len \<and>
    pbufs st z = Some c \<and> pbufs st' z = Some (c\<lparr>p_mem := mem, len := r, tot_len := r, p_next := None\<rparr>) \<and> r \<le> len c \<and>
    nat (p_off c) + unat r \<le> length mem \<and> take (nat (p_off c) + unat r) mem = take (nat (p_off c) + unat r) (p_mem c) \<and>
    (zs = [] \<and> r \<noteq> len c \<longrightarrow> cut_block z (SIZEOF_STRUCT_PBUF + nat (p_off c) + unat r) (p_heap st) (p_heap st')) \<and>
    unat new_len = unat r + sum_list (map (\<lambda>b. unat (len b)) (chain_list st ys)) \<and>
    (\<forall>a. a \<notin> set as \<longrightarrow> pbufs st' a = pbufs st a) \<and> allocated st' = allocated st - set (unshared (pbufs st) zs)"
proof -
  have less: "new_len < tot_len (the (pbufs st p))" using pb False by simp
  obtain ys z zs r st1 where L: "as = ys @ z # zs"
    "realloc_loop (tot_len pb - new_len) new_len p st = Some (Inr (z, r, st1))" "pst_ok st1"
    "allocated st1 = allocated st" and heap1: "p_heap st1 = p_heap st" and L': "pchain (pbufs st1) (Some p) as"
    "\<forall>a. a \<notin> set ys \<longrightarrow> pbufs st1 a = pbufs st a"
    "chain_list st1 ys = shrunk_front (chain_list st as) new_len" "r \<le> len (the (pbufs st z))"
    "unat new_len = unat r + sum_list (map (\<lambda>a. unat (len (the (pbufs st a)))) ys)"
    using realloc_loop_ok [OF ok chain tot less refl] unfolding pb option.sel by (elim exE conjE) (rule that)
  note L = L L'
  have d: "distinct as" by (rule pchain_distinct [OF chain])
  obtain c where c: "pbufs st z = Some c" using pchain_live [OF chain, of z] L(1) by auto
  have c1: "pbufs st1 z = Some c" using L(1,6) c d by auto
  have "wf_buf c" "r \<le> len c" using wf c L(1,8) by (auto simp: chain_list_def)
  moreover have "trim_limit st1 z" using last L(1) by (simp add: trim_limit_def heap1)
  ultimately obtain mem h where T: "realloc_trim z r c st1 = Inr (c\<lparr>p_mem := mem\<rparr>, st1\<lparr>p_heap := h\<rparr>)"
    "nat (p_off c) + unat r \<le> length mem" "take (nat (p_off c) + unat r) mem = take (nat (p_off c) + unat r) (p_mem c)"
    "\<forall>b. p_mem b = mem \<and> type_internal b = type_internal c \<longrightarrow>
       pst_ok (put_pbuf z b (st1\<lparr>p_heap := h\<rparr>)) \<and> allocated (put_pbuf z b (st1\<lparr>p_heap := h\<rparr>)) = allocated st1"
    "r \<noteq> len c \<longrightarrow> cut_block z (SIZEOF_STRUCT_PBUF + nat (p_off c) + unat r) (p_heap st1) h"
    using realloc_trim_ok [OF L(3) c1] by blast
  define c2 where "c2 = c\<lparr>p_mem := mem, len := r, tot_len := r\<rparr>"
  let ?st = "put_pbuf z c2 (st1\<lparr>p_heap := h\<rparr>)"
  have ok2: "pst_ok ?st" "allocated ?st = allocated st"
    using T(4) L(4) by (simp_all add: c2_def)
  have z: "z \<notin> set zs" "z \<notin> set ys" using d L(1) by auto
  have "pchain (pbufs st1) (p_next c) zs" using pchain_tail [OF L(5) [unfolded L(1)] c1] .
  then have tail: "pchain (pbufs ?st) (p_next c) zs" by (simp add: pchain_upd [OF z(1)] del: fun_upd_apply)
  have zsame: "pbufs ?st a = pbufs st a" if "a \<in> set zs" for a using that d L(1,6) by auto
  then have "refs_pos (pbufs ?st) zs" using refs L(1) by (auto simp: refs_pos_def)
  from free_tail_ok [OF ok2(1) tail this] obtain n st3
    where F: "(case p_next c of None \<Rightarrow> Inr (0, ?st) | Some r \<Rightarrow> pbuf_free (Some r) ?st) = Inr (n, st3)"
      "pst_ok st3" "\<forall>a. a \<notin> set zs \<longrightarrow> pbufs st3 a = pbufs ?st a"
      "allocated st3 = allocated ?st - set (unshared (pbufs ?st) zs)" by (elim exE conjE) (rule that)
  have c3: "pbufs st3 z = Some c2" using F(3) z(1) by simp
  let ?st' = "put_pbuf z (c2\<lparr>p_next := None\<rparr>) st3"
  have res: "pbuf_realloc p new_len st = Inr ?st'"
    using False pb L(2) c1 T(1) F(1) c3
    by (simp add: pbuf_realloc_def get_pbuf_def Let_def c2_def cong: option.case_cong)
  have un: "unshared (pbufs ?st) zs = unshared (pbufs st) (zs)"
    unfolding unshared_def by (rule takeWhile_cong) (use zsame in auto)
  have ok': "pst_ok ?st'" "allocated ?st' = allocated st - set (unshared (pbufs st) zs)"
    using put_pbuf_ok [OF F(2) c3, of "c2\<lparr>p_next := None\<rparr>"] F(4) ok2(2) un by simp_all
  have "pchain ((pbufs st1)(z \<mapsto> c2\<lparr>p_next := None\<rparr>)) (Some p) (ys @ [z])"
    using pchain_cut [OF L(5) [unfolded L(1)]] by (simp add: c2_def)
  then have ch: "pchain (pbufs ?st') (Some p) (ys @ [z])"
    by (rule pchain_cong [THEN iffD1, rotated]) (use F(3) d L(1) in auto)
  have cl: "chain_list ?st' ys = chain_list st1 ys" using F(3) z d L(1) by (auto simp: chain_list_def)
  have fr: "\<forall>a. a \<notin> set as \<longrightarrow> pbufs ?st' a = pbufs st a" using F(3) L(1,6) by auto
  have cut: "cut_block z (SIZEOF_STRUCT_PBUF + nat (p_off c) + unat r) (p_heap st) (p_heap ?st')" if "zs = []" "r \<noteq> len c"
  proof -
    have "p_next c = None" using tail that(1) by simp
    then have "st3 = ?st" using F(1) by simp
    then show ?thesis using T(5) that(2) heap1 by (simp add: put_pbuf_def)
  qed
  have z': "pbufs ?st' z = Some (c\<lparr>p_mem := mem, len := r, tot_len := r, p_next := None\<rparr>)" by (simp add: c2_def)
  show ?thesis
    by (intro exI conjI, rule L(1), rule res, rule ok'(1), rule ch, rule cl [THEN trans, OF L(7)], rule c, rule z')
      (use L(8,9) c fr ok'(2) T(2,3) cut in \<open>simp_all add: c2_def chain_list_def comp_def\<close>)
qed

text \<open>
  C33. \<open>pbuf_realloc\<close> on a chain of pbufs of any type, whose pbufs in the heap are not in the very last block of the heap, terminates
  without failing an assertion and leaves a prefix of the chain that holds exactly the first \<open>new_len\<close> bytes of the packet (the
  whole packet when it is not longer), with consistent length fields; the pbufs behind it lose their reference, the allocations of
  all others stay, and pbufs outside the chain are unchanged. When the last pbuf is cut, it lies in the heap and nothing is behind it, its
  block shrinks to the new size with less than 24 bytes to spare, no less, and no other block of the heap changes. (The very last block
  of a full heap is not cut: there \<open>mem_trim\<close> aborts on its own assertion.)\<close>

theorem pbuf_realloc_correct:
  assumes ok: "pst_ok st" and chain: "pchain (pbufs st) (Some p) as" and tot: "tot_ok (chain_list st as)"
    and wf: "\<forall>b \<in> set (chain_list st as). wf_buf b" and refs: "refs_pos (pbufs st) as"
    and last: "\<forall>a \<in> set as. trim_limit st a"
  shows "\<exists>st' as' rest. pbuf_realloc p new_len st = Inr st' \<and> pst_ok st' \<and> as = as' @ rest \<and>
    pchain (pbufs st') (Some p) as' \<and> tot_ok (chain_list st' as') \<and> (\<forall>b \<in> set (chain_list st' as'). wf_buf b) \<and>
    chain_data (chain_list st' as') = take (unat new_len) (chain_data (chain_list st as)) \<and>
    (\<forall>a. a \<notin> set as \<longrightarrow> pbufs st' a = pbufs st a) \<and>
    allocated st' = allocated st - set (unshared (pbufs st) rest) \<and>
    (\<forall>n b. unat new_len < length (chain_data (chain_list st as)) \<and> rest = [] \<and> last as' = Heap n \<and> pbufs st' (Heap n) = Some b \<longrightarrow>
      p_off b = p_off (the (pbufs st (Heap n))) \<and>
      (\<exists>j. SIZEOF_STRUCT_PBUF + nat (p_off b) + unat (len b) \<le> j \<and> j < SIZEOF_STRUCT_PBUF + nat (p_off b) + unat (len b) + 24 \<and>
        live (p_heap st') = (live (p_heap st))(n \<mapsto> j)))"
proof -
  obtain pb where pb: "pbufs st p = Some pb" using chain by (cases as) auto
  have hd: "as \<noteq> []" "hd (chain_list st as) = pb" using chain pb by (cases as; auto simp: chain_list_def)+
  have total: "length (chain_data (chain_list st as)) = unat (tot_len pb)"
    using tot_ok_length [OF tot] wf hd by (simp add: list_all_iff chain_list_def)
  show ?thesis
  proof (cases "new_len \<ge> tot_len pb")
    case True
    then have "unat (tot_len pb) \<le> unat new_len" by (simp add: word_le_nat_alt)
    then show ?thesis
      using True assms pb total
      by (intro exI [of _ st] exI [of _ as] exI [of _ "[]"]) (simp add: pbuf_realloc_def get_pbuf_def unshared_def)
  next
    case False
    obtain ys z zs c r mem st' where S: "as = ys @ z # zs" "pbuf_realloc p new_len st = Inr st'" "pst_ok st'"
      "pchain (pbufs st') (Some p) (ys @ [z])" "chain_list st' ys = shrunk_front (chain_list st as) new_len"
      "pbufs st z = Some c" "pbufs st' z = Some (c\<lparr>p_mem := mem, len := r, tot_len := r, p_next := None\<rparr>)" "r \<le> len c"
      "nat (p_off c) + unat r \<le> length mem" "take (nat (p_off c) + unat r) mem = take (nat (p_off c) + unat r) (p_mem c)"
      and cut: "zs = [] \<and> r \<noteq> len c \<longrightarrow> cut_block z (SIZEOF_STRUCT_PBUF + nat (p_off c) + unat r) (p_heap st) (p_heap st')"
      and n: "unat new_len = unat r + sum_list (map (\<lambda>b. unat (len b)) (chain_list st ys))"
      and fr: "\<forall>a. a \<notin> set as \<longrightarrow> pbufs st' a = pbufs st a" "allocated st' = allocated st - set (unshared (pbufs st) zs)"
      using realloc_shrinks [OF ok chain tot wf refs last pb False] by (elim exE conjE) (rule that)
    let ?c = "c\<lparr>p_mem := mem, len := r, tot_len := r, p_next := None\<rparr>"
    have cl: "chain_list st as = chain_list st ys @ c # chain_list st zs" using S(1,6) by (simp add: chain_list_def)
    have cl': "chain_list st' (ys @ [z]) = shrunk_front (chain_list st as) new_len @ [?c]"
      using S(5,7) by (simp add: chain_list_def)
    have "length (shrunk_front (chain_list st as) new_len) = length (chain_list st ys)"
      using arg_cong [OF S(5), of length] by (simp add: chain_list_def)
    then have good: "chain_data (chain_list st' (ys @ [z])) = take (unat new_len) (chain_data (chain_list st as))"
      "tot_ok (chain_list st' (ys @ [z]))" "\<forall>b \<in> set (chain_list st' (ys @ [z])). wf_buf b"
      using chain_data_shrunk [of "chain_list st ys" c "chain_list st zs" new_len r mem] wf S(8-10) n
      unfolding cl' cl Let_def by blast+
    have block: "p_off b = p_off (the (pbufs st (Heap k))) \<and> (\<exists>j. SIZEOF_STRUCT_PBUF + nat (p_off b) + unat (len b) \<le> j \<and> j < SIZEOF_STRUCT_PBUF + nat (p_off b) + unat (len b) + 24 \<and>
        live (p_heap st') = (live (p_heap st))(k \<mapsto> j))"
      if shorter: "unat new_len < length (chain_data (chain_list st as))" and b: "zs = []" "last (ys @ [z]) = Heap k" "pbufs st' (Heap k) = Some b" for k b
    proof -
      have "length (chain_data (chain_list st as)) = sum_list (map (\<lambda>b. unat (len b)) (chain_list st as))"
        by (rule length_chain_data) (use wf in blast)
      then have "r \<noteq> len c" using shorter n b(1) unfolding cl by (auto simp: chain_list_def)
      then show ?thesis using cut b S(6,7) by (auto simp: cut_block_def)
    qed
    have split: "as = (ys @ [z]) @ zs" using S(1) by simp
    show ?thesis
      by (rule exI [of _ st'], rule exI [of _ "ys @ [z]"], rule exI [of _ zs])
        (intro conjI allI impI S(2-4) split good fr; elim conjE; use block in blast)
  qed
qed

text \<open>A packet in the heap, in a block of 100 bytes.\<close>

definition heap_buf :: pbuf where
  "heap_buf = \<lparr>p_next = None, p_mem = replicate 76 0, p_off = 16, tot_len = 60, len = 60, type_internal = 0x280, flags = 0, ref = 1, if_idx = 0\<rparr>"

definition heap_state :: pstate where
  "heap_state = (chain_state 0)\<lparr>p_heap := heap100, pbufs := [Heap 12 \<mapsto> heap_buf]\<rparr>"

lemma heap_state_ok: "pst_ok heap_state"
  using pst_ok_chain_state [of 0] heap100
  by (simp add: pst_ok_def heap_state_def owned_def heap_buf_def pbuf_get_allocsrc_def)

theorem pbuf_realloc_correct_witness:
  "\<exists>st' j. pbuf_realloc (Heap 12) 20 heap_state = Inr st' \<and> pst_ok st' \<and> 60 \<le> j \<and> j < 84 \<and>
     live (p_heap st') = (live heap100)(12 \<mapsto> j)"
proof -
  have s: "pbufs heap_state (Heap 12) = Some heap_buf" "p_heap heap_state = heap100" by (simp_all add: heap_state_def)
  have cl: "chain_list heap_state [Heap 12] = [heap_buf]" by (simp add: chain_list_def s)
  have wf: "wf_buf heap_buf" "tot_ok [heap_buf]" "length (chain_data [heap_buf]) = 60" "p_next heap_buf = None"
    by (simp_all add: heap_buf_def wf_buf_def chain_data_def)
  have chain: "pchain (pbufs heap_state) (Some (Heap 12)) [Heap 12]" using s wf(4) by simp
  have refs: "refs_pos (pbufs heap_state) [Heap 12]" using s by (simp add: refs_pos_def heap_buf_def)
  have limit: "\<forall>a \<in> set [Heap 12]. trim_limit heap_state a" using heap100(2) s(2) by (simp add: trim_limit_def)
  note c = pbuf_realloc_correct [OF heap_state_ok chain _ _ refs limit, of 20, unfolded cl s]
  obtain st' as' rest where r: "pbuf_realloc (Heap 12) 20 heap_state = Inr st'" "pst_ok st'" "[Heap 12] = as' @ rest"
    "pchain (pbufs st') (Some (Heap 12)) as'" "chain_data (chain_list st' as') = take 20 (chain_data [heap_buf])"
    "\<forall>b \<in> set (chain_list st' as'). wf_buf b"
    and block: "\<forall>n b. 20 < length (chain_data [heap_buf]) \<and> rest = [] \<and> last as' = Heap n \<and> pbufs st' (Heap n) = Some b \<longrightarrow>
      p_off b = p_off (the (pbufs heap_state (Heap n))) \<and>
      (\<exists>j. SIZEOF_STRUCT_PBUF + nat (p_off b) + unat (len b) \<le> j \<and> j < SIZEOF_STRUCT_PBUF + nat (p_off b) + unat (len b) + 24 \<and>
        live (p_heap st') = (live heap100)(n \<mapsto> j))"
    using c wf(1,2) by auto
  have as': "as' = [Heap 12]" "rest = []" using r(3,4) by (cases as'; auto)+
  obtain b where b: "pbufs st' (Heap 12) = Some b" using r(4) by (auto simp: as')
  have "chain_list st' [Heap 12] = [b]" by (simp add: chain_list_def b)
  then have "length (chain_data [b]) = 20" "wf_buf b" using r(5,6) wf(3) by (simp_all add: as')
  then have "unat (len b) = 20" by (simp add: chain_data_def)
  moreover have "p_off b = 16 \<and> (\<exists>j. SIZEOF_STRUCT_PBUF + nat (p_off b) + unat (len b) \<le> j \<and>
      j < SIZEOF_STRUCT_PBUF + nat (p_off b) + unat (len b) + 24 \<and> live (p_heap st') = (live heap100)(12 \<mapsto> j))"
  proof -
    have "p_off (the (pbufs heap_state (Heap 12))) = 16" by (simp add: s heap_buf_def)
    moreover have "20 < length (chain_data [heap_buf]) \<and> rest = [] \<and> last as' = Heap 12 \<and> pbufs st' (Heap 12) = Some b"
      using wf(3) b by (simp add: as')
    note mp [OF spec [OF spec [OF block]] this]
    ultimately show ?thesis by (elim conjE) (intro conjI; simp only:)
  qed
  ultimately show ?thesis using r(1,2) by auto
qed

section \<open>Headers and concatenation\<close>

lemma unat_no_wrap_iff:
  assumes "n \<le> 0xFFFF"
  shows "(of_nat n + t < (of_nat n :: u16)) \<longleftrightarrow> 65536 \<le> n + unat t"
proof -
  have n: "unat (of_nat n :: u16) = n" using assms by (intro unat_of_nat_u16) simp
  have "unat (of_nat n + t) = (n + unat t) mod 65536" by (simp add: unat_plus_u16 n)
  moreover have "(n + unat t) mod 65536 < n \<longleftrightarrow> 65536 \<le> n + unat t"
  proof (cases "n + unat t < 65536")
    case False
    have "unat t < 65536" by simp
    then have "n + unat t - 65536 < 65536" using assms by linarith
    moreover have "(n + unat t) mod 65536 = (n + unat t - 65536) mod 65536"
      using False by (intro le_mod_geq) simp
    ultimately have "(n + unat t) mod 65536 = n + unat t - 65536" by simp
    then show ?thesis using False \<open>unat t < 65536\<close> by linarith
  qed simp
  ultimately show ?thesis by (simp only: word_less_nat_alt n)
qed

text \<open>
  On a pbuf whose payload follows the structure, \<open>pbuf_add_header\<close> succeeds exactly when the
  header fits in front of the payload and the total length stays below 64K; then the old payload
  is what follows the header and \<open>pbuf_remove_header\<close> takes the header away again. When it fails the
  pbuf is unchanged.
\<close>

theorem pbuf_header_roundtrip:
  assumes "wf_buf p" and "type_internal p AND PBUF_TYPE_FLAG_STRUCT_DATA_CONTIGUOUS \<noteq> 0" and "len p \<le> tot_len p"
  shows "case pbuf_add_header n p of (err, q) \<Rightarrow>
    (err = 0 \<longleftrightarrow> int n \<le> p_off p \<and> n + unat (tot_len p) < 65536) \<and>
    (err = 0 \<longrightarrow> wf_buf q \<and> drop n (pdata q) = pdata p \<and> pbuf_remove_header n q = (0, p)) \<and>
    (err \<noteq> 0 \<longrightarrow> q = p)"
proof -
  consider "n = 0" | "n > 0xFFFF \<or> 65536 \<le> n + unat (tot_len p) \<or> int n > p_off p" "n > 0"
    | "n \<le> 0xFFFF" "n + unat (tot_len p) < 65536" "int n \<le> p_off p" "n > 0" by linarith
  then show ?thesis
  proof cases
    case 1
    then show ?thesis using assms(1)
      by (simp add: pbuf_add_header_def pbuf_add_header_impl_def pbuf_remove_header_def wf_buf_def)
  next
    case 2
    then have "pbuf_add_header n p = (1, p)"
      using assms(2) unat_no_wrap_iff [of n "tot_len p"]
      by (auto simp: pbuf_add_header_def pbuf_add_header_impl_def Let_def)
    moreover have "\<not> (int n \<le> p_off p \<and> n + unat (tot_len p) < 65536)" using 2 by linarith
    ultimately show ?thesis by simp
  next
    case 3
    let ?n = "of_nat n :: u16"
    let ?q = "p\<lparr>p_off := p_off p - int n, len := len p + ?n, tot_len := tot_len p + ?n\<rparr>"
    have add: "pbuf_add_header n p = (0, ?q)"
      using 3 assms(2) unat_no_wrap_iff [OF 3(1), of "tot_len p"]
      by (simp add: pbuf_add_header_def pbuf_add_header_impl_def Let_def)
    have n: "unat ?n = n" using 3(1) by (intro unat_of_nat_u16) simp
    have "unat (len p) + n < 65536" using 3(2) assms(3) by (simp add: word_le_nat_alt)
    then have l: "unat (len p + ?n) = unat (len p) + n" by (simp add: unat_plus_u16 n)
    have wf: "wf_buf ?q" using assms(1) 3(3) l by (simp add: wf_buf_def)
    have "nat (p_off p - int n) + n = nat (p_off p)" using 3(3) by linarith
    then have "drop n (pdata ?q) = pdata p"
      using l by (simp add: pdata_def payload_at_def drop_take ac_simps)
    moreover have "pbuf_remove_header n ?q = (0, p)"
      using 3(1,4) n l by (simp add: pbuf_remove_header_def Let_def word_le_nat_alt)
    ultimately show ?thesis using add wf 3(2,3) by simp
  qed
qed

definition header_buf :: pbuf where
  "header_buf = \<lparr>p_next = None, p_mem = [1, 2, 3, 4, 5, 6], p_off = 4, tot_len = 2, len = 2,
     type_internal = 0x80, flags = 0, ref = 1, if_idx = 0\<rparr>"

theorem pbuf_header_roundtrip_witness:
  "drop 3 (pdata (snd (pbuf_add_header 3 header_buf))) = [5, 6]"
proof -
  have "fst (pbuf_add_header 3 header_buf) = 0"
    by (simp add: pbuf_add_header_def pbuf_add_header_impl_def header_buf_def Let_def
        PBUF_TYPE_FLAG_STRUCT_DATA_CONTIGUOUS_def)
  moreover have "pdata header_buf = [5, 6]" by (simp add: pdata_def payload_at_def header_buf_def)
  ultimately show ?thesis
    using pbuf_header_roundtrip [of header_buf 3]
    by (simp add: split_beta header_buf_def wf_buf_def PBUF_TYPE_FLAG_STRUCT_DATA_CONTIGUOUS_def)
qed

lemma cat_loop_ok:
  assumes "pst_ok st" and "pchain (pbufs st) (Some h) (xs @ [z])" and "t \<notin> set xs" and "pbufs st t = Some tb"
  shows "\<exists>st'. cat_loop h t st = Some (Inr (z, st')) \<and> pst_ok st' \<and> allocated st' = allocated st \<and>
    pbufs st' = (\<lambda>a. if a \<in> set xs then map_option (\<lambda>b. b\<lparr>tot_len := tot_len b + tot_len tb\<rparr>) (pbufs st a)
                     else pbufs st a)"
  using assms
proof (induction xs arbitrary: h st)
  case Nil
  then show ?case by (subst cat_loop.simps) (auto simp: fun_eq_iff)
next
  case (Cons x xs)
  then obtain b where b: "h = x" "pbufs st x = Some b" "pchain (pbufs st) (p_next b) (xs @ [z])" by auto
  have x: "x \<notin> set (xs @ [z])" using pchain_distinct [OF Cons.prems(2)] by simp
  obtain q where q: "p_next b = Some q" using b(3) by (cases xs) auto
  let ?st = "put_pbuf x (b\<lparr>tot_len := tot_len b + tot_len tb\<rparr>) st"
  have ok: "pst_ok ?st" "allocated ?st = allocated st"
    using put_pbuf_ok [OF Cons.prems(1) b(2), of "b\<lparr>tot_len := tot_len b + tot_len tb\<rparr>"] by simp_all
  have "pchain (pbufs ?st) (Some q) (xs @ [z])"
    using b(3) q by (simp add: pchain_upd [OF x] del: fun_upd_apply)
  moreover have "t \<notin> set xs" "pbufs ?st t = Some tb" using Cons.prems(3,4) by auto
  ultimately obtain st' where st': "cat_loop q t ?st = Some (Inr (z, st'))" "pst_ok st'" "allocated st' = allocated ?st"
    "pbufs st' = (\<lambda>a. if a \<in> set xs then map_option (\<lambda>b. b\<lparr>tot_len := tot_len b + tot_len tb\<rparr>) (pbufs ?st a)
                     else pbufs ?st a)"
    using Cons.IH [OF ok(1)] by blast
  have "cat_loop h t st = cat_loop q t ?st"
    using b q Cons.prems(4) by (subst cat_loop.simps) simp
  moreover have "pbufs st' = (\<lambda>a. if a \<in> set (x # xs) then map_option (\<lambda>b. b\<lparr>tot_len := tot_len b + tot_len tb\<rparr>) (pbufs st a)
      else pbufs st a)" using st'(4) b(2) x by (auto simp: fun_eq_iff)
  ultimately show ?case using st' ok(2) by simp
qed

lemma pchain_join:
  assumes "pchain s p (xs @ [z])" and "pchain s (Some t) bs" and "s z = Some b" and "z \<notin> set bs"
  shows "pchain (s(z \<mapsto> b\<lparr>tot_len := n, p_next := Some t\<rparr>)) p (xs @ z # bs)"
  using assms
proof (induction xs arbitrary: p)
  case Nil
  then show ?case using pchain_upd [of z bs s] by (simp del: fun_upd_apply) simp
next
  case (Cons x xs)
  have "x \<noteq> z" using pchain_distinct [OF Cons.prems(1)] by auto
  then show ?case using Cons by auto
qed

lemma pchain_next_cong:
  "(\<And>a. a \<in> set as \<Longrightarrow> map_option p_next (s a) = map_option p_next (s' a)) \<Longrightarrow> pchain s p as \<Longrightarrow> pchain s' p as"
proof (induction as arbitrary: p)
  case (Cons a as)
  then obtain b where b: "p = Some a" "s a = Some b" "pchain s (p_next b) as" by auto
  moreover have "map_option p_next (s' a) = Some (p_next b)" using Cons.prems(1) [of a] b(2) by simp
  ultimately show ?case using Cons.IH [of "p_next b"] Cons.prems(1) by auto
qed simp

lemma tot_ok_last: "tot_ok (bs @ [c]) \<Longrightarrow> tot_len c = len c"
  by (induction bs) (auto simp: word_unat_eq_iff)

text \<open>Adding \<open>n\<close> bytes behind a chain, as seen in its length fields.\<close>

lemma tot_ok_extend:
  assumes "tot_ok (bs @ [c])" and "tot_ok cs" and "cs \<noteq> [] \<Longrightarrow> tot_len (hd cs) = n" and "cs = [] \<Longrightarrow> n = 0"
    and "unat (tot_len (hd (bs @ [c]))) + unat n < 65536"
  shows "tot_ok (map (\<lambda>b. b\<lparr>tot_len := tot_len b + n\<rparr>) bs @ c\<lparr>tot_len := tot_len c + n, p_next := t\<rparr> # cs)"
  using assms(1,5)
proof (induction bs)
  case Nil
  then have "unat (tot_len c + n) = unat (len c) + unat n" by (simp add: unat_plus_u16)
  then show ?case using assms(2-4) by (cases cs) auto
next
  case (Cons b bs)
  define d where "d = hd (bs @ [c])"
  have d: "\<exists>ds. bs @ [c] = d # ds" by (cases bs) (auto simp: d_def)
  have tot: "unat (tot_len b) = unat (len b) + unat (tot_len d)" "tot_ok (bs @ [c])"
    using Cons.prems(1) d by auto
  have "unat (tot_len d) + unat n < 65536" using tot(1) Cons.prems(2) by simp
  then have IH: "tot_ok (map (\<lambda>b. b\<lparr>tot_len := tot_len b + n\<rparr>) bs @ c\<lparr>tot_len := tot_len c + n, p_next := t\<rparr> # cs)"
    using Cons.IH tot(2) by (simp add: d_def)
  have u: "unat (tot_len b + n) = unat (tot_len b) + unat n" "unat (tot_len d + n) = unat (tot_len d) + unat n"
    using Cons.prems(2) tot(1) by (simp_all add: unat_plus_u16)
  show ?case using IH u tot(1) by (cases bs) (auto simp: d_def)
qed

text \<open>
  \<open>pbuf_cat\<close> of two packets with no pbuf in common terminates without failing an assertion; the
  result is one packet with the bytes of the first followed by those of the second, whose length
  fields are consistent as long as the total stays below 64K; reference counts do not change.
\<close>

theorem pbuf_cat_correct:
  assumes ok: "pst_ok st" and h: "pchain (pbufs st) (Some h) as" and t: "pchain (pbufs st) (Some t) bs"
    and disj: "set as \<inter> set bs = {}" and tot: "tot_ok (chain_list st as)" "tot_ok (chain_list st bs)"
    and small: "unat (tot_len (hd (chain_list st as))) + unat (tot_len (hd (chain_list st bs))) < 65536"
  shows "\<exists>st'. pbuf_cat (Some h) (Some t) st = Inr st' \<and> pst_ok st' \<and> allocated st' = allocated st \<and>
    pchain (pbufs st') (Some h) (as @ bs) \<and> tot_ok (chain_list st' (as @ bs)) \<and>
    chain_data (chain_list st' (as @ bs)) = chain_data (chain_list st as) @ chain_data (chain_list st bs) \<and>
    map_option ref \<circ> pbufs st' = map_option ref \<circ> pbufs st"
proof -
  obtain xs z where as: "as = xs @ [z]" using h by (cases as rule: rev_cases) auto
  obtain bs' where bs: "bs = t # bs'" using t by (cases bs) simp_all
  obtain tb where t': "pbufs st t = Some tb" using t unfolding bs pchain.simps by blast
  note tb = t' bs
  let ?n = "tot_len tb" and ?f = "\<lambda>b. b\<lparr>tot_len := tot_len b + tot_len tb\<rparr>"
  have dist: "distinct as" by (rule pchain_distinct [OF h])
  obtain c where c: "pbufs st z = Some c" using pchain_live [OF h] as by auto
  obtain st1 where st1: "cat_loop h t st = Some (Inr (z, st1))" "pst_ok st1" "allocated st1 = allocated st"
    "pbufs st1 = (\<lambda>a. if a \<in> set xs then map_option ?f (pbufs st a) else pbufs st a)"
    using cat_loop_ok [OF ok h [unfolded as], of t tb] tb disj as by auto
  have zc: "pbufs st1 z = Some c" "pbufs st1 t = Some tb" using st1(4) c tb dist as disj by auto
  have cl: "chain_list st as = chain_list st xs @ [c]" using as c by (simp add: chain_list_def)
  have last_tot: "tot_len c = len c" using tot(1) unfolding cl by (rule tot_ok_last)
  define c' where "c' = c\<lparr>tot_len := tot_len c + ?n, p_next := Some t\<rparr>"
  let ?st = "put_pbuf z c' st1"
  have cat: "pbuf_cat (Some h) (Some t) st = Inr ?st"
    using st1(1) zc last_tot by (simp add: pbuf_cat_def get_pbuf_def c'_def)
  have ok': "pst_ok ?st" "allocated ?st = allocated st"
    using put_pbuf_ok [OF st1(2) zc(1), of c'] st1(3) by (simp_all add: c'_def)
  have nx: "map_option p_next (pbufs st a) = map_option p_next (pbufs st1 a)" for a
    unfolding st1(4) by (cases "pbufs st a") simp_all
  have "pchain (pbufs st1) (Some h) (xs @ [z])" "pchain (pbufs st1) (Some t) bs"
    by (rule pchain_next_cong [OF nx], use h as in simp, rule pchain_next_cong [OF nx t])
  then have chain: "pchain (pbufs ?st) (Some h) (as @ bs)"
    using pchain_join [of "pbufs st1" "Some h" xs z t bs c] zc(1) disj as by (auto simp: c'_def)
  have l1: "chain_list ?st xs = map ?f (chain_list st xs)"
    using pchain_live [OF h] st1(4) dist as by (fastforce simp: chain_list_def)
  have l2: "chain_list ?st bs = chain_list st bs"
    using st1(4) disj as by (auto simp: chain_list_def)
  have list: "chain_list ?st (as @ bs) = map ?f (chain_list st xs) @ c' # chain_list st bs"
    using l1 l2 as by (simp add: chain_list_def)
  have "tot_ok (chain_list ?st (as @ bs))"
    unfolding list unfolding c'_def by (rule tot_ok_extend) (use tot small tb as c in \<open>auto simp: chain_list_def\<close>)
  moreover have "chain_data (chain_list ?st (as @ bs)) = chain_data (chain_list st as) @ chain_data (chain_list st bs)"
  proof -
    have "pdata (b\<lparr>tot_len := n\<rparr>) = pdata b" "pdata (b\<lparr>p_next := q\<rparr>) = pdata b" for b n q
      by (simp_all add: pdata_def payload_at_def)
    then show ?thesis unfolding list cl by (simp add: chain_data_def c'_def comp_def)
  qed
  moreover have "map_option ref \<circ> pbufs ?st = map_option ref \<circ> pbufs st"
    using st1(4) c by (auto simp: fun_eq_iff c'_def option.map_comp comp_def)
  ultimately show ?thesis using cat ok' chain by blast
qed

theorem pbuf_cat_correct_witness:
  "\<exists>st'. pbuf_cat (Some (Pool 0)) (Some (Pool 1518)) (put_pbuf (Pool 0) ((chain_buf 2 0)\<lparr>p_next := None\<rparr>) (chain_state 2)) =
     Inr st' \<and> pchain (pbufs st') (Some (Pool 0)) [Pool 0, Pool 1518]"
proof -
  let ?st = "put_pbuf (Pool 0) ((chain_buf 2 0)\<lparr>p_next := None\<rparr>) (chain_state 2)"
  have "pst_ok ?st"
    using put_pbuf_ok(1) [OF pst_ok_chain_state, of 2 "Pool 0" "chain_buf 2 0"] pbufs_chain_state [of 0 2] by simp
  then show ?thesis
    using pbuf_cat_correct [of ?st "Pool 0" "[Pool 0]" "Pool 1518" "[Pool 1518]"] pbufs_chain_state [of 1 2]
    by (auto simp: chain_list_def chain_buf_def)
qed

end
