(* ===== verification/Timeouts.thy ===== *)
theory Timeouts
  imports Memp "HOL-Library.Multiset"
begin

text \<open>
  lwIP's software timers, \<open>LWIP/src/core/timeouts.c\<close>, and \<open>deleteLwipTimers\<close> of \<open>src/EkaTcp.cpp\<close>, which
  empties the timer list when the library is closed. The state is the list \<open>next_timeout\<close> of the
  pending timers, the pool \<open>MEMP_SYS_TIMEOUT\<close> they are allocated in, the variables of the file and the
  clock that \<open>sys_now\<close> reads (a 32-bit count of milliseconds that wraps after 49.7 days). What
  the handlers do is a parameter (\<open>hooks\<close>): the cyclic handlers belong to the protocols, the other
  ones to whoever calls \<open>sys_timeout\<close>; \<open>world\<close> is the state they work on.
\<close>

section \<open>Timers\<close>

definition LWIP_MAX_TIMEOUT :: u32 where "LWIP_MAX_TIMEOUT = 0x7fffffff"
definition LWIP_UINT32_MAX :: u32 where "LWIP_UINT32_MAX = 0xffffffff"
definition SYS_TIMEOUTS_SLEEPTIME_INFINITE :: u32 where "SYS_TIMEOUTS_SLEEPTIME_INFINITE = 0xFFFFFFFF"
definition TCP_TMR_INTERVAL :: u32 where "TCP_TMR_INTERVAL = 50"

definition TIME_LESS_THAN :: "u32 \<Rightarrow> u32 \<Rightarrow> bool" where
  "TIME_LESS_THAN t compare_to \<longleftrightarrow> t - compare_to > LWIP_MAX_TIMEOUT"

text \<open>The handlers of the cyclic timers that are compiled in, with their intervals.\<close>

datatype cyclic_handler = Tcp_tmr | Ip_reass_tmr | Etharp_tmr | Igmp_tmr | Dns_tmr

definition lwip_cyclic_timers :: "(u32 \<times> cyclic_handler) list" where
  "lwip_cyclic_timers =
     [(TCP_TMR_INTERVAL, Tcp_tmr), (1000, Ip_reass_tmr), (1000, Etharp_tmr), (100, Igmp_tmr), (1000, Dns_tmr)]"

text \<open>
  The functions a timer can call: the two of this file, or another one. The argument is NULL, a
  pointer into \<open>lwip_cyclic_timers\<close>, or another pointer.
\<close>

datatype sys_timeout_handler = Tcpip_tcp_timer | Lwip_cyclic_timer | Handler nat

datatype timeout_arg = Arg_null | Arg_cyclic nat | Arg_other nat

record sys_timeo =
  to_addr :: nat
  to_time :: u32
  to_h :: "sys_timeout_handler option"
  to_arg :: timeout_arg

record 'w tstate =
  next_timeout :: "sys_timeo list"
  timeout_pool :: memp_pool
  current_timeout_due_time :: u32
  tcpip_tcp_timer_active :: bool
  tcp_active_pcbs :: bool
  tcp_tw_pcbs :: bool
  clock :: u32
  world :: 'w

record 'w hooks =
  h_cyclic :: "cyclic_handler \<Rightarrow> 'w tstate \<Rightarrow> 'w tstate outcome"
  h_other :: "nat \<Rightarrow> timeout_arg \<Rightarrow> 'w tstate \<Rightarrow> 'w tstate outcome"

definition sys_now :: "'w tstate \<Rightarrow> u32" where
  "sys_now st = clock st"

section \<open>Starting and stopping timers\<close>

text \<open>The loop of \<open>sys_timeout_abs\<close>.\<close>

fun insert_loop :: "sys_timeo \<Rightarrow> sys_timeo list \<Rightarrow> sys_timeo list" where
  "insert_loop timeout [] = []"
| "insert_loop timeout (t # ts) =
     (if ts = [] \<or> TIME_LESS_THAN (to_time timeout) (to_time (hd ts)) then t # timeout # ts
      else t # insert_loop timeout ts)"

definition insert_timeout :: "sys_timeo \<Rightarrow> sys_timeo list \<Rightarrow> sys_timeo list" where
  "insert_timeout timeout ts =
     (if ts = [] then [timeout]
      else if TIME_LESS_THAN (to_time timeout) (to_time (hd ts)) then timeout # ts
      else insert_loop timeout ts)"

definition sys_timeout_abs ::
  "u32 \<Rightarrow> sys_timeout_handler option \<Rightarrow> timeout_arg \<Rightarrow> 'w tstate \<Rightarrow> 'w tstate outcome" where
  "sys_timeout_abs abs_time handler arg st =
     (case memp_malloc_pool (timeout_pool st) of
        (None, d) \<Rightarrow> Inl (Assertion ''sys_timeout: timeout != NULL, pool MEMP_SYS_TIMEOUT is empty'')
      | (Some a, d) \<Rightarrow>
          let timeout = \<lparr>to_addr = a, to_time = abs_time, to_h = handler, to_arg = arg\<rparr> in
          Inr (st\<lparr>timeout_pool := d, next_timeout := insert_timeout timeout (next_timeout st)\<rparr>))"

definition sys_timeout ::
  "u32 \<Rightarrow> sys_timeout_handler option \<Rightarrow> timeout_arg \<Rightarrow> 'w tstate \<Rightarrow> 'w tstate outcome" where
  "sys_timeout msecs handler arg st =
     lwip_assert ''Timeout time too long, max is LWIP_UINT32_MAX/4 msecs'' (msecs \<le> LWIP_UINT32_MAX div 4)
       (sys_timeout_abs (sys_now st + msecs) handler arg st)"

text \<open>The loop of \<open>sys_untimeout\<close>; the result is the timer found, if any, and the list without it.\<close>

fun untimeout_loop ::
  "sys_timeout_handler option \<Rightarrow> timeout_arg \<Rightarrow> sys_timeo list \<Rightarrow> sys_timeo option \<times> sys_timeo list" where
  "untimeout_loop handler arg [] = (None, [])"
| "untimeout_loop handler arg (t # ts) =
     (if to_h t = handler \<and> to_arg t = arg then (Some t, ts)
      else let (found, ts) = untimeout_loop handler arg ts in (found, t # ts))"

definition sys_untimeout ::
  "sys_timeout_handler option \<Rightarrow> timeout_arg \<Rightarrow> 'w tstate \<Rightarrow> 'w tstate" where
  "sys_untimeout handler arg st =
     (case untimeout_loop handler arg (next_timeout st) of
        (None, _) \<Rightarrow> st
      | (Some t, ts) \<Rightarrow>
          st\<lparr>next_timeout := ts, timeout_pool := memp_free_pool (Some (to_addr t)) (timeout_pool st)\<rparr>)"

section \<open>Cyclic timers\<close>

definition lwip_cyclic_timer :: "'w hooks \<Rightarrow> timeout_arg \<Rightarrow> 'w tstate \<Rightarrow> 'w tstate outcome" where
  "lwip_cyclic_timer hooks arg st =
     (case arg of
        Arg_cyclic i \<Rightarrow>
          if i < length lwip_cyclic_timers then
            let (interval_ms, handler) = lwip_cyclic_timers ! i in
            obind (h_cyclic hooks handler st) (\<lambda>st.
              let now = sys_now st;
                  next_timeout_time = current_timeout_due_time st + interval_ms in
              if TIME_LESS_THAN next_timeout_time now
              then sys_timeout_abs (now + interval_ms) (Some Lwip_cyclic_timer) arg st
              else sys_timeout_abs next_timeout_time (Some Lwip_cyclic_timer) arg st)
          else Inl InvalidAccess
      | _ \<Rightarrow> Inl InvalidAccess)"

definition tcpip_tcp_timer :: "'w hooks \<Rightarrow> timeout_arg \<Rightarrow> 'w tstate \<Rightarrow> 'w tstate outcome" where
  "tcpip_tcp_timer hooks arg st =
     obind (h_cyclic hooks Tcp_tmr st) (\<lambda>st.
       if tcp_active_pcbs st \<or> tcp_tw_pcbs st
       then sys_timeout TCP_TMR_INTERVAL (Some Tcpip_tcp_timer) Arg_null st
       else Inr (st\<lparr>tcpip_tcp_timer_active := False\<rparr>))"

definition tcp_timer_needed :: "'w tstate \<Rightarrow> 'w tstate outcome" where
  "tcp_timer_needed st =
     (if \<not> tcpip_tcp_timer_active st \<and> (tcp_active_pcbs st \<or> tcp_tw_pcbs st)
      then sys_timeout TCP_TMR_INTERVAL (Some Tcpip_tcp_timer) Arg_null (st\<lparr>tcpip_tcp_timer_active := True\<rparr>)
      else Inr st)"

fun init_loop :: "nat list \<Rightarrow> 'w tstate \<Rightarrow> 'w tstate outcome" where
  "init_loop [] st = Inr st"
| "init_loop (i # is) st =
     obind (sys_timeout (fst (lwip_cyclic_timers ! i)) (Some Lwip_cyclic_timer) (Arg_cyclic i) st) (init_loop is)"

definition sys_timeouts_init :: "'w tstate \<Rightarrow> 'w tstate outcome" where
  "sys_timeouts_init st = init_loop [1..<length lwip_cyclic_timers] st"

section \<open>Running timers\<close>

definition call_handler :: "'w hooks \<Rightarrow> sys_timeout_handler \<Rightarrow> timeout_arg \<Rightarrow> 'w tstate \<Rightarrow> 'w tstate outcome" where
  "call_handler hooks handler arg st =
     (case handler of
        Tcpip_tcp_timer \<Rightarrow> tcpip_tcp_timer hooks arg st
      | Lwip_cyclic_timer \<Rightarrow> lwip_cyclic_timer hooks arg st
      | Handler n \<Rightarrow> h_other hooks n arg st)"

text \<open>Taking the first timer off the list, with what the loop of \<open>sys_check_timeouts\<close> notes of it.\<close>

definition pop_timeout :: "'w tstate \<Rightarrow> 'w tstate" where
  "pop_timeout st =
     (let tmptimeout = hd (next_timeout st) in
      st\<lparr>next_timeout := List.tl (next_timeout st), current_timeout_due_time := to_time tmptimeout,
         timeout_pool := memp_free_pool (Some (to_addr tmptimeout)) (timeout_pool st)\<rparr>)"

partial_function (option) check_loop :: "'w hooks \<Rightarrow> u32 \<Rightarrow> 'w tstate \<Rightarrow> ('w tstate outcome) option" where
  "check_loop hooks now st =
     (case next_timeout st of
        [] \<Rightarrow> Some (Inr st)
      | tmptimeout # _ \<Rightarrow>
          if TIME_LESS_THAN now (to_time tmptimeout) then Some (Inr st)
          else
            (case to_h tmptimeout of
               None \<Rightarrow> check_loop hooks now (pop_timeout st)
             | Some handler \<Rightarrow>
                 (case call_handler hooks handler (to_arg tmptimeout) (pop_timeout st) of
                    Inl e \<Rightarrow> Some (Inl e)
                  | Inr st \<Rightarrow> check_loop hooks now st)))"

definition sys_check_timeouts :: "'w hooks \<Rightarrow> 'w tstate \<Rightarrow> 'w tstate outcome" where
  "sys_check_timeouts hooks st = obind (of_loop (check_loop hooks (sys_now st) st)) (\<lambda>r. r)"

definition sys_restart_timeouts :: "'w tstate \<Rightarrow> 'w tstate" where
  "sys_restart_timeouts st =
     (case next_timeout st of
        [] \<Rightarrow> st
      | t # _ \<Rightarrow>
          let now = sys_now st; base = to_time t in
          st\<lparr>next_timeout := map (\<lambda>t. t\<lparr>to_time := to_time t - base + now\<rparr>) (next_timeout st)\<rparr>)"

definition sys_timeouts_sleeptime :: "'w tstate \<Rightarrow> u32 outcome" where
  "sys_timeouts_sleeptime st =
     (case next_timeout st of
        [] \<Rightarrow> Inr SYS_TIMEOUTS_SLEEPTIME_INFINITE
      | t # _ \<Rightarrow>
          let now = sys_now st in
          if TIME_LESS_THAN (to_time t) now then Inr 0
          else let ret = to_time t - now in
            lwip_assert ''invalid sleeptime'' (ret \<le> LWIP_MAX_TIMEOUT) (Inr ret))"

section \<open>Closing the library\<close>

fun delete_loop :: "sys_timeo list \<Rightarrow> memp_pool \<Rightarrow> memp_pool" where
  "delete_loop [] d = d"
| "delete_loop (t # ts) d = delete_loop ts (memp_free_pool (Some (to_addr t)) d)"

definition deleteLwipTimers :: "'w tstate \<Rightarrow> 'w tstate" where
  "deleteLwipTimers st =
     st\<lparr>timeout_pool := delete_loop (next_timeout st) (timeout_pool st), next_timeout := []\<rparr>"

section \<open>Ordered queues\<close>

text \<open>
  What the timer list promises to its clients: a queue that is ordered by due time and that adds an
  entry behind all entries that are due at the same time or earlier. Due times are compared only
  within a window, because the clock wraps.
\<close>

locale timer_queue =
  fixes due :: "'t \<Rightarrow> nat"
    and window :: "'t \<Rightarrow> bool"
    and add :: "'t \<Rightarrow> 't list \<Rightarrow> 't list"
  assumes add_law: "sorted (map due ts) \<Longrightarrow> window t \<Longrightarrow> list_all window ts \<Longrightarrow>
    add t ts = takeWhile (\<lambda>x. due x \<le> due t) ts @ t # dropWhile (\<lambda>x. due x \<le> due t) ts"
begin

lemma add_mset:
  assumes "sorted (map due ts)" and "window t" and "list_all window ts"
  shows "mset (add t ts) = add_mset t (mset ts)"
  by (simp add: add_law [OF assms] flip: union_code) (metis mset_append takeWhile_dropWhile_id)

lemma takeWhile_filter:
  "sorted (map due ts) \<Longrightarrow> takeWhile (\<lambda>x. due x \<le> n) ts = filter (\<lambda>x. due x \<le> n) ts \<and>
   dropWhile (\<lambda>x. due x \<le> n) ts = filter (\<lambda>x. \<not> due x \<le> n) ts"
proof (induction ts)
  case (Cons t ts)
  then show ?case
  proof (cases "due t \<le> n")
    case False
    then have "\<forall>x \<in> set (t # ts). \<not> due x \<le> n" using Cons.prems by auto
    then show ?thesis using False by (auto simp: filter_empty_conv intro!: filter_True [symmetric])
  qed (use Cons in auto)
qed simp

lemma add_sorted:
  assumes "sorted (map due ts)" and "window t" and "list_all window ts"
  shows "sorted (map due (add t ts))" and "list_all window (add t ts)"
proof -
  have "set (add t ts) = insert t (set ts)"
    using arg_cong [OF add_mset [OF assms], of set_mset] by simp
  then show "list_all window (add t ts)" using assms by (auto simp: list_all_iff)
  have "sorted (map due (filter (\<lambda>x. due x \<le> due t) ts) @ due t # map due (filter (\<lambda>x. \<not> due x \<le> due t) ts))"
    using assms(1) by (auto simp: sorted_append intro: sorted_filter)
  then show "sorted (map due (add t ts))"
    using takeWhile_filter [OF assms(1), of "due t"] by (simp add: add_law [OF assms])
qed

lemma add_equal:
  assumes "sorted (map due ts)" and "window t" and "list_all window ts"
  shows "filter (\<lambda>x. k = due x) (add t ts) = filter (\<lambda>x. k = due x) (ts @ [t])"
proof -
  have split: "filter P ts = filter P (takeWhile (\<lambda>x. due x \<le> due t) ts) @ filter P (dropWhile (\<lambda>x. due x \<le> due t) ts)" for P
    by (simp flip: filter_append)
  have "k = due t \<Longrightarrow> filter (\<lambda>x. k = due x) (dropWhile (\<lambda>x. due x \<le> due t) ts) = []"
    using takeWhile_filter [OF assms(1), of "due t"] by (auto simp: filter_empty_conv)
  then show ?thesis by (auto simp: add_law [OF assms] split [of "\<lambda>x. k = due x"])
qed

text \<open>Adding entries one after the other sorts them, keeping the order of those due at the same time.\<close>

lemma fold_add_sort:
  assumes "list_all window ts"
  shows "fold add ts [] = sort_key due ts"
proof -
  have "sorted (map due (fold add ts [])) \<and> list_all window (fold add ts []) \<and> mset (fold add ts []) = mset ts \<and>
      (\<forall>k. filter (\<lambda>x. k = due x) (fold add ts []) = filter (\<lambda>x. k = due x) ts)"
    using assms
  proof (induction ts rule: rev_induct)
    case (snoc t ts)
    then have IH: "sorted (map due (fold add ts []))" "list_all window (fold add ts [])"
      "mset (fold add ts []) = mset ts" "\<forall>k. filter (\<lambda>x. k = due x) (fold add ts []) = filter (\<lambda>x. k = due x) ts"
      and t: "window t" by auto
    show ?case
      using add_sorted [OF IH(1) t IH(2)] add_mset [OF IH(1) t IH(2)] add_equal [OF IH(1) t IH(2)] IH(3,4) by simp
  qed simp
  then show ?thesis by (intro properties_for_sort_key [symmetric]) auto
qed

end

section \<open>The timer list is an ordered queue\<close>

text \<open>Times relative to \<open>b\<close>; within \<open>2 ^ 31\<close> milliseconds of it the macro compares them correctly.\<close>

definition due :: "u32 \<Rightarrow> sys_timeo \<Rightarrow> nat" where
  "due b t = unat (to_time t - b)"

definition in_window :: "u32 \<Rightarrow> sys_timeo \<Rightarrow> bool" where
  "in_window b t \<longleftrightarrow> due b t < 2147483648"

lemma time_less_iff:
  assumes "unat (x - b) < 2147483648" and "unat (y - b) < 2147483648"
  shows "TIME_LESS_THAN x y \<longleftrightarrow> unat (x - b) < unat (y - b)"
proof -
  have "x - y = (x - b) - (y - b)" by simp
  then have "unat (x - y) = (if unat (y - b) \<le> unat (x - b) then unat (x - b) - unat (y - b)
      else unat (x - b) + 4294967296 - unat (y - b))"
    using unat_sub_if_size [of "x - b" "y - b"] by (simp add: word_size)
  then show ?thesis using assms by (auto simp: TIME_LESS_THAN_def LWIP_MAX_TIMEOUT_def word_less_nat_alt)
qed

lemma insert_loop_law:
  assumes "ts \<noteq> []" and "due b (hd ts) \<le> due b t" and "in_window b t" and "list_all (in_window b) ts"
  shows "insert_loop t ts = takeWhile (\<lambda>x. due b x \<le> due b t) ts @ t # dropWhile (\<lambda>x. due b x \<le> due b t) ts"
  using assms
proof (induction ts)
  case (Cons s ts)
  show ?case
  proof (cases ts)
    case (Cons r rs)
    have "TIME_LESS_THAN (to_time t) (to_time r) \<longleftrightarrow> due b t < due b r"
      unfolding due_def using Cons.prems Cons by (intro time_less_iff) (auto simp: in_window_def due_def)
    then show ?thesis using Cons.prems Cons.IH Cons by auto
  qed (use Cons.prems in simp)
qed simp

interpretation tq: timer_queue "due b" "in_window b" insert_timeout for b
proof
  fix ts t
  assume srt: "sorted (map (due b) ts)" and w: "in_window b t" "list_all (in_window b) ts"
  show "insert_timeout t ts = takeWhile (\<lambda>x. due b x \<le> due b t) ts @ t # dropWhile (\<lambda>x. due b x \<le> due b t) ts"
  proof (cases ts)
    case (Cons s rs)
    have "TIME_LESS_THAN (to_time t) (to_time s) \<longleftrightarrow> due b t < due b s"
      unfolding due_def using w Cons by (intro time_less_iff) (auto simp: in_window_def due_def)
    then show ?thesis
      using Cons w insert_loop_law [of ts b t] by (auto simp: insert_timeout_def)
  qed (simp add: insert_timeout_def)
qed

section \<open>Invariant\<close>

text \<open>
  The pending timers are ordered relative to \<open>b\<close> and lie in the window, they are different elements
  of the pool, and nothing else of it is in use.
\<close>

definition tm_ok :: "u32 \<Rightarrow> 'w tstate \<Rightarrow> bool" where
  "tm_ok b st \<longleftrightarrow> pool_ok (timeout_pool st) \<and> distinct (map to_addr (next_timeout st)) \<and>
     dom (pool_live (timeout_pool st)) = to_addr ` set (next_timeout st) \<and>
     sorted (map (due b) (next_timeout st)) \<and> list_all (in_window b) (next_timeout st)"

lemma malloc_tab: "tab d = Some a \<Longrightarrow> \<exists>d'. memp_malloc_pool d = (Some a, d')"
  by (simp add: memp_malloc_pool_def do_memp_malloc_pool_def MEMP_SIZE_def)

lemma tab_free [simp]: "tab (memp_free_pool (Some a) d) = Some a"
  by (simp add: memp_free_pool_def do_memp_free_pool_def MEMP_SIZE_def)

lemma sys_timeout_abs_ok:
  assumes ok: "tm_ok b st" and free: "tab (timeout_pool st) \<noteq> None" and w: "unat (abs_time - b) < 2147483648"
  shows "\<exists>a d. sys_timeout_abs abs_time h arg st =
      Inr (st\<lparr>timeout_pool := d,
        next_timeout := insert_timeout \<lparr>to_addr = a, to_time = abs_time, to_h = h, to_arg = arg\<rparr> (next_timeout st)\<rparr>) \<and>
    tm_ok b (st\<lparr>timeout_pool := d,
        next_timeout := insert_timeout \<lparr>to_addr = a, to_time = abs_time, to_h = h, to_arg = arg\<rparr> (next_timeout st)\<rparr>)"
proof -
  have pok: "pool_ok (timeout_pool st)" using ok by (simp add: tm_ok_def)
  obtain a d where m: "memp_malloc_pool (timeout_pool st) = (Some a, d)" using free malloc_tab by blast
  obtain k where d: "pool_ok d" "pool_live (timeout_pool st) a = None" "pool_live d = (pool_live (timeout_pool st))(a \<mapsto> k)"
    by (rule pool_mallocE [OF pok]) (use m in auto)
  let ?t = "\<lparr>to_addr = a, to_time = abs_time, to_h = h, to_arg = arg\<rparr>"
  have q: "sorted (map (due b) (next_timeout st))" "in_window b ?t" "list_all (in_window b) (next_timeout st)"
    using ok w by (simp_all add: tm_ok_def in_window_def due_def)
  have ms: "mset (insert_timeout ?t (next_timeout st)) = add_mset ?t (mset (next_timeout st))"
    by (rule tq.add_mset [OF q])
  have set: "set (insert_timeout ?t (next_timeout st)) = insert ?t (set (next_timeout st))"
    using arg_cong [OF ms, of set_mset] by simp
  have new: "a \<notin> to_addr ` set (next_timeout st)" using ok d(2) by (auto simp: tm_ok_def)
  have "mset (map to_addr (insert_timeout ?t (next_timeout st))) = mset (a # map to_addr (next_timeout st))"
    using arg_cong [OF ms, of "image_mset to_addr"] by simp
  then have "distinct (map to_addr (insert_timeout ?t (next_timeout st)))"
    using new ok by (metis (no_types, lifting) distinct.simps(2) list.set_map mset_eq_imp_distinct_iff tm_ok_def)
  moreover have "dom (pool_live d) = to_addr ` set (insert_timeout ?t (next_timeout st))"
    using ok by (simp add: d(3) set tm_ok_def)
  ultimately have "tm_ok b (st\<lparr>timeout_pool := d, next_timeout := insert_timeout ?t (next_timeout st)\<rparr>)"
    using d(1) tq.add_sorted [OF q] by (simp add: tm_ok_def)
  then show ?thesis using m by (auto simp: sys_timeout_abs_def)
qed

lemma free_timeout_ok:
  assumes ok: "tm_ok b st" and ts: "next_timeout st = xs @ t # ys"
  shows "tm_ok b (st\<lparr>next_timeout := xs @ ys, timeout_pool := memp_free_pool (Some (to_addr t)) (timeout_pool st)\<rparr>)"
proof -
  have "pool_live (timeout_pool st) (to_addr t) \<noteq> None"
    using ok ts by (auto simp: tm_ok_def)
  then have f: "pool_ok (memp_free_pool (Some (to_addr t)) (timeout_pool st))"
    "pool_live (memp_free_pool (Some (to_addr t)) (timeout_pool st)) = (pool_live (timeout_pool st))(to_addr t := None)"
    using pool_free_live [of "timeout_pool st" "to_addr t"] ok by (auto simp: tm_ok_def)
  have "to_addr t \<notin> to_addr ` set (xs @ ys)" using ok ts by (auto simp: tm_ok_def)
  moreover have "dom (pool_live (timeout_pool st)) = insert (to_addr t) (to_addr ` set (xs @ ys))"
    using ok ts by (auto simp: tm_ok_def)
  ultimately have "dom (pool_live (memp_free_pool (Some (to_addr t)) (timeout_pool st))) = to_addr ` set (xs @ ys)"
    unfolding f(2) by auto
  then show ?thesis using ok f(1) unfolding tm_ok_def by (simp add: ts sorted_append)
qed

lemma pop_timeout_ok:
  assumes "tm_ok b st" and "next_timeout st = t # ts"
  shows "tm_ok b (pop_timeout st)" and "tab (timeout_pool (pop_timeout st)) \<noteq> None"
    and "next_timeout (pop_timeout st) = ts" and "clock (pop_timeout st) = clock st"
    and "current_timeout_due_time (pop_timeout st) = to_time t" and "world (pop_timeout st) = world st"
  using free_timeout_ok [OF assms(1), of "[]"] assms(2) by (simp_all add: pop_timeout_def tm_ok_def)

lemma not_expired_iff:
  assumes "list_all (in_window b) (t # ts)" and "unat (now - b) < 2147483648"
  shows "TIME_LESS_THAN now (to_time t) \<longleftrightarrow> unat (now - b) < due b t"
  unfolding due_def using assms by (intro time_less_iff) (auto simp: in_window_def due_def)

section \<open>Properties of the timers\<close>

lemma tab_None_full:
  assumes "pool_ok d" and "card (dom (pool_live d)) < pool_num d"
  shows "tab d \<noteq> None"
proof
  assume none: "tab d = None"
  obtain as where as: "pool_rel d as" using assms(1) by (auto simp: pool_ok_def)
  then have "as = []" using none by (cases as) (auto simp: pool_rel_def)
  then have "dom (pool_live d) = elements d" by (auto simp: pool_live_eq [OF as] split: if_splits)
  moreover have "inj_on (\<lambda>i. i * pool_size d) {..<pool_num d}"
    using as by (auto simp: inj_on_def pool_rel_def sizeof_memp_def)
  then have "card (elements d) = pool_num d" by (simp add: elements_def card_image)
  ultimately show False using assms(2) by simp
qed

lemma pool_num_malloc [simp]: "memp_malloc_pool d = (r, d') \<Longrightarrow> pool_num d' = pool_num d"
  by (auto simp: memp_malloc_pool_def do_memp_malloc_pool_def split: option.splits)

text \<open>A client that starts timers one after the other.\<close>

fun start_all :: "(u32 \<times> sys_timeout_handler option \<times> timeout_arg) list \<Rightarrow> 'w tstate \<Rightarrow> 'w tstate outcome" where
  "start_all [] st = Inr st"
| "start_all ((msecs, h, arg) # rs) st = obind (sys_timeout msecs h arg st) (start_all rs)"

lemma max_delay: "LWIP_UINT32_MAX div 4 = 0x3fffffff"
  by (simp add: LWIP_UINT32_MAX_def)

lemma sys_timeout_ok:
  assumes ok: "tm_ok (clock st) st" and room: "length (next_timeout st) < pool_num (timeout_pool st)"
    and m: "msecs \<le> 0x3fffffff"
  shows "\<exists>a d. pool_num d = pool_num (timeout_pool st) \<and> (let st' = st\<lparr>timeout_pool := d,
      next_timeout := insert_timeout \<lparr>to_addr = a, to_time = clock st + msecs, to_h = h, to_arg = arg\<rparr> (next_timeout st)\<rparr>
    in sys_timeout msecs h arg st = Inr st' \<and> tm_ok (clock st) st')"
proof -
  have "card (dom (pool_live (timeout_pool st))) = length (next_timeout st)"
    using ok by (auto simp: tm_ok_def distinct_card simp flip: set_map)
  then have free: "tab (timeout_pool st) \<noteq> None"
    using ok room by (intro tab_None_full) (simp_all add: tm_ok_def)
  have "unat (clock st + msecs - clock st) < 2147483648" using m by (simp add: word_le_nat_alt)
  from sys_timeout_abs_ok [OF ok free this, of h arg] obtain a d where
    *: "let st' = st\<lparr>timeout_pool := d, next_timeout := insert_timeout
        \<lparr>to_addr = a, to_time = clock st + msecs, to_h = h, to_arg = arg\<rparr> (next_timeout st)\<rparr>
     in sys_timeout_abs (clock st + msecs) h arg st = Inr st' \<and> tm_ok (clock st) st'"
    unfolding Let_def by blast
  then have "pool_num d = pool_num (timeout_pool st)"
    by (auto simp: Let_def sys_timeout_abs_def split: prod.splits option.splits)
      (metis pool_num_malloc tstate.select_convs(2) tstate.surjective tstate.update_convs(1,2))
  then show ?thesis using * m by (auto simp: sys_timeout_def sys_now_def max_delay Let_def)
qed

lemma start_all_fold:
  assumes "tm_ok (clock st) st" and "length (next_timeout st) + length rs \<le> pool_num (timeout_pool st)"
    and "\<forall>(msecs, _) \<in> set rs. msecs \<le> 0x3fffffff"
  shows "\<exists>st' ts. start_all rs st = Inr st' \<and> tm_ok (clock st) st' \<and>
    map (\<lambda>t. (to_time t - clock st, to_h t, to_arg t)) ts = rs \<and> list_all (in_window (clock st)) ts \<and>
    next_timeout st' = fold insert_timeout ts (next_timeout st)"
  using assms
proof (induction rs arbitrary: st)
  case Nil
  then show ?case by simp
next
  case (Cons r rs)
  obtain msecs h arg where r: "r = (msecs, h, arg)" by (cases r)
  obtain a d where d: "pool_num d = pool_num (timeout_pool st)" and
    *: "let st' = st\<lparr>timeout_pool := d, next_timeout := insert_timeout
        \<lparr>to_addr = a, to_time = clock st + msecs, to_h = h, to_arg = arg\<rparr> (next_timeout st)\<rparr>
      in sys_timeout msecs h arg st = Inr st' \<and> tm_ok (clock st) st'"
    using sys_timeout_ok [OF Cons.prems(1), of msecs h arg] Cons.prems(2,3) r by auto
  define t where "t = \<lparr>to_addr = a, to_time = clock st + msecs, to_h = h, to_arg = arg\<rparr>"
  define st1 where "st1 = st\<lparr>timeout_pool := d, next_timeout := insert_timeout t (next_timeout st)\<rparr>"
  have st1: "sys_timeout msecs h arg st = Inr st1" "tm_ok (clock st) st1"
    using * by (simp_all add: Let_def t_def st1_def)
  have w: "in_window (clock st) t"
    using Cons.prems(3) r by (simp add: t_def in_window_def due_def word_le_nat_alt)
  have "mset (insert_timeout t (next_timeout st)) = add_mset t (mset (next_timeout st))"
    using Cons.prems(1) w tq.add_mset [of "clock st" "next_timeout st" t] by (simp add: tm_ok_def)
  then have "length (insert_timeout t (next_timeout st)) = Suc (length (next_timeout st))"
    by (metis size_add_mset size_mset)
  then obtain st' ts where IH: "start_all rs st1 = Inr st'" "tm_ok (clock st) st'"
    "map (\<lambda>t. (to_time t - clock st, to_h t, to_arg t)) ts = rs" "list_all (in_window (clock st)) ts"
    "next_timeout st' = fold insert_timeout ts (insert_timeout t (next_timeout st))"
    using Cons.IH [of st1] st1(2) Cons.prems(2,3) d by (auto simp: st1_def)
  then show ?case
    using st1(1) w r by (intro exI [of _ st'] exI [of _ "t # ts"]) (simp add: t_def)
qed

text \<open>
  C14. Timers started one after the other on an idle timer module are queued in the order of their
  due times; timers that are due at the same millisecond stay in the order in which they were
  started. This holds for every value of the clock, also when it wraps, for delays up to \<open>2 ^ 30 - 1\<close>.
\<close>

theorem timers_are_sorted:
  assumes "tm_ok (clock st) st" and "next_timeout st = []" and "length rs \<le> pool_num (timeout_pool st)"
    and "\<forall>(msecs, _) \<in> set rs. msecs \<le> 0x3fffffff"
  shows "\<exists>st' ts. start_all rs st = Inr st' \<and> tm_ok (clock st) st' \<and>
    map (\<lambda>t. (to_time t - clock st, to_h t, to_arg t)) ts = rs \<and>
    next_timeout st' = sort_key (due (clock st)) ts"
proof -
  obtain st' ts where "start_all rs st = Inr st'" "tm_ok (clock st) st'"
    "map (\<lambda>t. (to_time t - clock st, to_h t, to_arg t)) ts = rs" "list_all (in_window (clock st)) ts"
    "next_timeout st' = fold insert_timeout ts []"
    using start_all_fold [OF assms(1) _ assms(4)] assms(2,3) by auto
  then show ?thesis using tq.fold_add_sort [of "clock st" ts] by auto
qed

definition idle_state :: "u32 \<Rightarrow> unit tstate" where
  "idle_state now = \<lparr>next_timeout = [],
     timeout_pool = memp_init_pool \<lparr>pool_size = 32, pool_num = 5, tab = None, memp_next = \<lambda>_. None\<rparr>,
     current_timeout_due_time = 0, tcpip_tcp_timer_active = False, tcp_active_pcbs = False,
     tcp_tw_pcbs = False, clock = now, world = ()\<rparr>"

lemma idle_state_ok: "tm_ok b (idle_state now)" "pool_num (timeout_pool (idle_state now)) = 5"
proof -
  let ?d = "\<lparr>pool_size = 32, pool_num = 5, tab = None, memp_next = \<lambda>_. None\<rparr> :: memp_pool"
  obtain bs where bs: "pool_rel (memp_init_pool ?d) bs" "set bs = elements (memp_init_pool ?d)"
    using memp_init_pool_rel [of ?d] by (auto simp: sizeof_memp_def)
  have "dom (pool_live (memp_init_pool ?d)) = {}"
    by (auto simp: pool_live_eq [OF bs(1)] bs(2) split: if_splits)
  then show "tm_ok b (idle_state now)"
    using bs(1) by (auto simp: tm_ok_def idle_state_def pool_ok_def)
  show "pool_num (timeout_pool (idle_state now)) = 5"
    by (simp add: idle_state_def memp_init_pool_def numeral_eq_Suc)
qed

theorem timers_are_sorted_witness:
  "\<exists>st' ts. start_all [(300, None, Arg_null), (200, None, Arg_other 1), (200, None, Arg_other 2)] (idle_state 0xffffff00) = Inr st' \<and>
     map to_arg ts = [Arg_null, Arg_other 1, Arg_other 2] \<and> next_timeout st' = sort_key (due 0xffffff00) ts"
proof -
  let ?st = "idle_state 0xffffff00"
  let ?rs = "[(300, None, Arg_null), (200, None, Arg_other 1), (200, None, Arg_other 2)] :: (u32 \<times> sys_timeout_handler option \<times> timeout_arg) list"
  have st: "clock ?st = 0xffffff00" "next_timeout ?st = []" by (simp_all add: idle_state_def)
  have pre: "length ?rs \<le> pool_num (timeout_pool ?st)" by (simp add: idle_state_ok(2))
  have m: "\<forall>(msecs, _) \<in> set ?rs. msecs \<le> 0x3fffffff" by simp
  obtain st' ts where s: "start_all ?rs ?st = Inr st'"
    "map (\<lambda>t. (to_time t - clock ?st, to_h t, to_arg t)) ts = ?rs" "next_timeout st' = sort_key (due (clock ?st)) ts"
    using timers_are_sorted [OF idle_state_ok(1) st(2) pre m] by (elim exE conjE) (rule that)
  have "map to_arg ts = map (\<lambda>(_, _, a). a) ?rs" unfolding s(2) [symmetric] by simp
  then have "map to_arg ts = [Arg_null, Arg_other 1, Arg_other 2]" by simp
  then show ?thesis using s(1,3) unfolding st(1) by (intro exI [of _ st'] exI [of _ ts] conjI)
qed

subsection \<open>Cyclic timers\<close>

definition is_cyclic :: "sys_timeo \<Rightarrow> bool" where
  "is_cyclic t \<longleftrightarrow> to_h t = Some Lwip_cyclic_timer \<and> (\<exists>i < length lwip_cyclic_timers. to_arg t = Arg_cyclic i)"

text \<open>
  The cyclic handlers return, do not touch the timers, and take less than \<open>2 ^ 29\<close> milliseconds
  (six days) from \<open>now\<close> on.
\<close>

definition quick_hooks :: "'w hooks \<Rightarrow> u32 \<Rightarrow> bool" where
  "quick_hooks hooks now \<longleftrightarrow> (\<forall>h st. unat (clock st - now) < 536870912 \<longrightarrow>
     (\<exists>w c. h_cyclic hooks h st = Inr (st\<lparr>world := w, clock := c\<rparr>) \<and> unat (c - now) < 536870912))"

lemma interval_bounds:
  "i < length lwip_cyclic_timers \<Longrightarrow> 0 < unat (fst (lwip_cyclic_timers ! i)) \<and> unat (fst (lwip_cyclic_timers ! i)) \<le> 1000"
proof -
  assume "i < length lwip_cyclic_timers"
  moreover have "\<forall>x \<in> set lwip_cyclic_timers. 0 < unat (fst x) \<and> unat (fst x) \<le> 1000"
    by (simp add: lwip_cyclic_timers_def TCP_TMR_INTERVAL_def)
  ultimately show ?thesis using nth_mem by blast
qed

lemma tm_ok_cong:
  "next_timeout st' = next_timeout st \<Longrightarrow> timeout_pool st' = timeout_pool st \<Longrightarrow> tm_ok b st' = tm_ok b st"
  by (simp add: tm_ok_def)

text \<open>A cyclic timer that is due at \<open>now\<close> or earlier starts itself again, later than it was due.\<close>

lemma cyclic_again:
  assumes ok: "tm_ok b st" and ts: "next_timeout st = t # ts" and cyc: "is_cyclic t"
    and b: "unat (now - b) = 1073741824" and exp: "due b t \<le> 1073741824"
    and hk: "quick_hooks hooks now" "unat (clock st - now) < 536870912"
  shows "\<exists>st' t'. call_handler hooks Lwip_cyclic_timer (to_arg t) (pop_timeout st) = Inr st' \<and> tm_ok b st' \<and>
    unat (clock st' - now) < 536870912 \<and> mset (next_timeout st') = add_mset t' (mset ts) \<and>
    is_cyclic t' \<and> to_arg t' = to_arg t \<and> due b t < due b t'"
proof -
  let ?st = "pop_timeout st"
  note pop = pop_timeout_ok [OF ok ts]
  obtain i where i: "i < length lwip_cyclic_timers" "to_arg t = Arg_cyclic i" using cyc by (auto simp: is_cyclic_def)
  obtain ms h where tm: "lwip_cyclic_timers ! i = (ms, h)" by (cases "lwip_cyclic_timers ! i")
  have ms: "0 < unat ms" "unat ms \<le> 1000" using interval_bounds [OF i(1)] tm by simp_all
  obtain w c where run: "h_cyclic hooks h ?st = Inr (?st\<lparr>world := w, clock := c\<rparr>)" "unat (c - now) < 536870912"
    using hk(1) [unfolded quick_hooks_def, rule_format, of ?st h] hk(2) pop(4) by auto
  let ?su = "?st\<lparr>world := w, clock := c\<rparr>"
  define tt where "tt = (if TIME_LESS_THAN (to_time t + ms) c then c + ms else to_time t + ms)"
  have call: "call_handler hooks Lwip_cyclic_timer (to_arg t) ?st =
      sys_timeout_abs tt (Some Lwip_cyclic_timer) (to_arg t) ?su"
    using i tm run(1) pop(5) by (simp add: call_handler_def lwip_cyclic_timer_def Let_def sys_now_def tt_def)
  have d1: "unat (to_time t + ms - b) = due b t + unat ms"
  proof -
    have "to_time t + ms - b = (to_time t - b) + ms" by simp
    then show ?thesis using exp ms(2) unfolding due_def by (simp only: unat_plus_u32) simp
  qed
  have d2: "unat (c - b) = unat (c - now) + 1073741824"
  proof -
    have "c - b = (c - now) + (now - b)" by simp
    then show ?thesis using b run(2) by (simp only: unat_plus_u32) simp
  qed
  have d3: "unat (c + ms - b) = unat (c - b) + unat ms"
  proof -
    have "c + ms - b = (c - b) + ms" by simp
    then show ?thesis using d2 run(2) ms(2) by (simp only: unat_plus_u32) simp
  qed
  have due: "due b t < unat (tt - b)" "unat (tt - b) < 2147483648"
    using d1 d2 d3 exp run(2) ms by (auto simp: tt_def)
  have "tm_ok b ?su" using pop(1) tm_ok_cong [of ?su ?st] by simp
  moreover have "tab (timeout_pool ?su) \<noteq> None" using pop(2) by simp
  ultimately obtain a d where st': "call_handler hooks Lwip_cyclic_timer (to_arg t) ?st =
      Inr (?su\<lparr>timeout_pool := d, next_timeout := insert_timeout
        \<lparr>to_addr = a, to_time = tt, to_h = Some Lwip_cyclic_timer, to_arg = to_arg t\<rparr> (next_timeout ?su)\<rparr>)"
    "tm_ok b (?su\<lparr>timeout_pool := d, next_timeout := insert_timeout
        \<lparr>to_addr = a, to_time = tt, to_h = Some Lwip_cyclic_timer, to_arg = to_arg t\<rparr> (next_timeout ?su)\<rparr>)"
    using sys_timeout_abs_ok [of b ?su tt "Some Lwip_cyclic_timer" "to_arg t"] due(2) call by auto
  let ?t = "\<lparr>to_addr = a, to_time = tt, to_h = Some Lwip_cyclic_timer, to_arg = to_arg t\<rparr>"
  have "mset (insert_timeout ?t ts) = add_mset ?t (mset ts)"
    using tq.add_mset [of b ts ?t] ok ts due(2) by (simp add: tm_ok_def in_window_def due_def)
  moreover have "due b t < due b ?t" using due(1) by (simp add: due_def)
  moreover have "is_cyclic ?t" using i by (auto simp: is_cyclic_def)
  ultimately show ?thesis using st' run(2) pop(3) by (intro exI [of _ ?t] exI) auto
qed

text \<open>How far the timers are behind; every round of the loop reduces it.\<close>

definition behind :: "u32 \<Rightarrow> sys_timeo list \<Rightarrow> nat" where
  "behind b ts = (\<Sum>t \<in># mset ts. 1073741825 - due b t)"

lemma check_loop_cyclic:
  assumes "tm_ok b st" and "list_all is_cyclic (next_timeout st)" and "unat (now - b) = 1073741824"
    and "quick_hooks hooks now" and "unat (clock st - now) < 536870912"
  shows "\<exists>st'. check_loop hooks now st = Some (Inr st') \<and> tm_ok b st' \<and> list_all is_cyclic (next_timeout st') \<and>
    (\<forall>t \<in> set (next_timeout st'). TIME_LESS_THAN now (to_time t)) \<and>
    mset (map to_arg (next_timeout st')) = mset (map to_arg (next_timeout st))"
  using assms
proof (induction "behind b (next_timeout st)" arbitrary: st rule: less_induct)
  case less
  note ok = less.prems(1)
  show ?case
  proof (cases "next_timeout st")
    case Nil
    then show ?thesis using less.prems by (subst check_loop.simps) simp
  next
    case (Cons t ts)
    have win: "list_all (in_window b) (next_timeout st)" using ok by (simp add: tm_ok_def)
    have less_iff: "TIME_LESS_THAN now (to_time x) \<longleftrightarrow> 1073741824 < due b x" if "x \<in> set (next_timeout st)" for x
      using not_expired_iff [of b x "[]" now] that win less.prems(3) by (simp add: list_all_iff)
    show ?thesis
    proof (cases "TIME_LESS_THAN now (to_time t)")
      case True
      then have "1073741824 < due b t" using less_iff [of t] Cons by simp
      then have "\<forall>x \<in> set (next_timeout st). TIME_LESS_THAN now (to_time x)"
        using ok Cons less_iff by (auto simp: tm_ok_def)
      then show ?thesis using True Cons less.prems by (subst check_loop.simps) simp
    next
      case False
      have exp: "due b t \<le> 1073741824" using False less_iff [of t] Cons by simp
      have cyc: "is_cyclic t" using less.prems(2) Cons by simp
      obtain st1 t' where st1: "call_handler hooks Lwip_cyclic_timer (to_arg t) (pop_timeout st) = Inr st1"
        "tm_ok b st1" "unat (clock st1 - now) < 536870912" "mset (next_timeout st1) = add_mset t' (mset ts)"
        "is_cyclic t'" "to_arg t' = to_arg t" "due b t < due b t'"
        using cyclic_again [OF ok Cons cyc less.prems(3) exp less.prems(4,5)] by (elim exE conjE) (rule that)
      have "set (next_timeout st1) = insert t' (set ts)" using arg_cong [OF st1(4), of set_mset] by simp
      then have cyc1: "list_all is_cyclic (next_timeout st1)" using st1(5) less.prems(2) Cons by (auto simp: list_all_iff)
      have "behind b (next_timeout st1) < behind b (next_timeout st)"
        using st1(4,7) exp Cons by (simp add: behind_def)
      from less.hyps [OF this st1(2) cyc1 less.prems(3,4) st1(3)]
      obtain st' where st': "check_loop hooks now st1 = Some (Inr st')" "tm_ok b st'" "list_all is_cyclic (next_timeout st')"
        "\<forall>t \<in> set (next_timeout st'). TIME_LESS_THAN now (to_time t)"
        "mset (map to_arg (next_timeout st')) = mset (map to_arg (next_timeout st1))" by blast
      have "check_loop hooks now st = check_loop hooks now st1"
        using Cons False cyc st1(1) by (subst check_loop.simps) (simp add: is_cyclic_def)
      moreover have "mset (map to_arg (next_timeout st1)) = mset (map to_arg (next_timeout st))"
        using arg_cong [OF st1(4), of "image_mset to_arg"] st1(6) Cons by simp
      ultimately show ?thesis using st' by simp
    qed
  qed
qed

text \<open>
  C29. When only cyclic timers of the stack are pending (in particular not the timer of TCP), each overdue by less than \<open>2 ^ 30\<close>
  milliseconds, and their handlers return, start and cancel no timers and are done within \<open>2 ^ 29\<close> milliseconds from
  the call on, \<open>sys_check_timeouts\<close> returns: it runs timers, also repeatedly, until none is due any more at the
  time at which it was called, without exhausting the timer pool, and each cyclic timer is pending again.
\<close>

theorem sys_check_timeouts_catches_up:
  assumes "tm_ok (sys_now st - 0x40000000) st" and "list_all is_cyclic (next_timeout st)"
    and "quick_hooks hooks (sys_now st)"
  shows "\<exists>st'. sys_check_timeouts hooks st = Inr st' \<and> tm_ok (sys_now st - 0x40000000) st' \<and>
    (\<forall>t \<in> set (next_timeout st'). TIME_LESS_THAN (sys_now st) (to_time t)) \<and>
    mset (map to_arg (next_timeout st')) = mset (map to_arg (next_timeout st))"
  using check_loop_cyclic [OF assms(1,2) _ assms(3)] by (auto simp: sys_check_timeouts_def sys_now_def)

definition demo_hooks :: "unit hooks" where
  "demo_hooks = \<lparr>h_cyclic = (\<lambda>_ st. Inr st), h_other = (\<lambda>_ _ st. Inr st)\<rparr>"

lemma quick_demo_hooks: "quick_hooks demo_hooks now"
  unfolding quick_hooks_def
proof (intro allI impI)
  fix h and st :: "unit tstate"
  assume c: "unat (clock st - now) < 536870912"
  show "\<exists>w c. h_cyclic demo_hooks h st = Inr (st\<lparr>world := w, clock := c\<rparr>) \<and> unat (c - now) < 536870912"
    using c by (intro exI [of _ "world st"] exI [of _ "clock st"]) (simp add: demo_hooks_def)
qed

text \<open>The state after \<open>sys_timeouts_init\<close>, five seconds later.\<close>

definition late_state :: "unit tstate" where
  "late_state = (case sys_timeouts_init (idle_state 0) of Inr st \<Rightarrow> st\<lparr>clock := 5000\<rparr> | Inl _ \<Rightarrow> idle_state 0)"

text \<open>The order does not depend on the base.\<close>

lemma tm_ok_rebase:
  assumes ok: "tm_ok b st" and small: "\<forall>t \<in> set (next_timeout st). due b t + unat (b - b') < 2147483648"
  shows "tm_ok b' st"
proof -
  have due: "due b' t = due b t + unat (b - b')" if "t \<in> set (next_timeout st)" for t
  proof -
    have "to_time t - b' = (to_time t - b) + (b - b')" by simp
    then have "due b' t = (due b t + unat (b - b')) mod 4294967296"
      unfolding due_def by (simp only: unat_plus_u32)
    then show ?thesis using small that by force
  qed
  have "sorted (map (due b') (next_timeout st))"
    unfolding sorted_map
    by (rule sorted_wrt_mono_rel [of _ "\<lambda>x y. due b x \<le> due b y"]) (use ok due in \<open>auto simp: tm_ok_def sorted_map\<close>)
  moreover have "list_all (in_window b') (next_timeout st)"
    using due small by (simp add: list_all_iff in_window_def)
  ultimately show ?thesis using ok by (simp add: tm_ok_def)
qed

definition init_requests :: "(u32 \<times> sys_timeout_handler option \<times> timeout_arg) list" where
  "init_requests = map (\<lambda>i. (fst (lwip_cyclic_timers ! i), Some Lwip_cyclic_timer, Arg_cyclic i)) [1, 2, 3, 4]"

lemma init_is_start_all: "sys_timeouts_init st = start_all init_requests st"
proof -
  have "init_loop is st = start_all (map (\<lambda>i. (fst (lwip_cyclic_timers ! i), Some Lwip_cyclic_timer, Arg_cyclic i)) is) st" for "is"
  proof (induction "is" arbitrary: st)
    case (Cons i "is")
    show ?case
      by (cases "sys_timeout (fst (lwip_cyclic_timers ! i)) (Some Lwip_cyclic_timer) (Arg_cyclic i) st")
        (simp_all add: Cons.IH)
  qed simp
  moreover have "[1..<length lwip_cyclic_timers] = [1, 2, 3, 4]"
    by (simp add: lwip_cyclic_timers_def upt_conv_Cons)
  ultimately show ?thesis by (simp only: sys_timeouts_init_def init_requests_def)
qed

lemma init_requests_ok:
  shows "\<forall>(msecs, h, arg) \<in> set init_requests. msecs \<le> 1000 \<and> h = Some Lwip_cyclic_timer \<and>
     (\<exists>i < length lwip_cyclic_timers. arg = Arg_cyclic i)" and "length init_requests = 4"
  by (simp_all add: init_requests_def lwip_cyclic_timers_def)

lemma init_pending:
  assumes "tm_ok (clock st) st" and "next_timeout st = []" and "4 \<le> pool_num (timeout_pool st)"
  shows "\<exists>st'. sys_timeouts_init st = Inr st' \<and> tm_ok (clock st) st' \<and> list_all is_cyclic (next_timeout st') \<and>
    (\<forall>t \<in> set (next_timeout st'). due (clock st) t \<le> 1000)"
proof -
  have m: "\<forall>(msecs, _) \<in> set init_requests. msecs \<le> 0x3fffffff"
    using init_requests_ok(1) by (fastforce intro: order_trans)
  obtain st' ts where s: "start_all init_requests st = Inr st'" "tm_ok (clock st) st'"
    "map (\<lambda>t. (to_time t - clock st, to_h t, to_arg t)) ts = init_requests" "list_all (in_window (clock st)) ts"
    "next_timeout st' = fold insert_timeout ts (next_timeout st)"
    using start_all_fold [OF assms(1) _ m] assms(2,3) init_requests_ok(2) by auto
  have "next_timeout st' = sort_key (due (clock st)) ts"
    using tq.fold_add_sort [OF s(4)] s(5) assms(2) by simp
  then have set: "set (next_timeout st') = set ts" by simp
  have each: "(to_time t - clock st, to_h t, to_arg t) \<in> set init_requests" if "t \<in> set ts" for t
    using that unfolding s(3) [symmetric] by force
  have "is_cyclic t \<and> due (clock st) t \<le> 1000" if "t \<in> set ts" for t
    using bspec [OF init_requests_ok(1) each [OF that]] by (auto simp: is_cyclic_def due_def word_le_nat_alt)
  then show ?thesis using s(1,2) set by (auto simp: init_is_start_all list_all_iff)
qed

theorem sys_check_timeouts_catches_up_witness:
  "\<exists>st'. sys_check_timeouts demo_hooks late_state = Inr st' \<and>
     (\<forall>t \<in> set (next_timeout st'). TIME_LESS_THAN 5000 (to_time t))"
proof -
  obtain st where st: "sys_timeouts_init (idle_state 0) = Inr st" "tm_ok 0 st" "list_all is_cyclic (next_timeout st)"
    "\<forall>t \<in> set (next_timeout st). due 0 t \<le> 1000"
    using init_pending [OF idle_state_ok(1), of 0] idle_state_ok(2) by (auto simp: idle_state_def)
  have late: "late_state = st\<lparr>clock := 5000\<rparr>" by (simp add: late_state_def st(1))
  have "tm_ok (5000 - 0x40000000) st"
    by (rule tm_ok_rebase [OF st(2)]) (use st(4) in auto)
  then have "tm_ok (sys_now late_state - 0x40000000) late_state"
    using tm_ok_cong [of late_state st] by (simp add: late sys_now_def)
  then show ?thesis
    using sys_check_timeouts_catches_up [OF _ _ quick_demo_hooks, of late_state] st(3) by (auto simp: late sys_now_def)
qed

subsection \<open>One-shot timers\<close>

text \<open>What the expired timers do, in order, when their handlers only work on \<open>world\<close>.\<close>

fun run_world :: "(nat \<Rightarrow> timeout_arg \<Rightarrow> 'w \<Rightarrow> 'w) \<Rightarrow> sys_timeo list \<Rightarrow> 'w \<Rightarrow> 'w" where
  "run_world f [] w = w"
| "run_world f (t # ts) w =
     run_world f ts (case to_h t of Some (Handler n) \<Rightarrow> f n (to_arg t) w | _ \<Rightarrow> w)"

definition one_shot :: "sys_timeo \<Rightarrow> bool" where
  "one_shot t \<longleftrightarrow> (case to_h t of None \<Rightarrow> True | Some (Handler n) \<Rightarrow> True | _ \<Rightarrow> False)"

lemma check_loop_one_shot:
  assumes "tm_ok b st" and "list_all one_shot (next_timeout st)" and "unat (now - b) < 2147483648"
    and "\<And>n arg st. h_other hooks n arg st = Inr (st\<lparr>world := f n arg (world st)\<rparr>)"
  shows "\<exists>st'. check_loop hooks now st = Some (Inr st') \<and> tm_ok b st' \<and>
    next_timeout st' = dropWhile (\<lambda>t. due b t \<le> unat (now - b)) (next_timeout st) \<and>
    world st' = run_world f (takeWhile (\<lambda>t. due b t \<le> unat (now - b)) (next_timeout st)) (world st)"
  using assms(1,2)
proof (induction "next_timeout st" arbitrary: st)
  case Nil
  then show ?case by (subst check_loop.simps) simp
next
  case (Cons t ts)
  note ts = Cons.hyps(2) [symmetric]
  have exp: "TIME_LESS_THAN now (to_time t) \<longleftrightarrow> unat (now - b) < due b t"
    using not_expired_iff [of b t ts now] assms(3) Cons.prems(1) ts by (simp add: tm_ok_def)
  show ?case
  proof (cases "TIME_LESS_THAN now (to_time t)")
    case True
    then show ?thesis using exp ts Cons.prems by (subst check_loop.simps) simp
  next
    case False
    note pop = pop_timeout_ok [OF Cons.prems(1) ts]
    define w where "w = (case to_h t of Some (Handler n) \<Rightarrow> f n (to_arg t) (world st) | _ \<Rightarrow> world st)"
    define st1 where "st1 = (pop_timeout st)\<lparr>world := w\<rparr>"
    have st1: "next_timeout st1 = ts" "world st1 = w" "tm_ok b st1"
      using pop(1,3) tm_ok_cong [of st1 "pop_timeout st"] by (simp_all add: st1_def)
    have "check_loop hooks now st = check_loop hooks now st1"
    proof (cases "to_h t")
      case None
      then have "st1 = pop_timeout st" using pop(6) by (simp add: st1_def w_def)
      then show ?thesis using False None ts by (subst check_loop.simps) simp
    next
      case (Some h)
      then obtain n where "h = Handler n" using Cons.prems(2) ts by (auto simp: one_shot_def split: sys_timeout_handler.splits)
      then show ?thesis
        using False Some ts assms(4) pop(6) by (subst check_loop.simps) (simp add: call_handler_def st1_def w_def)
    qed
    moreover have "list_all one_shot (next_timeout st1)" using Cons.prems(2) ts st1(1) by simp
    ultimately show ?thesis
      using Cons.hyps(1) [of st1] st1 False exp ts by (auto simp: w_def)
  qed
qed

text \<open>
  With one-shot timers pending, \<open>sys_check_timeouts\<close> calls the handlers of exactly the timers that
  are due, in the order of their due times, removes these timers from the list and keeps the others.
\<close>

theorem sys_check_timeouts_runs_expired:
  assumes "tm_ok b st" and "list_all one_shot (next_timeout st)" and "unat (sys_now st - b) < 2147483648"
    and "\<And>n arg st. h_other hooks n arg st = Inr (st\<lparr>world := f n arg (world st)\<rparr>)"
  shows "\<exists>st'. sys_check_timeouts hooks st = Inr st' \<and> tm_ok b st' \<and>
    next_timeout st' = filter (\<lambda>t. unat (sys_now st - b) < due b t) (next_timeout st) \<and>
    world st' = run_world f (filter (\<lambda>t. due b t \<le> unat (sys_now st - b)) (next_timeout st)) (world st)"
proof -
  have "sorted (map (due b) (next_timeout st))" using assms(1) by (simp add: tm_ok_def)
  note w = tq.takeWhile_filter [OF this, of "unat (sys_now st - b)"]
  show ?thesis
    using check_loop_one_shot [OF assms] w by (auto simp: sys_check_timeouts_def not_le)
qed

definition log_hooks :: "timeout_arg list hooks" where
  "log_hooks = \<lparr>h_cyclic = (\<lambda>_ st. Inr st), h_other = (\<lambda>n arg st. Inr (st\<lparr>world := world st @ [arg]\<rparr>))\<rparr>"

definition two_timers :: "timeout_arg list tstate" where
  "two_timers = \<lparr>next_timeout =
      [\<lparr>to_addr = 0, to_time = 10, to_h = Some (Handler 1), to_arg = Arg_other 1\<rparr>,
       \<lparr>to_addr = 32, to_time = 20, to_h = Some (Handler 1), to_arg = Arg_other 2\<rparr>],
     timeout_pool = \<lparr>pool_size = 32, pool_num = 2, tab = None, memp_next = \<lambda>_. None\<rparr>,
     current_timeout_due_time = 0, tcpip_tcp_timer_active = False, tcp_active_pcbs = False,
     tcp_tw_pcbs = False, clock = 15, world = []\<rparr>"

lemma two_timers_ok: "tm_ok 0 two_timers"
proof -
  have rel: "pool_rel (timeout_pool two_timers) []"
    by (simp add: pool_rel_def two_timers_def sizeof_memp_def)
  have "elements (timeout_pool two_timers) = {0, 32}"
    by (auto simp: elements_def two_timers_def numeral_eq_Suc lessThan_Suc)
  then have "dom (pool_live (timeout_pool two_timers)) = {0, 32}"
    by (auto simp: pool_live_eq [OF rel] split: if_splits)
  then show ?thesis using rel by (auto simp: tm_ok_def pool_ok_def two_timers_def in_window_def due_def)
qed

theorem sys_check_timeouts_runs_expired_witness:
  "\<exists>st'. sys_check_timeouts log_hooks two_timers = Inr st' \<and> map to_arg (next_timeout st') = [Arg_other 2] \<and>
     world st' = [Arg_other 1]"
  using sys_check_timeouts_runs_expired [OF two_timers_ok, of log_hooks "\<lambda>_ arg w. w @ [arg]"]
  by (auto simp: two_timers_def log_hooks_def one_shot_def sys_now_def due_def)

section \<open>Properties of closing the library\<close>

lemma delete_loop_ok:
  "pool_ok d \<Longrightarrow> distinct (map to_addr ts) \<Longrightarrow> to_addr ` set ts \<subseteq> dom (pool_live d) \<Longrightarrow>
   pool_ok (delete_loop ts d) \<and> dom (pool_live (delete_loop ts d)) = dom (pool_live d) - to_addr ` set ts"
proof (induction ts arbitrary: d)
  case (Cons t ts)
  have "pool_live d (to_addr t) \<noteq> None" using Cons.prems(3) by auto
  note f = pool_free_live [OF Cons.prems(1) this]
  have "to_addr ` set ts \<subseteq> dom (pool_live (memp_free_pool (Some (to_addr t)) d))"
    unfolding conjunct2 [OF f] dom_fun_upd using Cons.prems(2,3) by (simp add: subset_Diff_insert)
  from Cons.IH [OF conjunct1 [OF f] _ this] show ?case
    using Cons.prems(2) unfolding conjunct2 [OF f] dom_fun_upd by auto
qed simp

lemma start_all_active: "start_all rs st = Inr st' \<Longrightarrow> tcpip_tcp_timer_active st' = tcpip_tcp_timer_active st"
proof (induction rs arbitrary: st)
  case (Cons r rs)
  then obtain st1 where st1: "sys_timeout (fst r) (fst (snd r)) (snd (snd r)) st = Inr st1" "start_all rs st1 = Inr st'"
    by (cases r) (auto simp: obind_Inr_iff)
  then have "tcpip_tcp_timer_active st1 = tcpip_tcp_timer_active st"
    by (auto simp: sys_timeout_def sys_timeout_abs_def lwip_assert_Inr_iff Let_def split: prod.splits option.splits)
  then show ?case using Cons.IH [OF st1(2)] by simp
qed simp

text \<open>
  C39. \<open>deleteLwipTimers\<close> returns every timer to the pool and leaves no timer pending, but it leaves
  \<open>tcpip_tcp_timer_active\<close> as it was: when the TCP timer was running, then after starting the stack
  again (\<open>sys_timeouts_init\<close>) \<open>tcp_timer_needed\<close> does nothing although there are connections, so the
  TCP timer is never started and TCP does not retransmit.
\<close>

theorem tcp_timer_lost_after_close:
  assumes "tm_ok b st" and "tcpip_tcp_timer_active st" and "4 \<le> pool_num (timeout_pool (deleteLwipTimers st))"
  shows "dom (pool_live (timeout_pool (deleteLwipTimers st))) = {} \<and>
    (\<exists>st'. sys_timeouts_init (deleteLwipTimers st) = Inr st' \<and> tcp_timer_needed st' = Inr st' \<and>
      tcp_timer_needed (st'\<lparr>tcp_active_pcbs := True\<rparr>) = Inr (st'\<lparr>tcp_active_pcbs := True\<rparr>) \<and>
      Some Tcpip_tcp_timer \<notin> to_h ` set (next_timeout st'))"
proof -
  have free: "pool_ok (timeout_pool (deleteLwipTimers st))" "dom (pool_live (timeout_pool (deleteLwipTimers st))) = {}"
    using delete_loop_ok [of "timeout_pool st" "next_timeout st"] assms(1) by (auto simp: tm_ok_def deleteLwipTimers_def)
  have e: "next_timeout (deleteLwipTimers st) = []" by (simp add: deleteLwipTimers_def)
  then have "tm_ok (clock (deleteLwipTimers st)) (deleteLwipTimers st)" using free by (simp add: tm_ok_def)
  from init_pending [OF this e assms(3)] obtain st' where st': "sys_timeouts_init (deleteLwipTimers st) = Inr st'"
    "list_all is_cyclic (next_timeout st')" by blast
  have act: "tcpip_tcp_timer_active st' = tcpip_tcp_timer_active (deleteLwipTimers st)"
    using st'(1) start_all_active unfolding init_is_start_all by blast
  then have "tcpip_tcp_timer_active st'" using assms(2) by (simp add: deleteLwipTimers_def)
  moreover have "Some Tcpip_tcp_timer \<notin> to_h ` set (next_timeout st')"
    using st'(2) by (auto simp: list_all_iff is_cyclic_def)
  ultimately show ?thesis using free(2) st'(1) by (auto simp: tcp_timer_needed_def)
qed

definition closing_state :: "timeout_arg list tstate" where
  "closing_state = \<lparr>next_timeout = [\<lparr>to_addr = 0, to_time = 50, to_h = Some Tcpip_tcp_timer, to_arg = Arg_null\<rparr>],
     timeout_pool = \<lparr>pool_size = 32, pool_num = 5, tab = Some 32, memp_next = (\<lambda>a. if a < 128 then Some (a + 32) else None)\<rparr>,
     current_timeout_due_time = 0, tcpip_tcp_timer_active = True, tcp_active_pcbs = True,
     tcp_tw_pcbs = False, clock = 15, world = []\<rparr>"

lemma closing_state_ok: "tm_ok 0 closing_state"
proof -
  have el: "elements (timeout_pool closing_state) = {0, 32, 64, 96, 128}"
    by (auto simp: elements_def closing_state_def numeral_eq_Suc lessThan_Suc)
  have rel: "pool_rel (timeout_pool closing_state) [32, 64, 96, 128]"
    by (simp add: pool_rel_def el) (simp add: closing_state_def sizeof_memp_def)
  have "dom (pool_live (timeout_pool closing_state)) = {0}"
    by (auto simp: pool_live_eq [OF rel] el split: if_splits)
  then show ?thesis using rel by (auto simp: tm_ok_def pool_ok_def closing_state_def in_window_def due_def)
qed

theorem tcp_timer_lost_after_close_witness:
  "\<exists>st'. sys_timeouts_init (deleteLwipTimers closing_state) = Inr st' \<and> tcp_timer_needed st' = Inr st' \<and>
     Some Tcpip_tcp_timer \<notin> to_h ` set (next_timeout st')"
proof -
  have "tcpip_tcp_timer_active closing_state" "4 \<le> pool_num (timeout_pool (deleteLwipTimers closing_state))"
    by (simp_all add: closing_state_def deleteLwipTimers_def memp_free_pool_def do_memp_free_pool_def)
  from tcp_timer_lost_after_close [OF closing_state_ok this] show ?thesis by blast
qed

end
