(* ===== verification/Etharp.thy ===== *)
theory Etharp
  imports Pbuf Ip4Addr
begin

text \<open>
  Address resolution on Ethernet, \<open>LWIP/src/core/ipv4/etharp.c\<close>, with \<open>ethernet_output\<close> of
  \<open>LWIP/src/netif/ethernet.c\<close>. The state is the ARP table, the pool \<open>MEMP_ARP_QUEUE\<close>, the packet
  buffers of theory \<open>Pbuf\<close> with their allocators, and the network interfaces. A pointer to a
  \<open>struct netif\<close> is a number; \<open>linkoutput\<close> is the error code the driver of an interface returns for
  a frame, and \<open>wire\<close> records the frames handed to the drivers, which do not keep the pbufs. The
  configuration is that of \<open>src/src/lwipopts.h\<close>: 64 entries, queues of up to 3 packets (the default),
  static entries, \<open>LWIP_DEBUG\<close> (so freed entries are cleared), one address cache for all interfaces.
\<close>

section \<open>Ethernet\<close>

type_synonym eth_addr = "u8 list"

definition ETH_HWADDR_LEN :: nat where "ETH_HWADDR_LEN = 6"
definition SIZEOF_ETH_HDR :: nat where "SIZEOF_ETH_HDR = 14"
definition SIZEOF_ETHARP_HDR :: nat where "SIZEOF_ETHARP_HDR = 28"
definition ETHTYPE_IP :: u16 where "ETHTYPE_IP = 0x0800"
definition ETHTYPE_ARP :: u16 where "ETHTYPE_ARP = 0x0806"
definition ethbroadcast :: eth_addr where "ethbroadcast = [0xff, 0xff, 0xff, 0xff, 0xff, 0xff]"
definition ethzero :: eth_addr where "ethzero = [0, 0, 0, 0, 0, 0]"

section \<open>ARP table\<close>

definition ARP_TABLE_SIZE :: nat where "ARP_TABLE_SIZE = 64"
definition ARP_MAXAGE :: u16 where "ARP_MAXAGE = 36000"
definition ARP_MAXPENDING :: u16 where "ARP_MAXPENDING = 5"
definition ARP_QUEUE_LEN :: nat where "ARP_QUEUE_LEN = 3"
definition ARP_AGE_REREQUEST_USED_UNICAST :: u16 where "ARP_AGE_REREQUEST_USED_UNICAST = ARP_MAXAGE - 30"
definition ARP_AGE_REREQUEST_USED_BROADCAST :: u16 where "ARP_AGE_REREQUEST_USED_BROADCAST = ARP_MAXAGE - 15"

datatype etharp_state = ETHARP_STATE_EMPTY | ETHARP_STATE_PENDING | ETHARP_STATE_STABLE
  | ETHARP_STATE_STABLE_REREQUESTING_1 | ETHARP_STATE_STABLE_REREQUESTING_2 | ETHARP_STATE_STATIC

text \<open>The states are compared as the numbers of the enumeration.\<close>

fun state_code :: "etharp_state \<Rightarrow> nat" where
  "state_code ETHARP_STATE_EMPTY = 0"
| "state_code ETHARP_STATE_PENDING = 1"
| "state_code ETHARP_STATE_STABLE = 2"
| "state_code ETHARP_STATE_STABLE_REREQUESTING_1 = 3"
| "state_code ETHARP_STATE_STABLE_REREQUESTING_2 = 4"
| "state_code ETHARP_STATE_STATIC = 5"

instantiation etharp_state :: linorder
begin

definition less_eq_etharp_state :: "etharp_state \<Rightarrow> etharp_state \<Rightarrow> bool" where
  "less_eq_etharp_state a b \<longleftrightarrow> state_code a \<le> state_code b"

definition less_etharp_state :: "etharp_state \<Rightarrow> etharp_state \<Rightarrow> bool" where
  "less_etharp_state a b \<longleftrightarrow> state_code a < state_code b"

instance
proof
  fix a b :: etharp_state
  assume "a \<le> b" and "b \<le> a"
  then have "state_code a = state_code b" by (simp add: less_eq_etharp_state_def)
  then show "a = b" by (cases a; cases b) simp_all
qed (auto simp: less_eq_etharp_state_def less_etharp_state_def)

end

text \<open>A queue element is its address in the pool and the packet; the list is linked by \<open>next\<close>.\<close>

record etharp_entry =
  arp_q :: "(nat \<times> pptr) list"
  arp_ipaddr :: u32
  arp_netif :: "nat option"
  arp_ethaddr :: eth_addr
  arp_ctime :: u16
  arp_state :: etharp_state

definition ETHARP_FLAG_TRY_HARD :: u8 where "ETHARP_FLAG_TRY_HARD = 1"
definition ETHARP_FLAG_FIND_ONLY :: u8 where "ETHARP_FLAG_FIND_ONLY = 2"
definition ETHARP_FLAG_STATIC_ENTRY :: u8 where "ETHARP_FLAG_STATIC_ENTRY = 4"

record astate =
  arp_table :: "etharp_entry list"
  etharp_cached_entry :: nat
  arp_queue :: memp_pool
  pst :: pstate
  netifs :: "nat \<Rightarrow> netif"
  linkoutput :: "nat \<Rightarrow> u8 list \<Rightarrow> err_t"
  wire :: "(nat \<times> u8 list) list"

definition upd_entry :: "nat \<Rightarrow> (etharp_entry \<Rightarrow> etharp_entry) \<Rightarrow> astate \<Rightarrow> astate" where
  "upd_entry i f st = st\<lparr>arp_table := (arp_table st)[i := f (arp_table st ! i)]\<rparr>"

definition free_pbuf :: "pptr \<Rightarrow> astate \<Rightarrow> astate outcome" where
  "free_pbuf p st = obind (pbuf_free (Some p) (pst st)) (\<lambda>(_, ps). Inr (st\<lparr>pst := ps\<rparr>))"

section \<open>Sending\<close>

definition ethernet_output ::
  "nat \<Rightarrow> pptr \<Rightarrow> eth_addr \<Rightarrow> eth_addr \<Rightarrow> u16 \<Rightarrow> astate \<Rightarrow> (err_t \<times> astate) outcome" where
  "ethernet_output netif p src dst eth_type st =
     get_pbuf (pst st) p (\<lambda>b.
       let (err, b) = pbuf_add_header SIZEOF_ETH_HDR b in
       if err \<noteq> 0 then Inr (ERR_BUF, st)
       else
         let b = store_at b 0 (dst @ src @ mem16 (lwip_htons eth_type));
             st = st\<lparr>pst := put_pbuf p b (pst st)\<rparr> in
         lwip_assert ''netif->hwaddr_len must be 6 for ethernet_output!''
           (length (netif_hwaddr (netifs st netif)) = ETH_HWADDR_LEN)
        (obind (of_loop (walk (pst st) (Some p))) (\<lambda>r. obind r (\<lambda>ps.
           let frame = chain_data (chain_list (pst st) ps) in
           Inr (linkoutput st netif frame, st\<lparr>wire := wire st @ [(netif, frame)]\<rparr>)))))"

definition ARP_REQUEST :: u16 where "ARP_REQUEST = 1"
definition ARP_REPLY :: u16 where "ARP_REPLY = 2"
definition LWIP_IANA_HWTYPE_ETHERNET :: u16 where "LWIP_IANA_HWTYPE_ETHERNET = 1"

text \<open>The ARP message as \<open>etharp_raw\<close> fills it in.\<close>

definition etharp_hdr :: "u16 \<Rightarrow> eth_addr \<Rightarrow> u32 \<Rightarrow> eth_addr \<Rightarrow> u32 \<Rightarrow> u8 list" where
  "etharp_hdr opcode hwsrc_addr ipsrc_addr hwdst_addr ipdst_addr =
     mem16 (PP_HTONS LWIP_IANA_HWTYPE_ETHERNET) @ mem16 (PP_HTONS ETHTYPE_IP) @ [6, 4] @
     mem16 (lwip_htons opcode) @ hwsrc_addr @ bytes32 ipsrc_addr @ hwdst_addr @ bytes32 ipdst_addr"

definition etharp_raw ::
  "nat \<Rightarrow> eth_addr \<Rightarrow> eth_addr \<Rightarrow> eth_addr \<Rightarrow> u32 \<Rightarrow> eth_addr \<Rightarrow> u32 \<Rightarrow> u16 \<Rightarrow> astate \<Rightarrow> (err_t \<times> astate) outcome" where
  "etharp_raw netif ethsrc_addr ethdst_addr hwsrc_addr ipsrc_addr hwdst_addr ipdst_addr opcode st =
     obind (pbuf_alloc PBUF_LINK (of_nat SIZEOF_ETHARP_HDR) PBUF_RAM (pst st)) (\<lambda>(r, ps).
       let st = st\<lparr>pst := ps\<rparr> in
       case r of
         None \<Rightarrow> Inr (ERR_MEM, st)
       | Some p \<Rightarrow>
           get_pbuf (pst st) p (\<lambda>b.
           lwip_assert ''check that first pbuf can hold struct etharp_hdr'' (unat (len b) \<ge> SIZEOF_ETHARP_HDR)
          (lwip_assert ''netif->hwaddr_len must be the same as ETH_HWADDR_LEN for etharp!''
             (length (netif_hwaddr (netifs st netif)) = ETH_HWADDR_LEN)
          (let b = store_at b 0 (etharp_hdr opcode hwsrc_addr ipsrc_addr hwdst_addr ipdst_addr);
               st = st\<lparr>pst := put_pbuf p b (pst st)\<rparr> in
           obind (ethernet_output netif p ethsrc_addr ethdst_addr ETHTYPE_ARP st) (\<lambda>(_, st).
           obind (free_pbuf p st) (\<lambda>st. Inr (ERR_OK, st)))))))"

definition etharp_request_dst :: "nat \<Rightarrow> u32 \<Rightarrow> eth_addr \<Rightarrow> astate \<Rightarrow> (err_t \<times> astate) outcome" where
  "etharp_request_dst netif ipaddr hw_dst_addr st =
     (let hwaddr = netif_hwaddr (netifs st netif) in
      etharp_raw netif hwaddr hw_dst_addr hwaddr (netif_ip_addr (netifs st netif)) ethzero ipaddr ARP_REQUEST st)"

definition etharp_request :: "nat \<Rightarrow> u32 \<Rightarrow> astate \<Rightarrow> (err_t \<times> astate) outcome" where
  "etharp_request netif ipaddr st = etharp_request_dst netif ipaddr ethbroadcast st"

section \<open>Freeing entries and the timer\<close>

fun free_q_loop :: "(nat \<times> pptr) list \<Rightarrow> astate \<Rightarrow> astate outcome" where
  "free_q_loop [] st = Inr st"
| "free_q_loop ((r, p) # q) st =
     obind (free_pbuf p st) (\<lambda>st. free_q_loop q (st\<lparr>arp_queue := memp_free_pool (Some r) (arp_queue st)\<rparr>))"

definition free_etharp_q :: "(nat \<times> pptr) list \<Rightarrow> astate \<Rightarrow> astate outcome" where
  "free_etharp_q q st = lwip_assert ''q != NULL'' (q \<noteq> []) (free_q_loop q st)"

definition etharp_free_entry :: "nat \<Rightarrow> astate \<Rightarrow> astate outcome" where
  "etharp_free_entry i st =
     obind (if arp_q (arp_table st ! i) \<noteq> []
            then obind (free_etharp_q (arp_q (arp_table st ! i)) st) (\<lambda>st. Inr (upd_entry i (arp_q_update (\<lambda>_. [])) st))
            else Inr st) (\<lambda>st.
       Inr (upd_entry i (\<lambda>e. e\<lparr>arp_state := ETHARP_STATE_EMPTY, arp_ctime := 0, arp_netif := None,
         arp_ipaddr := 0, arp_ethaddr := ethzero\<rparr>) st))"

text \<open>The body of the loop of \<open>etharp_tmr\<close> for entry \<open>i\<close>.\<close>

definition tmr_entry :: "nat \<Rightarrow> astate \<Rightarrow> astate outcome" where
  "tmr_entry i st =
     (if arp_state (arp_table st ! i) \<noteq> ETHARP_STATE_EMPTY \<and> arp_state (arp_table st ! i) \<noteq> ETHARP_STATE_STATIC then
        let st = upd_entry i (\<lambda>e. e\<lparr>arp_ctime := arp_ctime e + 1\<rparr>) st; e = arp_table st ! i in
        if arp_ctime e \<ge> ARP_MAXAGE \<or> arp_state e = ETHARP_STATE_PENDING \<and> arp_ctime e \<ge> ARP_MAXPENDING then
          etharp_free_entry i st
        else if arp_state e = ETHARP_STATE_STABLE_REREQUESTING_1 then
          Inr (upd_entry i (arp_state_update (\<lambda>_. ETHARP_STATE_STABLE_REREQUESTING_2)) st)
        else if arp_state e = ETHARP_STATE_STABLE_REREQUESTING_2 then
          Inr (upd_entry i (arp_state_update (\<lambda>_. ETHARP_STATE_STABLE)) st)
        else if arp_state e = ETHARP_STATE_PENDING then
          (case arp_netif e of
             None \<Rightarrow> Inl InvalidAccess
           | Some netif \<Rightarrow> obind (etharp_request netif (arp_ipaddr e) st) (\<lambda>(_, st). Inr st))
        else Inr st
      else Inr st)"

fun tmr_loop :: "nat list \<Rightarrow> astate \<Rightarrow> astate outcome" where
  "tmr_loop [] st = Inr st"
| "tmr_loop (i # is) st = obind (tmr_entry i st) (tmr_loop is)"

definition etharp_tmr :: "astate \<Rightarrow> astate outcome" where
  "etharp_tmr st = tmr_loop [0..<ARP_TABLE_SIZE] st"

section \<open>Finding entries\<close>

text \<open>What the search loop remembers; \<open>ARP_TABLE_SIZE\<close> stands for none.\<close>

record candidates =
  c_empty :: nat
  c_stable :: nat
  c_pending :: nat
  c_queue :: nat
  age_stable :: u16
  age_pending :: u16
  age_queue :: u16

definition no_candidates :: candidates where
  "no_candidates = \<lparr>c_empty = ARP_TABLE_SIZE, c_stable = ARP_TABLE_SIZE, c_pending = ARP_TABLE_SIZE,
     c_queue = ARP_TABLE_SIZE, age_stable = 0, age_pending = 0, age_queue = 0\<rparr>"

definition note_entry :: "nat \<Rightarrow> etharp_entry \<Rightarrow> candidates \<Rightarrow> candidates" where
  "note_entry i e c =
     (if arp_state e = ETHARP_STATE_PENDING then
        if arp_q e \<noteq> [] then
          (if arp_ctime e \<ge> age_queue c then c\<lparr>c_queue := i, age_queue := arp_ctime e\<rparr> else c)
        else
          (if arp_ctime e \<ge> age_pending c then c\<lparr>c_pending := i, age_pending := arp_ctime e\<rparr> else c)
      else if arp_state e \<ge> ETHARP_STATE_STABLE then
        if arp_state e < ETHARP_STATE_STATIC then
          (if arp_ctime e \<ge> age_stable c then c\<lparr>c_stable := i, age_stable := arp_ctime e\<rparr> else c)
        else c
      else c)"

text \<open>The search loop from entry \<open>i\<close> on: \<open>Inl\<close> the matching entry, or \<open>Inr\<close> the candidates.\<close>

fun find_loop :: "u32 option \<Rightarrow> nat \<Rightarrow> etharp_entry list \<Rightarrow> candidates \<Rightarrow> nat + candidates" where
  "find_loop ipaddr i [] c = Inr c"
| "find_loop ipaddr i (e # es) c =
     (if c_empty c = ARP_TABLE_SIZE \<and> arp_state e = ETHARP_STATE_EMPTY then
        find_loop ipaddr (Suc i) es (c\<lparr>c_empty := i\<rparr>)
      else if arp_state e \<noteq> ETHARP_STATE_EMPTY then
        if ipaddr = Some (arp_ipaddr e) then Inl i
        else find_loop ipaddr (Suc i) es (note_entry i e c)
      else find_loop ipaddr (Suc i) es c)"

text \<open>The new entry is set up; \<open>None\<close> stands for \<open>ERR_MEM\<close>.\<close>

definition new_entry :: "u32 option \<Rightarrow> nat \<Rightarrow> astate \<Rightarrow> (nat option \<times> astate) outcome" where
  "new_entry ipaddr i st =
     lwip_assert ''i < ARP_TABLE_SIZE'' (i < ARP_TABLE_SIZE)
    (lwip_assert ''arp_table[i].state == ETHARP_STATE_EMPTY'' (arp_state (arp_table st ! i) = ETHARP_STATE_EMPTY)
    (let st = (case ipaddr of None \<Rightarrow> st | Some a \<Rightarrow> upd_entry i (arp_ipaddr_update (\<lambda>_. a)) st) in
     Inr (Some i, upd_entry i (arp_ctime_update (\<lambda>_. 0)) st)))"

definition etharp_find_entry :: "u32 option \<Rightarrow> u8 \<Rightarrow> astate \<Rightarrow> (nat option \<times> astate) outcome" where
  "etharp_find_entry ipaddr fl st =
     (case find_loop ipaddr 0 (arp_table st) no_candidates of
        Inl i \<Rightarrow> Inr (Some i, st)
      | Inr c \<Rightarrow>
          if fl AND ETHARP_FLAG_FIND_ONLY \<noteq> 0 \<or>
             c_empty c = ARP_TABLE_SIZE \<and> fl AND ETHARP_FLAG_TRY_HARD = 0 then Inr (None, st)
          else if c_empty c < ARP_TABLE_SIZE then new_entry ipaddr (c_empty c) st
          else if c_stable c < ARP_TABLE_SIZE then
            lwip_assert ''arp_table[i].q == NULL'' (arp_q (arp_table st ! c_stable c) = [])
              (obind (etharp_free_entry (c_stable c) st) (new_entry ipaddr (c_stable c)))
          else if c_pending c < ARP_TABLE_SIZE then
            obind (etharp_free_entry (c_pending c) st) (new_entry ipaddr (c_pending c))
          else if c_queue c < ARP_TABLE_SIZE then
            obind (etharp_free_entry (c_queue c) st) (new_entry ipaddr (c_queue c))
          else Inr (None, st))"

section \<open>Updating entries\<close>

text \<open>The queued packets are sent to the address that has been learnt.\<close>

fun send_queue :: "nat \<Rightarrow> eth_addr \<Rightarrow> (nat \<times> pptr) list \<Rightarrow> astate \<Rightarrow> astate outcome" where
  "send_queue netif ethaddr [] st = Inr st"
| "send_queue netif ethaddr ((r, p) # q) st =
     (let st = st\<lparr>arp_queue := memp_free_pool (Some r) (arp_queue st)\<rparr> in
      obind (ethernet_output netif p (netif_hwaddr (netifs st netif)) ethaddr ETHTYPE_IP st) (\<lambda>(_, st).
      obind (free_pbuf p st) (send_queue netif ethaddr q)))"

definition etharp_update_arp_entry ::
  "nat \<Rightarrow> u32 \<Rightarrow> eth_addr \<Rightarrow> u8 \<Rightarrow> astate \<Rightarrow> (err_t \<times> astate) outcome" where
  "etharp_update_arp_entry netif ipaddr ethaddr fl st =
     lwip_assert ''netif->hwaddr_len == ETH_HWADDR_LEN'' (length (netif_hwaddr (netifs st netif)) = ETH_HWADDR_LEN)
    (if ipaddr = IPADDR_ANY \<or> ip4_addr_isbroadcast_u32 ipaddr (netifs st netif) \<or> ip4_addr_ismulticast ipaddr
     then Inr (ERR_ARG, st)
     else obind (etharp_find_entry (Some ipaddr) fl st) (\<lambda>(r, st).
       case r of
         None \<Rightarrow> Inr (ERR_MEM, st)
       | Some i \<Rightarrow>
           if \<not> fl AND ETHARP_FLAG_STATIC_ENTRY \<noteq> 0 \<and> arp_state (arp_table st ! i) = ETHARP_STATE_STATIC
           then Inr (ERR_VAL, st)
           else
             let st = upd_entry i (\<lambda>e. e\<lparr>arp_state :=
                   if fl AND ETHARP_FLAG_STATIC_ENTRY \<noteq> 0 then ETHARP_STATE_STATIC else ETHARP_STATE_STABLE,
                   arp_netif := Some netif, arp_ethaddr := ethaddr, arp_ctime := 0\<rparr>) st;
                 q = arp_q (arp_table st ! i) in
             obind (send_queue netif ethaddr q (upd_entry i (arp_q_update (\<lambda>_. [])) st)) (\<lambda>st. Inr (ERR_OK, st))))"

text \<open>\<open>ip4_route\<close> chooses the interface (\<open>ip4.c\<close>); \<open>None\<close> when there is no route.\<close>

definition etharp_add_static_entry ::
  "(u32 \<Rightarrow> nat option) \<Rightarrow> u32 \<Rightarrow> eth_addr \<Rightarrow> astate \<Rightarrow> (err_t \<times> astate) outcome" where
  "etharp_add_static_entry ip4_route ipaddr ethaddr st =
     (case ip4_route ipaddr of
        None \<Rightarrow> Inr (ERR_RTE, st)
      | Some netif \<Rightarrow>
          etharp_update_arp_entry netif ipaddr ethaddr (ETHARP_FLAG_TRY_HARD OR ETHARP_FLAG_STATIC_ENTRY) st)"

definition etharp_remove_static_entry :: "u32 \<Rightarrow> astate \<Rightarrow> (err_t \<times> astate) outcome" where
  "etharp_remove_static_entry ipaddr st =
     obind (etharp_find_entry (Some ipaddr) ETHARP_FLAG_FIND_ONLY st) (\<lambda>(r, st).
       case r of
         None \<Rightarrow> Inr (ERR_MEM, st)
       | Some i \<Rightarrow>
           if arp_state (arp_table st ! i) \<noteq> ETHARP_STATE_STATIC then Inr (ERR_ARG, st)
           else obind (etharp_free_entry i st) (\<lambda>st. Inr (ERR_OK, st)))"

fun cleanup_loop :: "nat \<Rightarrow> nat list \<Rightarrow> astate \<Rightarrow> astate outcome" where
  "cleanup_loop netif [] st = Inr st"
| "cleanup_loop netif (i # is) st =
     (if arp_state (arp_table st ! i) \<noteq> ETHARP_STATE_EMPTY \<and> arp_netif (arp_table st ! i) = Some netif
      then obind (etharp_free_entry i st) (cleanup_loop netif is)
      else cleanup_loop netif is st)"

definition etharp_cleanup_netif :: "nat \<Rightarrow> astate \<Rightarrow> astate outcome" where
  "etharp_cleanup_netif netif st = cleanup_loop netif [0..<ARP_TABLE_SIZE] st"

text \<open>The result is the index with the addresses, or \<open>None\<close> for -1.\<close>

definition etharp_find_addr :: "nat \<Rightarrow> u32 \<Rightarrow> astate \<Rightarrow> ((nat \<times> eth_addr \<times> u32) option \<times> astate) outcome" where
  "etharp_find_addr netif ipaddr st =
     obind (etharp_find_entry (Some ipaddr) ETHARP_FLAG_FIND_ONLY st) (\<lambda>(r, st).
       case r of
         None \<Rightarrow> Inr (None, st)
       | Some i \<Rightarrow>
           let e = arp_table st ! i in
           if arp_state e \<ge> ETHARP_STATE_STABLE then Inr (Some (i, arp_ethaddr e, arp_ipaddr e), st)
           else Inr (None, st))"

definition etharp_get_entry :: "nat \<Rightarrow> astate \<Rightarrow> (u32 \<times> nat option \<times> eth_addr) option" where
  "etharp_get_entry i st =
     (if i < ARP_TABLE_SIZE \<and> arp_state (arp_table st ! i) \<ge> ETHARP_STATE_STABLE
      then Some (arp_ipaddr (arp_table st ! i), arp_netif (arp_table st ! i), arp_ethaddr (arp_table st ! i))
      else None)"

section \<open>Receiving\<close>

text \<open>
  The fields of a received ARP message; a payload that ends before the message does is read
  beyond its end, which is \<open>InvalidAccess\<close> when the memory of the pbuf ends there too.
\<close>

definition read32 :: "u8 list \<Rightarrow> u32" where
  "read32 xs = ucast (xs ! 0) OR push_bit 8 (ucast (xs ! 1)) OR push_bit 16 (ucast (xs ! 2)) OR push_bit 24 (ucast (xs ! 3))"

definition etharp_input :: "pptr \<Rightarrow> nat \<Rightarrow> astate \<Rightarrow> astate outcome" where
  "etharp_input p netif st =
     get_pbuf (pst st) p (\<lambda>b.
       let hdr = payload_at b 0 SIZEOF_ETHARP_HDR in
       if length hdr < SIZEOF_ETHARP_HDR then Inl InvalidAccess
       else
         let hwtype = take 2 hdr; proto = take 2 (drop 2 hdr); hwlen = hdr ! 4; protolen = hdr ! 5;
             opcode = take 2 (drop 6 hdr); shwaddr = take 6 (drop 8 hdr); sipaddr = read32 (drop 14 hdr);
             dipaddr = read32 (drop 24 hdr); own = netif_ip_addr (netifs st netif);
             hwaddr = netif_hwaddr (netifs st netif) in
         if hwtype \<noteq> mem16 (PP_HTONS LWIP_IANA_HWTYPE_ETHERNET) \<or> hwlen \<noteq> 6 \<or> protolen \<noteq> 4 \<or>
            proto \<noteq> mem16 (PP_HTONS ETHTYPE_IP)
         then free_pbuf p st
         else
           let for_us = (own \<noteq> IPADDR_ANY \<and> dipaddr = own); from_us = (own \<noteq> IPADDR_ANY \<and> sipaddr = own) in
           obind (etharp_update_arp_entry netif sipaddr shwaddr
                    (if for_us then ETHARP_FLAG_TRY_HARD else ETHARP_FLAG_FIND_ONLY) st) (\<lambda>(_, st).
           obind (if opcode = mem16 (PP_HTONS ARP_REQUEST) \<and> for_us \<and> \<not> from_us
                  then obind (etharp_raw netif hwaddr shwaddr hwaddr own shwaddr sipaddr ARP_REPLY st) (\<lambda>(_, st). Inr st)
                  else Inr st) (free_pbuf p)))"

section \<open>Output\<close>

definition etharp_output_to_arp_index :: "nat \<Rightarrow> pptr \<Rightarrow> nat \<Rightarrow> astate \<Rightarrow> (err_t \<times> astate) outcome" where
  "etharp_output_to_arp_index netif q arp_idx st =
     (let e = arp_table st ! arp_idx in
      lwip_assert ''arp_table[arp_idx].state >= ETHARP_STATE_STABLE'' (arp_state e \<ge> ETHARP_STATE_STABLE)
     (obind (if arp_state e = ETHARP_STATE_STABLE then
               if arp_ctime e \<ge> ARP_AGE_REREQUEST_USED_BROADCAST then etharp_request netif (arp_ipaddr e) st
               else if arp_ctime e \<ge> ARP_AGE_REREQUEST_USED_UNICAST
               then etharp_request_dst netif (arp_ipaddr e) (arp_ethaddr e) st
               else Inr (ERR_MEM, st)
             else Inr (ERR_MEM, st)) (\<lambda>(err, st).
        let st = (if err = ERR_OK
                  then upd_entry arp_idx (arp_state_update (\<lambda>_. ETHARP_STATE_STABLE_REREQUESTING_1)) st else st) in
        ethernet_output netif q (netif_hwaddr (netifs st netif)) (arp_ethaddr (arp_table st ! arp_idx)) ETHTYPE_IP st)))"

text \<open>The loop over the packet: does one of its pbufs have to be copied?\<close>

partial_function (option) copy_needed_loop :: "pstate \<Rightarrow> pptr option \<Rightarrow> (bool outcome) option" where
  "copy_needed_loop ps p =
     (case p of
        None \<Rightarrow> Some (Inr False)
      | Some a \<Rightarrow>
          (case pbufs ps a of
             None \<Rightarrow> Some (Inl InvalidAccess)
           | Some b \<Rightarrow>
               if \<not> (len b \<noteq> tot_len b \<or> p_next b = None) then Some (Inl (Assertion ''no packet queues allowed!''))
               else if type_internal b AND 0x40 \<noteq> 0 then Some (Inr True)
               else copy_needed_loop ps (p_next b)))"

text \<open>Taking over the packet \<open>q\<close>: a copy, or another reference.\<close>

definition take_over :: "pptr \<Rightarrow> astate \<Rightarrow> (pptr option \<times> astate) outcome" where
  "take_over q st =
     obind (of_loop (copy_needed_loop (pst st) (Some q))) (\<lambda>r. obind r (\<lambda>copy_needed.
       if copy_needed then
         obind (pbuf_clone PBUF_LINK PBUF_RAM q (pst st)) (\<lambda>(p, ps). Inr (p, st\<lparr>pst := ps\<rparr>))
       else obind (pbuf_ref (Some q) (pst st)) (\<lambda>ps. Inr (Some q, st\<lparr>pst := ps\<rparr>))))"

definition queue_packet :: "nat \<Rightarrow> pptr \<Rightarrow> astate \<Rightarrow> (err_t \<times> astate) outcome" where
  "queue_packet i p st =
     (case memp_malloc_pool (arp_queue st) of
        (None, d) \<Rightarrow> obind (free_pbuf p (st\<lparr>arp_queue := d\<rparr>)) (\<lambda>st. Inr (ERR_MEM, st))
      | (Some r, d) \<Rightarrow>
          let qlen = length (arp_q (arp_table st ! i));
              st = upd_entry i (arp_q_update (\<lambda>q. q @ [(r, p)])) (st\<lparr>arp_queue := d\<rparr>) in
          if qlen \<ge> ARP_QUEUE_LEN then
            let (old_r, old_p) = hd (arp_q (arp_table st ! i));
                st = upd_entry i (arp_q_update List.tl) st in
            obind (free_pbuf old_p st) (\<lambda>st.
              Inr (ERR_OK, st\<lparr>arp_queue := memp_free_pool (Some old_r) (arp_queue st)\<rparr>))
          else Inr (ERR_OK, st))"

definition etharp_query :: "nat \<Rightarrow> u32 \<Rightarrow> pptr option \<Rightarrow> astate \<Rightarrow> (err_t \<times> astate) outcome" where
  "etharp_query netif ipaddr q st =
     (if ip4_addr_isbroadcast_u32 ipaddr (netifs st netif) \<or> ip4_addr_ismulticast ipaddr \<or> ipaddr = IPADDR_ANY
      then Inr (ERR_ARG, st)
      else obind (etharp_find_entry (Some ipaddr) ETHARP_FLAG_TRY_HARD st) (\<lambda>(r, st).
        case r of
          None \<Rightarrow> Inr (ERR_MEM, st)
        | Some i \<Rightarrow>
            let is_new_entry = (arp_state (arp_table st ! i) = ETHARP_STATE_EMPTY);
                st = (if is_new_entry
                      then upd_entry i (\<lambda>e. e\<lparr>arp_state := ETHARP_STATE_PENDING, arp_netif := Some netif\<rparr>) st else st) in
            obind (if is_new_entry \<or> q = None then
                     obind (etharp_request netif ipaddr st) (\<lambda>(result, st).
                       Inr (result,
                         if result = ERR_OK \<and> arp_state (arp_table st ! i) = ETHARP_STATE_PENDING \<and> \<not> is_new_entry
                         then upd_entry i (arp_ctime_update (\<lambda>_. 0)) st else st))
                   else Inr (ERR_MEM, st)) (\<lambda>(result, st).
            case q of
              None \<Rightarrow> Inr (result, st)
            | Some q \<Rightarrow>
                if arp_state (arp_table st ! i) \<ge> ETHARP_STATE_STABLE then
                  ethernet_output netif q (netif_hwaddr (netifs st netif)) (arp_ethaddr (arp_table st ! i)) ETHTYPE_IP
                    (st\<lparr>etharp_cached_entry := i\<rparr>)
                else if arp_state (arp_table st ! i) = ETHARP_STATE_PENDING then
                  obind (take_over q st) (\<lambda>(p, st).
                    case p of None \<Rightarrow> Inr (ERR_MEM, st) | Some p \<Rightarrow> queue_packet i p st)
                else Inr (result, st))))"

fun stable_index :: "u32 \<Rightarrow> nat \<Rightarrow> etharp_entry list \<Rightarrow> nat option" where
  "stable_index dst_addr i [] = None"
| "stable_index dst_addr i (e # es) =
     (if arp_state e \<ge> ETHARP_STATE_STABLE \<and> dst_addr = arp_ipaddr e then Some i
      else stable_index dst_addr (Suc i) es)"

text \<open>Unicast output to \<open>dst_addr\<close>: the cached entry, the first stable entry, or a query.\<close>

definition output_unicast :: "nat \<Rightarrow> pptr \<Rightarrow> u32 \<Rightarrow> astate \<Rightarrow> (err_t \<times> astate) outcome" where
  "output_unicast netif q dst_addr st =
     (let e = arp_table st ! etharp_cached_entry st in
      if arp_state e \<ge> ETHARP_STATE_STABLE \<and> dst_addr = arp_ipaddr e
      then etharp_output_to_arp_index netif q (etharp_cached_entry st) st
      else
        case stable_index dst_addr 0 (arp_table st) of
          Some i \<Rightarrow> etharp_output_to_arp_index netif q i (st\<lparr>etharp_cached_entry := i\<rparr>)
        | None \<Rightarrow> etharp_query netif dst_addr (Some q) st)"

definition etharp_output :: "nat \<Rightarrow> pptr \<Rightarrow> u32 \<Rightarrow> astate \<Rightarrow> (err_t \<times> astate) outcome" where
  "etharp_output netif q ipaddr st =
     (let n = netifs st netif in
      if ip4_addr_isbroadcast_u32 ipaddr n then
        ethernet_output netif q (netif_hwaddr n) ethbroadcast ETHTYPE_IP st
      else if ip4_addr_ismulticast ipaddr then
        ethernet_output netif q (netif_hwaddr n)
          [0x01, 0x00, 0x5e, bytes32 ipaddr ! 1 AND 0x7f, bytes32 ipaddr ! 2, bytes32 ipaddr ! 3] ETHTYPE_IP st
      else if \<not> ip4_addr_net_eq ipaddr (netif_ip_addr n) (netif_netmask n) \<and> \<not> ip4_addr_islinklocal ipaddr then
        if netif_gw n \<noteq> IPADDR_ANY then output_unicast netif q (netif_gw n) st
        else Inr (ERR_RTE, st)
      else output_unicast netif q ipaddr st)"

section \<open>Frames\<close>

lemma lengths [simp]:
  "length (mem16 x) = 2" "length (bytes32 a) = 4" "length ethzero = 6" "length ethbroadcast = 6"
  by (simp_all add: mem16_def bytes32_def ethzero_def ethbroadcast_def)

lemma length_etharp_hdr:
  "length hwsrc = 6 \<Longrightarrow> length hwdst = 6 \<Longrightarrow> length (etharp_hdr opcode hwsrc ipsrc hwdst ipdst) = 28"
  by (simp add: etharp_hdr_def)

lemma walk_pchain: "pchain (pbufs st) p as \<Longrightarrow> walk st p = Some (Inr as)"
proof (induction as arbitrary: p)
  case Nil
  then show ?case by (simp add: walk.simps)
next
  case (Cons a as)
  then obtain b where "p = Some a" "pbufs st a = Some b" "pchain (pbufs st) (p_next b) as" by auto
  then show ?case using Cons.IH by (subst walk.simps) simp
qed

text \<open>The packet starts with a pbuf that has room for the Ethernet header in front of its payload.\<close>

definition has_headroom :: "pbuf \<Rightarrow> bool" where
  "has_headroom b \<longleftrightarrow> wf_buf b \<and> type_internal b AND PBUF_TYPE_FLAG_STRUCT_DATA_CONTIGUOUS \<noteq> 0 \<and>
     14 \<le> p_off b \<and> len b \<le> tot_len b \<and> unat (tot_len b) + 14 < 65536"

lemma add_eth_header:
  assumes "has_headroom b" and "length xs = 14"
  shows "\<exists>b'. pbuf_add_header SIZEOF_ETH_HDR b = (0, b') \<and> pdata (store_at b' 0 xs) = xs @ pdata b \<and>
    p_next b' = p_next b \<and> ref b' = ref b \<and> type_internal b' = type_internal b \<and>
    length (p_mem (store_at b' 0 xs)) = length (p_mem b)"
proof -
  let ?n = "14 :: u16"
  let ?b = "b\<lparr>p_off := p_off b - 14, len := len b + ?n, tot_len := tot_len b + ?n\<rparr>"
  have add: "pbuf_add_header SIZEOF_ETH_HDR b = (0, ?b)"
    using assms(1) unat_no_wrap_iff [of 14 "tot_len b"]
    by (simp add: has_headroom_def pbuf_add_header_def pbuf_add_header_impl_def Let_def SIZEOF_ETH_HDR_def)
  have le: "unat (len b) \<le> unat (tot_len b)" using assms(1) by (simp add: has_headroom_def word_le_nat_alt)
  have l: "unat (len b + ?n) = unat (len b) + 14"
    using assms(1) le by (simp add: has_headroom_def unat_plus_u16)
  have off: "nat (p_off b - 14) + 14 = nat (p_off b)" using assms(1) unfolding has_headroom_def by linarith
  have "nat (p_off b - 14) + (unat (len b) + 14) \<le> length (p_mem b)"
    using off assms(1) unfolding has_headroom_def wf_buf_def by linarith
  then have wf: "wf_buf ?b" using assms(1) l by (simp add: has_headroom_def wf_buf_def)
  have "pdata (store_at ?b 0 xs) = memcpy (pdata ?b) 0 xs"
    using wf l assms(2) by (intro pdata_store_at) simp_all
  also have "\<dots> = xs @ drop 14 (pdata ?b)" by (simp add: memcpy_def assms(2))
  also have "drop 14 (pdata ?b) = pdata b"
    using l off by (simp add: pdata_def payload_at_def drop_take ac_simps)
  finally have "pdata (store_at ?b 0 xs) = xs @ pdata b" .
  moreover have "length (p_mem (store_at ?b 0 xs)) = length (p_mem b)"
    using wf l assms(2) by (simp add: store_at_def length_memcpy wf_buf_def)
  ultimately show ?thesis using add by simp
qed

text \<open>Sending a packet prepends the Ethernet header and hands the frame to the driver.\<close>

lemma ethernet_output_ok:
  assumes ok: "pst_ok (pst st)" and chain: "pchain (pbufs (pst st)) (Some p) (p # as)"
    and b: "pbufs (pst st) p = Some b" and room: "has_headroom b"
    and hw: "length (netif_hwaddr (netifs st netif)) = 6" and addrs: "length src = 6" "length dst = 6"
  shows "\<exists>b'. let frame = dst @ src @ mem16 (lwip_htons ty) @ chain_data (chain_list (pst st) (p # as));
      st' = st\<lparr>pst := put_pbuf p b' (pst st), wire := wire st @ [(netif, frame)]\<rparr> in
    ethernet_output netif p src dst ty st = Inr (linkoutput st netif frame, st') \<and> pst_ok (pst st') \<and>
    allocated (pst st') = allocated (pst st) \<and> p_next b' = p_next b \<and> ref b' = ref b"
proof -
  let ?h = "dst @ src @ mem16 (lwip_htons ty)"
  obtain b1 where b1: "pbuf_add_header SIZEOF_ETH_HDR b = (0, b1)" "pdata (store_at b1 0 ?h) = ?h @ pdata b"
    "p_next b1 = p_next b" "ref b1 = ref b" "type_internal b1 = type_internal b"
    "length (p_mem (store_at b1 0 ?h)) = length (p_mem b)"
    using add_eth_header [OF room, of ?h] addrs by auto
  define b' where "b' = store_at b1 0 ?h"
  have b': "p_next b' = p_next b" "ref b' = ref b" "type_internal b' = type_internal b" "length (p_mem b') = length (p_mem b)"
    using b1 by (simp_all add: b'_def store_at_def)
  let ?ps = "put_pbuf p b' (pst st)"
  have okp: "pst_ok ?ps" "allocated ?ps = allocated (pst st)"
    using put_pbuf_ok [OF ok b, of b'] b' by simp_all
  have p: "p \<notin> set as" using pchain_distinct [OF chain] by simp
  have "pchain (pbufs (pst st)) (p_next b) as" using chain b by simp
  then have "pchain (pbufs ?ps) (Some p) (p # as)"
    using b'(1) pchain_upd [OF p, of "pbufs (pst st)" "Some b'" "p_next b"] by simp
  note w = walk_pchain [OF this]
  have "chain_list ?ps (p # as) = b' # chain_list (pst st) as" using p by (auto simp: chain_list_def)
  moreover have "chain_list (pst st) (p # as) = b # chain_list (pst st) as" using b by (simp add: chain_list_def)
  ultimately have frame: "chain_data (chain_list ?ps (p # as)) = ?h @ chain_data (chain_list (pst st) (p # as))"
    using b1(2) by (simp add: chain_data_def b'_def)
  have "ethernet_output netif p src dst ty st =
      Inr (linkoutput st netif (?h @ chain_data (chain_list (pst st) (p # as))),
        st\<lparr>pst := ?ps, wire := wire st @ [(netif, ?h @ chain_data (chain_list (pst st) (p # as)))]\<rparr>)"
    using b b1(1) hw w frame by (simp add: ethernet_output_def get_pbuf_def Let_def b'_def ETH_HWADDR_LEN_def)
  then show ?thesis using okp b' by (intro exI [of _ b']) (simp add: Let_def)
qed

text \<open>The frame of an ARP message.\<close>

definition arp_frame :: "eth_addr \<Rightarrow> eth_addr \<Rightarrow> u16 \<Rightarrow> eth_addr \<Rightarrow> u32 \<Rightarrow> eth_addr \<Rightarrow> u32 \<Rightarrow> u8 list" where
  "arp_frame ethdst ethsrc opcode hwsrc ipsrc hwdst ipdst =
     ethdst @ ethsrc @ [0x08, 0x06, 0x00, 0x01, 0x08, 0x00, 6, 4] @ [ucast (drop_bit 8 opcode), ucast opcode] @
     hwsrc @ bytes32 ipsrc @ hwdst @ bytes32 ipdst"

lemma etharp_raw_ok:
  assumes ok: "pst_ok (pst st)" and hw: "length (netif_hwaddr (netifs st netif)) = 6"
    and l: "length ethsrc = 6" "length ethdst = 6" "length hwsrc = 6" "length hwdst = 6"
  shows "\<exists>r st'. etharp_raw netif ethsrc ethdst hwsrc ipsrc hwdst ipdst opcode st = Inr (r, st') \<and>
    pst_ok (pst st') \<and> pbufs (pst st') = pbufs (pst st) \<and> allocated (pst st') = allocated (pst st) \<and>
    st' = st\<lparr>pst := pst st', wire := wire st'\<rparr> \<and>
    (r = ERR_OK \<and> wire st' = wire st @ [(netif, arp_frame ethdst ethsrc opcode hwsrc ipsrc hwdst ipdst)] \<or>
     r = ERR_MEM \<and> wire st' = wire st)"
proof -
  let ?l = "of_nat SIZEOF_ETHARP_HDR :: u16"
  let ?hdr = "etharp_hdr opcode hwsrc ipsrc hwdst ipdst"
  have ul: "unat ?l = 28" by (simp add: SIZEOF_ETHARP_HDR_def)
  have off: "layer_offset PBUF_LINK = 14" by (simp add: PBUF_LINK_HLEN_def)
  obtain r ps where r: "pbuf_alloc PBUF_LINK ?l PBUF_RAM (pst st) = Inr (r, ps)" "pst_ok ps"
    "case r of
       None \<Rightarrow> pbufs ps = pbufs (pst st) \<and> allocated ps = allocated (pst st)
     | Some a \<Rightarrow> a \<notin> allocated (pst st) \<and> allocated ps = insert a (allocated (pst st)) \<and>
         (\<exists>mem. length mem = 14 + 28 \<and>
            pbufs ps = (pbufs (pst st))(a \<mapsto> pbuf_init_alloced_pbuf mem 14 ?l ?l PBUF_RAM 0))"
    using pbuf_alloc_ram [OF ok, of PBUF_LINK ?l] unfolding off ul by (auto split: option.splits)
  show ?thesis
  proof (cases r)
    case None
    then show ?thesis
      using r by (intro exI [of _ ERR_MEM] exI [of _ "st\<lparr>pst := ps\<rparr>"]) (simp add: etharp_raw_def)
  next
    case (Some a)
    then obtain mem where a: "a \<notin> allocated (pst st)" "allocated ps = insert a (allocated (pst st))"
      "length mem = 42" "pbufs ps = (pbufs (pst st))(a \<mapsto> pbuf_init_alloced_pbuf mem 14 ?l ?l PBUF_RAM 0)"
      using r(3) by auto
    define b where "b = pbuf_init_alloced_pbuf mem 14 ?l ?l PBUF_RAM 0"
    have b: "wf_buf b" "p_next b = None" "ref b = 1" "p_off b = 14" "len b = ?l" "tot_len b = ?l"
      "type_internal b AND PBUF_TYPE_FLAG_STRUCT_DATA_CONTIGUOUS \<noteq> 0"
      using a(3) ul by (simp_all add: b_def pbuf_init_alloced_pbuf_def wf_buf_def PBUF_TYPE_FLAG_STRUCT_DATA_CONTIGUOUS_def)
    define b1 where "b1 = store_at b 0 ?hdr"
    have hdr: "length ?hdr = unat (len b)" using l by (simp add: length_etharp_hdr b(5) ul)
    have pd: "pdata b1 = ?hdr" using b(1) hdr by (simp add: b1_def memcpy_def)
    have len1: "length (p_mem b1) = length (p_mem b)"
      using b(1) hdr by (simp add: b1_def store_at_def length_memcpy wf_buf_def)
    have b1: "p_next b1 = None" "ref b1 = 1" "type_internal b1 = type_internal b" "has_headroom b1"
      using b ul len1 by (simp_all add: b1_def store_at_def has_headroom_def wf_buf_def)
    let ?st = "st\<lparr>pst := put_pbuf a b1 ps\<rparr>"
    have pa: "pbufs ps a = Some b" using a(4) by (simp add: b_def)
    have ok1: "pst_ok (pst ?st)" "allocated (pst ?st) = insert a (allocated (pst st))"
      using put_pbuf_ok [OF r(2) pa, of b1] b1(3) len1 a(2) by simp_all
    have chain: "pchain (pbufs (pst ?st)) (Some a) [a]" using b1(1) by simp
    let ?frame = "ethdst @ ethsrc @ mem16 (lwip_htons ETHTYPE_ARP) @ chain_data (chain_list (pst ?st) [a])"
    have out: "\<exists>b'. let st' = ?st\<lparr>pst := put_pbuf a b' (pst ?st), wire := wire ?st @ [(netif, ?frame)]\<rparr> in
        ethernet_output netif a ethsrc ethdst ETHTYPE_ARP ?st = Inr (linkoutput ?st netif ?frame, st') \<and> pst_ok (pst st') \<and>
        allocated (pst st') = allocated (pst ?st) \<and> p_next b' = p_next b1 \<and> ref b' = ref b1"
      using ethernet_output_ok [OF ok1(1) chain, of b1] b1(4) hw l by (simp add: Let_def)
    then obtain b2 where b2: "ethernet_output netif a ethsrc ethdst ETHTYPE_ARP ?st =
        Inr (linkoutput ?st netif ?frame, ?st\<lparr>pst := put_pbuf a b2 (pst ?st), wire := wire ?st @ [(netif, ?frame)]\<rparr>)"
      "pst_ok (put_pbuf a b2 (pst ?st))" "allocated (put_pbuf a b2 (pst ?st)) = insert a (allocated (pst st))"
      "p_next b2 = None" "ref b2 = 1"
      unfolding Let_def using b1(1,2) ok1(2) by auto
    let ?st2 = "?st\<lparr>pst := put_pbuf a b2 (pst ?st), wire := wire ?st @ [(netif, ?frame)]\<rparr>"
    have ch2: "pchain (pbufs (pst ?st2)) (Some a) [a]" "refs_pos (pbufs (pst ?st2)) [a]"
      using b2(4,5) by (simp_all add: refs_pos_def)
    obtain ps3 where f: "pbuf_free (Some a) (pst ?st2) = Inr (1, ps3)" "pst_ok ps3"
      "pbufs ps3 = (pbufs (pst ?st2))(a := None)" "allocated ps3 = insert a (allocated (pst st)) - {a}"
      using pbuf_free_chain [OF _ ch2] b2(2,3,5) by (auto simp: unshared_def)
    let ?st3 = "?st2\<lparr>pst := ps3\<rparr>"
    have frame: "?frame = arp_frame ethdst ethsrc opcode hwsrc ipsrc hwdst ipdst"
    proof -
      have "chain_data (chain_list (pst ?st) [a]) = ?hdr" using pd by (simp add: chain_data_def chain_list_def)
      moreover have "PP_HTONS x = lwip_htons x" for x by (simp add: lwip_htons_def)
      ultimately show ?thesis
        by (simp add: arp_frame_def etharp_hdr_def mem16_htons ETHTYPE_ARP_def ETHTYPE_IP_def LWIP_IANA_HWTYPE_ETHERNET_def)
    qed
    have raw: "etharp_raw netif ethsrc ethdst hwsrc ipsrc hwdst ipdst opcode st = Inr (ERR_OK, ?st3)"
      using r(1) Some pa b(5) ul hw b2(1) f(1)
      by (simp add: etharp_raw_def get_pbuf_def Let_def SIZEOF_ETHARP_HDR_def ETH_HWADDR_LEN_def b1_def free_pbuf_def)
    have "pbufs (pst st) a = None" using dom_allocated [OF ok] a(1) by blast
    then have "pbufs ps3 = pbufs (pst st)" using f(3) a(4) by auto
    moreover have "allocated ps3 = allocated (pst st)" using f(4) a(1) by simp
    ultimately show ?thesis using raw f(2) frame by (intro exI [of _ ERR_OK] exI [of _ ?st3]) simp
  qed
qed

text \<open>
  An ARP message is either sent as one frame with the given addresses in RFC 826 format, or not
  sent because there is no memory. In both cases no assertion fails, no packet buffer is left
  allocated and no other packet buffer or ARP entry changes.
\<close>

theorem etharp_raw_correct:
  assumes "pst_ok (pst st)" and "length (netif_hwaddr (netifs st netif)) = 6"
    and "length ethsrc = 6" and "length ethdst = 6" and "length hwsrc = 6" and "length hwdst = 6"
  shows "\<exists>r st'. etharp_raw netif ethsrc ethdst hwsrc ipsrc hwdst ipdst opcode st = Inr (r, st') \<and>
    pst_ok (pst st') \<and> pbufs (pst st') = pbufs (pst st) \<and> allocated (pst st') = allocated (pst st) \<and>
    arp_table st' = arp_table st \<and>
    (r = ERR_OK \<and> wire st' = wire st @ [(netif, arp_frame ethdst ethsrc opcode hwsrc ipsrc hwdst ipdst)] \<or>
     r = ERR_MEM \<and> wire st' = wire st)"
proof -
  obtain r st' where s: "etharp_raw netif ethsrc ethdst hwsrc ipsrc hwdst ipdst opcode st = Inr (r, st')"
    "pst_ok (pst st')" "pbufs (pst st') = pbufs (pst st)" "allocated (pst st') = allocated (pst st)"
    "st' = st\<lparr>pst := pst st', wire := wire st'\<rparr>"
    "r = ERR_OK \<and> wire st' = wire st @ [(netif, arp_frame ethdst ethsrc opcode hwsrc ipsrc hwdst ipdst)] \<or>
     r = ERR_MEM \<and> wire st' = wire st"
    using etharp_raw_ok [OF assms] by blast
  have "arp_table st' = arp_table st" by (subst s(5)) simp
  then show ?thesis using s by blast
qed

definition empty_entry :: etharp_entry where
  "empty_entry = \<lparr>arp_q = [], arp_ipaddr = 0, arp_netif = None, arp_ethaddr = ethzero, arp_ctime = 0,
     arp_state = ETHARP_STATE_EMPTY\<rparr>"

definition demo_netif :: netif where
  "demo_netif = \<lparr>netif_ip_addr = 0x0100000a, netif_netmask = 0x00ffffff, netif_gw = 0xfe00000a, netif_mtu = 1500,
     netif_hwaddr = [2, 0, 0, 0, 0, 1], netif_flags = 0x02, netif_num = 0\<rparr>"

definition demo_arp :: "etharp_entry list \<Rightarrow> pstate \<Rightarrow> astate" where
  "demo_arp es ps = \<lparr>arp_table = es @ replicate (64 - length es) empty_entry, etharp_cached_entry = 0,
     arp_queue = full_pool 1, pst = ps, netifs = \<lambda>_. demo_netif, linkoutput = \<lambda>_ _. ERR_OK, wire = []\<rparr>"

theorem etharp_raw_correct_witness:
  "\<exists>r st'. etharp_raw 0 [2, 0, 0, 0, 0, 1] ethbroadcast [2, 0, 0, 0, 0, 1] 0x0100000a ethzero 0x0200000a ARP_REQUEST
     (demo_arp [] (chain_state 1)) = Inr (r, st') \<and> pst_ok (pst st')"
  using etharp_raw_correct [of "demo_arp [] (chain_state 1)" 0 "[2, 0, 0, 0, 0, 1]" ethbroadcast "[2, 0, 0, 0, 0, 1]" ethzero
      "0x0100000a" "0x0200000a" ARP_REQUEST] pst_ok_chain_state [of 1]
  by (simp add: demo_arp_def demo_netif_def) blast

section \<open>Sending the packets that waited for an address\<close>

text \<open>The packets of a queue: each has its own pbufs, to which nobody else refers, and room for the header.\<close>

fun queue_ok :: "pstate \<Rightarrow> (nat \<times> pptr) list \<Rightarrow> pptr list list \<Rightarrow> bool" where
  "queue_ok ps [] ass = (ass = [])"
| "queue_ok ps ((r, p) # q) ass \<longleftrightarrow>
     (\<exists>as ass'. ass = (p # as) # ass' \<and> pchain (pbufs ps) (Some p) (p # as) \<and>
        (\<forall>b. pbufs ps p = Some b \<longrightarrow> has_headroom b) \<and>
        (\<forall>a b. a \<in> set (p # as) \<longrightarrow> pbufs ps a = Some b \<longrightarrow> ref b = 1) \<and> queue_ok ps q ass')"

lemma queue_ok_cong:
  "queue_ok ps q ass \<Longrightarrow> (\<And>a. a \<in> set (concat ass) \<Longrightarrow> pbufs ps' a = pbufs ps a) \<Longrightarrow> queue_ok ps' q ass"
proof (induction q arbitrary: ass)
  case (Cons x q)
  obtain r p where x: "x = (r, p)" by (cases x)
  obtain as ass' where ass: "ass = (p # as) # ass'" "pchain (pbufs ps) (Some p) (p # as)"
    "\<forall>b. pbufs ps p = Some b \<longrightarrow> has_headroom b" "\<forall>a b. a \<in> set (p # as) \<longrightarrow> pbufs ps a = Some b \<longrightarrow> ref b = 1"
    "queue_ok ps q ass'" using Cons.prems(1) x by (auto simp del: pchain.simps)
  have same: "pbufs ps' a = pbufs ps a" if "a \<in> set (p # as)" for a using that Cons.prems(2) ass(1) by auto
  have "pchain (pbufs ps') (Some p) (p # as)" using ass(2) pchain_cong [of "p # as" "pbufs ps" "pbufs ps'"] same by metis
  moreover have "queue_ok ps' q ass'" using Cons.IH [OF ass(5)] Cons.prems(2) ass(1) by auto
  ultimately show ?case
    using ass(1,3,4) same x by (auto simp del: pchain.simps)
qed simp

definition ip_frame :: "astate \<Rightarrow> nat \<Rightarrow> eth_addr \<Rightarrow> pptr list \<Rightarrow> nat \<times> u8 list" where
  "ip_frame st netif ethaddr as =
     (netif, ethaddr @ netif_hwaddr (netifs st netif) @ [0x08, 0x00] @ chain_data (chain_list (pst st) as))"

lemma send_queue_ok:
  assumes "pst_ok (pst st)" and "length (netif_hwaddr (netifs st netif)) = 6" and "length ethaddr = 6"
    and "queue_ok (pst st) q ass" and "distinct (concat ass)"
  shows "\<exists>ps. send_queue netif ethaddr q st = Inr (st\<lparr>pst := ps, wire := wire st @ map (ip_frame st netif ethaddr) ass,
      arp_queue := fold (\<lambda>(r, _). memp_free_pool (Some r)) q (arp_queue st)\<rparr>) \<and> pst_ok ps \<and>
    (\<forall>a. a \<notin> set (concat ass) \<longrightarrow> pbufs ps a = pbufs (pst st) a) \<and>
    allocated ps = allocated (pst st) - set (concat ass)"
  using assms
proof (induction q arbitrary: st ass)
  case Nil
  then show ?case by (intro exI [of _ "pst st"]) simp
next
  case (Cons x q)
  obtain r p where x: "x = (r, p)" by (cases x)
  obtain as ass' where ass: "ass = (p # as) # ass'" and chain: "pchain (pbufs (pst st)) (Some p) (p # as)"
    and room: "\<forall>b. pbufs (pst st) p = Some b \<longrightarrow> has_headroom b"
    and one: "\<forall>a b. a \<in> set (p # as) \<longrightarrow> pbufs (pst st) a = Some b \<longrightarrow> ref b = 1"
    and rest: "queue_ok (pst st) q ass'" using Cons.prems(4) x by (auto simp del: pchain.simps)
  have disj: "set (p # as) \<inter> set (concat ass') = {}" "distinct (concat ass')" "p \<notin> set as"
    using Cons.prems(5) ass by auto
  obtain b where b: "pbufs (pst st) p = Some b" using chain by auto
  let ?st = "st\<lparr>arp_queue := memp_free_pool (Some r) (arp_queue st)\<rparr>"
  let ?frame = "ethaddr @ netif_hwaddr (netifs st netif) @ mem16 (lwip_htons ETHTYPE_IP) @ chain_data (chain_list (pst st) (p # as))"
  have "\<exists>b'. let st' = ?st\<lparr>pst := put_pbuf p b' (pst ?st), wire := wire ?st @ [(netif, ?frame)]\<rparr> in
      ethernet_output netif p (netif_hwaddr (netifs st netif)) ethaddr ETHTYPE_IP ?st = Inr (linkoutput ?st netif ?frame, st') \<and>
      pst_ok (pst st') \<and> allocated (pst st') = allocated (pst ?st) \<and> p_next b' = p_next b \<and> ref b' = ref b"
    using ethernet_output_ok [of ?st p as b netif "netif_hwaddr (netifs st netif)" ethaddr ETHTYPE_IP]
      Cons.prems(1-3) chain b room by (simp add: Let_def)
  then obtain b' where b': "ethernet_output netif p (netif_hwaddr (netifs st netif)) ethaddr ETHTYPE_IP ?st =
      Inr (linkoutput st netif ?frame, ?st\<lparr>pst := put_pbuf p b' (pst st), wire := wire st @ [(netif, ?frame)]\<rparr>)"
    "pst_ok (put_pbuf p b' (pst st))" "allocated (put_pbuf p b' (pst st)) = allocated (pst st)"
    "p_next b' = p_next b" "ref b' = ref b" by (auto simp: Let_def)
  let ?ps = "put_pbuf p b' (pst st)"
  have chain': "pchain (pbufs ?ps) (Some p) (p # as)"
    using chain b b'(4) pchain_upd [OF disj(3), of "pbufs (pst st)" "Some b'" "p_next b"] by simp
  have one': "\<And>a c. a \<in> set (p # as) \<Longrightarrow> pbufs ?ps a = Some c \<Longrightarrow> ref c = 1"
    using one b b'(5) by (auto split: if_splits)
  note rel = release_all [OF chain' one']
  obtain ps where ps: "pbuf_free (Some p) ?ps = Inr (of_nat (length (p # as)), ps)" "pst_ok ps"
    "pbufs ps = (\<lambda>a. if a \<in> set (p # as) then None else pbufs ?ps a)" "allocated ps = allocated (pst st) - set (p # as)"
    using pbuf_free_chain [OF b'(2) chain'] rel b'(3) by auto
  let ?st2 = "?st\<lparr>wire := wire st @ [(netif, ?frame)], pst := ps\<rparr>"
  have same: "pbufs ps a = pbufs (pst st) a" if "a \<in> set (concat ass')" for a
    using that disj(1) by (auto simp: ps(3))
  have "queue_ok (pst ?st2) q ass'" using queue_ok_cong [OF rest, of ps] same by simp
  then obtain ps2 where ps2: "send_queue netif ethaddr q ?st2 = Inr (?st2\<lparr>pst := ps2, wire := wire ?st2 @ map (ip_frame ?st2 netif ethaddr) ass',
      arp_queue := fold (\<lambda>(r, _). memp_free_pool (Some r)) q (arp_queue ?st2)\<rparr>)" "pst_ok ps2"
    "\<forall>a. a \<notin> set (concat ass') \<longrightarrow> pbufs ps2 a = pbufs (pst ?st2) a"
    "allocated ps2 = allocated (pst ?st2) - set (concat ass')"
    using Cons.IH [of ?st2 ass'] ps(2) Cons.prems(2,3) disj(2) by auto
  have "chain_list ps as' = chain_list (pst st) as'" if "as' \<in> set ass'" for as'
    unfolding chain_list_def using that by (intro map_cong refl arg_cong [of _ _ the] same) auto
  then have frames: "map (ip_frame ?st2 netif ethaddr) ass' = map (ip_frame st netif ethaddr) ass'"
    by (simp add: ip_frame_def)
  have f1: "(netif, ?frame) = ip_frame st netif ethaddr (p # as)"
    by (simp add: ip_frame_def mem16_htons ETHTYPE_IP_def)
  have "send_queue netif ethaddr (x # q) st = send_queue netif ethaddr q ?st2"
    using b'(1) ps(1) by (simp add: x free_pbuf_def Let_def)
  also have "\<dots> = Inr (st\<lparr>pst := ps2, wire := wire st @ map (ip_frame st netif ethaddr) ass,
      arp_queue := fold (\<lambda>(r, _). memp_free_pool (Some r)) (x # q) (arp_queue st)\<rparr>)"
    using ps2(1) frames f1 by (simp add: ass x)
  finally show ?case using ps2 ps by (intro exI [of _ ps2]) (auto simp: ass)
qed

section \<open>The table\<close>

definition entry_for :: "u32 \<Rightarrow> etharp_entry \<Rightarrow> bool" where
  "entry_for ip e \<longleftrightarrow> arp_state e \<noteq> ETHARP_STATE_EMPTY \<and> arp_ipaddr e = ip"

definition dynamic :: "etharp_entry \<Rightarrow> bool" where
  "dynamic e \<longleftrightarrow> arp_state e \<ge> ETHARP_STATE_STABLE \<and> arp_state e < ETHARP_STATE_STATIC"

text \<open>
  The table is well-formed: no address has two entries, only entries that wait for an answer have
  queued packets, and these know their interface.
\<close>

definition arp_ok :: "astate \<Rightarrow> bool" where
  "arp_ok st \<longleftrightarrow> length (arp_table st) = ARP_TABLE_SIZE \<and> etharp_cached_entry st < ARP_TABLE_SIZE \<and>
     (\<forall>i < ARP_TABLE_SIZE. \<forall>j < ARP_TABLE_SIZE. \<forall>ip.
        entry_for ip (arp_table st ! i) \<longrightarrow> entry_for ip (arp_table st ! j) \<longrightarrow> i = j) \<and>
     (\<forall>e \<in> set (arp_table st). arp_q e \<noteq> [] \<longrightarrow> arp_state e = ETHARP_STATE_PENDING) \<and>
     (\<forall>e \<in> set (arp_table st). arp_state e = ETHARP_STATE_PENDING \<longrightarrow> arp_netif e \<noteq> None)"

lemma state_order [simp]:
  "\<not> ETHARP_STATE_STABLE \<le> ETHARP_STATE_EMPTY" "\<not> ETHARP_STATE_STABLE \<le> ETHARP_STATE_PENDING"
  "ETHARP_STATE_STABLE \<le> ETHARP_STATE_STABLE" "ETHARP_STATE_STABLE \<le> ETHARP_STATE_STATIC"
  "ETHARP_STATE_STABLE < ETHARP_STATE_STATIC"
  by (simp_all add: less_eq_etharp_state_def less_etharp_state_def)

lemma note_entry_empty [simp]: "c_empty (note_entry i e c) = c_empty c"
  by (simp add: note_entry_def)

lemma find_loop_match:
  "find_loop (Some ip) i es c = Inl j \<Longrightarrow> \<exists>k < length es. j = i + k \<and> entry_for ip (es ! k)"
proof (induction es arbitrary: i c)
  case (Cons e es)
  show ?case
  proof (cases "arp_state e \<noteq> ETHARP_STATE_EMPTY \<and> ip = arp_ipaddr e")
    case True
    then show ?thesis using Cons.prems by (intro exI [of _ 0]) (auto simp: entry_for_def)
  next
    case False
    then obtain c' where "find_loop (Some ip) (Suc i) es c' = Inl j"
      using Cons.prems by (auto split: if_splits)
    then show ?thesis using Cons.IH by fastforce
  qed
qed simp

lemma find_loop_no_match: "find_loop (Some ip) i es c = Inr c' \<Longrightarrow> e \<in> set es \<Longrightarrow> \<not> entry_for ip e"
  by (induction es arbitrary: i c) (auto simp: entry_for_def split: if_splits)

lemma find_loop_empty:
  "find_loop ip i es c = Inr c' \<Longrightarrow>
   c_empty c' = c_empty c \<and> (c_empty c = ARP_TABLE_SIZE \<longrightarrow> (\<forall>e \<in> set es. arp_state e \<noteq> ETHARP_STATE_EMPTY)) \<or>
   c_empty c = ARP_TABLE_SIZE \<and> (\<exists>k < length es. c_empty c' = i + k \<and> arp_state (es ! k) = ETHARP_STATE_EMPTY)"
proof (induction es arbitrary: i c)
  case (Cons e es)
  show ?case
  proof (cases "c_empty c = ARP_TABLE_SIZE \<and> arp_state e = ETHARP_STATE_EMPTY")
    case True
    then have rest: "find_loop ip (Suc i) es (c\<lparr>c_empty := i\<rparr>) = Inr c'" using Cons.prems by simp
    show ?thesis
    proof (cases "i = ARP_TABLE_SIZE")
      case True
      then show ?thesis
        using Cons.IH [OF rest] \<open>c_empty c = ARP_TABLE_SIZE \<and> arp_state e = ETHARP_STATE_EMPTY\<close>
        by (fastforce intro: exI [of _ 0])
    next
      case False
      then have "c_empty c' = i" using Cons.IH [OF rest] by simp
      then show ?thesis using True by (intro disjI2 conjI) (auto intro!: exI [of _ 0])
    qed
  next
    case False
    then obtain c1 where c1: "find_loop ip (Suc i) es c1 = Inr c'" "c_empty c1 = c_empty c"
      using Cons.prems by (auto split: if_splits)
    then show ?thesis using Cons.IH [OF c1(1)] False by fastforce
  qed
qed simp

lemma find_loop_stable:
  "find_loop ip i es c = Inr c' \<Longrightarrow>
   c_stable c' = c_stable c \<and> age_stable c' = age_stable c \<and> (\<forall>e \<in> set es. dynamic e \<longrightarrow> arp_ctime e < age_stable c) \<or>
   (\<exists>k < length es. c_stable c' = i + k \<and> dynamic (es ! k) \<and> arp_ctime (es ! k) = age_stable c' \<and>
     age_stable c \<le> age_stable c' \<and> (\<forall>e \<in> set es. dynamic e \<longrightarrow> arp_ctime e \<le> age_stable c'))"
proof (induction es arbitrary: i c)
  case (Cons e es)
  define c1 where "c1 = (if dynamic e \<and> arp_ctime e \<ge> age_stable c then c\<lparr>c_stable := i, age_stable := arp_ctime e\<rparr> else c)"
  obtain c2 where c2: "find_loop ip (Suc i) es c2 = Inr c'" "c_stable c2 = c_stable c1" "age_stable c2 = age_stable c1"
    using Cons.prems by (auto simp: c1_def note_entry_def dynamic_def split: if_splits)
  from Cons.IH [OF c2(1)] show ?case
  proof (elim disjE exE conjE)
    assume old: "c_stable c' = c_stable c2" "age_stable c' = age_stable c2" "\<forall>e \<in> set es. dynamic e \<longrightarrow> arp_ctime e < age_stable c2"
    show ?thesis
    proof (cases "dynamic e \<and> arp_ctime e \<ge> age_stable c")
      case True
      then show ?thesis using old c2(2,3) by (intro disjI2 exI [of _ 0]) (auto simp: c1_def)
    next
      case False
      then show ?thesis using old c2(2,3) by (auto simp: c1_def)
    qed
  next
    fix k
    assume k: "k < length es" "c_stable c' = Suc i + k" "dynamic (es ! k)" "arp_ctime (es ! k) = age_stable c'"
      "age_stable c2 \<le> age_stable c'" "\<forall>e \<in> set es. dynamic e \<longrightarrow> arp_ctime e \<le> age_stable c'"
    have "age_stable c \<le> age_stable c2" "dynamic e \<longrightarrow> arp_ctime e \<le> age_stable c2"
      using c2(3) by (auto simp: c1_def)
    then show ?thesis using k by (intro disjI2 exI [of _ "Suc k"]) auto
  qed
qed simp

lemma upd_entry_simps [simp]:
  "arp_table (upd_entry i f st) = (arp_table st)[i := f (arp_table st ! i)]"
  "pst (upd_entry i f st) = pst st" "wire (upd_entry i f st) = wire st" "netifs (upd_entry i f st) = netifs st"
  "arp_queue (upd_entry i f st) = arp_queue st" "linkoutput (upd_entry i f st) = linkoutput st"
  "etharp_cached_entry (upd_entry i f st) = etharp_cached_entry st"
  by (simp_all add: upd_entry_def)

text \<open>Replacing an entry keeps the table well-formed when the new one's address is free.\<close>

lemma arp_ok_replace:
  assumes ok: "arp_ok st" and i: "i < ARP_TABLE_SIZE"
    and tab: "arp_table st' = (arp_table st)[i := e]" and c: "etharp_cached_entry st' < ARP_TABLE_SIZE"
    and free: "\<And>j ip. entry_for ip e \<Longrightarrow> j < ARP_TABLE_SIZE \<Longrightarrow> j \<noteq> i \<Longrightarrow> \<not> entry_for ip (arp_table st ! j)"
    and q: "arp_q e \<noteq> [] \<longrightarrow> arp_state e = ETHARP_STATE_PENDING" "arp_state e = ETHARP_STATE_PENDING \<longrightarrow> arp_netif e \<noteq> None"
  shows "arp_ok st'"
proof -
  have len: "length (arp_table st) = ARP_TABLE_SIZE" using ok by (simp add: arp_ok_def)
  have "k = j" if kj: "k < ARP_TABLE_SIZE" "j < ARP_TABLE_SIZE"
    "entry_for ip (arp_table st' ! k)" "entry_for ip (arp_table st' ! j)" for k j ip
  proof -
    have "k = i \<Longrightarrow> j = k" using kj free [of ip j] len by (auto simp: tab nth_list_update split: if_splits)
    moreover have "j = i \<Longrightarrow> j = k" using kj free [of ip k] len by (auto simp: tab nth_list_update split: if_splits)
    moreover have "k \<noteq> i \<Longrightarrow> j \<noteq> i \<Longrightarrow> k = j"
      using kj ok len unfolding arp_ok_def tab by (simp add: nth_list_update)
    ultimately show ?thesis by blast
  qed
  moreover have "set (arp_table st') \<subseteq> insert e (set (arp_table st))" unfolding tab by (rule set_update_subset_insert)
  ultimately show ?thesis using ok c q len unfolding arp_ok_def by (simp add: tab) blast
qed

lemma free_entry_no_queue:
  "arp_q (arp_table st ! i) = [] \<Longrightarrow> etharp_free_entry i st = Inr (upd_entry i (\<lambda>e. empty_entry) st)"
  by (cases "arp_table st ! i") (simp add: etharp_free_entry_def upd_entry_def empty_entry_def)

text \<open>What \<open>etharp_find_entry\<close> makes of an entry it takes for a new address.\<close>

definition taken_for :: "u32 \<Rightarrow> etharp_entry \<Rightarrow> bool" where
  "taken_for ip e \<longleftrightarrow> arp_state e = ETHARP_STATE_EMPTY \<and> arp_ipaddr e = ip \<and> arp_ctime e = 0 \<and> arp_q e = []"

lemma new_entry_ok:
  assumes ok: "arp_ok st" and i: "i < ARP_TABLE_SIZE" and e: "arp_state (arp_table st ! i) = ETHARP_STATE_EMPTY"
  shows "\<exists>st'. new_entry (Some ip) i st = Inr (Some i, st') \<and> arp_ok st' \<and> taken_for ip (arp_table st' ! i) \<and>
    st' = st\<lparr>arp_table := (arp_table st)[i := arp_table st' ! i]\<rparr>"
proof -
  let ?e = "(arp_table st ! i)\<lparr>arp_ipaddr := ip, arp_ctime := 0\<rparr>"
  let ?st = "upd_entry i (arp_ctime_update (\<lambda>_. 0)) (upd_entry i (arp_ipaddr_update (\<lambda>_. ip)) st)"
  have len: "i < length (arp_table st)" using ok i by (simp add: arp_ok_def)
  then have tab: "arp_table ?st = (arp_table st)[i := ?e]" by simp
  have "arp_q (arp_table st ! i) = []" using ok e len by (auto simp: arp_ok_def)
  then have "arp_ok ?st"
    using e ok by (intro arp_ok_replace [OF ok i tab]) (auto simp: entry_for_def arp_ok_def)
  moreover have "new_entry (Some ip) i st = Inr (Some i, ?st)" using i e by (simp add: new_entry_def)
  moreover have "arp_table ?st ! i = ?e" using tab len by simp
  moreover have "?st = st\<lparr>arp_table := (arp_table st)[i := ?e]\<rparr>" using len by (simp add: upd_entry_def)
  ultimately show ?thesis using e \<open>arp_q (arp_table st ! i) = []\<close> by (intro exI [of _ ?st]) (simp add: taken_for_def)
qed

lemma find_entry_recycle:
  assumes ok: "arp_ok st" and i: "i < ARP_TABLE_SIZE" and q: "arp_q (arp_table st ! i) = []"
  shows "\<exists>st'. obind (etharp_free_entry i st) (new_entry (Some ip) i) = Inr (Some i, st') \<and> arp_ok st' \<and>
    taken_for ip (arp_table st' ! i) \<and> st' = st\<lparr>arp_table := (arp_table st)[i := arp_table st' ! i]\<rparr>"
proof -
  let ?st = "upd_entry i (\<lambda>e. empty_entry) st"
  have len: "i < length (arp_table st)" using ok i by (simp add: arp_ok_def)
  have "arp_ok ?st"
    using ok by (intro arp_ok_replace [OF ok i, of ?st empty_entry]) (auto simp: entry_for_def empty_entry_def arp_ok_def)
  moreover have "arp_state (arp_table ?st ! i) = ETHARP_STATE_EMPTY" using len by (simp add: empty_entry_def)
  ultimately obtain st' where st': "new_entry (Some ip) i ?st = Inr (Some i, st')" "arp_ok st'" "taken_for ip (arp_table st' ! i)"
    "st' = ?st\<lparr>arp_table := (arp_table ?st)[i := arp_table st' ! i]\<rparr>" using new_entry_ok [OF _ i] by blast
  have "st' = st\<lparr>arp_table := (arp_table st)[i := arp_table st' ! i]\<rparr>"
    using st'(4) len by (simp add: upd_entry_def)
  then show ?thesis using st' q by (intro exI [of _ st']) (simp add: free_entry_no_queue)
qed

text \<open>
  C23. \<open>etharp_find_entry\<close> on a table that is not filled up by static and pending entries: it finds the
  entry of an address; without one it returns \<open>ERR_MEM\<close> when it is only to search, or when the
  table is full and it may not recycle; otherwise it takes an empty entry or, only when there is
  none, a dynamic entry that no other dynamic entry is older than. It never takes a static or
  pending entry for that, and changes nothing else.
\<close>

theorem etharp_find_entry_correct:
  assumes ok: "arp_ok st" and room: "\<exists>e \<in> set (arp_table st). arp_state e = ETHARP_STATE_EMPTY \<or> dynamic e"
  shows "\<exists>r st'. etharp_find_entry (Some ip) fl st = Inr (r, st') \<and> arp_ok st' \<and>
    (case r of
       None \<Rightarrow> st' = st \<and> (\<forall>e \<in> set (arp_table st). \<not> entry_for ip e) \<and>
         (fl AND ETHARP_FLAG_FIND_ONLY \<noteq> 0 \<or>
          fl AND ETHARP_FLAG_TRY_HARD = 0 \<and> (\<forall>e \<in> set (arp_table st). arp_state e \<noteq> ETHARP_STATE_EMPTY))
     | Some i \<Rightarrow> i < ARP_TABLE_SIZE \<and>
         (st' = st \<and> entry_for ip (arp_table st ! i) \<or>
          (\<forall>e \<in> set (arp_table st). \<not> entry_for ip e) \<and> fl AND ETHARP_FLAG_FIND_ONLY = 0 \<and>
          taken_for ip (arp_table st' ! i) \<and> st' = st\<lparr>arp_table := (arp_table st)[i := arp_table st' ! i]\<rparr> \<and>
          (arp_state (arp_table st ! i) = ETHARP_STATE_EMPTY \<or>
           (\<forall>e \<in> set (arp_table st). arp_state e \<noteq> ETHARP_STATE_EMPTY) \<and> dynamic (arp_table st ! i) \<and>
           (\<forall>e \<in> set (arp_table st). dynamic e \<longrightarrow> arp_ctime e \<le> arp_ctime (arp_table st ! i)))))"
proof (cases "find_loop (Some ip) 0 (arp_table st) no_candidates")
  case (Inl j)
  have len: "length (arp_table st) = ARP_TABLE_SIZE" using ok by (simp add: arp_ok_def)
  show ?thesis using find_loop_match [OF Inl] Inl ok len by (auto simp: etharp_find_entry_def)
next
  case (Inr c)
  have len: "length (arp_table st) = ARP_TABLE_SIZE" using ok by (simp add: arp_ok_def)
  note no_match = find_loop_no_match [OF Inr]
  have empty: "c_empty c = ARP_TABLE_SIZE \<and> (\<forall>e \<in> set (arp_table st). arp_state e \<noteq> ETHARP_STATE_EMPTY) \<or>
      c_empty c < ARP_TABLE_SIZE \<and> arp_state (arp_table st ! c_empty c) = ETHARP_STATE_EMPTY"
    using find_loop_empty [OF Inr] len by (auto simp: no_candidates_def)
  consider "fl AND ETHARP_FLAG_FIND_ONLY \<noteq> 0 \<or> c_empty c = ARP_TABLE_SIZE \<and> fl AND ETHARP_FLAG_TRY_HARD = 0"
    | "fl AND ETHARP_FLAG_FIND_ONLY = 0" "c_empty c < ARP_TABLE_SIZE"
    | "fl AND ETHARP_FLAG_FIND_ONLY = 0" "c_empty c = ARP_TABLE_SIZE" "fl AND ETHARP_FLAG_TRY_HARD \<noteq> 0"
    using empty by blast
  then show ?thesis
  proof cases
    case 1
    then have "etharp_find_entry (Some ip) fl st = Inr (None, st)" using Inr by (auto simp: etharp_find_entry_def)
    then show ?thesis using 1 empty no_match ok by auto
  next
    case 2
    have es: "arp_state (arp_table st ! c_empty c) = ETHARP_STATE_EMPTY" using 2 empty by auto
    obtain st' where st': "new_entry (Some ip) (c_empty c) st = Inr (Some (c_empty c), st')" "arp_ok st'"
      "taken_for ip (arp_table st' ! c_empty c)" "st' = st\<lparr>arp_table := (arp_table st)[c_empty c := arp_table st' ! c_empty c]\<rparr>"
      using new_entry_ok [OF ok 2(2) es] by blast
    have "etharp_find_entry (Some ip) fl st = Inr (Some (c_empty c), st')"
      using 2 Inr st'(1) by (simp add: etharp_find_entry_def)
    then show ?thesis using st'(2-4) es 2 no_match by (intro exI [of _ "Some (c_empty c)"] exI [of _ st']) simp
  next
    case 3
    then have full: "\<forall>e \<in> set (arp_table st). arp_state e \<noteq> ETHARP_STATE_EMPTY" using empty by auto
    then obtain e where e: "e \<in> set (arp_table st)" "dynamic e" using room by auto
    let ?i = "c_stable c"
    have stab: "?i < ARP_TABLE_SIZE" "dynamic (arp_table st ! ?i)"
      "\<forall>e \<in> set (arp_table st). dynamic e \<longrightarrow> arp_ctime e \<le> arp_ctime (arp_table st ! ?i)"
      using find_loop_stable [OF Inr] e len by (auto simp: no_candidates_def)
    have q: "arp_q (arp_table st ! ?i) = []"
    proof (rule ccontr)
      assume "arp_q (arp_table st ! ?i) \<noteq> []"
      then have "arp_state (arp_table st ! ?i) = ETHARP_STATE_PENDING" using ok stab(1) len by (auto simp: arp_ok_def)
      then show False using stab(2) by (simp add: dynamic_def)
    qed
    obtain st' where st': "obind (etharp_free_entry ?i st) (new_entry (Some ip) ?i) = Inr (Some ?i, st')" "arp_ok st'"
      "taken_for ip (arp_table st' ! ?i)" "st' = st\<lparr>arp_table := (arp_table st)[?i := arp_table st' ! ?i]\<rparr>"
      using find_entry_recycle [OF ok stab(1) q] by blast
    have "etharp_find_entry (Some ip) fl st = Inr (Some ?i, st')"
      using 3 Inr st'(1) stab(1) q by (simp add: etharp_find_entry_def)
    then show ?thesis using st'(2-4) stab full 3(1) no_match by (intro exI [of _ "Some ?i"] exI [of _ st']) simp
  qed
qed

theorem etharp_find_entry_correct_witness:
  "\<exists>r st'. etharp_find_entry (Some 0x0200000a) ETHARP_FLAG_TRY_HARD (demo_arp [] (chain_state 1)) = Inr (r, st') \<and> arp_ok st'"
proof -
  have "arp_ok (demo_arp [] (chain_state 1))"
    by (auto simp: arp_ok_def demo_arp_def ARP_TABLE_SIZE_def entry_for_def empty_entry_def)
  moreover have "\<exists>e \<in> set (arp_table (demo_arp [] (chain_state 1))). arp_state e = ETHARP_STATE_EMPTY \<or> dynamic e"
    by (simp add: demo_arp_def empty_entry_def)
  ultimately show ?thesis using etharp_find_entry_correct [of "demo_arp [] (chain_state 1)"] by blast
qed

lemma find_existing:
  assumes ok: "arp_ok st" and i: "i < ARP_TABLE_SIZE" "entry_for ip (arp_table st ! i)"
  shows "etharp_find_entry (Some ip) fl st = Inr (Some i, st)"
proof -
  have len: "length (arp_table st) = ARP_TABLE_SIZE" using ok by (simp add: arp_ok_def)
  show ?thesis
  proof (cases "find_loop (Some ip) 0 (arp_table st) no_candidates")
    case (Inl j)
    then have "j < ARP_TABLE_SIZE" "entry_for ip (arp_table st ! j)" using find_loop_match [OF Inl] len by auto
    then have "j = i" using ok i unfolding arp_ok_def by blast
    then show ?thesis using Inl by (simp add: etharp_find_entry_def)
  next
    case (Inr c)
    then show ?thesis using find_loop_no_match [OF Inr] i len by (metis nth_mem)
  qed
qed

text \<open>
  C10. When the address of an entry becomes known, \<open>etharp_update_arp_entry\<close> sends the packets that
  have been waiting for it, in the order in which they were queued and each as one frame to that
  address, releases them, and the address is found from then on.
\<close>

theorem etharp_update_resolves:
  assumes ok: "arp_ok st" "pst_ok (pst st)" and hw: "length (netif_hwaddr (netifs st netif)) = 6" "length ethaddr = 6"
    and uni: "ip \<noteq> IPADDR_ANY" "\<not> ip4_addr_isbroadcast_u32 ip (netifs st netif)" "\<not> ip4_addr_ismulticast ip"
    and i: "i < ARP_TABLE_SIZE" "entry_for ip (arp_table st ! i)" "arp_state (arp_table st ! i) \<noteq> ETHARP_STATE_STATIC"
    and q: "queue_ok (pst st) (arp_q (arp_table st ! i)) ass" "distinct (concat ass)"
    and fl: "fl AND ETHARP_FLAG_STATIC_ENTRY = 0"
  shows "\<exists>st'. etharp_update_arp_entry netif ip ethaddr fl st = Inr (ERR_OK, st') \<and> arp_ok st' \<and> pst_ok (pst st') \<and>
    wire st' = wire st @ map (ip_frame st netif ethaddr) ass \<and>
    allocated (pst st') = allocated (pst st) - set (concat ass) \<and>
    arp_q (arp_table st' ! i) = [] \<and> (\<forall>j. j \<noteq> i \<longrightarrow> arp_table st' ! j = arp_table st ! j) \<and>
    etharp_find_addr netif ip st' = Inr (Some (i, ethaddr, ip), st')"
proof -
  have len: "i < length (arp_table st)" using ok i by (simp add: arp_ok_def)
  let ?e = "(arp_table st ! i)\<lparr>arp_state := ETHARP_STATE_STABLE, arp_netif := Some netif, arp_ethaddr := ethaddr, arp_ctime := 0\<rparr>"
  let ?st1 = "upd_entry i (\<lambda>e. e\<lparr>arp_state := ETHARP_STATE_STABLE, arp_netif := Some netif, arp_ethaddr := ethaddr, arp_ctime := 0\<rparr>) st"
  let ?st2 = "upd_entry i (arp_q_update (\<lambda>_. [])) ?st1"
  have tab2: "arp_table ?st2 = (arp_table st)[i := ?e\<lparr>arp_q := []\<rparr>]" using len by simp
  have q1: "arp_q (arp_table ?st1 ! i) = arp_q (arp_table st ! i)" using len by simp
  have "queue_ok (pst ?st2) (arp_q (arp_table st ! i)) ass" using q by simp
  with ok(2) hw q(2) obtain ps where ps: "send_queue netif ethaddr (arp_q (arp_table st ! i)) ?st2 =
      Inr (?st2\<lparr>pst := ps, wire := wire ?st2 @ map (ip_frame ?st2 netif ethaddr) ass,
        arp_queue := fold (\<lambda>(r, _). memp_free_pool (Some r)) (arp_q (arp_table st ! i)) (arp_queue ?st2)\<rparr>)"
    "pst_ok ps" "allocated ps = allocated (pst st) - set (concat ass)"
    using send_queue_ok [of ?st2 netif ethaddr "arp_q (arp_table st ! i)" ass] by auto
  define st' where "st' = ?st2\<lparr>pst := ps, wire := wire ?st2 @ map (ip_frame ?st2 netif ethaddr) ass,
      arp_queue := fold (\<lambda>(r, _). memp_free_pool (Some r)) (arp_q (arp_table st ! i)) (arp_queue ?st2)\<rparr>"
  have upd: "etharp_update_arp_entry netif ip ethaddr fl st = Inr (ERR_OK, st')"
    unfolding st'_def using hw uni find_existing [OF ok(1) i(1,2), of fl] i(3) fl ps(1) q1
    by (simp add: etharp_update_arp_entry_def ETH_HWADDR_LEN_def Let_def del: upd_entry_simps(1))
  have tab: "arp_table st' = (arp_table st)[i := ?e\<lparr>arp_q := []\<rparr>]" using tab2 by (simp add: st'_def)
  have ip: "arp_ipaddr (arp_table st ! i) = ip" using i(2) by (simp add: entry_for_def)
  have arp: "arp_ok st'"
  proof (rule arp_ok_replace [OF ok(1) i(1) tab])
    show "etharp_cached_entry st' < ARP_TABLE_SIZE" using ok(1) by (simp add: st'_def arp_ok_def)
    fix j a
    assume "entry_for a (?e\<lparr>arp_q := []\<rparr>)" and j: "j < ARP_TABLE_SIZE" "j \<noteq> i"
    then have "a = ip" using ip by (simp add: entry_for_def)
    then show "\<not> entry_for a (arp_table st ! j)" using ok(1) i(1,2) j unfolding arp_ok_def by blast
  qed simp_all
  have e': "arp_table st' ! i = ?e\<lparr>arp_q := []\<rparr>" using tab len by simp
  have "entry_for ip (arp_table st' ! i)" unfolding e' using ip by (simp add: entry_for_def)
  then have "etharp_find_addr netif ip st' = Inr (Some (i, ethaddr, ip), st')"
    using find_existing [OF arp i(1)] ip by (simp add: etharp_find_addr_def Let_def e')
  moreover have "wire st' = wire st @ map (ip_frame st netif ethaddr) ass" "pst st' = ps"
    by (simp_all add: st'_def ip_frame_def)
  ultimately show ?thesis using upd arp ps(2,3) e' tab by (intro exI [of _ st']) simp
qed

definition waiting_state :: astate where
  "waiting_state =
     (let ps = put_pbuf (Pool 0) ((chain_buf 1 0)\<lparr>p_off := 14\<rparr>) (chain_state 1) in
      (demo_arp [empty_entry\<lparr>arp_state := ETHARP_STATE_PENDING, arp_netif := Some 0, arp_ipaddr := 0x0200000a,
        arp_q := [(0, Pool 0)]\<rparr>] ps))"

lemma waiting_state_ok: "arp_ok waiting_state" "pst_ok (pst waiting_state)"
proof -
  show "arp_ok waiting_state"
    unfolding arp_ok_def waiting_state_def Let_def demo_arp_def
    by (auto simp: ARP_TABLE_SIZE_def entry_for_def empty_entry_def nth_Cons' split: if_splits)
  have "pbufs (chain_state 1) (Pool 0) = Some (chain_buf 1 0)" using pbufs_chain_state [of 0 1] by simp
  from put_pbuf_ok(1) [OF pst_ok_chain_state this, of "(chain_buf 1 0)\<lparr>p_off := 14\<rparr>"]
  show "pst_ok (pst waiting_state)" by (simp add: waiting_state_def demo_arp_def Let_def)
qed

theorem etharp_update_resolves_witness:
  "\<exists>st'. etharp_update_arp_entry 0 0x0200000a [2, 0, 0, 0, 0, 2] ETHARP_FLAG_TRY_HARD waiting_state = Inr (ERR_OK, st') \<and>
     length (wire st') = 1 \<and> etharp_find_addr 0 0x0200000a st' = Inr (Some (0, [2, 0, 0, 0, 0, 2], 0x0200000a), st')"
proof -
  let ?st = waiting_state
  have e0: "arp_table ?st ! 0 = empty_entry\<lparr>arp_state := ETHARP_STATE_PENDING, arp_netif := Some 0, arp_ipaddr := 0x0200000a,
      arp_q := [(0, Pool 0)]\<rparr>" "netifs ?st 0 = demo_netif" "wire ?st = []"
    by (simp_all add: waiting_state_def demo_arp_def Let_def)
  have b: "pbufs (pst ?st) (Pool 0) = Some ((chain_buf 1 0)\<lparr>p_off := 14\<rparr>)"
    by (simp add: waiting_state_def demo_arp_def Let_def)
  have "has_headroom ((chain_buf 1 0)\<lparr>p_off := 14\<rparr>)"
    by (simp add: has_headroom_def wf_buf_def chain_buf_def PBUF_TYPE_FLAG_STRUCT_DATA_CONTIGUOUS_def)
  then have q: "queue_ok (pst ?st) (arp_q (arp_table ?st ! 0)) [[Pool 0]]"
    using b by (simp add: e0 chain_buf_def)
  have uni: "\<not> ip4_addr_isbroadcast_u32 0x0200000a (netifs ?st 0)" "\<not> ip4_addr_ismulticast 0x0200000a"
    by (simp_all add: e0 demo_netif_def ip4_addr_isbroadcast_u32_def ip4_addr_ismulticast_def PP_HTONL_def
        IPADDR_ANY_def NETIF_FLAG_BROADCAST_def ip4_addr_net_eq_def IPADDR_BROADCAST_def)
  obtain st' where "etharp_update_arp_entry 0 0x0200000a [2, 0, 0, 0, 0, 2] ETHARP_FLAG_TRY_HARD ?st = Inr (ERR_OK, st')"
    "wire st' = wire ?st @ map (ip_frame ?st 0 [2, 0, 0, 0, 0, 2]) [[Pool 0]]"
    "etharp_find_addr 0 0x0200000a st' = Inr (Some (0, [2, 0, 0, 0, 0, 2], 0x0200000a), st')"
    using etharp_update_resolves [OF waiting_state_ok, of 0 "[2, 0, 0, 0, 0, 2]" "0x0200000a" 0 "[[Pool 0]]" ETHARP_FLAG_TRY_HARD]
      uni q by (auto simp: e0 demo_netif_def entry_for_def ARP_TABLE_SIZE_def IPADDR_ANY_def ETHARP_FLAG_TRY_HARD_def ETHARP_FLAG_STATIC_ENTRY_def)
  then show ?thesis by (auto simp: e0)
qed

section \<open>Ageing\<close>

text \<open>What one tick of the timer makes of an entry without queued packets.\<close>

definition age_entry :: "etharp_entry \<Rightarrow> etharp_entry" where
  "age_entry e =
     (if arp_state e = ETHARP_STATE_EMPTY \<or> arp_state e = ETHARP_STATE_STATIC then e
      else if arp_ctime e + 1 \<ge> ARP_MAXAGE \<or> arp_state e = ETHARP_STATE_PENDING \<and> arp_ctime e + 1 \<ge> ARP_MAXPENDING
      then empty_entry
      else e\<lparr>arp_ctime := arp_ctime e + 1, arp_state :=
        (case arp_state e of
           ETHARP_STATE_STABLE_REREQUESTING_1 \<Rightarrow> ETHARP_STATE_STABLE_REREQUESTING_2
         | ETHARP_STATE_STABLE_REREQUESTING_2 \<Rightarrow> ETHARP_STATE_STABLE
         | s \<Rightarrow> s)\<rparr>)"

definition env_ok :: "astate \<Rightarrow> bool" where
  "env_ok st \<longleftrightarrow> pst_ok (pst st) \<and> (\<forall>n. length (netif_hwaddr (netifs st n)) = 6)"

lemma state_same: "arp_state e = s \<Longrightarrow> e\<lparr>arp_ctime := c, arp_state := s\<rparr> = e\<lparr>arp_ctime := c\<rparr>"
  by (cases e) simp

lemma etharp_request_ok:
  assumes "pst_ok (pst st)" and "length (netif_hwaddr (netifs st netif)) = 6"
  shows "\<exists>r st'. etharp_request netif ip st = Inr (r, st') \<and> pst_ok (pst st') \<and> pbufs (pst st') = pbufs (pst st) \<and>
    allocated (pst st') = allocated (pst st) \<and> st' = st\<lparr>pst := pst st', wire := wire st'\<rparr>"
  unfolding etharp_request_def etharp_request_dst_def Let_def
  using etharp_raw_ok [OF assms assms(2) lengths(4) assms(2) lengths(3)] by blast

text \<open>
  What the queues of the table hold: \<open>A i\<close> are the pbufs of the packets of entry \<open>i\<close>, packet by packet, and \<open>q_elems\<close> the elements of
  the pool that link them. No pbuf and no element is in two places.
\<close>

definition q_elems :: "astate \<Rightarrow> nat \<Rightarrow> nat set" where
  "q_elems st i = fst ` set (arp_q (arp_table st ! i))"

definition held_pbufs :: "(nat \<Rightarrow> pptr list list) \<Rightarrow> pptr set" where
  "held_pbufs A = (\<Union>i < ARP_TABLE_SIZE. set (concat (A i)))"

definition held_elems :: "astate \<Rightarrow> nat set" where
  "held_elems st = (\<Union>i < ARP_TABLE_SIZE. q_elems st i)"

definition queues_ok :: "astate \<Rightarrow> (nat \<Rightarrow> pptr list list) \<Rightarrow> bool" where
  "queues_ok st A \<longleftrightarrow> pool_ok (arp_queue st) \<and>
     (\<forall>i < ARP_TABLE_SIZE. queue_ok (pst st) (arp_q (arp_table st ! i)) (A i) \<and> distinct (concat (A i)) \<and>
        distinct (map fst (arp_q (arp_table st ! i))) \<and> (\<forall>r \<in> q_elems st i. pool_live (arp_queue st) r \<noteq> None)) \<and>
     (\<forall>i < ARP_TABLE_SIZE. \<forall>j < ARP_TABLE_SIZE. i \<noteq> j \<longrightarrow>
        set (concat (A i)) \<inter> set (concat (A j)) = {} \<and> q_elems st i \<inter> q_elems st j = {})"

text \<open>Just the pbufs in \<open>P\<close> and the elements in \<open>E\<close> have been given back.\<close>

definition given_back :: "astate \<Rightarrow> pptr set \<Rightarrow> nat set \<Rightarrow> astate \<Rightarrow> bool" where
  "given_back st P E st' \<longleftrightarrow> allocated (pst st') = allocated (pst st) - P \<and>
     pbufs (pst st') = (\<lambda>a. if a \<in> P then None else pbufs (pst st) a) \<and>
     pool_live (arp_queue st') = (\<lambda>r. if r \<in> E then None else pool_live (arp_queue st) r)"

lemma given_back_trans: "given_back st P E st1 \<Longrightarrow> given_back st1 Q F st2 \<Longrightarrow> given_back st (P \<union> Q) (E \<union> F) st2"
  by (auto simp: given_back_def fun_eq_iff)

lemma given_back_none: "pbufs (pst st') = pbufs (pst st) \<Longrightarrow> allocated (pst st') = allocated (pst st) \<Longrightarrow> arp_queue st' = arp_queue st \<Longrightarrow>
    given_back st {} {} st'"
  by (simp add: given_back_def)

lemma free_q_loop_ok:
  assumes "pst_ok (pst st)" and "queue_ok (pst st) q ass" and "distinct (concat ass)"
    and "pool_ok (arp_queue st)" and "distinct (map fst q)" and "\<forall>r \<in> fst ` set q. pool_live (arp_queue st) r \<noteq> None"
  shows "\<exists>ps d. free_q_loop q st = Inr (st\<lparr>pst := ps, arp_queue := d\<rparr>) \<and> pst_ok ps \<and> pool_ok d \<and>
    given_back st (set (concat ass)) (fst ` set q) (st\<lparr>pst := ps, arp_queue := d\<rparr>)"
  using assms
proof (induction q arbitrary: st ass)
  case Nil
  then show ?case by (intro exI [of _ "pst st"] exI [of _ "arp_queue st"]) (simp add: given_back_def)
next
  case (Cons x q)
  obtain r p where x: "x = (r, p)" by (cases x)
  obtain as ass' where ass: "ass = (p # as) # ass'" and chain: "pchain (pbufs (pst st)) (Some p) (p # as)"
    and one: "\<forall>a b. a \<in> set (p # as) \<longrightarrow> pbufs (pst st) a = Some b \<longrightarrow> ref b = 1"
    and rest: "queue_ok (pst st) q ass'" using Cons.prems(2) x by (auto simp del: pchain.simps)
  have disj: "set (p # as) \<inter> set (concat ass') = {}" "distinct (concat ass')" using Cons.prems(3) ass by auto
  note rel = release_all [OF chain] 
  obtain ps where ps: "pbuf_free (Some p) (pst st) = Inr (of_nat (length (p # as)), ps)" "pst_ok ps"
    "pbufs ps = (\<lambda>a. if a \<in> set (p # as) then None else pbufs (pst st) a)" "allocated ps = allocated (pst st) - set (p # as)"
    using pbuf_free_chain [OF Cons.prems(1) chain] rel one by auto
  let ?d = "memp_free_pool (Some r) (arp_queue st)"
  have d: "pool_ok ?d" "pool_live ?d = (pool_live (arp_queue st))(r := None)"
    using pool_free_live [OF Cons.prems(4), of r] Cons.prems(6) x by simp_all
  define st2 where "st2 = st\<lparr>pst := ps, arp_queue := ?d\<rparr>"
  have same: "pbufs ps a = pbufs (pst st) a" if "a \<in> set (concat ass')" for a using that disj(1) by (auto simp: ps(3))
  have q: "queue_ok (pst st2) q ass'" using queue_ok_cong [OF rest, of ps] same by (simp add: st2_def)
  have live: "\<forall>r' \<in> fst ` set q. pool_live (arp_queue st2) r' \<noteq> None"
    using Cons.prems(5,6) x by (auto simp: st2_def d(2))
  have st2: "pst_ok (pst st2)" "pool_ok (arp_queue st2)" "distinct (map fst q)"
    using ps(2) d(1) Cons.prems(5) by (simp_all add: st2_def)
  obtain ps' d' where r: "free_q_loop q st2 = Inr (st2\<lparr>pst := ps', arp_queue := d'\<rparr>)" "pst_ok ps'" "pool_ok d'"
    "given_back st2 (set (concat ass')) (fst ` set q) (st2\<lparr>pst := ps', arp_queue := d'\<rparr>)"
    using Cons.IH [OF st2(1) q disj(2) st2(2,3) live] by blast
  have "free_q_loop (x # q) st = Inr (st\<lparr>pst := ps', arp_queue := d'\<rparr>)"
    using r(1) ps(1) by (simp add: x free_pbuf_def st2_def)
  moreover have "given_back st (set (p # as)) {r} st2" by (auto simp: given_back_def st2_def ps(3,4) d(2))
  from given_back_trans [OF this r(4)] have "given_back st (set (concat ass)) (fst ` set (x # q)) (st\<lparr>pst := ps', arp_queue := d'\<rparr>)"
    by (simp add: ass x st2_def)
  ultimately show ?case using r(2,3) by blast
qed

lemma free_entry_queue:
  assumes "i < length (arp_table st)" and "free_q_loop (arp_q (arp_table st ! i)) st = Inr (st\<lparr>pst := ps, arp_queue := d\<rparr>)"
  shows "etharp_free_entry i st = Inr (upd_entry i (\<lambda>e. empty_entry) (st\<lparr>pst := ps, arp_queue := d\<rparr>))"
proof (cases "arp_q (arp_table st ! i) = []")
  case True
  then have "st\<lparr>pst := ps, arp_queue := d\<rparr> = st" using assms(2) by simp
  then show ?thesis using free_entry_no_queue [OF True] by simp
next
  case False
  then show ?thesis using assms
    by (cases "arp_table st ! i") (simp add: etharp_free_entry_def free_etharp_q_def lwip_assert_def upd_entry_def empty_entry_def)
qed

lemma queues_same:
  assumes "queues_ok st A" and "\<And>j. j < ARP_TABLE_SIZE \<Longrightarrow> arp_q (arp_table st' ! j) = arp_q (arp_table st ! j)"
    and "pbufs (pst st') = pbufs (pst st)" and "arp_queue st' = arp_queue st"
  shows "queues_ok st' A" and "held_elems st' = held_elems st"
proof -
  have e: "q_elems st' j = q_elems st j" if "j < ARP_TABLE_SIZE" for j using assms(2) [OF that] by (simp add: q_elems_def)
  have "queue_ok (pst st') (arp_q (arp_table st' ! j)) (A j)" if "j < ARP_TABLE_SIZE" for j
  proof -
    have "queue_ok (pst st) (arp_q (arp_table st ! j)) (A j)" using assms(1) that unfolding queues_ok_def by blast
    then show ?thesis unfolding assms(2) [OF that] by (rule queue_ok_cong) (simp add: assms(3))
  qed
  moreover have "distinct (concat (A j)) \<and> distinct (map fst (arp_q (arp_table st' ! j))) \<and>
      (\<forall>r \<in> q_elems st' j. pool_live (arp_queue st') r \<noteq> None)" if "j < ARP_TABLE_SIZE" for j
    unfolding e [OF that] assms(2) [OF that] assms(4) using assms(1) that unfolding queues_ok_def by blast
  moreover have "set (concat (A j)) \<inter> set (concat (A k)) = {} \<and> q_elems st' j \<inter> q_elems st' k = {}"
    if "j < ARP_TABLE_SIZE" "k < ARP_TABLE_SIZE" "j \<noteq> k" for j k
    unfolding e [OF that(1)] e [OF that(2)] using assms(1) that unfolding queues_ok_def by blast
  moreover have "pool_ok (arp_queue st')" using assms(1,4) by (simp only: queues_ok_def)
  ultimately show "queues_ok st' A" unfolding queues_ok_def by blast
  show "held_elems st' = held_elems st" using e by (simp add: held_elems_def)
qed

lemma queues_without:
  assumes ok: "queues_ok st A" and i: "i < ARP_TABLE_SIZE"
    and q: "arp_q (arp_table st' ! i) = []" "\<And>j. j < ARP_TABLE_SIZE \<Longrightarrow> j \<noteq> i \<Longrightarrow> arp_q (arp_table st' ! j) = arp_q (arp_table st ! j)"
    and gb: "given_back st (set (concat (A i))) (q_elems st i) st'" and pool: "pool_ok (arp_queue st')"
  shows "queues_ok st' (A(i := []))" and "held_pbufs (A(i := [])) = held_pbufs A - set (concat (A i))" "set (concat (A i)) \<subseteq> held_pbufs A"
    and "held_elems st' = held_elems st - q_elems st i" "q_elems st i \<subseteq> held_elems st"
proof -
  let ?S = ARP_TABLE_SIZE
  have e: "q_elems st' j = (if j = i then {} else q_elems st j)" if "j < ?S" for j using q that by (simp add: q_elems_def)
  have disj: "set (concat (A i)) \<inter> set (concat (A j)) = {}" "q_elems st i \<inter> q_elems st j = {}" if "j < ?S" "j \<noteq> i" for j
    using ok i that unfolding queues_ok_def by blast+
  have old: "queue_ok (pst st) (arp_q (arp_table st ! j)) (A j) \<and> distinct (concat (A j)) \<and> distinct (map fst (arp_q (arp_table st ! j))) \<and>
      (\<forall>r \<in> q_elems st j. pool_live (arp_queue st) r \<noteq> None)" if "j < ?S" for j
    using ok that unfolding queues_ok_def by blast
  have "queue_ok (pst st') (arp_q (arp_table st' ! j)) ((A(i := [])) j) \<and> distinct (concat ((A(i := [])) j)) \<and>
      distinct (map fst (arp_q (arp_table st' ! j))) \<and> (\<forall>r \<in> q_elems st' j. pool_live (arp_queue st') r \<noteq> None)" if j: "j < ?S" for j
  proof (cases "j = i")
    case True
    then show ?thesis using q(1) e [OF j] by simp
  next
    case False
    have "pbufs (pst st') a = pbufs (pst st) a" if "a \<in> set (concat (A j))" for a
      using that disj(1) [OF j False] gb by (auto simp: given_back_def)
    then have "queue_ok (pst st') (arp_q (arp_table st ! j)) (A j)" using old [OF j] queue_ok_cong by blast
    moreover have "pool_live (arp_queue st') r \<noteq> None" if "r \<in> q_elems st j" for r
      using that disj(2) [OF j False] gb old [OF j] by (auto simp: given_back_def)
    ultimately show ?thesis using old [OF j] q(2) [OF j False] e [OF j] False by simp
  qed
  moreover have "set (concat ((A(i := [])) j)) \<inter> set (concat ((A(i := [])) k)) = {} \<and> q_elems st' j \<inter> q_elems st' k = {}"
    if "j < ?S" "k < ?S" "j \<noteq> k" for j k
  proof -
    have "set (concat (A j)) \<inter> set (concat (A k)) = {}" "q_elems st j \<inter> q_elems st k = {}" using ok that unfolding queues_ok_def by blast+
    then show ?thesis using that by (simp add: e)
  qed
  ultimately show "queues_ok st' (A(i := []))" using pool unfolding queues_ok_def by blast
  show "held_pbufs (A(i := [])) = held_pbufs A - set (concat (A i))" "set (concat (A i)) \<subseteq> held_pbufs A"
    using disj(1) i unfolding held_pbufs_def by (fastforce split: if_splits)+
  show "held_elems st' = held_elems st - q_elems st i" "q_elems st i \<subseteq> held_elems st"
    using disj(2) i e unfolding held_elems_def by (fastforce split: if_splits)+
qed

lemma tmr_entry_ok:
  assumes env: "env_ok st" and ok: "queues_ok st A" and len: "length (arp_table st) = ARP_TABLE_SIZE" and i: "i < ARP_TABLE_SIZE"
    and e: "arp_state (arp_table st ! i) = ETHARP_STATE_PENDING \<longrightarrow> arp_netif (arp_table st ! i) \<noteq> None"
      "arp_q (arp_table st ! i) \<noteq> [] \<longrightarrow> arp_state (arp_table st ! i) = ETHARP_STATE_PENDING"
  shows "\<exists>st' A'. tmr_entry i st = Inr st' \<and> arp_table st' = (arp_table st)[i := age_entry (arp_table st ! i)] \<and> env_ok st' \<and>
    queues_ok st' A' \<and> held_pbufs A' \<subseteq> held_pbufs A \<and> held_elems st' \<subseteq> held_elems st \<and>
    given_back st (held_pbufs A - held_pbufs A') (held_elems st - held_elems st') st'"
proof -
  let ?e = "arp_table st ! i"
  let ?st = "upd_entry i (\<lambda>e. e\<lparr>arp_ctime := arp_ctime e + 1\<rparr>) st"
  have l: "i < length (arp_table st)" using len i by simp
  have e1: "arp_table ?st ! i = ?e\<lparr>arp_ctime := arp_ctime ?e + 1\<rparr>" using l by simp
  have keep: ?thesis
    if "tmr_entry i st = Inr st'" "arp_table st' = (arp_table st)[i := age_entry ?e]" "env_ok st'" "arp_q (age_entry ?e) = arp_q ?e"
      "pbufs (pst st') = pbufs (pst st)" "allocated (pst st') = allocated (pst st)" "arp_queue st' = arp_queue st" for st'
  proof -
    have "arp_q (arp_table st' ! j) = arp_q (arp_table st ! j)" if "j < ARP_TABLE_SIZE" for j
      using \<open>arp_table st' = _\<close> \<open>arp_q (age_entry ?e) = _\<close> l by (cases "j = i") simp_all
    note q = queues_same [OF ok this that(5,7)]
    show ?thesis using that(1-3) q given_back_none [OF that(5-7)] by (intro exI [of _ st'] exI [of _ A]) simp
  qed
  consider "arp_state ?e = ETHARP_STATE_EMPTY \<or> arp_state ?e = ETHARP_STATE_STATIC"
    | "arp_state ?e \<noteq> ETHARP_STATE_EMPTY" "arp_state ?e \<noteq> ETHARP_STATE_STATIC"
      "arp_ctime ?e + 1 \<ge> ARP_MAXAGE \<or> arp_state ?e = ETHARP_STATE_PENDING \<and> arp_ctime ?e + 1 \<ge> ARP_MAXPENDING"
    | "arp_state ?e = ETHARP_STATE_PENDING" "\<not> arp_ctime ?e + 1 \<ge> ARP_MAXAGE" "\<not> arp_ctime ?e + 1 \<ge> ARP_MAXPENDING"
    | "dynamic ?e" "\<not> arp_ctime ?e + 1 \<ge> ARP_MAXAGE"
    by (cases "arp_state ?e") (auto simp: dynamic_def less_eq_etharp_state_def less_etharp_state_def)
  then show ?thesis
  proof cases
    case 1
    then have "tmr_entry i st = Inr st" "age_entry ?e = ?e" by (auto simp: tmr_entry_def age_entry_def)
    then show ?thesis using env by (intro keep [of st]) simp_all
  next
    case 2
    have a: "age_entry ?e = empty_entry" using 2 by (auto simp: age_entry_def)
    have "queue_ok (pst st) (arp_q ?e) (A i)" "distinct (concat (A i))" "pool_ok (arp_queue st)"
      "distinct (map fst (arp_q ?e))" "\<forall>r \<in> fst ` set (arp_q ?e). pool_live (arp_queue st) r \<noteq> None"
      using ok i unfolding queues_ok_def q_elems_def by blast+
    then obtain ps d where r: "free_q_loop (arp_q ?e) ?st = Inr (?st\<lparr>pst := ps, arp_queue := d\<rparr>)" "pst_ok ps" "pool_ok d"
      "given_back ?st (set (concat (A i))) (fst ` set (arp_q ?e)) (?st\<lparr>pst := ps, arp_queue := d\<rparr>)"
      using free_q_loop_ok [of ?st "arp_q ?e" "A i"] env by (auto simp: env_ok_def)
    define st' where "st' = upd_entry i (\<lambda>e. empty_entry) (?st\<lparr>pst := ps, arp_queue := d\<rparr>)"
    have "tmr_entry i st = etharp_free_entry i ?st"
      using 2 e1 by (auto simp: tmr_entry_def Let_def simp del: upd_entry_simps(1))
    also have "\<dots> = Inr st'"
      unfolding st'_def by (rule free_entry_queue) (use l r(1) e1 in simp_all)
    finally have run: "tmr_entry i st = Inr st'" .
    have tab: "arp_table st' = (arp_table st)[i := age_entry ?e]" by (simp add: st'_def a)
    have env': "env_ok st'" using env r(2) by (simp add: st'_def env_ok_def)
    have gb: "given_back st (set (concat (A i))) (q_elems st i) st'"
      using r(4) unfolding given_back_def st'_def q_elems_def upd_entry_simps by simp
    have "arp_q (arp_table st' ! i) = []" using l by (simp add: tab a empty_entry_def)
    moreover have "arp_q (arp_table st' ! j) = arp_q (arp_table st ! j)" if "j \<noteq> i" for j using that by (simp add: tab)
    moreover have "pool_ok (arp_queue st')" using r(3) by (simp add: st'_def)
    ultimately have w: "queues_ok st' (A(i := []))" "held_pbufs (A(i := [])) = held_pbufs A - set (concat (A i))"
      "set (concat (A i)) \<subseteq> held_pbufs A" "held_elems st' = held_elems st - q_elems st i" "q_elems st i \<subseteq> held_elems st"
      using queues_without [OF ok i _ _ gb] by blast+
    have "held_pbufs A - held_pbufs (A(i := [])) = set (concat (A i))" "held_elems st - held_elems st' = q_elems st i" using w(2-5) by blast+
    then have "given_back st (held_pbufs A - held_pbufs (A(i := []))) (held_elems st - held_elems st') st'" using gb by simp
    then show ?thesis using run tab env' w(1,2,4) by blast
  next
    case 3
    then obtain netif where n: "arp_netif ?e = Some netif" using e(1) by auto
    have "pst_ok (pst ?st)" "length (netif_hwaddr (netifs ?st netif)) = 6" using env by (simp_all add: env_ok_def)
    then obtain r st' where r: "etharp_request netif (arp_ipaddr ?e) ?st = Inr (r, st')" "pst_ok (pst st')"
      "pbufs (pst st') = pbufs (pst ?st)" "allocated (pst st') = allocated (pst ?st)"
      "st' = ?st\<lparr>pst := pst st', wire := wire st'\<rparr>"
      using etharp_request_ok [of ?st netif "arp_ipaddr ?e"] by blast
    have f: "arp_table st' = arp_table ?st" "netifs st' = netifs ?st" "arp_queue st' = arp_queue ?st"
      by (subst r(5), simp)+
    have "tmr_entry i st = Inr st'"
      using 3 e1 n r(1) by (simp add: tmr_entry_def Let_def del: upd_entry_simps(1))
    moreover have "age_entry ?e = ?e\<lparr>arp_ctime := arp_ctime ?e + 1\<rparr>" using 3 by (simp add: age_entry_def)
    ultimately show ?thesis using f r env by (intro keep [of st']) (simp_all add: env_ok_def)
  next
    case 4
    have st: "arp_state ?e = ETHARP_STATE_STABLE \<or> arp_state ?e = ETHARP_STATE_STABLE_REREQUESTING_1 \<or>
        arp_state ?e = ETHARP_STATE_STABLE_REREQUESTING_2"
      using 4(1) by (cases "arp_state ?e") (auto simp: dynamic_def less_eq_etharp_state_def less_etharp_state_def)
    then obtain st' where "tmr_entry i st = Inr st'" "arp_table st' = (arp_table st)[i := age_entry ?e]" "pst st' = pst st"
      "netifs st' = netifs st" "arp_queue st' = arp_queue st"
      using 4(2) l by (elim disjE) (auto simp: tmr_entry_def age_entry_def Let_def state_same)
    moreover have "arp_q (age_entry ?e) = arp_q ?e" using st 4(2) by (auto simp: age_entry_def)
    ultimately show ?thesis using env by (intro keep [of st']) (simp_all add: env_ok_def)
  qed
qed

text \<open>The table between two ticks; \<open>A\<close> says what the queues hold.\<close>

definition entry_ok :: "etharp_entry \<Rightarrow> bool" where
  "entry_ok e \<longleftrightarrow> arp_ctime e < ARP_MAXAGE \<and> (arp_state e = ETHARP_STATE_PENDING \<longrightarrow> arp_netif e \<noteq> None) \<and>
     (arp_q e \<noteq> [] \<longrightarrow> arp_state e = ETHARP_STATE_PENDING)"

definition ageing_ok :: "astate \<Rightarrow> (nat \<Rightarrow> pptr list list) \<Rightarrow> bool" where
  "ageing_ok st A \<longleftrightarrow> env_ok st \<and> queues_ok st A \<and> length (arp_table st) = ARP_TABLE_SIZE \<and> (\<forall>e \<in> set (arp_table st). entry_ok e)"

lemma age_entry_keeps: "entry_ok e \<Longrightarrow> entry_ok (age_entry e)"
  by (cases "arp_state e") (auto simp: entry_ok_def age_entry_def empty_entry_def ARP_MAXAGE_def)

text \<open>What a step of the timer does, beside the table.\<close>

definition aged :: "astate \<Rightarrow> (nat \<Rightarrow> pptr list list) \<Rightarrow> astate \<Rightarrow> (nat \<Rightarrow> pptr list list) \<Rightarrow> bool" where
  "aged st A st' A' \<longleftrightarrow> ageing_ok st' A' \<and> held_pbufs A' \<subseteq> held_pbufs A \<and> held_elems st' \<subseteq> held_elems st \<and>
     given_back st (held_pbufs A - held_pbufs A') (held_elems st - held_elems st') st'"

lemma aged_refl: "ageing_ok st A \<Longrightarrow> aged st A st A"
  by (simp add: aged_def given_back_none)

lemma aged_trans: "aged st A st1 A1 \<Longrightarrow> aged st1 A1 st2 A2 \<Longrightarrow> aged st A st2 A2"
proof -
  assume a: "aged st A st1 A1" "aged st1 A1 st2 A2"
  have "held_pbufs A - held_pbufs A1 \<union> (held_pbufs A1 - held_pbufs A2) = held_pbufs A - held_pbufs A2"
    "held_elems st - held_elems st1 \<union> (held_elems st1 - held_elems st2) = held_elems st - held_elems st2"
    using a unfolding aged_def by blast+
  moreover have "given_back st (held_pbufs A - held_pbufs A1 \<union> (held_pbufs A1 - held_pbufs A2))
      (held_elems st - held_elems st1 \<union> (held_elems st1 - held_elems st2)) st2"
    using a given_back_trans unfolding aged_def by blast
  ultimately show ?thesis using a unfolding aged_def by auto
qed

lemma tmr_loop_ok:
  assumes "ageing_ok st A" and "k \<le> ARP_TABLE_SIZE"
  shows "\<exists>st' A'. tmr_loop [k..<ARP_TABLE_SIZE] st = Inr st' \<and> aged st A st' A' \<and>
    arp_table st' = take k (arp_table st) @ map age_entry (drop k (arp_table st))"
  using assms
proof (induction "ARP_TABLE_SIZE - k" arbitrary: k st A)
  case 0
  then show ?case by (intro exI [of _ st] exI [of _ A]) (simp add: aged_refl ageing_ok_def)
next
  case (Suc m)
  let ?T = "arp_table st"
  have len: "length ?T = ARP_TABLE_SIZE" using Suc.prems(1) by (simp add: ageing_ok_def)
  have k: "k < length ?T" "k < ARP_TABLE_SIZE" using Suc.hyps(2) len by simp_all
  have e: "entry_ok (?T ! k)" using Suc.prems(1) k(1) by (simp add: ageing_ok_def)
  obtain st1 A1 where st1: "tmr_entry k st = Inr st1" "arp_table st1 = ?T[k := age_entry (?T ! k)]" "env_ok st1"
    "queues_ok st1 A1" "held_pbufs A1 \<subseteq> held_pbufs A" "held_elems st1 \<subseteq> held_elems st"
    "given_back st (held_pbufs A - held_pbufs A1) (held_elems st - held_elems st1) st1"
    using tmr_entry_ok [of st A k] Suc.prems(1) k(2) e unfolding ageing_ok_def entry_ok_def by blast
  have "entry_ok x" if "x \<in> set (arp_table st1)" for x
    using that Suc.prems(1) set_update_subset_insert [of ?T k "age_entry (?T ! k)"] age_entry_keeps [OF e]
    unfolding st1(2) ageing_ok_def by blast
  then have aged1: "aged st A st1 A1" using st1(3-7) len unfolding aged_def ageing_ok_def by (simp add: st1(2))
  have "m = ARP_TABLE_SIZE - Suc k" "Suc k \<le> ARP_TABLE_SIZE" "ageing_ok st1 A1"
    using Suc.hyps(2) k(2) aged1 by (simp_all add: aged_def)
  from Suc.hyps(1) [OF this(1,3,2)] obtain st' A' where st': "tmr_loop [Suc k..<ARP_TABLE_SIZE] st1 = Inr st'" "aged st1 A1 st' A'"
    "arp_table st' = take (Suc k) (arp_table st1) @ map age_entry (drop (Suc k) (arp_table st1))" by blast
  have d: "drop k ?T = ?T ! k # drop (Suc k) ?T" using k(1) by (rule Cons_nth_drop_Suc [symmetric])
  have "take (Suc k) (arp_table st1) = take k ?T @ [age_entry (?T ! k)]"
    using k(1) by (simp add: st1(2) take_Suc_conv_app_nth)
  moreover have "drop (Suc k) (arp_table st1) = drop (Suc k) ?T" using k by (simp add: st1(2))
  ultimately have "arp_table st' = take k ?T @ map age_entry (drop k ?T)" using st'(3) d by simp
  moreover have "tmr_loop [k..<ARP_TABLE_SIZE] st = Inr st'" using st1(1) st'(1) k(2) by (simp add: upt_conv_Cons)
  ultimately show ?case using aged_trans [OF aged1 st'(2)] by blast
qed

fun arp_ticks :: "nat \<Rightarrow> astate \<Rightarrow> astate outcome" where
  "arp_ticks 0 st = Inr st"
| "arp_ticks (Suc n) st = obind (etharp_tmr st) (arp_ticks n)"

lemma unat_ctime_Suc: "c < ARP_MAXAGE \<Longrightarrow> unat (c + 1) = Suc (unat c)"
  by (simp add: ARP_MAXAGE_def word_less_nat_alt unat_plus_u16)

lemma arp_ticks_ok:
  assumes "ageing_ok st A"
  shows "\<exists>st' A'. arp_ticks n st = Inr st' \<and> aged st A st' A' \<and> arp_table st' = map (age_entry ^^ n) (arp_table st)"
  using assms
proof (induction n arbitrary: st A)
  case 0
  then show ?case by (intro exI [of _ st] exI [of _ A]) (simp add: aged_refl)
next
  case (Suc n)
  obtain st1 A1 where st1: "etharp_tmr st = Inr st1" "aged st A st1 A1" "arp_table st1 = map age_entry (arp_table st)"
    using tmr_loop_ok [OF Suc.prems, of 0] by (auto simp: etharp_tmr_def)
  obtain st' A' where st': "arp_ticks n st1 = Inr st'" "aged st1 A1 st' A'" "arp_table st' = map (age_entry ^^ n) (arp_table st1)"
    using Suc.IH [of st1 A1] st1(2) unfolding aged_def by blast
  have "arp_ticks (Suc n) st = Inr st'" using st1(1) st'(1) by simp
  moreover have "arp_table st' = map (age_entry ^^ Suc n) (arp_table st)"
    by (simp add: st'(3) st1(3) funpow_Suc_right o_def del: funpow.simps)
  ultimately show ?case using aged_trans [OF st1(2) st'(2)] by blast
qed

definition live_entry :: "etharp_entry \<Rightarrow> bool" where
  "live_entry e \<longleftrightarrow> arp_state e \<noteq> ETHARP_STATE_EMPTY \<and> arp_state e \<noteq> ETHARP_STATE_STATIC"

lemma age_dead: "\<not> live_entry e \<Longrightarrow> (age_entry ^^ n) e = e"
  by (induction n) (auto simp: age_entry_def live_entry_def)

lemma age_live:
  assumes "live_entry e" and "arp_ctime e < ARP_MAXAGE"
  shows "(age_entry ^^ n) e = empty_entry \<or>
    live_entry ((age_entry ^^ n) e) \<and> unat (arp_ctime ((age_entry ^^ n) e)) = unat (arp_ctime e) + n \<and>
    arp_ctime ((age_entry ^^ n) e) < ARP_MAXAGE"
proof (induction n)
  case 0
  then show ?case using assms by simp
next
  case (Suc n)
  have "age_entry empty_entry = empty_entry" by (simp add: age_entry_def empty_entry_def)
  moreover have "age_entry e' = empty_entry \<or>
      live_entry (age_entry e') \<and> unat (arp_ctime (age_entry e')) = Suc (unat (arp_ctime e')) \<and> arp_ctime (age_entry e') < ARP_MAXAGE"
    if "live_entry e'" "arp_ctime e' < ARP_MAXAGE" for e'
    using that by (cases "arp_state e'") (auto simp: age_entry_def live_entry_def unat_ctime_Suc)
  ultimately show ?case using Suc by fastforce
qed

text \<open>
  C30. Dynamic knowledge does not outlive its age, and nothing leaks with it. From a table in which the ages are below the maximum and only
  pending entries, which have an interface, have packets waiting, in queues that share no pbuf and no element and whose packets nobody else
  refers to (the state that \<open>etharp_query\<close> leaves once its caller has released the packet), \<open>ARP_MAXAGE\<close> ticks of the timer all return and leave in the table exactly the static
  entries; all the others are empty. All packets that were waiting are freed and all elements of their queues are given back to their
  pool, and no other pbuf and no other element is touched: what the timer allocates itself, for its ARP requests, it has given back too. In
  particular no counter wraps before it is compared with the maximum.\<close>

theorem arp_entries_expire:
  assumes "ageing_ok st A"
  shows "\<exists>st'. arp_ticks (unat ARP_MAXAGE) st = Inr st' \<and>
    arp_table st' = map (\<lambda>e. if live_entry e then empty_entry else e) (arp_table st) \<and>
    allocated (pst st') = allocated (pst st) - held_pbufs A \<and>
    pbufs (pst st') = (\<lambda>a. if a \<in> held_pbufs A then None else pbufs (pst st) a) \<and>
    pool_live (arp_queue st') = (\<lambda>r. if r \<in> held_elems st then None else pool_live (arp_queue st) r)"
proof -
  have exp: "(age_entry ^^ unat ARP_MAXAGE) e = (if live_entry e then empty_entry else e)" if "entry_ok e" for e
    using age_live [of e "unat ARP_MAXAGE"] age_dead that by (auto simp: word_less_nat_alt entry_ok_def)
  obtain st' A' where st': "arp_ticks (unat ARP_MAXAGE) st = Inr st'" "aged st A st' A'"
    "arp_table st' = map (age_entry ^^ unat ARP_MAXAGE) (arp_table st)"
    using arp_ticks_ok [OF assms] by blast
  have tab: "arp_table st' = map (\<lambda>e. if live_entry e then empty_entry else e) (arp_table st)"
    unfolding st'(3) using exp assms by (intro map_cong refl) (simp add: ageing_ok_def)
  have len: "length (arp_table st) = ARP_TABLE_SIZE" using assms by (simp add: ageing_ok_def)
  have q: "arp_q (arp_table st' ! i) = []" if i: "i < ARP_TABLE_SIZE" for i
  proof -
    have "entry_ok (arp_table st ! i)" using assms i by (simp add: ageing_ok_def)
    then show ?thesis using i len by (auto simp: tab entry_ok_def live_entry_def empty_entry_def)
  qed
  have "queue_ok (pst st') (arp_q (arp_table st' ! i)) (A' i)" if "i < ARP_TABLE_SIZE" for i
    using st'(2) that unfolding aged_def ageing_ok_def queues_ok_def by blast
  then have "A' i = []" if "i < ARP_TABLE_SIZE" for i using q [OF that] that by fastforce
  then have "held_pbufs A' = {}" by (simp add: held_pbufs_def)
  moreover have "held_elems st' = {}" using q by (simp add: held_elems_def q_elems_def)
  ultimately have "given_back st (held_pbufs A) (held_elems st) st'" using st'(2) by (simp add: aged_def)
  then show ?thesis using st'(1) tab by (auto simp: given_back_def)
qed

theorem arp_entries_expire_witness:
  "\<exists>st'. arp_ticks (unat ARP_MAXAGE) waiting_state = Inr st' \<and> arp_table st' ! 0 = empty_entry \<and>
     Pool 0 \<in> allocated (pst waiting_state) \<and> Pool 0 \<notin> allocated (pst st') \<and> pool_live (arp_queue st') 0 = None"
proof -
  let ?st = waiting_state
  define A where "A = (\<lambda>i :: nat. if i = 0 then [[Pool 0]] else [])"
  have tab: "arp_table ?st ! i = (if i = 0 then empty_entry\<lparr>arp_state := ETHARP_STATE_PENDING, arp_netif := Some 0,
      arp_ipaddr := 0x0200000a, arp_q := [(0, Pool 0)]\<rparr> else empty_entry)" if "i < ARP_TABLE_SIZE" for i
    using that by (cases i) (simp_all add: waiting_state_def demo_arp_def Let_def ARP_TABLE_SIZE_def)
  have len: "length (arp_table ?st) = ARP_TABLE_SIZE" by (simp add: waiting_state_def demo_arp_def Let_def ARP_TABLE_SIZE_def)
  have b: "pbufs (pst ?st) (Pool 0) = Some ((chain_buf 1 0)\<lparr>p_off := 14\<rparr>)" and pool: "arp_queue ?st = full_pool 1"
    by (simp_all add: waiting_state_def demo_arp_def Let_def)
  have "has_headroom ((chain_buf 1 0)\<lparr>p_off := 14\<rparr>)"
    by (simp add: has_headroom_def wf_buf_def chain_buf_def PBUF_TYPE_FLAG_STRUCT_DATA_CONTIGUOUS_def)
  then have q: "queue_ok (pst ?st) [(0, Pool 0)] [[Pool 0]]" using b by (simp add: chain_buf_def)
  have live: "pool_ok (full_pool 1)" "pool_live (full_pool 1) 0 \<noteq> None" using full_pool_live [of 1 0] by simp_all
  have el: "q_elems ?st i = (if i = 0 then {0} else {})" if "i < ARP_TABLE_SIZE" for i
    unfolding q_elems_def tab [OF that] by (simp add: empty_entry_def)
  have "queues_ok ?st A"
    using q live unfolding queues_ok_def pool by (auto simp: tab el A_def empty_entry_def)
  moreover have "entry_ok x" if "x \<in> set (arp_table ?st)" for x
    using that tab len by (auto simp: in_set_conv_nth entry_ok_def empty_entry_def ARP_MAXAGE_def split: if_splits)
  moreover have "env_ok ?st" using waiting_state_ok(2)
    by (simp add: env_ok_def) (simp add: waiting_state_def demo_arp_def Let_def demo_netif_def)
  ultimately have ok: "ageing_ok ?st A" using len by (simp add: ageing_ok_def)
  have held: "Pool 0 \<in> held_pbufs A" "0 \<in> held_elems ?st" "0 < ARP_TABLE_SIZE"
    using el by (auto simp: held_pbufs_def held_elems_def A_def ARP_TABLE_SIZE_def)
  have al: "Pool 0 \<in> allocated (pst ?st)" using dom_allocated [OF waiting_state_ok(2)] b by blast
  have "live_entry (arp_table ?st ! 0)" using held(3) by (simp add: tab live_entry_def)
  then show ?thesis using arp_entries_expire [OF ok] held al len by auto
qed


end
