(* ===== verification/Fifo.thy ===== *)
theory Fifo
  imports Prelude
begin

text \<open>
  The contract of a bounded first-in first-out queue, as a locale: the ring buffers of the Ekaline
  library (the user report queue, the feed handler queue) promise it to the threads that push and pop.
  The calls of all threads form one sequence, because every call holds the mutex of its queue.
  The relation \<open>rel n s xs\<close> says that state \<open>s\<close> holds the elements \<open>xs\<close>, oldest first, and that its
  counters have room for \<open>n\<close> more pushes.
\<close>

section \<open>Runs\<close>

datatype 'a queue_op = Push 'a | Pop

fun run_queue ::
  "('a \<Rightarrow> 's \<Rightarrow> ('r \<times> 's) outcome) \<Rightarrow> ('s \<Rightarrow> ('b \<times> 's) outcome) \<Rightarrow>
   'a queue_op list \<Rightarrow> 's \<Rightarrow> ('b list \<times> 's) outcome" where
  "run_queue push pop [] s = Inr ([], s)"
| "run_queue push pop (Push x # ops) s = obind (push x s) (\<lambda>(_, s). run_queue push pop ops s)"
| "run_queue push pop (Pop # ops) s =
     obind (pop s) (\<lambda>(b, s). obind (run_queue push pop ops s) (\<lambda>(bs, s). Inr (b # bs, s)))"

text \<open>The specification: a list of at most \<open>cap\<close> elements; \<open>None\<close> when a call is refused.\<close>

fun fifo_run :: "nat \<Rightarrow> 'a queue_op list \<Rightarrow> 'a list \<Rightarrow> ('a list \<times> 'a list) option" where
  "fifo_run cap [] xs = Some ([], xs)"
| "fifo_run cap (Push x # ops) xs = (if length xs < cap then fifo_run cap ops (xs @ [x]) else None)"
| "fifo_run cap (Pop # ops) xs =
     (case xs of [] \<Rightarrow> None | x # xs \<Rightarrow> map_option (apfst (Cons x)) (fifo_run cap ops xs))"

fun pushed :: "'a queue_op list \<Rightarrow> 'a list" where
  "pushed [] = []"
| "pushed (Push x # ops) = x # pushed ops"
| "pushed (Pop # ops) = pushed ops"

text \<open>First in, first out: what comes out and what is left are what was there and what was pushed.\<close>

lemma fifo_run_order: "fifo_run cap ops xs = Some (out, ys) \<Longrightarrow> out @ ys = xs @ pushed ops"
  by (induction cap ops xs arbitrary: out ys rule: fifo_run.induct) (auto split: if_splits list.splits)

text \<open>Two positions less than the size of a ring apart are different slots.\<close>

lemma ring_slots_differ: "(a :: nat) < b \<Longrightarrow> b - a < n \<Longrightarrow> a mod n \<noteq> b mod n"
  by (metis dvd_imp_le leD less_imp_le_nat mod_eq_dvd_iff_nat zero_less_diff)

section \<open>The contract\<close>

locale bounded_fifo =
  fixes rel :: "nat \<Rightarrow> 's \<Rightarrow> 'a list \<Rightarrow> bool"
    and cap :: nat
    and valid :: "'a \<Rightarrow> bool"
    and push :: "'a \<Rightarrow> 's \<Rightarrow> ('r \<times> 's) outcome"
    and pop :: "'s \<Rightarrow> ('b \<times> 's) outcome"
    and holds :: "'b \<Rightarrow> 'a \<Rightarrow> bool"
  assumes push_law: "rel (Suc n) s xs \<Longrightarrow> valid x \<Longrightarrow> length xs < cap \<Longrightarrow>
      \<exists>r s'. push x s = Inr (r, s') \<and> rel n s' (xs @ [x])"
    and push_full_law: "rel n s xs \<Longrightarrow> length xs = cap \<Longrightarrow> \<exists>e. push x s = Inl e"
    and pop_law: "rel n s (x # xs) \<Longrightarrow> \<exists>b s'. pop s = Inr (b, s') \<and> holds b x \<and> rel n s' xs"
    and pop_empty_law: "rel n s [] \<Longrightarrow> \<exists>e. pop s = Inl e"
    and cap_law: "rel n s xs \<Longrightarrow> length xs \<le> cap"
begin

text \<open>Every run of the queue does what the specification does, failures included.\<close>

lemma run_refines:
  assumes "rel (length (pushed ops)) s xs" and "\<forall>x \<in> set (pushed ops). valid x"
  shows "case fifo_run cap ops xs of
      None \<Rightarrow> \<exists>e. run_queue push pop ops s = Inl e
    | Some (out, ys) \<Rightarrow> \<exists>bs s'. run_queue push pop ops s = Inr (bs, s') \<and> list_all2 holds bs out \<and> rel 0 s' ys"
  using assms
proof (induction ops arbitrary: s xs)
  case (Cons op ops)
  show ?case
  proof (cases op)
    case (Push x)
    show ?thesis
    proof (cases "length xs < cap")
      case True
      then obtain r s' where "push x s = Inr (r, s')" and s': "rel (length (pushed ops)) s' (xs @ [x])"
        using push_law [of "length (pushed ops)" s xs x] Cons.prems Push by auto
      then show ?thesis using Cons.IH [OF s'] Cons.prems(2) Push True by (auto split: option.splits)
    next
      case False
      then have "length xs = cap" using cap_law [OF Cons.prems(1)] by simp
      then obtain e where "push x s = Inl e" using push_full_law [OF Cons.prems(1)] by blast
      then show ?thesis using Push False by (simp add: obind_def)
    qed
  next
    case Pop
    show ?thesis
    proof (cases xs)
      case Nil
      then obtain e where "pop s = Inl e" using pop_empty_law Cons.prems(1) by blast
      then show ?thesis using Pop Nil by (simp add: obind_def)
    next
      case (Cons y ys)
      obtain b s' where b: "pop s = Inr (b, s')" "holds b y" "rel (length (pushed ops)) s' ys"
        using pop_law [of "length (pushed ops)" s y ys] Cons.prems(1) Cons Pop by auto
      then show ?thesis
        using Cons.IH [OF b(3)] Cons.prems(2) Pop Cons by (auto split: option.splits)
    qed
  qed
qed simp

end

end
