(* ===== verification/EkaMacros.thy ===== *)
theory EkaMacros
  imports Prelude
begin

text \<open>
  The helpers of \<open>src/src/eka_macros.h\<close> that the Ekaline sources share. \<open>on_error\<close> prints its
  message and terminates the process, which is the failure with that message.
\<close>

definition on_error :: "string \<Rightarrow> 'a outcome" where
  "on_error message = Inl (Assertion message)"

text \<open>The \<open>roundUp\<close> template, on unsigned arguments.\<close>

definition roundUp :: "nat \<Rightarrow> nat \<Rightarrow> nat" where
  "roundUp numToRound multiple =
     (if multiple = 0 then numToRound
      else let r = numToRound mod multiple in
           if r = 0 then numToRound else numToRound + multiple - r)"

lemma on_error_simps [simp]: "obind (on_error message) f = on_error message" "on_error message \<noteq> Inr x"
  by (simp_all add: on_error_def obind_def)

lemma roundUp_correct:
  assumes "0 < m"
  shows "n \<le> roundUp n m \<and> m dvd roundUp n m \<and> roundUp n m < n + m"
proof (cases "n mod m = 0")
  case True
  then show ?thesis using assms by (auto simp: roundUp_def)
next
  case False
  have lt: "n mod m < m" using assms by simp
  have "n + m - n mod m = m * (n div m + 1)"
    by (metis add_diff_cancel_left' add.commute add.left_commute mod_mult_div_eq mult.commute mult_Suc_right Suc_eq_plus1)
  then have "m dvd n + m - n mod m" by simp
  moreover have "n \<le> n + m - n mod m" "n + m - n mod m < n + m" using lt False by linarith+
  ultimately show ?thesis using False assms by (simp add: roundUp_def Let_def)
qed

end
