(* ===== verification/EkaUserReportQ.thy ===== *)
theory EkaUserReportQ
  imports Fifo EkaMacros
begin

text \<open>
  The queue of user reports, \<open>src/src/EkaUserReportQ.h\<close> and \<open>.cpp\<close>: a ring of 65536 elements of 1536
  bytes into which the service thread copies the reports of the hardware. The elements are one array of
  bytes, so that a copy that is too long writes into the next element or out of the array. The mutex
  makes \<open>push\<close> and \<open>pop\<close> atomic; the counters are 64-bit and the indices 32-bit unsigned, as in the class.
\<close>

section \<open>Model\<close>

text \<open>\<open>feedback_dma_report_t\<close>: a byte, two bytes, four bytes and the byte of \<open>EpmActionBitmap\<close>, packed.\<close>

definition SIZEOF_HDR :: nat where "SIZEOF_HDR = 1 + 2 + 4 + 1"
definition MAX_ELEM_SIZE :: u32 where "MAX_ELEM_SIZE = 1536"
definition Q_ELEMS :: u32 where "Q_ELEMS = 64 * 1024"

record report_q =
  qElem :: "nat \<Rightarrow> u8"
  rdPtr :: u32
  wrPtr :: u32
  wrCnt :: u64
  rdCnt :: u64
  qLen :: u64

definition SIZEOF_ELEM :: nat where "SIZEOF_ELEM = 1536"

definition new_report_q :: report_q where
  "new_report_q = \<lparr>qElem = \<lambda>_. 0, rdPtr = 0, wrPtr = 0, wrCnt = 0, rdCnt = 0, qLen = 0\<rparr>"

definition isEmpty :: "report_q \<Rightarrow> (bool \<times> report_q) outcome" where
  "isEmpty q =
     (if rdCnt q > wrCnt q then on_error ''rdCnt >= wrCnt''
      else let q = q\<lparr>qLen := wrCnt q - rdCnt q\<rparr> in Inr (qLen q = 0, q))"

definition isFull :: "report_q \<Rightarrow> bool \<times> report_q" where
  "isFull q = (let q = q\<lparr>qLen := wrCnt q - rdCnt q\<rparr> in (qLen q = ucast (Q_ELEMS - 1), q))"

definition next_ptr :: "u32 \<Rightarrow> u32" where
  "next_ptr c = (c + 1) mod Q_ELEMS"

text \<open>\<open>memcpy\<close> to byte \<open>a\<close> of the array.\<close>

definition copy_to :: "nat \<Rightarrow> u8 list \<Rightarrow> report_q \<Rightarrow> report_q outcome" where
  "copy_to a xs q =
     (if a + length xs > unat Q_ELEMS * SIZEOF_ELEM then Inl InvalidAccess
      else Inr (q\<lparr>qElem := \<lambda>i. if a \<le> i \<and> i < a + length xs then xs ! (i - a) else qElem q i\<rparr>))"

text \<open>\<open>payload\<close> is the memory that can be read there; the result is the index of the element.\<close>

definition push :: "u8 list \<Rightarrow> u32 \<Rightarrow> report_q \<Rightarrow> (nat \<times> report_q) outcome" where
  "push payload len q =
     (let (full, q) = isFull q in
      if full then on_error ''User report Q is FULL!''
      else
        let q = q\<lparr>wrPtr := next_ptr (wrPtr q)\<rparr>; e = unat (wrPtr q) * SIZEOF_ELEM in
        if len > MAX_ELEM_SIZE then on_error ''len > MAX_ELEM_SIZE''
        else if length payload < max SIZEOF_HDR (unat len) then Inl InvalidAccess
        else
          obind (copy_to e (take SIZEOF_HDR payload) q) (\<lambda>q.
          obind (copy_to (e + SIZEOF_HDR) (take (unat len) payload) q) (\<lambda>q.
            let q = q\<lparr>wrCnt := wrCnt q + 1\<rparr>; q = q\<lparr>qLen := wrCnt q - rdCnt q\<rparr> in
            Inr (unat (wrPtr q), q))))"

definition pop :: "report_q \<Rightarrow> (nat \<times> report_q) outcome" where
  "pop q =
     obind (isEmpty q) (\<lambda>(empty, q).
       if empty then on_error ''User report Q is EMPTY!''
       else if rdCnt q \<ge> wrCnt q then on_error ''rdCnt >= wrCnt''
       else
         let q = q\<lparr>rdPtr := next_ptr (rdPtr q)\<rparr>; q = q\<lparr>rdCnt := rdCnt q + 1\<rparr>;
             q = q\<lparr>qLen := wrCnt q - rdCnt q\<rparr> in
         Inr (unat (rdPtr q), q))"

section \<open>Elements\<close>

lemmas sizes = SIZEOF_HDR_def SIZEOF_ELEM_def MAX_ELEM_SIZE_def Q_ELEMS_def

text \<open>The bytes of element \<open>i\<close>: the header, then the data.\<close>

definition elem :: "report_q \<Rightarrow> nat \<Rightarrow> u8 list" where
  "elem q i = map (\<lambda>k. qElem q (i * SIZEOF_ELEM + k)) [0..<SIZEOF_ELEM]"

text \<open>The element holds report \<open>x\<close>: its header is the first eight bytes, its data starts with all of it.\<close>

definition holds_report :: "u8 list \<Rightarrow> u8 list \<Rightarrow> bool" where
  "holds_report b x \<longleftrightarrow> length b = SIZEOF_ELEM \<and> take (SIZEOF_HDR + length x) b = take SIZEOF_HDR x @ x"

definition fits :: "u8 list \<Rightarrow> bool" where
  "fits x \<longleftrightarrow> SIZEOF_HDR \<le> length x \<and> length x \<le> SIZEOF_ELEM - SIZEOF_HDR"

text \<open>What the queue holds, oldest first, with room for \<open>n\<close> more pushes in the counters.\<close>

definition rel :: "nat \<Rightarrow> report_q \<Rightarrow> u8 list list \<Rightarrow> bool" where
  "rel n q xs \<longleftrightarrow>
     unat (wrCnt q) = unat (rdCnt q) + length xs \<and> unat (wrCnt q) + n < 2 ^ 64 \<and> length xs \<le> 65535 \<and>
     unat (wrPtr q) = unat (wrCnt q) mod 65536 \<and> unat (rdPtr q) = unat (rdCnt q) mod 65536 \<and>
     (\<forall>k < length xs. holds_report (elem q ((unat (rdCnt q) + 1 + k) mod 65536)) (xs ! k))"

lemma rel_new: "n < 2 ^ 64 \<Longrightarrow> rel n new_report_q []"
  by (simp add: rel_def new_report_q_def)

lemma unat_next_ptr: "unat (next_ptr x) = (unat x + 1) mod 65536"
proof -
  have "unat (x + 1) mod 65536 = (unat x + 1) mod 65536"
    by (simp add: unat_plus_u32 mod_mod_cancel)
  then show ?thesis by (simp add: next_ptr_def Q_ELEMS_def unat_mod)
qed

lemma unat_Suc_u64: "unat (x :: u64) + 1 < 2 ^ 64 \<Longrightarrow> unat (x + 1) = unat x + 1"
  by (simp add: unat_word_ariths)

lemma copy_to_elem:
  assumes "i < 65536" and "d + length xs \<le> 1536"
  shows "\<exists>q'. copy_to (i * SIZEOF_ELEM + d) xs q = Inr q' \<and>
    elem q' i = take d (elem q i) @ xs @ drop (d + length xs) (elem q i) \<and>
    (\<forall>j. j \<noteq> i \<longrightarrow> elem q' j = elem q j) \<and> q' = q\<lparr>qElem := qElem q'\<rparr>"
proof -
  let ?a = "i * 1536 + d"
  let ?q = "q\<lparr>qElem := \<lambda>b. if ?a \<le> b \<and> b < ?a + length xs then xs ! (b - ?a) else qElem q b\<rparr>"
  have "i * 1536 + 1536 \<le> 65536 * 1536" using assms(1) by simp
  then have c: "copy_to (i * SIZEOF_ELEM + d) xs q = Inr ?q"
    using assms(2) by (simp add: copy_to_def sizes)
  have same: "elem ?q i = take d (elem q i) @ xs @ drop (d + length xs) (elem q i)"
    using assms(2) by (intro nth_equalityI) (auto simp: elem_def sizes nth_append)
  have other: "elem ?q j = elem q j" if "j \<noteq> i" for j
  proof -
    have "\<not> (?a \<le> j * 1536 + k \<and> j * 1536 + k < ?a + length xs)" if k: "k < 1536" for k
    proof (cases "j < i")
      case True
      then have "j * 1536 + 1536 \<le> i * 1536" by simp
      then show ?thesis using k by linarith
    next
      case False
      then have "i * 1536 + 1536 \<le> j * 1536" using \<open>j \<noteq> i\<close> by simp
      then show ?thesis using assms(2) by linarith
    qed
    then show ?thesis by (auto simp: elem_def sizes)
  qed
  show ?thesis using c same other by (intro exI [of _ ?q]) simp
qed

section \<open>Pushing\<close>

definition push_report :: "u8 list \<Rightarrow> report_q \<Rightarrow> (nat \<times> report_q) outcome" where
  "push_report x = push x (of_nat (length x))"

lemma isFull_iff:
  assumes "unat (wrCnt q) = unat (rdCnt q) + n" and "n \<le> 65535"
  shows "fst (isFull q) \<longleftrightarrow> n = 65535"
proof -
  have "rdCnt q \<le> wrCnt q" using assms(1) by (simp add: word_le_nat_alt)
  then have "unat (wrCnt q - rdCnt q) = n" using assms(1) by (simp add: unat_sub)
  then show ?thesis by (simp add: isFull_def Let_def Q_ELEMS_def word_unat_eq_iff)
qed

lemma push_fits:
  assumes "\<not> fst (isFull q)" and "fits x"
  shows "\<exists>q'. push_report x q = Inr (unat (next_ptr (wrPtr q)), q') \<and>
    holds_report (elem q' (unat (next_ptr (wrPtr q)))) x \<and>
    (\<forall>j. j \<noteq> unat (next_ptr (wrPtr q)) \<longrightarrow> elem q' j = elem q j) \<and>
    wrPtr q' = next_ptr (wrPtr q) \<and> wrCnt q' = wrCnt q + 1 \<and> rdPtr q' = rdPtr q \<and> rdCnt q' = rdCnt q"
proof -
  let ?w = "unat (next_ptr (wrPtr q))"
  let ?start = "q\<lparr>qLen := wrCnt q - rdCnt q, wrPtr := next_ptr (wrPtr q)\<rparr>"
  have l: "8 \<le> length x" "length x \<le> 1528" using assms(2) by (simp_all add: fits_def sizes)
  have ul: "unat (of_nat (length x) :: u32) = length x" using l by (simp add: unat_of_nat_u32)
  have w: "?w < 65536" by (simp add: unat_next_ptr)
  have p: "0 + length (take 8 x) \<le> 1536" "8 + length x \<le> 1536" using l by simp_all
  obtain q1 where q1: "copy_to (?w * SIZEOF_ELEM + 0) (take 8 x) ?start = Inr q1"
    "elem q1 ?w = take 0 (elem ?start ?w) @ take 8 x @ drop (0 + length (take 8 x)) (elem ?start ?w)"
    "\<forall>j. j \<noteq> ?w \<longrightarrow> elem q1 j = elem ?start j" "q1 = ?start\<lparr>qElem := qElem q1\<rparr>"
    using copy_to_elem [OF w p(1), of ?start] by (elim exE conjE) (rule that)
  obtain q2 where q2: "copy_to (?w * SIZEOF_ELEM + 8) x q1 = Inr q2"
    "elem q2 ?w = take 8 (elem q1 ?w) @ x @ drop (8 + length x) (elem q1 ?w)"
    "\<forall>j. j \<noteq> ?w \<longrightarrow> elem q2 j = elem q1 j" "q2 = q1\<lparr>qElem := qElem q2\<rparr>"
    using copy_to_elem [OF w p(2), of q1] by (elim exE conjE) (rule that)
  let ?q = "q2\<lparr>wrCnt := wrCnt q2 + 1, qLen := wrCnt q2 + 1 - rdCnt q2\<rparr>"
  have f1: "wrPtr q1 = next_ptr (wrPtr q)" "wrCnt q1 = wrCnt q" "rdPtr q1 = rdPtr q" "rdCnt q1 = rdCnt q"
    by (subst q1(4), simp)+
  have f2: "wrPtr q2 = wrPtr q1" "wrCnt q2 = wrCnt q1" "rdPtr q2 = rdPtr q1" "rdCnt q2 = rdCnt q1"
    by (subst q2(4), simp)+
  have "push_report x q = Inr (?w, ?q)"
    using assms(1) l ul q1(1) q2(1) f1 f2
    by (simp add: push_report_def push_def isFull_def Let_def sizes word_less_nat_alt)
  moreover have "elem ?q j = elem q2 j" "elem ?start j = elem q j" for j by (simp_all add: elem_def)
  moreover have "holds_report (elem q2 ?w) x"
    using q1(2) q2(2) l by (simp add: holds_report_def elem_def [of q] elem_def [of ?start] sizes)
  ultimately show ?thesis using q1(3) q2(3) f1 f2 by (intro exI [of _ ?q]) simp
qed

lemma push_full: "fst (isFull q) \<Longrightarrow> push payload len q = on_error ''User report Q is FULL!''"
  by (simp add: push_def case_prod_beta)

lemma rel_push:
  assumes rel: "rel (Suc n) q xs" and x: "fits x" and room: "length xs < 65535"
  shows "\<exists>i q'. push_report x q = Inr (i, q') \<and> rel n q' (xs @ [x])"
proof -
  let ?w = "unat (next_ptr (wrPtr q))"
  have cnt: "unat (wrCnt q) = unat (rdCnt q) + length xs" "unat (wrCnt q) + 1 < 2 ^ 64"
    using rel unfolding rel_def by simp_all
  then have "\<not> fst (isFull q)" using isFull_iff [of q "length xs"] room by simp
  from push_fits [OF this x] obtain q' where q': "push_report x q = Inr (?w, q')" "holds_report (elem q' ?w) x"
    "\<forall>j. j \<noteq> ?w \<longrightarrow> elem q' j = elem q j" "wrPtr q' = next_ptr (wrPtr q)" "wrCnt q' = wrCnt q + 1"
    "rdPtr q' = rdPtr q" "rdCnt q' = rdCnt q"
    by blast
  have w: "?w = (unat (wrCnt q) + 1) mod 65536"
    using rel by (simp add: rel_def unat_next_ptr mod_Suc_eq)
  have wc: "unat (wrCnt q') = unat (wrCnt q) + 1" using cnt(2) by (simp add: q'(5) unat_Suc_u64)
  have "holds_report (elem q' ((unat (rdCnt q') + 1 + k) mod 65536)) ((xs @ [x]) ! k)" if k: "k < length (xs @ [x])" for k
  proof (cases "k < length xs")
    case True
    then have "(unat (rdCnt q) + 1 + k) mod 65536 \<noteq> ?w"
      unfolding w using cnt(1) room by (intro ring_slots_differ) simp_all
    then show ?thesis using rel True q'(3,7) by (simp add: rel_def nth_append)
  next
    case False
    then have "k = length xs" using k by simp
    then show ?thesis using q'(2,7) w cnt(1) by (simp add: ac_simps)
  qed
  then have "rel n q' (xs @ [x])"
    using rel room q'(4,6,7) wc w unfolding rel_def by simp
  then show ?thesis using q'(1) by blast
qed

section \<open>Popping\<close>

text \<open>The report that \<open>pop\<close> returns: the bytes at the pointer.\<close>

definition pop_report :: "report_q \<Rightarrow> (u8 list \<times> report_q) outcome" where
  "pop_report q = obind (pop q) (\<lambda>(i, q). Inr (elem q i, q))"

lemma rel_pop:
  assumes rel: "rel n q (x # xs)"
  shows "\<exists>b q'. pop_report q = Inr (b, q') \<and> holds_report b x \<and> rel n q' xs"
proof -
  let ?q = "q\<lparr>rdPtr := next_ptr (rdPtr q), rdCnt := rdCnt q + 1, qLen := wrCnt q - (rdCnt q + 1)\<rparr>"
  have cnt: "unat (wrCnt q) = unat (rdCnt q) + Suc (length xs)" "unat (wrCnt q) + n < 2 ^ 64"
    using rel unfolding rel_def by simp_all
  then have rc: "unat (rdCnt q + 1) = unat (rdCnt q) + 1" by (intro unat_Suc_u64) simp
  have lt: "rdCnt q < wrCnt q" using cnt(1) by (simp add: word_less_nat_alt)
  then have ne: "wrCnt q - rdCnt q \<noteq> 0" by auto
  have "pop_report q = Inr (elem ?q (unat (next_ptr (rdPtr q))), ?q)"
    using lt ne by (auto simp: pop_report_def pop_def isEmpty_def Let_def)
  moreover have r: "unat (next_ptr (rdPtr q)) = (unat (rdCnt q) + 1 + 0) mod 65536"
    using rel by (simp add: rel_def unat_next_ptr mod_Suc_eq)
  moreover have e: "elem ?q j = elem q j" for j by (simp add: elem_def)
  moreover have "holds_report (elem q ((unat (rdCnt q) + 1 + 0) mod 65536)) ((x # xs) ! 0)"
    using rel unfolding rel_def by blast
  moreover have "rel n ?q xs"
    unfolding rel_def
  proof (intro conjI allI impI)
    fix k
    assume "k < length xs"
    then have "Suc k < length (x # xs)" by simp
    then have "holds_report (elem q ((unat (rdCnt q) + 1 + Suc k) mod 65536)) ((x # xs) ! Suc k)"
      using rel unfolding rel_def by blast
    then show "holds_report (elem ?q ((unat (rdCnt ?q) + 1 + k) mod 65536)) (xs ! k)"
      using rc by (simp add: e)
  qed (use cnt rel rc r in \<open>auto simp: rel_def\<close>)
  ultimately show ?thesis by (intro exI [of _ "elem q ((unat (rdCnt q) + 1 + 0) mod 65536)"] exI [of _ ?q]) simp
qed

interpretation rq: bounded_fifo rel 65535 fits push_report pop_report holds_report
proof unfold_locales
  fix n q xs x
  show "rel (Suc n) q xs \<Longrightarrow> fits x \<Longrightarrow> length xs < 65535 \<Longrightarrow> \<exists>r q'. push_report x q = Inr (r, q') \<and> rel n q' (xs @ [x])"
    by (rule rel_push)
  show "rel n q (x # xs) \<Longrightarrow> \<exists>b q'. pop_report q = Inr (b, q') \<and> holds_report b x \<and> rel n q' xs"
    by (rule rel_pop)
  show "\<exists>e. push_report x q = Inl e" if "rel n q xs" "length xs = 65535"
  proof -
    have "fst (isFull q)" using isFull_iff [of q "length xs"] that unfolding rel_def by simp
    then show ?thesis by (simp add: push_report_def push_full on_error_def)
  qed
  show "\<exists>e. pop_report q = Inl e" if "rel n q []"
  proof -
    have "wrCnt q = rdCnt q" using that by (simp add: rel_def word_unat_eq_iff)
    then show ?thesis by (simp add: pop_report_def pop_def isEmpty_def Let_def on_error_def)
  qed
  show "rel n q xs \<Longrightarrow> length xs \<le> 65535" by (simp add: rel_def)
qed

section \<open>Properties\<close>

text \<open>
  C11. The report queue refines a first-in first-out list of at most 65535 reports. From any state that
  holds the reports \<open>xs\<close>, every sequence of pushes (of reports of 8 to 1528 bytes) and pops, in
  whatever order the threads come to hold the mutex, runs as it does on the list: when the list
  specification refuses a push on a full or a pop on an empty queue, the process is terminated by
  \<open>on_error\<close>; otherwise every pop returns an element whose header and data are those of the oldest report
  not yet popped, and the final state holds the reports that are left. The hypothesis on the counters is
  that they do not reach \<open>2 ^ 64\<close>.\<close>

theorem report_q_refines_fifo:
  assumes "rel (length (pushed ops)) q xs" and "\<forall>x \<in> set (pushed ops). fits x"
  shows "case fifo_run 65535 ops xs of
      None \<Rightarrow> \<exists>e. run_queue push_report pop_report ops q = Inl e
    | Some (out, ys) \<Rightarrow> \<exists>bs q'. run_queue push_report pop_report ops q = Inr (bs, q') \<and>
        list_all2 holds_report bs out \<and> rel 0 q' ys \<and> out @ ys = xs @ pushed ops"
  using rq.run_refines [OF assms] fifo_run_order [of 65535 ops xs] by (auto split: option.splits)

theorem report_q_refines_fifo_witness:
  "\<exists>bs q'. run_queue push_report pop_report [Push (replicate 8 1), Push (replicate 9 2), Pop] new_report_q = Inr (bs, q') \<and>
     list_all2 holds_report bs [replicate 8 1] \<and> rel 0 q' [replicate 9 2]"
  using report_q_refines_fifo [of "[Push (replicate 8 1), Push (replicate 9 2), Pop]" new_report_q "[]"] rel_new [of "Suc (Suc 0)"]
  by (auto simp: fits_def sizes)

text \<open>
  C40. A report may be longer than the data of an element: \<open>push\<close> accepts up to 1536 bytes, but copies the
  whole report behind the 8 bytes of the header. A push of 1529 to 1536 bytes on a queue that is not full
  therefore overwrites the first bytes of the header of the next element of the array with the last bytes
  of the report; when it goes to the last element of the array it writes beyond the end of the array.\<close>

theorem push_overruns_element:
  assumes "\<not> fst (isFull q)" and "1528 < len" and "len \<le> 1536" and "unat len \<le> length payload"
  shows "case push payload len q of
      Inl e \<Rightarrow> unat (next_ptr (wrPtr q)) = 65535 \<and> e = InvalidAccess
    | Inr (i, q') \<Rightarrow> i = unat (next_ptr (wrPtr q)) \<and> i < 65535 \<and>
        (\<forall>k < unat len - 1528. elem q' (i + 1) ! k = payload ! (1528 + k))"
proof -
  let ?w = "unat (next_ptr (wrPtr q))"
  have l: "1528 < unat len" "unat len \<le> 1536"
    using assms(2,3) by (simp_all add: word_less_nat_alt word_le_nat_alt)
  have w: "?w < 65536" by (simp add: unat_next_ptr)
  show ?thesis
  proof (cases "?w = 65535")
    case True
    then show ?thesis
      using assms l by (simp add: push_def isFull_def Let_def copy_to_def sizes word_less_nat_alt)
  next
    case False
    then have w': "?w < 65535" using w by simp
    then have "?w * 1536 + 3072 \<le> 65536 * 1536" by linarith
    then have room: "\<not> 65536 * 1536 < ?w * 1536 + 8 + unat len" "\<not> 65536 * 1536 < ?w * 1536 + 8" using l by linarith+
    then show ?thesis
      using assms(1,4) l w' by (auto simp: push_def isFull_def Let_def copy_to_def sizes elem_def word_less_nat_alt)
  qed
qed

theorem push_overruns_element_witness:
  "case push (replicate 1536 7) 1536 new_report_q of
     Inl e \<Rightarrow> False
   | Inr (i, q') \<Rightarrow> i = 1 \<and> elem q' 2 ! 0 = 7 \<and> elem new_report_q 2 ! 0 = 0"
proof -
  have w: "unat (next_ptr (wrPtr new_report_q)) = 1" by (simp add: unat_next_ptr new_report_q_def)
  have "\<not> fst (isFull new_report_q)" by (simp add: isFull_def new_report_q_def Q_ELEMS_def)
  from push_overruns_element [OF this, of 1536 "replicate 1536 7"] w show ?thesis
    by (auto simp: elem_def sizes new_report_q_def split: sum.splits dest: spec [of _ 0])
qed

end
