(* ===== verification/EkaFhQ.thy ===== *)
theory EkaFhQ
  imports Fifo EkaMacros
begin

text \<open>
  The message queue of a feed handler group, class \<open>fh_q\<close> of \<open>src/src/eka_fh_q.h\<close>: a ring of \<open>qsize\<close>
  messages. \<open>push\<close> returns the slot that the caller fills, \<open>pop\<close> the slot with the oldest message. What
  \<open>new fh_msg[qsize]\<close> leaves in the messages is not specified; the constructor and \<open>invalidate\<close> take it
  as an argument.
\<close>

section \<open>Model\<close>

datatype fh_msg_type = REAL | DUMMY

record fh_msg =
  sequence :: u64
  msg_gr_id :: u8
  msg_type :: fh_msg_type
  push_cpu_id :: u32
  push_ts :: u64
  msg_data :: "u8 list"

record fh_q =
  qsize :: u32
  rd :: u32
  wr :: u32
  q_len :: u32
  msg :: "fh_msg list"
  max_len :: u32
  ever_max_len :: u32

definition new_fh_q :: "u32 \<Rightarrow> fh_msg list \<Rightarrow> fh_q" where
  "new_fh_q sz mem = \<lparr>qsize = sz, rd = 0, wr = 0, q_len = 0, msg = mem, max_len = 0, ever_max_len = 0\<rparr>"

definition invalidate :: "fh_msg list \<Rightarrow> fh_q \<Rightarrow> fh_q" where
  "invalidate mem q = q\<lparr>msg := mem, wr := 0, rd := 0\<rparr>"

definition fh_next :: "u32 \<Rightarrow> fh_q \<Rightarrow> u32" where
  "fh_next c q = (c + 1) mod qsize q"

definition is_full :: "fh_q \<Rightarrow> bool" where
  "is_full q \<longleftrightarrow> q_len q > qsize q - 10"

definition is_empty :: "fh_q \<Rightarrow> bool" where
  "is_empty q \<longleftrightarrow> q_len q = 0"

definition get_len :: "fh_q \<Rightarrow> u32" where
  "get_len q = q_len q"

definition reset_max_len :: "fh_q \<Rightarrow> fh_q" where
  "reset_max_len q = q\<lparr>max_len := 0\<rparr>"

definition get_1st_seq :: "fh_q \<Rightarrow> u64" where
  "get_1st_seq q = sequence (msg q ! unat (fh_next (rd q) q))"

definition fh_push :: "fh_q \<Rightarrow> (nat \<times> fh_q) outcome" where
  "fh_push q =
     (if is_full q then on_error ''Q is full -- Too slow Processing''
      else
        let ln = get_len q;
            q = (if ln > max_len q then q\<lparr>max_len := ln\<rparr> else q);
            q = (if max_len q > ever_max_len q then q\<lparr>ever_max_len := max_len q\<rparr> else q);
            q = q\<lparr>wr := fh_next (wr q) q\<rparr>;
            q = q\<lparr>q_len := q_len q + 1\<rparr> in
        Inr (unat (wr q), q))"

definition fh_pop :: "fh_q \<Rightarrow> (nat \<times> fh_q) outcome" where
  "fh_pop q =
     (if is_empty q then on_error ''popping from empty Q''
      else
        let q = q\<lparr>rd := fh_next (rd q) q\<rparr>; q = q\<lparr>q_len := q_len q - 1\<rparr> in
        Inr (unat (rd q), q))"

section \<open>The queue as a list\<close>

text \<open>A producer fills the slot it gets; a consumer reads the message it gets.\<close>

definition fh_push_msg :: "fh_msg \<Rightarrow> fh_q \<Rightarrow> (nat \<times> fh_q) outcome" where
  "fh_push_msg m q = obind (fh_push q) (\<lambda>(i, q). Inr (i, q\<lparr>msg := (msg q)[i := m]\<rparr>))"

definition fh_pop_msg :: "fh_q \<Rightarrow> (fh_msg \<times> fh_q) outcome" where
  "fh_pop_msg q = obind (fh_pop q) (\<lambda>(i, q). Inr (msg q ! i, q))"

definition fh_rel :: "nat \<Rightarrow> nat \<Rightarrow> fh_q \<Rightarrow> fh_msg list \<Rightarrow> bool" where
  "fh_rel sz n q xs \<longleftrightarrow>
     10 \<le> sz \<and> unat (qsize q) = sz \<and> length (msg q) = sz \<and> unat (rd q) < sz \<and>
     unat (wr q) = (unat (rd q) + length xs) mod sz \<and> unat (q_len q) = length xs \<and> length xs \<le> sz - 9 \<and>
     (\<forall>k < length xs. msg q ! ((unat (rd q) + 1 + k) mod sz) = xs ! k)"

lemma unat_fh_next: "unat c < unat (qsize q) \<Longrightarrow> unat (fh_next c q) = (unat c + 1) mod unat (qsize q)"
  using unat_u32_less [of "qsize q"] by (simp add: fh_next_def unat_mod unat_plus_u32 del: unat_u32_less)

lemma is_full_iff:
  assumes "10 \<le> unat (qsize q)"
  shows "is_full q \<longleftrightarrow> unat (qsize q) - 10 < unat (q_len q)"
proof -
  have "10 \<le> qsize q" using assms by (simp add: word_le_nat_alt)
  then show ?thesis by (simp add: is_full_def word_less_nat_alt unat_sub)
qed

lemma fh_push_ok:
  assumes "\<not> is_full q"
  shows "\<exists>q'. fh_push q = Inr (unat (fh_next (wr q) q), q') \<and> wr q' = fh_next (wr q) q \<and> q_len q' = q_len q + 1 \<and>
    rd q' = rd q \<and> qsize q' = qsize q \<and> msg q' = msg q"
  using assms by (simp add: fh_push_def Let_def fh_next_def)

lemma fh_rel_push:
  assumes rel: "fh_rel sz n q xs" and room: "length xs < sz - 9"
  shows "\<exists>i q'. fh_push_msg m q = Inr (i, q') \<and> fh_rel sz n' q' (xs @ [m])"
proof -
  let ?w = "unat (fh_next (wr q) q)"
  have sz: "10 \<le> sz" "unat (qsize q) = sz" "length (msg q) = sz" "unat (wr q) = (unat (rd q) + length xs) mod sz"
    "unat (q_len q) = length xs" "unat (rd q) < sz"
    using rel unfolding fh_rel_def by simp_all
  then have "\<not> is_full q" using room by (simp add: is_full_iff)
  then obtain q1 where q1: "fh_push q = Inr (?w, q1)" "wr q1 = fh_next (wr q) q" "q_len q1 = q_len q + 1" "rd q1 = rd q"
    "qsize q1 = qsize q" "msg q1 = msg q"
    using fh_push_ok by blast
  let ?q = "q1\<lparr>msg := (msg q)[?w := m]\<rparr>"
  have "unat (wr q) < sz" using sz(1,4) by simp
  then have w: "?w = (unat (rd q) + 1 + length xs) mod sz" using sz(2,4) by (simp add: unat_fh_next mod_Suc_eq)
  have wlt: "?w < sz" using sz(1) by (simp add: w)
  have "unat (qsize q) < 4294967296" by (rule unat_u32_less)
  then have ql: "unat (q_len q + 1) = Suc (length xs)" using sz(2,5) room by (simp add: unat_plus_u32 del: unat_u32_less)
  have "msg ?q ! ((unat (rd q) + 1 + k) mod sz) = (xs @ [m]) ! k" if k: "k < length (xs @ [m])" for k
  proof (cases "k < length xs")
    case True
    then have "(unat (rd q) + 1 + k) mod sz \<noteq> ?w" unfolding w using room by (intro ring_slots_differ) simp_all
    then show ?thesis using rel True by (simp add: fh_rel_def nth_append)
  next
    case False
    then have k': "k = length xs" using k by simp
    have "msg ?q ! ?w = m" using wlt sz(3) by simp
    then show ?thesis unfolding k' w by simp
  qed
  then have "fh_rel sz n' ?q (xs @ [m])"
    using sz room q1 ql w unfolding fh_rel_def by simp
  moreover have "fh_push_msg m q = Inr (?w, ?q)" using q1(1,6) by (simp add: fh_push_msg_def)
  ultimately show ?thesis by blast
qed

lemma fh_rel_pop:
  assumes rel: "fh_rel sz n q (m # xs)"
  shows "\<exists>b q'. fh_pop_msg q = Inr (b, q') \<and> b = m \<and> fh_rel sz n q' xs"
proof -
  let ?q = "q\<lparr>rd := fh_next (rd q) q, q_len := q_len q - 1\<rparr>"
  have sz: "10 \<le> sz" "unat (qsize q) = sz" "unat (rd q) < sz" "unat (q_len q) = Suc (length xs)" "length (msg q) = sz"
    "unat (wr q) = (unat (rd q) + Suc (length xs)) mod sz" "Suc (length xs) \<le> sz - 9"
    using rel unfolding fh_rel_def by simp_all
  have ql: "unat (q_len q - 1) = length xs" using sz(4) by (subst unat_sub) (simp_all add: word_le_nat_alt)
  have ne: "q_len q \<noteq> 0" using sz(4) by auto
  have r: "unat (fh_next (rd q) q) = (unat (rd q) + 1 + 0) mod sz" using sz(2,3) by (simp add: unat_fh_next)
  have "msg q ! ((unat (rd q) + 1 + 0) mod sz) = (m # xs) ! 0" using rel unfolding fh_rel_def by blast
  then have "fh_pop_msg q = Inr (m, ?q)" using ne r by (simp add: fh_pop_msg_def fh_pop_def is_empty_def Let_def fh_next_def)
  moreover have "fh_rel sz n ?q xs"
    unfolding fh_rel_def
  proof (intro conjI allI impI)
    fix k
    assume "k < length xs"
    then have "Suc k < length (m # xs)" by simp
    then have "msg q ! ((unat (rd q) + 1 + Suc k) mod sz) = (m # xs) ! Suc k" using rel unfolding fh_rel_def by blast
    moreover have "(unat (fh_next (rd q) q) + 1 + k) mod sz = (unat (rd q) + 1 + Suc k) mod sz"
      unfolding r add.assoc mod_add_left_eq by simp
    ultimately show "msg ?q ! ((unat (rd ?q) + 1 + k) mod sz) = xs ! k" by simp
  next
    show "unat (wr ?q) = (unat (rd ?q) + length xs) mod sz" using sz(6) r by (simp add: mod_add_left_eq flip: add_Suc)
  qed (use sz ql r in \<open>auto\<close>)
  ultimately show ?thesis by blast
qed

interpretation fq: bounded_fifo "fh_rel sz" "sz - 9" "\<lambda>_. True" fh_push_msg fh_pop_msg "(=)" for sz
proof unfold_locales
  fix n q xs x
  show "fh_rel sz (Suc n) q xs \<Longrightarrow> length xs < sz - 9 \<Longrightarrow> \<exists>r q'. fh_push_msg x q = Inr (r, q') \<and> fh_rel sz n q' (xs @ [x])"
    by (rule fh_rel_push)
  show "fh_rel sz n q (x # xs) \<Longrightarrow> \<exists>b q'. fh_pop_msg q = Inr (b, q') \<and> b = x \<and> fh_rel sz n q' xs"
    by (rule fh_rel_pop)
  show "fh_rel sz n q xs \<Longrightarrow> length xs = sz - 9 \<Longrightarrow> \<exists>e. fh_push_msg x q = Inl e"
    by (auto simp: fh_rel_def fh_push_msg_def fh_push_def is_full_iff on_error_def)
  show "fh_rel sz n q [] \<Longrightarrow> \<exists>e. fh_pop_msg q = Inl e"
    by (auto simp: fh_rel_def fh_pop_msg_def fh_pop_def is_empty_def on_error_def unat_eq_0)
  show "fh_rel sz n q xs \<Longrightarrow> length xs \<le> sz - 9" by (simp add: fh_rel_def)
qed

section \<open>Properties\<close>

text \<open>
  The feed handler queue of at least ten slots refines a first-in first-out list of at most
  \<open>qsize - 9\<close> messages: every sequence of pushes, each followed by the filling of the slot, and of pops
  ends in \<open>on_error\<close> exactly when the list specification refuses a call, and otherwise returns the messages
  in the order in which they were pushed.\<close>

theorem fh_q_refines_fifo:
  assumes "fh_rel sz (length (pushed ops)) q xs"
  shows "case fifo_run (sz - 9) ops xs of
      None \<Rightarrow> \<exists>e. run_queue fh_push_msg fh_pop_msg ops q = Inl e
    | Some (out, ys) \<Rightarrow> \<exists>q'. run_queue fh_push_msg fh_pop_msg ops q = Inr (out, q') \<and> fh_rel sz 0 q' ys \<and>
        out @ ys = xs @ pushed ops"
  using fq.run_refines [OF assms] fifo_run_order [of "sz - 9" ops xs]
  by (auto simp: list.rel_eq split: option.splits)

definition demo_msg :: "u64 \<Rightarrow> fh_msg" where
  "demo_msg n = \<lparr>sequence = n, msg_gr_id = 0, msg_type = REAL, push_cpu_id = 0, push_ts = 0, msg_data = []\<rparr>"

lemma fh_rel_new: "fh_rel 16 n (new_fh_q 16 (replicate 16 m)) []"
  by (simp add: fh_rel_def new_fh_q_def)

theorem fh_q_refines_fifo_witness:
  "\<exists>q'. run_queue fh_push_msg fh_pop_msg [Push (demo_msg 1), Push (demo_msg 2), Pop] (new_fh_q 16 (replicate 16 (demo_msg 0))) =
     Inr ([demo_msg 1], q') \<and> fh_rel 16 0 q' [demo_msg 2]"
  using fh_q_refines_fifo [OF fh_rel_new, of "[Push (demo_msg 1), Push (demo_msg 2), Pop]"] by auto

text \<open>
  \<open>invalidate\<close> replaces the messages and resets the indices, but not the length. On a queue that holds
  messages the queue is still not empty afterwards, and the next pop returns slot 1 of the fresh array,
  whatever the memory held there.\<close>

theorem invalidate_keeps_length:
  assumes "fh_rel sz n q xs" and "xs \<noteq> []" and "length mem = sz"
  shows "\<not> is_empty (invalidate mem q) \<and> get_len (invalidate mem q) = of_nat (length xs) \<and>
    (\<exists>q'. fh_pop_msg (invalidate mem q) = Inr (mem ! 1, q'))"
proof -
  have len: "unat (q_len q) = length xs" using assms(1) unfolding fh_rel_def by simp
  then have "q_len q = of_nat (length xs)" by (metis of_nat_unat ucast_id)
  moreover have "q_len q \<noteq> 0" using len assms(2) by auto
  moreover have "unat (qsize q) \<ge> 10" using assms(1) unfolding fh_rel_def by simp
  then have "unat (fh_next 0 (invalidate mem q)) = 1" by (subst unat_fh_next) (simp_all add: invalidate_def)
  ultimately show ?thesis
    by (simp add: invalidate_def is_empty_def get_len_def fh_pop_msg_def fh_pop_def Let_def)
qed

theorem invalidate_keeps_length_witness:
  "\<exists>q'. fh_pop_msg (invalidate (replicate 16 (demo_msg 7)) (new_fh_q 16 (replicate 16 (demo_msg 0))\<lparr>wr := 1, q_len := 1\<rparr>)) =
     Inr (demo_msg 7, q')"
proof -
  have "fh_rel 16 0 (new_fh_q 16 (replicate 16 (demo_msg 0))\<lparr>wr := 1, q_len := 1\<rparr>) [demo_msg 0]"
    by (simp add: fh_rel_def new_fh_q_def)
  from invalidate_keeps_length [OF this, of "replicate 16 (demo_msg 7)"] show ?thesis by simp
qed

end
