(* ===== verification/EkaEpmRegion.thy ===== *)
theory EkaEpmRegion
  imports EkaMacros
begin

text \<open>
  The layout of the packet heap and of the action table of the FPGA, class \<open>EkaEpmRegion\<close> of
  \<open>src/src/EkaEpmRegion.h\<close>: 32 regions, each with a number of actions of a fixed heap budget. The values are
  \<open>int\<close> in the class; they all stay below \<open>2 ^ 31\<close> (shown below), so they are numbers here.
\<close>

section \<open>Model\<close>

record RegionConfig =
  region_name :: string
  nActions :: nat
  actionHeapBudget :: nat
  wcChId :: nat

definition Efc :: nat where "Efc = 0"
definition TcpTxFullPkt :: nat where "TcpTxFullPkt = 5"
definition TcpTxEmptyAck :: nat where "TcpTxEmptyAck = 6"
definition EfcMc :: nat where "EfcMc = 7"
definition Total :: nat where "Total = 32"

definition HeapPerRegularAction :: nat where "HeapPerRegularAction = 1536"
definition HeapPerSmallAction :: nat where "HeapPerSmallAction = 64"
definition NumEfcActions :: nat where "NumEfcActions = 2048"
definition NumNewsActions :: nat where "NumNewsActions = 256"
definition NumIgmpActions :: nat where "NumIgmpActions = 2 * 64"
definition NumEfcIgmpActions :: nat where "NumEfcIgmpActions = 256"
definition NumTcpActions :: nat where "NumTcpActions = 4 * 32 * 2"
definition MaxStrategies :: nat where "MaxStrategies = TcpTxFullPkt"

definition efh_igmp :: "nat \<Rightarrow> RegionConfig" where
  "efh_igmp ch = \<lparr>region_name = ''EfhIgmp'', nActions = NumIgmpActions, actionHeapBudget = HeapPerSmallAction, wcChId = ch\<rparr>"

definition region :: "RegionConfig list" where
  "region =
     [\<lparr>region_name = ''EFC'', nActions = NumEfcActions, actionHeapBudget = HeapPerRegularAction, wcChId = 0\<rparr>,
      \<lparr>region_name = ''News'', nActions = NumNewsActions, actionHeapBudget = HeapPerRegularAction, wcChId = 0\<rparr>,
      \<lparr>region_name = ''News'', nActions = NumNewsActions, actionHeapBudget = HeapPerRegularAction, wcChId = 0\<rparr>,
      \<lparr>region_name = ''News'', nActions = NumNewsActions, actionHeapBudget = HeapPerRegularAction, wcChId = 0\<rparr>,
      \<lparr>region_name = ''News'', nActions = NumNewsActions, actionHeapBudget = HeapPerRegularAction, wcChId = 0\<rparr>,
      \<lparr>region_name = ''TcpTxFullPkt'', nActions = NumTcpActions, actionHeapBudget = HeapPerRegularAction, wcChId = 0\<rparr>,
      \<lparr>region_name = ''TcpTxEmptyAck'', nActions = NumTcpActions, actionHeapBudget = HeapPerSmallAction, wcChId = 0\<rparr>,
      \<lparr>region_name = ''EfcMc'', nActions = NumEfcIgmpActions, actionHeapBudget = HeapPerSmallAction, wcChId = 0\<rparr>,
      efh_igmp 1, efh_igmp 2, efh_igmp 3, efh_igmp 4, efh_igmp 5, efh_igmp 6, efh_igmp 7, efh_igmp 8,
      efh_igmp 9, efh_igmp 10, efh_igmp 11, efh_igmp 12, efh_igmp 13, efh_igmp 14, efh_igmp 15, efh_igmp 1,
      efh_igmp 2, efh_igmp 3, efh_igmp 4, efh_igmp 5, efh_igmp 6, efh_igmp 7, efh_igmp 8, efh_igmp 9]"

text \<open>A loop that adds up \<open>f i\<close> for \<open>i\<close> from 0 to \<open>n - 1\<close>.\<close>

fun sum_loop :: "(nat \<Rightarrow> nat) \<Rightarrow> nat \<Rightarrow> nat" where
  "sum_loop f 0 = 0"
| "sum_loop f (Suc n) = sum_loop f n + f n"

definition sanityCheckRegionId :: "int \<Rightarrow> 'a outcome \<Rightarrow> 'a outcome" where
  "sanityCheckRegionId regionId rest =
     (if regionId < 0 \<or> regionId \<ge> int Total then on_error ''Bad regionId'' else rest)"

definition getRegionName :: "int \<Rightarrow> string outcome" where
  "getRegionName regionId = sanityCheckRegionId regionId (Inr (region_name (region ! nat regionId)))"

definition getBaseActionIdx :: "int \<Rightarrow> nat outcome" where
  "getBaseActionIdx regionId =
     sanityCheckRegionId regionId (Inr (sum_loop (\<lambda>i. nActions (region ! i)) (nat regionId)))"

definition getMaxActions :: "int \<Rightarrow> nat outcome" where
  "getMaxActions regionId = sanityCheckRegionId regionId (Inr (nActions (region ! nat regionId)))"

definition sanityCheckActionId :: "int \<Rightarrow> int \<Rightarrow> 'a outcome \<Rightarrow> 'a outcome" where
  "sanityCheckActionId regionId actionId rest =
     (if actionId < 0 then on_error ''Bad actionId''
      else obind (getBaseActionIdx regionId) (\<lambda>base. obind (getMaxActions regionId) (\<lambda>maxActions.
        if actionId \<ge> int (base + maxActions) then on_error ''Bad actionId'' else rest)))"

definition getTotalActions :: nat where
  "getTotalActions = sum_loop (\<lambda>i. nActions (region ! i)) Total"

fun max_loop :: "(nat \<Rightarrow> nat) \<Rightarrow> nat \<Rightarrow> nat" where
  "max_loop f 0 = 0"
| "max_loop f (Suc n) = (if max_loop f n < f n then f n else max_loop f n)"

definition getMaxActionsPerRegion :: nat where
  "getMaxActionsPerRegion = max_loop (\<lambda>i. nActions (region ! i)) Total"

definition getBaseHeapOffs :: "int \<Rightarrow> nat outcome" where
  "getBaseHeapOffs regionId =
     sanityCheckRegionId regionId
       (Inr (sum_loop (\<lambda>i. nActions (region ! i) * actionHeapBudget (region ! i)) (nat regionId)))"

definition getHeapSize :: "int \<Rightarrow> nat outcome" where
  "getHeapSize regionId =
     sanityCheckRegionId regionId (Inr (nActions (region ! nat regionId) * actionHeapBudget (region ! nat regionId)))"

fun wc_loop :: "int \<Rightarrow> nat list \<Rightarrow> nat outcome" where
  "wc_loop heapOffs [] = on_error ''heapOffs is out of Heap''"
| "wc_loop heapOffs (i # is) =
     obind (getBaseHeapOffs (int i)) (\<lambda>base. obind (getHeapSize (int i)) (\<lambda>size.
       if heapOffs \<ge> int base \<and> heapOffs < int (base + size) then Inr (wcChId (region ! i))
       else wc_loop heapOffs is))"

definition geWcChByOffs :: "int \<Rightarrow> nat outcome" where
  "geWcChByOffs heapOffs = wc_loop heapOffs [0..<Total]"

definition getWritableHeapSize :: nat where
  "getWritableHeapSize = sum_loop (\<lambda>i. nActions (region ! i) * actionHeapBudget (region ! i)) MaxStrategies"

definition getActionHeapOffs :: "int \<Rightarrow> int \<Rightarrow> nat outcome" where
  "getActionHeapOffs regionId actionId =
     sanityCheckRegionId regionId
    (sanityCheckActionId regionId actionId
    (obind (getBaseHeapOffs regionId) (\<lambda>base.
       Inr (base + nat actionId * actionHeapBudget (region ! nat regionId)))))"

definition getActionHeapBudget :: "int \<Rightarrow> nat outcome" where
  "getActionHeapBudget regionId = sanityCheckRegionId regionId (Inr (actionHeapBudget (region ! nat regionId)))"

definition getEfhIgmpRegion :: "int \<Rightarrow> int outcome" where
  "getEfhIgmpRegion udpChId =
     (let Reserved = int EfcMc + 1 in
      if udpChId \<ge> int Total - Reserved then on_error ''udpChId exceeds MaxUdpChannelRegions''
      else Inr (udpChId + Reserved))"

section \<open>The layout\<close>

lemma length_region [simp]: "length region = Total"
  by (simp add: region_def Total_def)

abbreviation base_idx :: "nat \<Rightarrow> nat" where
  "base_idx \<equiv> sum_loop (\<lambda>i. nActions (region ! i))"

abbreviation heap_size :: "nat \<Rightarrow> nat" where
  "heap_size r \<equiv> nActions (region ! r) * actionHeapBudget (region ! r)"

abbreviation heap_base :: "nat \<Rightarrow> nat" where
  "heap_base \<equiv> sum_loop heap_size"

lemma sum_loop_mono: "i \<le> j \<Longrightarrow> sum_loop f i \<le> sum_loop f j"
  by (induction j) (auto simp: le_Suc_eq)

lemma sum_loop_next: "i < j \<Longrightarrow> sum_loop f i + f i \<le> sum_loop f j"
  using sum_loop_mono [of "Suc i" j f] by simp

text \<open>Every number below the total lies in exactly one of the intervals.\<close>

lemma sum_loop_cover: "x < sum_loop f n \<Longrightarrow> \<exists>i < n. sum_loop f i \<le> x \<and> x < sum_loop f i + f i"
proof (induction n)
  case (Suc n)
  show ?case
  proof (cases "x < sum_loop f n")
    case True
    then show ?thesis using Suc.IH less_Suc_eq by blast
  next
    case False
    then show ?thesis using Suc.prems by (intro exI [of _ n]) simp
  qed
qed simp

lemma sum_loop_unique:
  assumes "sum_loop f i \<le> x" "x < sum_loop f i + f i" "sum_loop f j \<le> x" "x < sum_loop f j + f j"
  shows "i = j"
  using assms sum_loop_next [of i j f] sum_loop_next [of j i f] by (cases i j rule: linorder_cases) auto

lemma sum_loop_region: "n \<le> Total \<Longrightarrow> sum_loop (\<lambda>i. f (region ! i)) n = sum_list (map f (take n region))"
  by (induction n) (simp_all add: take_Suc_conv_app_nth)

lemma region_values: "heap_base Total = 5341184" "base_idx Total = 6912"
  by (simp_all add: sum_loop_region [of Total nActions] sum_loop_region [of Total "\<lambda>r. nActions r * actionHeapBudget r"])
    (simp_all add: region_def efh_igmp_def NumEfcActions_def NumNewsActions_def NumTcpActions_def NumEfcIgmpActions_def
      NumIgmpActions_def HeapPerRegularAction_def HeapPerSmallAction_def)

text \<open>The heap of the FPGA, \<open>EkaEpm::MaxHeap\<close>, and its lower transmit buffer in \<open>EkaWc\<close>.\<close>

definition MaxHeap :: nat where "MaxHeap = 8 * 1024 * 1024"
definition TxBufAddr_1 :: nat where "TxBufAddr_1 = 8 * 1024 * 1024 - 4096"

lemma valid_region [simp]: "r < Total \<Longrightarrow> sanityCheckRegionId (int r) rest = rest"
  by (simp add: sanityCheckRegionId_def)

lemma getters [simp]:
  assumes "r < Total"
  shows "getBaseActionIdx (int r) = Inr (base_idx r)" "getMaxActions (int r) = Inr (nActions (region ! r))"
    "getBaseHeapOffs (int r) = Inr (heap_base r)" "getHeapSize (int r) = Inr (heap_size r)"
    "getActionHeapBudget (int r) = Inr (actionHeapBudget (region ! r))"
  using assms by (simp_all add: getBaseActionIdx_def getMaxActions_def getBaseHeapOffs_def getHeapSize_def getActionHeapBudget_def)

lemma heap_end: "r < Total \<Longrightarrow> heap_base r + heap_size r \<le> 5341184"
  using sum_loop_next [of r Total heap_size] region_values by simp

lemma budget_pos: "r < Total \<Longrightarrow> 64 \<le> actionHeapBudget (region ! r)"
proof -
  have "\<forall>x \<in> set region. 64 \<le> actionHeapBudget x"
    by (simp add: region_def efh_igmp_def HeapPerRegularAction_def HeapPerSmallAction_def)
  then show "r < Total \<Longrightarrow> 64 \<le> actionHeapBudget (region ! r)" by simp
qed

lemma budget_le: "r < Total \<Longrightarrow> actionHeapBudget (region ! r) \<le> 1536"
proof -
  have "\<forall>x \<in> set region. actionHeapBudget x \<le> 1536"
    by (simp add: region_def efh_igmp_def HeapPerRegularAction_def HeapPerSmallAction_def)
  then show "r < Total \<Longrightarrow> actionHeapBudget (region ! r) \<le> 1536" by simp
qed

text \<open>Offset \<open>x\<close> lies in region \<open>r\<close>.\<close>

definition in_region :: "int \<Rightarrow> nat \<Rightarrow> bool" where
  "in_region x r \<longleftrightarrow> int (heap_base r) \<le> x \<and> x < int (heap_base r + heap_size r)"

lemma in_region_unique: "in_region x r \<Longrightarrow> in_region x k \<Longrightarrow> r = k"
  using sum_loop_unique [of heap_size r "nat x" k] unfolding in_region_def by linarith

lemma wc_loop_hit:
  "in_region x r \<Longrightarrow> r \<in> set is \<Longrightarrow> \<forall>i \<in> set is. i < Total \<Longrightarrow> wc_loop x is = Inr (wcChId (region ! r))"
proof (induction "is")
  case (Cons i "is")
  show ?case
  proof (cases "in_region x i")
    case True
    then have "i = r" using Cons.prems(1) in_region_unique by blast
    then show ?thesis using True Cons.prems(3) by (simp add: in_region_def)
  next
    case False
    then have "wc_loop x (i # is) = wc_loop x is" using Cons.prems(3) by (auto simp: in_region_def)
    then show ?thesis using Cons False by auto
  qed
qed simp

lemma wc_loop_miss:
  "\<forall>i \<in> set is. i < Total \<and> \<not> in_region x i \<Longrightarrow> wc_loop x is = on_error ''heapOffs is out of Heap''"
  by (induction "is") (auto simp: in_region_def)

lemma in_region_iff: "(\<exists>r < Total. in_region x r) \<longleftrightarrow> 0 \<le> x \<and> x < 5341184"
proof
  assume "\<exists>r < Total. in_region x r"
  then obtain r where "r < Total" "in_region x r" by blast
  then show "0 \<le> x \<and> x < 5341184" using heap_end [of r] unfolding in_region_def by linarith
next
  assume x: "0 \<le> x \<and> x < 5341184"
  then have "nat x < heap_base Total" by (simp add: region_values nat_less_iff)
  from sum_loop_cover [OF this] obtain r where "r < Total" "heap_base r \<le> nat x" "nat x < heap_base r + heap_size r" by blast
  moreover from this have "in_region x r" using x unfolding in_region_def by linarith
  ultimately show "\<exists>r < Total. in_region x r" by blast
qed

section \<open>Properties\<close>

text \<open>
  C28. The regions partition the heap: every offset below 5341184 lies in exactly one region, and
  \<open>geWcChByOffs\<close> returns the write-combining channel of that region; every other offset, negative ones
  included, ends in \<open>on_error\<close>. The heap of the regions ends below the two transmit buffers at the top of
  the 8 MB of the FPGA.\<close>

theorem regions_partition_heap:
  "(case geWcChByOffs x of
      Inl e \<Rightarrow> x < 0 \<or> 5341184 \<le> x
    | Inr ch \<Rightarrow> \<exists>!r. r < Total \<and> in_region x r \<and> ch = wcChId (region ! r)) \<and>
   heap_base Total = 5341184 \<and> heap_base Total \<le> TxBufAddr_1 \<and> TxBufAddr_1 + 4096 \<le> MaxHeap"
proof -
  have "case geWcChByOffs x of
      Inl e \<Rightarrow> x < 0 \<or> 5341184 \<le> x
    | Inr ch \<Rightarrow> \<exists>!r. r < Total \<and> in_region x r \<and> ch = wcChId (region ! r)"
  proof (cases "\<exists>r < Total. in_region x r")
    case True
    then obtain r where r: "r < Total" "in_region x r" by blast
    then have "geWcChByOffs x = Inr (wcChId (region ! r))"
      unfolding geWcChByOffs_def by (intro wc_loop_hit) auto
    moreover have "\<exists>!k. k < Total \<and> in_region x k \<and> wcChId (region ! r) = wcChId (region ! k)"
      using r in_region_unique by (intro ex1I [of _ r]) blast+
    ultimately show ?thesis by simp
  next
    case False
    then have "geWcChByOffs x = on_error ''heapOffs is out of Heap''"
      unfolding geWcChByOffs_def by (intro wc_loop_miss) auto
    then show ?thesis using False in_region_iff [of x] by (auto simp: on_error_def)
  qed
  then show ?thesis by (simp add: region_values TxBufAddr_1_def MaxHeap_def)
qed

lemma action_offs:
  assumes "r < Total" and "0 \<le> a" and "a < int (base_idx r + nActions (region ! r))"
  shows "getActionHeapOffs (int r) a = Inr (heap_base r + nat a * actionHeapBudget (region ! r))"
  using assms by (simp add: getActionHeapOffs_def sanityCheckActionId_def)

lemma slot_in_region:
  "a < nActions (region ! r) \<Longrightarrow> heap_base r + a * actionHeapBudget (region ! r) + actionHeapBudget (region ! r) \<le> heap_base (Suc r)"
  using mult_le_mono1 [of "Suc a" "nActions (region ! r)" "actionHeapBudget (region ! r)"] by simp

text \<open>Two actions have different slots and different indices.\<close>

lemma slots_apart:
  assumes "r < Total" and "a < nActions (region ! r)" and "r' < Total" and "a' < nActions (region ! r')"
    and "(r, a) \<noteq> (r', a')"
  shows "(heap_base r + a * actionHeapBudget (region ! r) + actionHeapBudget (region ! r)
       \<le> heap_base r' + a' * actionHeapBudget (region ! r') \<or>
     heap_base r' + a' * actionHeapBudget (region ! r') + actionHeapBudget (region ! r')
       \<le> heap_base r + a * actionHeapBudget (region ! r)) \<and> base_idx r + a \<noteq> base_idx r' + a'"
proof -
  let ?o = "\<lambda>r a. heap_base r + a * actionHeapBudget (region ! r)"
  have ends: "?o r a + actionHeapBudget (region ! r) \<le> heap_base (Suc r)" "?o r' a' + actionHeapBudget (region ! r') \<le> heap_base (Suc r')"
    using slot_in_region assms by blast+
  have order: "heap_base (Suc r) \<le> ?o r' a'" "base_idx r + a < base_idx r' + a'" if "r < r'"
    using sum_loop_next [OF that, of heap_size] sum_loop_next [OF that, of "\<lambda>i. nActions (region ! i)"] assms(2) by simp_all
  have order': "heap_base (Suc r') \<le> ?o r a" "base_idx r' + a' < base_idx r + a" if "r' < r"
    using sum_loop_next [OF that, of heap_size] sum_loop_next [OF that, of "\<lambda>i. nActions (region ! i)"] assms(4) by simp_all
  have same: "?o r a + actionHeapBudget (region ! r) \<le> ?o r' a' \<or> ?o r' a' + actionHeapBudget (region ! r') \<le> ?o r a"
    if "r = r'"
  proof (cases "a < a'")
    case True
    then show ?thesis using that mult_le_mono1 [of "Suc a" a' "actionHeapBudget (region ! r)"] by simp
  next
    case False
    then show ?thesis using that assms(5) mult_le_mono1 [of "Suc a'" a "actionHeapBudget (region ! r)"] by simp
  qed
  have "?o r a + actionHeapBudget (region ! r) \<le> ?o r' a' \<or> ?o r' a' + actionHeapBudget (region ! r') \<le> ?o r a"
    using ends order(1) order'(1) same by (cases r r' rule: linorder_cases) linarith+
  moreover have "base_idx r + a \<noteq> base_idx r' + a'"
    using order(2) order'(2) assms(5) by (cases r r' rule: linorder_cases) auto
  ultimately show ?thesis ..
qed

text \<open>
  C18. Actions have memory of their own: two different actions, in the same region or in different ones,
  whose indices are below the number of actions of their regions get slots of the heap that do not
  overlap, below the transmit buffers, and different global indices below the size of the action table.\<close>

theorem action_slots_disjoint:
  assumes "r < Total" and "a < nActions (region ! r)" and "r' < Total" and "a' < nActions (region ! r')"
    and "(r, a) \<noteq> (r', a')"
  shows "\<exists>offs offs'. getActionHeapOffs (int r) (int a) = Inr offs \<and> getActionHeapOffs (int r') (int a') = Inr offs' \<and>
    (offs + actionHeapBudget (region ! r) \<le> offs' \<or> offs' + actionHeapBudget (region ! r') \<le> offs) \<and>
    offs + actionHeapBudget (region ! r) \<le> TxBufAddr_1 \<and>
    base_idx r + a \<noteq> base_idx r' + a' \<and> base_idx r + a < getTotalActions"
  using slots_apart [OF assms] slot_in_region [OF assms(2)] heap_end [OF assms(1)] assms
    sum_loop_next [OF assms(1), of "\<lambda>i. nActions (region ! i)"]
  by (simp add: action_offs TxBufAddr_1_def getTotalActions_def)

theorem action_slots_disjoint_witness:
  "\<exists>offs offs'. getActionHeapOffs 0 2047 = Inr offs \<and> getActionHeapOffs 1 0 = Inr offs' \<and> offs \<noteq> offs'"
proof -
  have "nActions (region ! 0) = 2048" "nActions (region ! 1) = 256" "actionHeapBudget (region ! 0) = 1536"
    "actionHeapBudget (region ! 1) = 1536"
    by (simp_all add: region_def NumEfcActions_def NumNewsActions_def HeapPerRegularAction_def)
  then show ?thesis using action_slots_disjoint [of 0 2047 1 0] by (auto simp: Total_def)
qed

text \<open>
  The check of action indices is too weak: \<open>sanityCheckActionId\<close> compares the index inside the region
  with the first global index of the region plus its number of actions. In every region but the first it
  accepts indices that are not in the region, and the offset computed for them lies behind the region;
  for the region of the full TCP packets even behind the heap.\<close>

theorem action_id_check_too_weak:
  assumes "0 < r" and "r < Total"
  shows "(\<forall>a. nActions (region ! r) \<le> a \<and> a < base_idx r + nActions (region ! r) \<longrightarrow>
      (\<exists>offs. getActionHeapOffs (int r) (int a) = Inr offs \<and> heap_base r + heap_size r \<le> offs)) \<and>
    nActions (region ! r) < base_idx r + nActions (region ! r) \<and>
    getActionHeapOffs (int TcpTxFullPkt) 3327 = Inr 9828864 \<and> 9828864 > MaxHeap"
proof (intro conjI allI impI)
  fix a
  assume a: "nActions (region ! r) \<le> a \<and> a < base_idx r + nActions (region ! r)"
  then have "getActionHeapOffs (int r) (int a) = Inr (heap_base r + a * actionHeapBudget (region ! r))"
    using assms(2) by (simp add: action_offs)
  moreover have "heap_size r \<le> a * actionHeapBudget (region ! r)" using a by (simp add: mult_le_mono1)
  ultimately show "\<exists>offs. getActionHeapOffs (int r) (int a) = Inr offs \<and> heap_base r + heap_size r \<le> offs" by simp
next
  have "nActions (region ! 0) = 2048" by (simp add: region_def NumEfcActions_def)
  then show "nActions (region ! r) < base_idx r + nActions (region ! r)"
    using sum_loop_next [OF assms(1), of "\<lambda>i. nActions (region ! i)"] by simp
next
  have v: "base_idx 5 = 3072" "heap_base 5 = 4718592" "nActions (region ! 5) = 256" "actionHeapBudget (region ! 5) = 1536"
    by (simp_all add: sum_loop_region [of 5 nActions] sum_loop_region [of 5 "\<lambda>r. nActions r * actionHeapBudget r"] Total_def)
      (simp_all add: region_def NumEfcActions_def NumNewsActions_def NumTcpActions_def HeapPerRegularAction_def)
  show "getActionHeapOffs (int TcpTxFullPkt) 3327 = Inr 9828864"
    using action_offs [of 5 3327] v by (simp add: TcpTxFullPkt_def Total_def)
  show "9828864 > MaxHeap" by (simp add: MaxHeap_def)
qed

theorem action_id_check_too_weak_witness: "\<exists>offs. getActionHeapOffs 1 256 = Inr offs \<and> heap_base 1 + heap_size 1 \<le> offs"
proof -
  have "nActions (region ! 1) = 256" by (simp add: region_def NumNewsActions_def)
  then show ?thesis using action_id_check_too_weak [of 1] by (auto simp: Total_def)
qed

end
