(* ===== verification/EkaPacket.thy ===== *)
theory EkaPacket
  imports Chksum EkaMacros
begin

text \<open>
  The packet checksums of the Ekaline library, \<open>src/src/EkaPacket.cpp\<close> and the scalar functions of
  \<open>src/src/EkaCsumSSE.h\<close>, and the IGMP packets of \<open>createIgmpPkt\<close>. A buffer of 16-bit words and its length in
  bytes is the list of its bytes; loads are little-endian. A \<open>long\<close> sum of up to \<open>2 ^ 31\<close> bytes does not
  overflow and is a number; 32-bit sums wrap. The theorems relate these functions to lwIP's checksums.
\<close>

section \<open>Sums\<close>

definition be16toh :: "u16 \<Rightarrow> u16" where
  "be16toh x = push_bit 8 x OR drop_bit 8 x"

definition be32toh :: "u32 \<Rightarrow> u32" where
  "be32toh x = push_bit 24 x OR push_bit 8 (x AND 0xff00) OR (drop_bit 8 x AND 0xff00) OR drop_bit 24 x"

fun csum_loop :: "u8 list \<Rightarrow> nat \<Rightarrow> nat \<times> u8 list" where
  "csum_loop (b0 # b1 # bs) sm = csum_loop bs (sm + unat (le16 b0 b1))"
| "csum_loop bs sm = (sm, bs)"

definition csum_total :: "u8 list \<Rightarrow> nat" where
  "csum_total bs =
     (let (sm, ptr) = csum_loop bs 0 in case ptr of b # _ \<Rightarrow> sm + unat (le16 b 0) | [] \<Rightarrow> sm)"

definition csum :: "u8 list \<Rightarrow> u16" where
  "csum bs =
     (let sm = csum_total bs;
          sm = sm div 65536 + sm mod 65536;
          sm = sm + sm div 65536
      in NOT (of_nat sm))"

definition pseudo_csum :: "u8 list \<Rightarrow> u32" where
  "pseudo_csum bs = of_nat (csum_total bs)"

text \<open>The loop that adds the carries.\<close>

function fold_loop :: "u32 \<Rightarrow> u32" where
  "fold_loop sm = (if drop_bit 16 sm \<noteq> 0 then fold_loop ((sm AND 0xFFFF) + drop_bit 16 sm) else sm)"
  by auto

lemma unat_carry_step: "unat ((sm AND 0xFFFF) + drop_bit 16 sm :: u32) = unat sm mod 65536 + unat sm div 65536"
proof -
  have "unat sm div 65536 < 65536" using unat_u32_less [of sm] by (simp add: less_mult_imp_div_less)
  moreover have "unat sm mod 65536 < 65536" by simp
  ultimately show ?thesis by (simp add: unat_plus_u32 unat_and_ffff unat_drop_bit_u32)
qed

termination fold_loop
proof (relation "measure unat")
  fix sm :: u32
  assume "drop_bit 16 sm \<noteq> 0"
  then have "unat (drop_bit 16 sm) \<noteq> 0" by (simp add: unat_eq_0)
  then have "0 < unat sm div 65536" by (simp add: unat_drop_bit_u32)
  moreover have "unat sm = unat sm div 65536 * 65536 + unat sm mod 65536" by simp
  ultimately show "((sm AND 0xFFFF) + drop_bit 16 sm, sm) \<in> measure unat"
    unfolding in_measure unat_carry_step by linarith
qed simp

declare fold_loop.simps [simp del]

definition pseudo_csum2csum :: "u32 \<Rightarrow> u16" where
  "pseudo_csum2csum pseudo = ucast (NOT (fold_loop pseudo))"

text \<open>\<open>calcPseudoBlock<Iter>\<close> and one block of the unrolled sum: bytes left and sum.\<close>

fun block_loop :: "nat \<Rightarrow> u8 list \<Rightarrow> u32 \<Rightarrow> u32" where
  "block_loop (Suc i) (b0 # b1 # bs) sm = block_loop i bs (sm + ucast (le16 b0 b1))"
| "block_loop i bs sm = sm"

definition calcPseudoBlock :: "nat \<Rightarrow> u8 list \<Rightarrow> u32" where
  "calcPseudoBlock iter ptr = block_loop iter ptr 0"

definition unrolled_block :: "nat \<Rightarrow> u8 list \<times> u32 \<Rightarrow> u8 list \<times> u32" where
  "unrolled_block iter s =
     (let (ptr, sm) = s in
      if length ptr \<ge> iter * 2 then (drop (iter * 2) ptr, sm + calcPseudoBlock iter ptr) else (ptr, sm))"

definition pseudo_csum_unrolled :: "u8 list \<Rightarrow> u32" where
  "pseudo_csum_unrolled bs =
     (let s = (bs, 0); s = unrolled_block 512 s; s = unrolled_block 256 s; s = unrolled_block 128 s;
          s = unrolled_block 64 s; s = unrolled_block 32 s; s = unrolled_block 16 s; s = unrolled_block 8 s;
          s = unrolled_block 4 s; s = unrolled_block 2 s; s = unrolled_block 1 s; (ptr, sm) = s in
      if length ptr = 1 then sm + ucast (le16 (hd ptr) 0) else sm)"

section \<open>Packets\<close>

record EkaIpHdr =
  v_hl :: u8
  tos :: u8
  ip_len :: u16
  ip_id :: u16
  ip_offset :: u16
  ttl :: u8
  ip_proto :: u8
  ip_chksum :: u16
  ip_src :: u32
  ip_dest :: u32

definition SIZEOF_IPHDR :: nat where "SIZEOF_IPHDR = 20"
definition SIZEOF_TCPHDR :: nat where "SIZEOF_TCPHDR = 20"
definition EKA_PROTO_TCP :: u8 where "EKA_PROTO_TCP = 6"
definition EKA_PROTO_UDP :: u8 where "EKA_PROTO_UDP = 0x11"

text \<open>The header in memory.\<close>

definition ip_bytes :: "EkaIpHdr \<Rightarrow> u8 list" where
  "ip_bytes h = [v_hl h, tos h] @ mem16 (ip_len h) @ mem16 (ip_id h) @ mem16 (ip_offset h) @ [ttl h, ip_proto h] @
     mem16 (ip_chksum h) @ bytes32 (ip_src h) @ bytes32 (ip_dest h)"

definition calc_pseudo_ipHdrPart :: "EkaIpHdr \<Rightarrow> u32" where
  "calc_pseudo_ipHdrPart h =
     (let sm = ip_src h AND 0xFFFF;
          sm = sm + (drop_bit 16 (ip_src h) AND 0xFFFF);
          sm = sm + (ip_dest h AND 0xFFFF);
          sm = sm + (drop_bit 16 (ip_dest h) AND 0xFFFF);
          sm = sm + ucast (be16toh (ucast EKA_PROTO_TCP))
      in sm + ucast (be16toh (be16toh (ip_len h) - of_nat SIZEOF_IPHDR)))"

text \<open>
  \<open>tcp\<close> is the memory from the TCP header on. A length field below 20 gives a negative number of bytes,
  of which nothing is summed.
\<close>

definition ekaPseudoTcpCsum :: "EkaIpHdr \<Rightarrow> u8 list \<Rightarrow> u32 outcome" where
  "ekaPseudoTcpCsum h tcp =
     (let n = unat (be16toh (ip_len h)) - SIZEOF_IPHDR in
      if length tcp < n then Inl InvalidAccess
      else Inr (calc_pseudo_ipHdrPart h + pseudo_csum_unrolled (take n tcp)))"

definition foldPseudoCsum :: "u32 \<Rightarrow> u16" where
  "foldPseudoCsum pseudo = ucast (NOT (fold_loop pseudo))"

definition ekaTcpCsum :: "EkaIpHdr \<Rightarrow> u8 list \<Rightarrow> u16 outcome" where
  "ekaTcpCsum h tcp = obind (ekaPseudoTcpCsum h tcp) (\<lambda>s. Inr (foldPseudoCsum s))"

text \<open>The packet is assembled in a buffer of 2000 bytes on the stack.\<close>

definition calc_pseudo_csum :: "EkaIpHdr \<Rightarrow> u8 list \<Rightarrow> u8 list \<Rightarrow> u16 \<Rightarrow> u32 outcome" where
  "calc_pseudo_csum h tcp_hdr payload payload_size =
     (let psh = bytes32 (ip_src h) @ bytes32 (ip_dest h) @ [0, EKA_PROTO_TCP] @
            mem16 (be16toh (of_nat SIZEOF_TCPHDR + payload_size));
          n = unat payload_size in
      if 12 + SIZEOF_TCPHDR + n > 2000 \<or> length tcp_hdr < SIZEOF_TCPHDR \<or> length payload < n then Inl InvalidAccess
      else Inr (pseudo_csum (psh @ take SIZEOF_TCPHDR tcp_hdr @ take n payload)))"

definition calc_tcp_csum :: "EkaIpHdr \<Rightarrow> u8 list \<Rightarrow> u8 list \<Rightarrow> u16 \<Rightarrow> u16 outcome" where
  "calc_tcp_csum h tcp_hdr payload payload_size =
     obind (calc_pseudo_csum h tcp_hdr payload payload_size) (\<lambda>s. Inr (pseudo_csum2csum s))"

definition calcEmptyPktPseudoCsum :: "EkaIpHdr \<Rightarrow> u8 list \<Rightarrow> u32" where
  "calcEmptyPktPseudoCsum h tcp_hdr =
     pseudo_csum (bytes32 (ip_src h) @ bytes32 (ip_dest h) @ [0, EKA_PROTO_TCP] @
       mem16 (be16toh (of_nat SIZEOF_TCPHDR)) @ tcp_hdr)"

fun udp_loop :: "u8 list \<Rightarrow> u32 \<Rightarrow> u32 \<times> u8 list" where
  "udp_loop (b0 # b1 # bs) sm =
     (let sm = sm + ucast (le16 b0 b1) in
      udp_loop bs (if sm AND 0x80000000 \<noteq> 0 then (sm AND 0xFFFF) + drop_bit 16 sm else sm))"
| "udp_loop bs sm = (sm, bs)"

definition udp_checksum :: "u8 list \<Rightarrow> u32 \<Rightarrow> u32 \<Rightarrow> u16" where
  "udp_checksum bs src_addr dest_addr =
     (let (sm, buf) = udp_loop bs 0;
          sm = (case buf of b # _ \<Rightarrow> sm + ucast b | [] \<Rightarrow> sm);
          sm = sm + (src_addr AND 0xFFFF); sm = sm + (drop_bit 16 src_addr AND 0xFFFF);
          sm = sm + (dest_addr AND 0xFFFF); sm = sm + (drop_bit 16 dest_addr AND 0xFFFF);
          sm = sm + ucast (be16toh (ucast EKA_PROTO_UDP)); sm = sm + ucast (be16toh (of_nat (length bs)))
      in ucast (NOT (fold_loop sm)))"

text \<open>The IGMP packet: destination, source, type; IP header; router alert option; IGMP message.\<close>

definition createIgmpPkt :: "bool \<Rightarrow> u8 list \<Rightarrow> u32 \<Rightarrow> u32 \<Rightarrow> u8 list" where
  "createIgmpPkt join macsa src dst =
     (let macda = [0x01, 0x00, 0x5e, (bytes32 dst ! 1) AND 0x7F, bytes32 dst ! 2, bytes32 dst ! 3];
          h = \<lparr>v_hl = 0x46, tos = 0xc0, ip_len = be16toh (of_nat (SIZEOF_IPHDR + 8 + 4)), ip_id = 0, ip_offset = 0x0040,
               ttl = 1, ip_proto = 2, ip_chksum = 0, ip_src = src, ip_dest = dst\<rparr>;
          ip_options = bytes32 (be32toh 0x94040000);
          h = h\<lparr>ip_chksum := csum (ip_bytes h @ ip_options)\<rparr>;
          igmp = (\<lambda>cksum. [if join then 0x16 else 0x17, 0] @ mem16 cksum @ bytes32 dst)
      in macda @ macsa @ mem16 (be16toh 0x0800) @ ip_bytes h @ ip_options @ igmp (csum (igmp 0)))"

section \<open>The sums are the Internet checksum\<close>

lemma csum_loop_total: "case csum_loop bs sm of (s, ptr) \<Rightarrow> length ptr \<le> 1 \<and> s + le_sum ptr = sm + le_sum bs"
  by (induction bs sm rule: csum_loop.induct) (auto simp: unat_le16 split: prod.splits)

lemma csum_total_eq: "csum_total bs = le_sum bs"
proof -
  obtain s ptr where c: "csum_loop bs 0 = (s, ptr)" by fastforce
  then have "length ptr \<le> 1" "s + le_sum ptr = le_sum bs" using csum_loop_total [where bs = bs and sm = 0] by simp_all
  then show ?thesis by (cases ptr; cases "List.tl ptr") (auto simp: csum_total_def c unat_le16)
qed

lemma unat_fold_loop: "unat (fold_loop sm) = oc_norm (unat sm)"
proof (induction sm rule: fold_loop.induct)
  case (1 sm)
  show ?case
  proof (cases "drop_bit 16 sm = 0")
    case True
    then have "unat (drop_bit 16 sm) = 0" by simp
    then have "unat sm div 65536 = 0" by (simp add: unat_drop_bit_u32)
    then have "unat sm \<le> 65535" by (simp add: div_eq_0_iff)
    then show ?thesis using True by (simp add: fold_loop.simps [of sm])
  next
    case False
    have "(sm AND 0xFFFF) + drop_bit 16 sm = FOLD_U32T sm" by (simp add: FOLD_U32T_def add.commute)
    then show ?thesis using 1 [OF False] False FOLD_sum [of sm] by (simp add: fold_loop.simps [of sm])
  qed
qed

lemma ucast_not_u32: "(ucast (NOT (w :: u32)) :: u16) = NOT (ucast w)"
  by (rule bit_word_eqI) (simp add: bit_simps)

lemma fold_not: "(ucast (NOT (fold_loop sm)) :: u16) = NOT (of_nat (oc_norm (unat sm)))"
proof -
  have "(ucast (fold_loop sm) :: u16) = of_nat (oc_norm (unat sm))"
    by (simp add: word_unat_eq_iff unat_ucast_32_16 unat_fold_loop unat_of_nat take_bit_eq_mod)
  then show ?thesis by (simp add: ucast_not_u32)
qed

lemma last_fold:
  assumes "s \<le> 131070"
  shows "(s + s div 65536) mod 65536 = oc_norm s"
proof (cases "s < 65536")
  case False
  then have d: "s div 65536 = 1" using assms by linarith
  define t where "t = s - 65535"
  then have s: "s = t + 65535" and t: "0 < t" "t \<le> 65535" using False assms by linarith+
  have "(t + 65535 - 1) mod 65535 = t - 1" using t by (simp add: le_mod_geq)
  then have "oc_norm s = t" using t(1) unfolding s oc_norm_def by simp
  moreover have "(s + 1) mod 65536 = t" using t unfolding s by simp
  ultimately show ?thesis using d by simp
qed simp

lemma two_folds:
  assumes "n < 4294967296"
  shows "(let s = n div 65536 + n mod 65536 in (s + s div 65536) mod 65536) = oc_norm n"
proof -
  let ?s = "n div 65536 + n mod 65536"
  have "n div 65536 < 65536" using assms by (simp add: less_mult_imp_div_less)
  moreover have "n mod 65536 < 65536" by simp
  ultimately have b: "?s \<le> 131070" by linarith
  have "oc_norm ?s = oc_norm n"
    using oc_norm_65536 [of "n div 65536"] oc_norm_cong_add [of "65536 * (n div 65536)" "n div 65536" "n mod 65536" "n mod 65536"]
    by (simp add: add.commute)
  moreover have "(?s + ?s div 65536) mod 65536 = oc_norm ?s" using b by (rule last_fold)
  ultimately show ?thesis by (simp add: Let_def)
qed

lemma csum_eq:
  assumes "length bs \<le> 0x20000"
  shows "csum bs = NOT (cksum bs)"
proof -
  have "(length bs + 1) div 2 \<le> 65536" using assms by simp
  then have "65535 * ((length bs + 1) div 2) \<le> 65535 * 65536" by (rule mult_le_mono2)
  then have "le_sum bs < 4294967296" using le_sum_bound [of bs] by linarith
  note f = two_folds [OF this, unfolded Let_def]
  define s where "s = le_sum bs div 65536 + le_sum bs mod 65536"
  have "(of_nat (s + s div 65536) :: u16) = cksum bs"
    using f unfolding s_def [symmetric] by (intro eq_cksumI) (simp only: unat_of_nat take_bit_eq_mod, simp)
  then show ?thesis by (simp only: csum_def csum_total_eq Let_def s_def)
qed

lemma half_le_one: "2 * i \<le> Suc 0 \<longleftrightarrow> i = 0"
  by arith

lemma block_loop_eq: "2 * i \<le> length bs \<Longrightarrow> block_loop i bs sm = sm + of_nat (le_sum (take (2 * i) bs))"
proof (induction i bs sm rule: block_loop.induct)
  case (1 i b0 b1 bs sm)
  have "(ucast (le16 b0 b1) :: u32) = of_nat (unat b0 + 256 * unat b1)"
    by (simp only: ucast_u16_of_nat unat_le16)
  then show ?case using 1 by (simp add: add.assoc)
qed (auto simp: half_le_one)

text \<open>What the blocks keep: the sum so far and the sum of what is left make up the whole.\<close>

lemma unrolled_block_sum:
  assumes "unrolled_block iter (bs, sm) = (bs', sm')"
  shows "sm' + of_nat (le_sum bs') = sm + of_nat (le_sum bs)"
proof (cases "length bs \<ge> iter * 2")
  case True
  have "le_sum bs = le_sum (take (iter * 2) bs) + le_sum (drop (iter * 2) bs)"
    using True le_sum_append_even [of "take (iter * 2) bs" "drop (iter * 2) bs"] by simp
  then show ?thesis using True assms block_loop_eq [of iter bs 0]
    by (auto simp: unrolled_block_def calcPseudoBlock_def mult.commute)
qed (use assms in \<open>auto simp: unrolled_block_def\<close>)

lemma unrolled_block_length:
  "length bs < 4 * iter \<Longrightarrow> length (fst (unrolled_block iter (bs, sm))) < 2 * iter"
  by (auto simp: unrolled_block_def)

definition unrolled_blocks :: "nat list \<Rightarrow> u8 list \<times> u32 \<Rightarrow> u8 list \<times> u32" where
  "unrolled_blocks iters s = foldl (\<lambda>s iter. unrolled_block iter s) s iters"

lemma pseudo_csum_unrolled_alt:
  "pseudo_csum_unrolled bs =
     (case unrolled_blocks [512, 256, 128, 64, 32, 16, 8, 4, 2, 1] (bs, 0) of
        (ptr, sm) \<Rightarrow> if length ptr = 1 then sm + ucast (le16 (hd ptr) 0) else sm)"
  by (simp add: pseudo_csum_unrolled_def unrolled_blocks_def Let_def)

lemma unrolled_blocks_sum:
  "unrolled_blocks iters (bs, sm) = (bs', sm') \<Longrightarrow> sm' + of_nat (le_sum bs') = sm + of_nat (le_sum bs)"
proof (induction iters arbitrary: bs sm)
  case (Cons iter iters)
  obtain bs1 sm1 where b: "unrolled_block iter (bs, sm) = (bs1, sm1)" by fastforce
  then have "unrolled_blocks iters (bs1, sm1) = (bs', sm')" using Cons.prems by (simp add: unrolled_blocks_def)
  from Cons.IH [OF this] show ?case using unrolled_block_sum [OF b] by simp
qed (simp add: unrolled_blocks_def)

text \<open>Each block at least halves the bound on what is left.\<close>

fun halving :: "nat \<Rightarrow> nat list \<Rightarrow> bool" where
  "halving n [] \<longleftrightarrow> n \<le> 2"
| "halving n (iter # iters) \<longleftrightarrow> n \<le> 4 * iter \<and> halving (2 * iter) iters"

lemma unrolled_blocks_length:
  "halving n iters \<Longrightarrow> length bs < n \<Longrightarrow> length (fst (unrolled_blocks iters (bs, sm))) < 2"
proof (induction iters arbitrary: n bs sm)
  case (Cons iter iters)
  obtain bs1 sm1 where b: "unrolled_block iter (bs, sm) = (bs1, sm1)" by fastforce
  have "length bs1 < 2 * iter" using unrolled_block_length [of bs iter sm] Cons.prems by (simp add: b)
  then have "length (fst (unrolled_blocks iters (bs1, sm1))) < 2" using Cons.IH [of "2 * iter" bs1 sm1] Cons.prems(1) by simp
  then show ?case using b by (simp add: unrolled_blocks_def)
qed (simp add: unrolled_blocks_def)

lemma pseudo_csum_unrolled_eq:
  assumes "length bs < 2048"
  shows "pseudo_csum_unrolled bs = of_nat (le_sum bs)"
proof -
  obtain ptr sm where b: "unrolled_blocks [512, 256, 128, 64, 32, 16, 8, 4, 2, 1] (bs, 0) = (ptr, sm)" by fastforce
  have "length ptr < 2"
    using unrolled_blocks_length [of 2048 "[512, 256, 128, 64, 32, 16, 8, 4, 2, 1]" bs 0] assms b by simp
  moreover have "sm + of_nat (le_sum ptr) = of_nat (le_sum bs)" using unrolled_blocks_sum [OF b] by simp
  moreover have "(ucast (le16 x 0) :: u32) = of_nat (unat x)" for x
    by (simp only: ucast_u16_of_nat unat_le16) simp
  ultimately show ?thesis by (cases ptr; cases "List.tl ptr") (auto simp: pseudo_csum_unrolled_alt b [simplified])
qed

text \<open>On longer data the blocks sum 2046 bytes and leave the rest.\<close>

lemma unrolled_blocks_long:
  "2 * sum_list iters \<le> length bs \<Longrightarrow> unrolled_blocks iters (bs, sm) =
    (drop (2 * sum_list iters) bs, sm + of_nat (le_sum (take (2 * sum_list iters) bs)))"
proof (induction iters arbitrary: bs sm)
  case (Cons iter iters)
  let ?n = "2 * iter" and ?m = "2 * sum_list iters"
  have len: "?n + ?m \<le> length bs" using Cons.prems by simp
  then have b: "unrolled_block iter (bs, sm) = (drop ?n bs, sm + of_nat (le_sum (take ?n bs)))"
    using block_loop_eq [of iter bs 0] by (simp add: unrolled_block_def calcPseudoBlock_def mult.commute)
  have "take (?n + ?m) bs = take ?n bs @ take ?m (drop ?n bs)" by (rule take_add)
  then have "le_sum (take (?n + ?m) bs) = le_sum (take ?n bs) + le_sum (take ?m (drop ?n bs))"
    using len by (simp add: le_sum_append_even)
  then show ?case using Cons.IH [of "drop ?n bs"] b len
    by (simp add: unrolled_blocks_def add.assoc add.commute [of ?m] distrib_left)
qed (simp add: unrolled_blocks_def)

lemma pseudo_csum_unrolled_long:
  assumes "2048 \<le> length bs"
  shows "pseudo_csum_unrolled bs = of_nat (le_sum (take 2046 bs))"
proof -
  have "length (drop 2046 bs) \<noteq> 1" using assms by simp
  then show ?thesis using assms unrolled_blocks_long [of "[512, 256, 128, 64, 32, 16, 8, 4, 2, 1]" bs 0]
    by (auto simp: pseudo_csum_unrolled_alt)
qed

section \<open>TCP and UDP checksums\<close>

lemma be16toh_htons: "be16toh x = lwip_htons x"
  unfolding lwip_htons_def
  by (rule bit_word_eqI) (auto simp: be16toh_def bit_simps bit_PP_HTONS add.commute dest: bit_imp_le_length)

text \<open>The 32-bit sum of an address pair, the protocol and the length is the sum of the pseudo header.\<close>

lemma pseudo_part_sum:
  "unat ((s AND 0xFFFF) + (drop_bit 16 s AND 0xFFFF) + (d AND 0xFFFF) + (drop_bit 16 d AND 0xFFFF) +
     ucast (be16toh (ucast (proto :: u8))) + ucast (be16toh n) :: u32) = le_sum (pseudo_header s d proto n)"
proof -
  have le: "unat (x AND 0xffff :: u32) \<le> 65535" for x :: u32
    unfolding unat_and_ffff by (rule mod_65536_le)
  have le': "unat (lwip_htons x) \<le> 65535" for x using unat_u16_less [of "lwip_htons x"] by linarith
  have "unat ((s AND 0xFFFF) + (drop_bit 16 s AND 0xFFFF) + (d AND 0xFFFF) + (drop_bit 16 d AND 0xFFFF) +
     ucast (be16toh (ucast proto)) + ucast (be16toh n) :: u32) =
     unat (s AND 0xFFFF) + unat (drop_bit 16 s AND 0xFFFF) + unat (d AND 0xFFFF) + unat (drop_bit 16 d AND 0xFFFF) +
     unat (lwip_htons (ucast proto)) + unat (lwip_htons n)"
    using le [of s] le [of "drop_bit 16 s"] le [of d] le [of "drop_bit 16 d"] le' [of "ucast proto"] le' [of n]
    by (simp add: be16toh_htons unat_plus_u32)
  then show ?thesis
    by (simp add: pseudo_header_def le_sum_append_even le_sum_bytes32 unat_htons_proto unat_htons_len [of n] del: le_sum.simps(1))
      (simp add: le_sum_append_even)
qed

lemma fold_pseudo:
  assumes "unat sm = le_sum (pseudo_header s d proto n) + le_sum data" and "length data \<le> 0x20000"
  shows "(ucast (NOT (fold_loop sm)) :: u16) = inet_chksum_pseudo [(a, data)] proto n s d"
proof -
  have "unat sm = le_sum (pseudo_header s d proto n @ data)" using assms(1) by (simp add: le_sum_append_even)
  then show ?thesis using inet_chksum_pseudo_eq [of "[(a, data)]"] assms(2)
    by (simp add: fold_not cksum_def)
qed

lemma le_sum_2047: "length bs < 2048 \<Longrightarrow> le_sum bs \<le> 67107840"
  using le_sum_bound [of bs] mult_le_mono2 [of "(length bs + 1) div 2" 1024 65535] by linarith

lemma le_sum_pseudo_le: "le_sum (pseudo_header s d proto n) \<le> 393210"
  using le_sum_bound [of "pseudo_header s d proto n"] by simp

lemma ekaPseudoTcpCsum_segment:
  assumes "unat (be16toh (ip_len h)) = 20 + length seg"
  shows "be16toh (ip_len h) - 20 = of_nat (length seg)"
    and "unat (calc_pseudo_ipHdrPart h) =
      le_sum (pseudo_header (ip_src h) (ip_dest h) EKA_PROTO_TCP (of_nat (length seg)))"
    and "ekaPseudoTcpCsum h seg = Inr (calc_pseudo_ipHdrPart h + pseudo_csum_unrolled seg)"
proof -
  have "be16toh (ip_len h) = of_nat (20 + length seg)" using assms by (metis of_nat_unat ucast_id)
  then show n: "be16toh (ip_len h) - 20 = of_nat (length seg)" by simp
  show "unat (calc_pseudo_ipHdrPart h) =
      le_sum (pseudo_header (ip_src h) (ip_dest h) EKA_PROTO_TCP (of_nat (length seg)))"
    using pseudo_part_sum [of "ip_src h" "ip_dest h" EKA_PROTO_TCP "be16toh (ip_len h) - 20"] n
    by (simp add: calc_pseudo_ipHdrPart_def Let_def SIZEOF_IPHDR_def)
  show "ekaPseudoTcpCsum h seg = Inr (calc_pseudo_ipHdrPart h + pseudo_csum_unrolled seg)"
    using assms by (simp add: ekaPseudoTcpCsum_def SIZEOF_IPHDR_def)
qed

text \<open>Adding more to the sum of a segment: the checksum of any data with that sum.\<close>

lemma foldPseudoCsum_data:
  assumes h: "unat (calc_pseudo_ipHdrPart h) = le_sum (pseudo_header (ip_src h) (ip_dest h) EKA_PROTO_TCP n)"
    and s: "x + y = le_sum data" and l: "length data < 2048"
  shows "foldPseudoCsum (calc_pseudo_ipHdrPart h + of_nat x + of_nat y) =
    inet_chksum_pseudo [(a, data)] EKA_PROTO_TCP n (ip_src h) (ip_dest h)"
proof -
  have eq: "calc_pseudo_ipHdrPart h + of_nat x + of_nat y = calc_pseudo_ipHdrPart h + of_nat (le_sum data)"
    unfolding s [symmetric] by (simp add: add.assoc)
  have "unat (calc_pseudo_ipHdrPart h + of_nat (le_sum data)) = unat (calc_pseudo_ipHdrPart h) + le_sum data"
    using le_sum_2047 [OF l] le_sum_pseudo_le [of "ip_src h" "ip_dest h" EKA_PROTO_TCP n] h
    by (simp add: unat_plus_u32 unat_of_nat_u32)
  then show ?thesis unfolding foldPseudoCsum_def eq using h l by (intro fold_pseudo) simp_all
qed

lemma ekaTcpCsum_short:
  assumes "unat (be16toh (ip_len h)) = 20 + length seg" and "length seg < 2048"
  shows "ekaTcpCsum h seg = Inr (inet_chksum_pseudo [(a, seg)] EKA_PROTO_TCP (of_nat (length seg)) (ip_src h) (ip_dest h))"
proof -
  note f = ekaPseudoTcpCsum_segment [OF assms(1)]
  have "foldPseudoCsum (calc_pseudo_ipHdrPart h + of_nat (le_sum seg) + of_nat 0) =
      inet_chksum_pseudo [(a, seg)] EKA_PROTO_TCP (of_nat (length seg)) (ip_src h) (ip_dest h)"
    by (rule foldPseudoCsum_data [OF f(2) _ assms(2)]) simp
  then show ?thesis using f(3) assms(2) by (simp add: ekaTcpCsum_def pseudo_csum_unrolled_eq)
qed

text \<open>
  C24. The TCP checksum that the library computes for the packets it sends through the FPGA is lwIP's:
  for a segment of fewer than 2048 bytes, \<open>ekaTcpCsum\<close> (the unrolled sum) returns \<open>inet_chksum_pseudo\<close> of
  the segment for TCP between the addresses of the IP header. For 2048 bytes and more the unrolled sum
  leaves out everything behind the first 2046 bytes.\<close>

theorem ekaTcpCsum_is_inet_chksum_pseudo:
  assumes "unat (be16toh (ip_len h)) = 20 + length seg"
  shows "(length seg < 2048 \<longrightarrow>
      ekaTcpCsum h seg = Inr (inet_chksum_pseudo [(a, seg)] EKA_PROTO_TCP (of_nat (length seg)) (ip_src h) (ip_dest h))) \<and>
    (2048 \<le> length seg \<longrightarrow>
      ekaTcpCsum h seg = Inr (foldPseudoCsum (calc_pseudo_ipHdrPart h + pseudo_csum (take 2046 seg))))"
proof -
  note f = ekaPseudoTcpCsum_segment [OF assms]
  show ?thesis
  proof (intro conjI impI)
    assume l: "length seg < 2048"
    show "ekaTcpCsum h seg = Inr (inet_chksum_pseudo [(a, seg)] EKA_PROTO_TCP (of_nat (length seg)) (ip_src h) (ip_dest h))"
      by (rule ekaTcpCsum_short [OF assms l])
  next
    assume "2048 \<le> length seg"
    then show "ekaTcpCsum h seg = Inr (foldPseudoCsum (calc_pseudo_ipHdrPart h + pseudo_csum (take 2046 seg)))"
      using f(3) by (simp add: ekaTcpCsum_def pseudo_csum_unrolled_long pseudo_csum_def csum_total_eq)
  qed
qed

definition demo_ip :: "u16 \<Rightarrow> EkaIpHdr" where
  "demo_ip n = \<lparr>v_hl = 0x45, tos = 0, ip_len = n, ip_id = 0, ip_offset = 0x40, ttl = 64, ip_proto = 6, ip_chksum = 0,
     ip_src = 0x0100000a, ip_dest = 0x0200000a\<rparr>"

theorem ekaTcpCsum_is_inet_chksum_pseudo_witness:
  "ekaTcpCsum (demo_ip 0x1700) [1, 2, 3] = Inr (inet_chksum_pseudo [(0, [1, 2, 3])] EKA_PROTO_TCP 3 0x0100000a 0x0200000a)"
proof -
  have "unat (be16toh (ip_len (demo_ip 0x1700))) = 20 + length [1, 2, 3 :: u8]"
    by (simp add: be16toh_def demo_ip_def)
  from ekaTcpCsum_is_inet_chksum_pseudo [OF this, of 0] show ?thesis by (simp add: demo_ip_def)
qed

text \<open>
  \<open>calc_tcp_csum\<close>, which assembles pseudo header, TCP header and payload in a buffer, returns the same
  checksum for up to 1968 bytes of payload; with more it writes beyond its buffer of 2000 bytes.\<close>

theorem calc_tcp_csum_correct:
  assumes "length tcp_hdr = 20" and "unat payload_size = length payload"
  shows "calc_tcp_csum h tcp_hdr payload payload_size =
    (if length payload \<le> 1968
     then Inr (inet_chksum_pseudo [(a, tcp_hdr @ payload)] EKA_PROTO_TCP (20 + payload_size) (ip_src h) (ip_dest h))
     else Inl InvalidAccess)"
proof (cases "length payload \<le> 1968")
  case True
  let ?psh = "bytes32 (ip_src h) @ bytes32 (ip_dest h) @ [0, EKA_PROTO_TCP] @ mem16 (be16toh (20 + payload_size))"
  have p: "?psh = pseudo_header (ip_src h) (ip_dest h) EKA_PROTO_TCP (20 + payload_size)"
    by (simp add: pseudo_header_def be16toh_htons mem16_htons)
  let ?data = "tcp_hdr @ payload"
  have len: "length ?data < 2048" using True assms(1) by simp
  have "unat (pseudo_csum (?psh @ ?data)) = le_sum (pseudo_header (ip_src h) (ip_dest h) EKA_PROTO_TCP (20 + payload_size)) + le_sum ?data"
    using le_sum_2047 [OF len] le_sum_pseudo_le [of "ip_src h" "ip_dest h" EKA_PROTO_TCP "20 + payload_size"]
    unfolding p pseudo_csum_def csum_total_eq
    by (simp add: le_sum_append_even [of "pseudo_header _ _ _ _"] unat_of_nat_u32 unat_plus_u32)
  then have "pseudo_csum2csum (pseudo_csum (?psh @ ?data)) =
      inet_chksum_pseudo [(a, ?data)] EKA_PROTO_TCP (20 + payload_size) (ip_src h) (ip_dest h)"
    unfolding pseudo_csum2csum_def using len by (intro fold_pseudo) simp_all
  then show ?thesis using True assms
    by (simp add: calc_tcp_csum_def calc_pseudo_csum_def Let_def SIZEOF_TCPHDR_def)
next
  case False
  then show ?thesis using assms by (simp add: calc_tcp_csum_def calc_pseudo_csum_def Let_def SIZEOF_TCPHDR_def)
qed

theorem calc_tcp_csum_correct_witness:
  "calc_tcp_csum (demo_ip 0) (replicate 20 1) [7, 8] 2 =
     Inr (inet_chksum_pseudo [(0, replicate 20 1 @ [7, 8])] EKA_PROTO_TCP 22 0x0100000a 0x0200000a)"
  using calc_tcp_csum_correct [of "replicate 20 1" 2 "[7, 8]" "demo_ip 0" 0] by (simp add: demo_ip_def)

lemma bit31_iff: "sm AND 0x80000000 \<noteq> 0 \<longleftrightarrow> 2147483648 \<le> unat (sm :: u32)"
proof -
  have "sm AND 0x80000000 \<noteq> 0 \<longleftrightarrow> bit sm 31"
  proof -
    have "(0x80000000 :: u32) = push_bit 31 1" by simp
    then show ?thesis by (simp only: bit_iff_and_push_bit_not_eq_0)
  qed
  also have "\<dots> \<longleftrightarrow> bit (unat sm) 31" by (simp add: bit_unsigned_iff)
  also have "\<dots> \<longleftrightarrow> odd (unat sm div 2147483648)" by (simp add: bit_iff_odd)
  also have "\<dots> \<longleftrightarrow> 2147483648 \<le> unat sm"
  proof -
    have "unat sm div 2147483648 < 2" using unat_u32_less [of sm] by (simp add: less_mult_imp_div_less)
    then have "odd (unat sm div 2147483648) \<longleftrightarrow> unat sm div 2147483648 \<noteq> 0" by (auto simp: less_2_cases_iff)
    then show ?thesis by (simp add: div_eq_0_iff not_less)
  qed
  finally show ?thesis .
qed

lemma udp_loop_sum:
  "unat sm < 2147483648 \<Longrightarrow> udp_loop bs sm = (s, buf) \<Longrightarrow>
   unat s < 2147483648 \<and> length buf \<le> 1 \<and> oc_norm (unat s + le_sum buf) = oc_norm (unat sm + le_sum bs)"
proof (induction bs sm rule: udp_loop.induct)
  case (1 b0 b1 bs sm)
  let ?t = "sm + ucast (le16 b0 b1) :: u32"
  let ?u = "if ?t AND 0x80000000 \<noteq> 0 then (?t AND 0xFFFF) + drop_bit 16 ?t else ?t"
  have "unat (le16 b0 b1) \<le> 65535" using unat_u16_less [of "le16 b0 b1"] by linarith
  then have t: "unat ?t = unat sm + (unat b0 + 256 * unat b1)"
    using "1.prems"(1) by (simp add: unat_plus_u32 unat_le16)
  have f: "(?t AND 0xFFFF) + drop_bit 16 ?t = FOLD_U32T ?t" by (simp add: FOLD_U32T_def add.commute)
  have "unat ?u < 2147483648" using bit31_iff [of ?t] FOLD_bound [of ?t] by (auto simp: f)
  moreover have "oc_norm (unat ?u) = oc_norm (unat ?t)" by (simp add: f FOLD_sum)
  moreover have "udp_loop bs ?u = (s, buf)" using "1.prems"(2) by (simp add: Let_def)
  ultimately have "unat s < 2147483648 \<and> length buf \<le> 1 \<and> oc_norm (unat s + le_sum buf) = oc_norm (unat ?u + le_sum bs)"
    using "1.IH" [OF refl] by blast
  moreover have "oc_norm (unat ?u + le_sum bs) = oc_norm (unat ?t + le_sum bs)"
    using \<open>oc_norm (unat ?u) = oc_norm (unat ?t)\<close> by (intro oc_norm_cong_add) simp_all
  ultimately show ?case using t by (simp add: add.assoc)
qed auto

text \<open>
  C36. For every datagram of up to 65535 bytes \<open>udp_checksum\<close> returns what lwIP's \<open>inet_chksum_pseudo\<close> returns for UDP, the
  carries folded in while the sum runs included. (The two differ from there on: lwIP's \<open>core/udp.c\<close> sends
  0xffff for a sum of 0, which in a UDP header means that there is no checksum; \<open>udp_checksum\<close> returns the 0, see
  \<open>udp_checksum_zero\<close>.)\<close>

theorem udp_checksum_is_inet_chksum_pseudo:
  assumes "length bs \<le> 65535"
  shows "udp_checksum bs s d = inet_chksum_pseudo [(a, bs)] EKA_PROTO_UDP (of_nat (length bs)) s d"
proof -
  obtain sm buf where l: "udp_loop bs 0 = (sm, buf)" by fastforce
  have sm: "unat sm < 2147483648" "length buf \<le> 1" "oc_norm (unat sm + le_sum buf) = oc_norm (le_sum bs)"
    using udp_loop_sum [OF _ l] by simp_all
  let ?t = "case buf of b # _ \<Rightarrow> sm + ucast b | [] \<Rightarrow> sm"
  let ?p = "(s AND 0xFFFF) + (drop_bit 16 s AND 0xFFFF) + (d AND 0xFFFF) + (drop_bit 16 d AND 0xFFFF) +
     ucast (be16toh (ucast EKA_PROTO_UDP)) + ucast (be16toh (of_nat (length bs))) :: u32"
  let ?psh = "pseudo_header s d EKA_PROTO_UDP (of_nat (length bs))"
  have t: "unat ?t = unat sm + le_sum buf" "unat ?t < 2147483904"
  proof -
    consider "buf = []" | b where "buf = [b]" using sm(2) by (cases buf) auto
    then have "unat ?t = unat sm + le_sum buf \<and> unat ?t < 2147483904"
    proof cases
      case (2 b)
      have "unat sm + unat b < 2147483904" using sm(1) unat_u8_less [of b] by linarith
      then show ?thesis unfolding 2 by (simp add: unat_plus_u32)
    qed (use sm(1) in simp)
    then show "unat ?t = unat sm + le_sum buf" "unat ?t < 2147483904" by simp_all
  qed
  have p: "unat ?p = le_sum ?psh" by (rule pseudo_part_sum)
  have "unat (?t + ?p) = unat ?t + unat ?p" using t(2) p le_sum_pseudo_le [of s d EKA_PROTO_UDP "of_nat (length bs)"]
    by (subst unat_plus_u32) (simp del: unat_u32_less)
  then have "oc_norm (unat (?t + ?p)) = oc_norm (le_sum (?psh @ bs))"
    unfolding p t(1) using sm(3) by (simp add: le_sum_append_even) (metis add.commute oc_norm_add_right)
  moreover have "udp_checksum bs s d = ucast (NOT (fold_loop (?t + ?p)))"
    by (simp add: udp_checksum_def l Let_def add.assoc)
  moreover have "inet_chksum_pseudo [(a, bs)] EKA_PROTO_UDP (of_nat (length bs)) s d = NOT (cksum (?psh @ bs))"
    using inet_chksum_pseudo_eq [of "[(a, bs)]"] assms by simp
  ultimately show ?thesis by (simp add: fold_not cksum_def)
qed

theorem udp_checksum_is_inet_chksum_pseudo_witness:
  "udp_checksum [1, 2, 3] 0x0100000a 0x0200000a = inet_chksum_pseudo [(0, [1, 2, 3])] EKA_PROTO_UDP 3 0x0100000a 0x0200000a"
  using udp_checksum_is_inet_chksum_pseudo [of "[1, 2, 3]" "0x0100000a" "0x0200000a" 0] by simp

lemma udp_checksum_zero: "udp_checksum [0xff, 0xec] 0 0 = 0"
  by code_simp

section \<open>IGMP packets\<close>

lemma csum_inet_chksum: "length bs \<le> 0x20000 \<Longrightarrow> csum bs = inet_chksum a bs"
  by (simp add: csum_eq inet_chksum_def lwip_standard_chksum_eq)

text \<open>
  The IGMP packets are well formed: 46 bytes of which the first six are the Ethernet address of the
  multicast group, the IP header with the router alert option and the IGMP message both pass the
  receiver's checksum (\<open>inet_chksum\<close> over them is 0), the IP header carries the source and the group, and the
  message type says join or leave and names the group.\<close>

theorem createIgmpPkt_correct:
  assumes "length macsa = 6"
  shows "let pkt = createIgmpPkt join macsa src dst; ip = take 24 (drop 14 pkt); igmp = drop 38 pkt in
    length pkt = 46 \<and>
    take 6 pkt = [0x01, 0x00, 0x5e, (bytes32 dst ! 1) AND 0x7F, bytes32 dst ! 2, bytes32 dst ! 3] \<and>
    take 8 (drop 6 pkt) = macsa @ [0x08, 0x00] \<and>
    inet_chksum a ip = 0 \<and> inet_chksum a' igmp = 0 \<and>
    take 8 (drop 12 ip) = bytes32 src @ bytes32 dst \<and> igmp ! 0 = (if join then 0x16 else 0x17) \<and>
    drop 4 igmp = bytes32 dst"
proof -
  let ?h = "\<lparr>v_hl = 0x46, tos = 0xc0, ip_len = be16toh (of_nat (SIZEOF_IPHDR + 8 + 4)), ip_id = 0, ip_offset = 0x0040,
               ttl = 1, ip_proto = 2, ip_chksum = 0, ip_src = src, ip_dest = dst\<rparr>"
  let ?opt = "bytes32 (be32toh 0x94040000)"
  let ?igmp = "\<lambda>cksum. [if join then 0x16 else 0x17, 0] @ mem16 cksum @ bytes32 dst"
  let ?c = "csum (ip_bytes ?h @ ?opt)" and ?d = "csum (?igmp 0)"
  let ?macda = "[0x01, 0x00, 0x5e, (bytes32 dst ! 1) AND 0x7F, bytes32 dst ! 2, bytes32 dst ! 3]"
  let ?ip = "ip_bytes (?h\<lparr>ip_chksum := ?c\<rparr>) @ ?opt"
  have pkt: "createIgmpPkt join macsa src dst = ?macda @ macsa @ mem16 (be16toh 0x0800) @ ?ip @ ?igmp ?d"
    by (simp add: createIgmpPkt_def Let_def)
  have li: "length ?ip = 24" "length (?igmp ?d) = 8" by (simp_all add: ip_bytes_def mem16_def)
  have ty: "mem16 (be16toh 0x0800) = [0x08, 0x00]" by (simp add: mem16_def be16toh_def)
  have "?c = inet_chksum 0 (take 10 ?ip @ [0, 0] @ drop 12 ?ip)"
    by (subst csum_inet_chksum) (simp_all add: ip_bytes_def mem16_def)
  from chksum_field_verifies [OF _ _ this, of a]
  have 1: "inet_chksum a (take 10 ?ip @ mem16 ?c @ drop 12 ?ip) = 0" using li by (simp add: mem16_def)
  have "?ip = take 10 ?ip @ mem16 ?c @ drop 12 ?ip" by (simp add: ip_bytes_def mem16_def)
  with 1 have ip: "inet_chksum a ?ip = 0" by simp
  have "?d = inet_chksum 0 ([if join then 0x16 else 0x17, 0] @ [0, 0] @ bytes32 dst)"
    by (subst csum_inet_chksum) (simp_all add: mem16_def)
  from chksum_field_verifies [OF _ _ this, of a'] have igmp: "inet_chksum a' (?igmp ?d) = 0" by (simp add: mem16_def)
  have "take 24 (drop 14 (?macda @ macsa @ mem16 (be16toh 0x0800) @ ?ip @ ?igmp ?d)) = ?ip"
    "drop 38 (?macda @ macsa @ mem16 (be16toh 0x0800) @ ?ip @ ?igmp ?d) = ?igmp ?d"
    using assms li by (simp_all add: ty)
  then show ?thesis unfolding pkt Let_def using assms li ip igmp ty
    by (simp add: ip_bytes_def mem16_def bytes32_def)
qed

theorem createIgmpPkt_correct_witness:
  "length (createIgmpPkt True [2, 0, 0, 0, 0, 1] 0x0100000a 0x010000e0) = 46"
  using createIgmpPkt_correct [of "[2, 0, 0, 0, 0, 1]" True "0x0100000a" "0x010000e0" 0 0] by (simp add: Let_def)

end
