(* ===== verification/EkaHashEng.thy ===== *)
theory EkaHashEng
  imports EkaMacros
begin

text \<open>
  The subscription table of securities, \<open>src/src/EkaHashEng.h\<close> and \<open>src/src/EkaHashEngLine.h\<close>: a hash table
  of \<open>Rows\<close> lines of \<open>Cols\<close> columns. The template parameters are arguments here; security ids are 64-bit.
  After \<open>packDB\<close> every subscribed security has its subscription id, the number of securities in the lines
  before its own plus its column.
\<close>

section \<open>Model\<close>

text \<open>Of the feed versions the code distinguishes one.\<close>

datatype EfhFeedVer = kMIAX | kOther

record HashCol =
  col_valid :: bool
  col_secId :: u64
  col_hash :: u16

record EkaHashEngLine =
  validCnt :: nat
  line_sum :: u32
  line_col :: "HashCol list"
  packed_attr :: u32
  packed_col :: "u16 list"

definition new_line :: "nat \<Rightarrow> EkaHashEngLine" where
  "new_line Cols = \<lparr>validCnt = 0, line_sum = 0, line_col = replicate Cols \<lparr>col_valid = False, col_secId = 0, col_hash = 0\<rparr>,
     packed_attr = 0, packed_col = replicate Cols 0\<rparr>"

definition getHash :: "EfhFeedVer \<Rightarrow> nat \<Rightarrow> u64 \<Rightarrow> u16" where
  "getHash ver Rows normSecId =
     (case ver of
        kMIAX \<Rightarrow> ucast (drop_bit 24 normSecId AND 0xFF)
      | kOther \<Rightarrow> ucast (normSecId div of_nat Rows))"

text \<open>The search for the hash: found, not found, or a clash with another security.\<close>

fun hash_loop :: "u16 \<Rightarrow> u64 \<Rightarrow> HashCol list \<Rightarrow> bool outcome" where
  "hash_loop h secId [] = Inr False"
| "hash_loop h secId (c # cs) =
     (if col_hash c = h then
        if col_secId c \<noteq> secId then on_error ''Hash error!'' else Inr True
      else hash_loop h secId cs)"

definition line_addSecurity :: "EfhFeedVer \<Rightarrow> nat \<Rightarrow> nat \<Rightarrow> u64 \<Rightarrow> EkaHashEngLine \<Rightarrow> (bool \<times> EkaHashEngLine) outcome" where
  "line_addSecurity ver Rows Cols secId l =
     (if validCnt l = Cols then Inr (False, l)
      else
        let h = getHash ver Rows secId in
        obind (hash_loop h secId (take (validCnt l) (line_col l))) (\<lambda>found.
          if found then Inr (False, l)
          else Inr (True, l\<lparr>line_col := (line_col l)[validCnt l := \<lparr>col_valid = True, col_secId = secId, col_hash = h\<rparr>],
                            validCnt := validCnt l + 1\<rparr>)))"

fun subscription_loop :: "u64 \<Rightarrow> HashCol list \<Rightarrow> nat \<Rightarrow> nat option" where
  "subscription_loop secId [] i = None"
| "subscription_loop secId (c # cs) i = (if col_secId c = secId then Some i else subscription_loop secId cs (Suc i))"

text \<open>The result is an \<open>int\<close>, -1 when there is none.\<close>

definition line_getSubscriptionId :: "u64 \<Rightarrow> EkaHashEngLine \<Rightarrow> u32" where
  "line_getSubscriptionId secId l =
     (case subscription_loop secId (take (validCnt l) (line_col l)) 0 of
        None \<Rightarrow> - 1
      | Some i \<Rightarrow> line_sum l + of_nat i)"

definition line_pack :: "nat \<Rightarrow> EkaHashEngLine \<Rightarrow> nat \<times> EkaHashEngLine" where
  "line_pack sm l =
     (validCnt l,
      l\<lparr>line_sum := of_nat sm, packed_attr := of_nat sm OR push_bit 24 (of_nat (validCnt l)),
        packed_col := map col_hash (line_col l)\<rparr>)"

record EkaHashEng =
  hashLine :: "EkaHashEngLine list"
  numSecurities :: nat

definition new_eng :: "nat \<Rightarrow> nat \<Rightarrow> EkaHashEng" where
  "new_eng Rows Cols = \<lparr>hashLine = replicate Rows (new_line Cols), numSecurities = 0\<rparr>"

definition getLineIdx :: "nat \<Rightarrow> u64 \<Rightarrow> nat" where
  "getLineIdx Rows secId = unat (secId AND (of_nat Rows - 1))"

definition getSubscriptionId :: "nat \<Rightarrow> u64 \<Rightarrow> EkaHashEng \<Rightarrow> u32" where
  "getSubscriptionId Rows secId e = line_getSubscriptionId secId (hashLine e ! getLineIdx Rows secId)"

definition subscribeSec :: "EfhFeedVer \<Rightarrow> nat \<Rightarrow> nat \<Rightarrow> u64 \<Rightarrow> EkaHashEng \<Rightarrow> (bool \<times> EkaHashEng) outcome" where
  "subscribeSec ver Rows Cols secId e =
     (if numSecurities e = Rows * Cols then Inr (False, e)
      else
        let lineIdx = getLineIdx Rows secId in
        obind (line_addSecurity ver Rows Cols secId (hashLine e ! lineIdx)) (\<lambda>(added, l).
          let e = e\<lparr>hashLine := (hashLine e)[lineIdx := l]\<rparr> in
          Inr (True, if added then e\<lparr>numSecurities := numSecurities e + 1\<rparr> else e)))"

fun pack_loop :: "EkaHashEngLine list \<Rightarrow> nat \<Rightarrow> EkaHashEngLine list" where
  "pack_loop [] sm = []"
| "pack_loop (l # ls) sm = (let (n, l) = line_pack sm l in l # pack_loop ls (sm + n))"

definition packDB :: "EkaHashEng \<Rightarrow> EkaHashEng" where
  "packDB e = e\<lparr>hashLine := pack_loop (hashLine e) 0\<rparr>"

definition getPackedLine :: "nat \<Rightarrow> EkaHashEng \<Rightarrow> nat \<times> u32 \<times> u16 list" where
  "getPackedLine i e = (validCnt (hashLine e ! i), packed_attr (hashLine e ! i), packed_col (hashLine e ! i))"

section \<open>The invariant\<close>

text \<open>The securities of a line, in the order of their columns.\<close>

definition line_secs :: "EkaHashEngLine \<Rightarrow> u64 list" where
  "line_secs l = map col_secId (take (validCnt l) (line_col l))"

definition line_ok :: "EfhFeedVer \<Rightarrow> nat \<Rightarrow> nat \<Rightarrow> nat \<Rightarrow> EkaHashEngLine \<Rightarrow> bool" where
  "line_ok ver Rows Cols i l \<longleftrightarrow> length (line_col l) = Cols \<and> validCnt l \<le> Cols \<and> distinct (line_secs l) \<and>
     (\<forall>c \<in> set (take (validCnt l) (line_col l)). col_hash c = getHash ver Rows (col_secId c) \<and> getLineIdx Rows (col_secId c) = i)"

definition eng_ok :: "EfhFeedVer \<Rightarrow> nat \<Rightarrow> nat \<Rightarrow> EkaHashEng \<Rightarrow> bool" where
  "eng_ok ver Rows Cols e \<longleftrightarrow> 0 < Rows \<and> Rows < 2 ^ 64 \<and> length (hashLine e) = Rows \<and>
     (\<forall>i < Rows. line_ok ver Rows Cols i (hashLine e ! i)) \<and> numSecurities e = sum_list (map validCnt (hashLine e))"

text \<open>The securities of the table, line by line.\<close>

definition eng_secs :: "EkaHashEng \<Rightarrow> u64 list" where
  "eng_secs e = concat (map line_secs (hashLine e))"

lemma line_ok_new: "line_ok ver Rows Cols i (new_line Cols)"
  by (simp add: line_ok_def new_line_def line_secs_def)

lemma eng_ok_new: "0 < Rows \<Longrightarrow> Rows < 2 ^ 64 \<Longrightarrow> eng_ok ver Rows Cols (new_eng Rows Cols)"
  by (simp add: eng_ok_def new_eng_def line_ok_new) (simp add: new_line_def sum_list_replicate)

lemma line_row: "line_ok ver Rows Cols i l \<Longrightarrow> s \<in> set (line_secs l) \<Longrightarrow> getLineIdx Rows s = i"
  by (auto simp: line_ok_def line_secs_def)

lemma length_line_secs: "line_ok ver Rows Cols i l \<Longrightarrow> length (line_secs l) = validCnt l"
  by (simp add: line_ok_def line_secs_def)

lemma getLineIdx_less:
  assumes "0 < Rows" and "Rows < 2 ^ 64"
  shows "getLineIdx Rows secId < Rows"
proof -
  have "secId AND (of_nat Rows - 1) \<le> of_nat Rows - 1" by (rule word_and_le1)
  then have "getLineIdx Rows secId \<le> unat (of_nat Rows - 1 :: u64)" by (simp add: getLineIdx_def word_le_nat_alt)
  also have "unat (of_nat Rows - 1 :: u64) = Rows - 1"
  proof -
    have r: "unat (of_nat Rows :: u64) = Rows" using assms(2) by (simp add: unat_of_nat take_bit_eq_mod)
    then have "(1 :: u64) \<le> of_nat Rows" using assms(1) by (simp add: word_le_nat_alt)
    then show ?thesis using r by (simp add: unat_sub)
  qed
  finally show ?thesis using assms(1) by linarith
qed

text \<open>The hash search fails exactly on a clash: another security of the line with the same hash.\<close>

lemma hash_loop_eq:
  assumes "\<forall>c \<in> set cs. col_hash c = getHash ver Rows (col_secId c)"
    and "\<forall>c \<in> set cs. getHash ver Rows (col_secId c) = getHash ver Rows secId \<longrightarrow> col_secId c = secId"
  shows "hash_loop (getHash ver Rows secId) secId cs = Inr (secId \<in> col_secId ` set cs)"
  using assms by (induction cs) auto

lemma hash_loop_clash:
  assumes "\<forall>c \<in> set cs. col_hash c = getHash ver Rows (col_secId c)" and "secId \<notin> col_secId ` set cs"
    and "\<exists>s \<in> col_secId ` set cs. getHash ver Rows s = getHash ver Rows secId"
  shows "hash_loop (getHash ver Rows secId) secId cs = on_error ''Hash error!''"
  using assms by (induction cs) auto

lemma line_clash:
  assumes ok: "line_ok ver Rows Cols i l" and "validCnt l < Cols" and "secId \<notin> set (line_secs l)"
    and "\<exists>s \<in> set (line_secs l). getHash ver Rows s = getHash ver Rows secId"
  shows "line_addSecurity ver Rows Cols secId l = on_error ''Hash error!''"
proof -
  have "hash_loop (getHash ver Rows secId) secId (take (validCnt l) (line_col l)) = on_error ''Hash error!''"
    using assms by (intro hash_loop_clash) (auto simp: line_ok_def line_secs_def)
  then show ?thesis using assms(2) by (simp add: line_addSecurity_def Let_def on_error_def)
qed

lemma line_add:
  assumes ok: "line_ok ver Rows Cols i l" and i: "getLineIdx Rows secId = i"
    and no_clash: "\<forall>s \<in> set (line_secs l). getHash ver Rows s = getHash ver Rows secId \<longrightarrow> s = secId"
  shows "\<exists>added l'. line_addSecurity ver Rows Cols secId l = Inr (added, l') \<and> line_ok ver Rows Cols i l' \<and>
    added = (validCnt l < Cols \<and> secId \<notin> set (line_secs l)) \<and>
    line_secs l' = line_secs l @ (if added then [secId] else []) \<and>
    validCnt l' = validCnt l + (if added then 1 else 0)"
proof (cases "validCnt l < Cols \<and> secId \<notin> set (line_secs l)")
  case True
  let ?c = "\<lparr>col_valid = True, col_secId = secId, col_hash = getHash ver Rows secId\<rparr>"
  let ?l = "l\<lparr>line_col := (line_col l)[validCnt l := ?c], validCnt := validCnt l + 1\<rparr>"
  have len: "validCnt l < length (line_col l)" using ok True by (simp add: line_ok_def)
  have tk: "take (Suc (validCnt l)) ((line_col l)[validCnt l := ?c]) = take (validCnt l) (line_col l) @ [?c]"
    using len by (simp add: take_Suc_conv_app_nth)
  then have secs: "line_secs ?l = line_secs l @ [secId]" by (simp add: line_secs_def)
  have "hash_loop (getHash ver Rows secId) secId (take (validCnt l) (line_col l)) =
      Inr (secId \<in> col_secId ` set (take (validCnt l) (line_col l)))"
    using ok no_clash by (intro hash_loop_eq) (auto simp: line_ok_def line_secs_def)
  then have "line_addSecurity ver Rows Cols secId l = Inr (True, ?l)"
    using True by (simp add: line_addSecurity_def line_secs_def Let_def)
  moreover have "line_ok ver Rows Cols i ?l"
    using ok True i secs tk by (auto simp: line_ok_def)
  ultimately show ?thesis using True secs by (intro exI [of _ True] exI [of _ ?l]) simp
next
  case False
  have "validCnt l \<le> Cols" using ok by (simp add: line_ok_def)
  have "hash_loop (getHash ver Rows secId) secId (take (validCnt l) (line_col l)) =
      Inr (secId \<in> col_secId ` set (take (validCnt l) (line_col l)))"
    using ok no_clash by (intro hash_loop_eq) (auto simp: line_ok_def line_secs_def)
  then have "line_addSecurity ver Rows Cols secId l = Inr (False, l)"
    using False \<open>validCnt l \<le> Cols\<close> by (auto simp: line_addSecurity_def line_secs_def Let_def)
  then show ?thesis using False ok by (intro exI [of _ False] exI [of _ l]) auto
qed

section \<open>Subscriptions\<close>

lemma sum_list_update_nat: "i < length xs \<Longrightarrow> sum_list (xs[i := y]) + xs ! i = sum_list xs + (y :: nat)"
  by (induction xs arbitrary: i) (auto split: nat.splits)

lemma validCnt_secs:
  assumes "eng_ok ver Rows Cols e" and "l \<in> set (hashLine e)"
  shows "validCnt l = length (line_secs l)"
proof -
  obtain j where "j < length (hashLine e)" "hashLine e ! j = l" using assms(2) by (auto simp: in_set_conv_nth)
  then have "line_ok ver Rows Cols j l" using assms(1) by (auto simp: eng_ok_def)
  then show ?thesis by (simp add: length_line_secs)
qed

lemma eng_secs_iff:
  assumes "eng_ok ver Rows Cols e"
  shows "s \<in> set (eng_secs e) \<longleftrightarrow> s \<in> set (line_secs (hashLine e ! getLineIdx Rows s))"
proof
  assume "s \<in> set (eng_secs e)"
  then obtain l where "l \<in> set (hashLine e)" "s \<in> set (line_secs l)" by (auto simp: eng_secs_def)
  then obtain i where i: "i < Rows" "s \<in> set (line_secs (hashLine e ! i))"
    using assms by (auto simp: eng_ok_def in_set_conv_nth)
  then have "line_ok ver Rows Cols i (hashLine e ! i)" using assms unfolding eng_ok_def by blast
  then have "getLineIdx Rows s = i" using i(2) by (rule line_row)
  then show "s \<in> set (line_secs (hashLine e ! getLineIdx Rows s))" using i(2) by simp
next
  assume a: "s \<in> set (line_secs (hashLine e ! getLineIdx Rows s))"
  have "getLineIdx Rows s < length (hashLine e)" using assms getLineIdx_less by (simp add: eng_ok_def)
  then show "s \<in> set (eng_secs e)" using a by (auto simp: eng_secs_def)
qed

lemma subscribeSec_adds:
  assumes ok: "eng_ok ver Rows Cols e"
    and no_clash: "\<forall>s \<in> set (eng_secs e). getLineIdx Rows s = getLineIdx Rows secId \<longrightarrow>
      getHash ver Rows s = getHash ver Rows secId \<longrightarrow> s = secId"
  shows "\<exists>r e'. subscribeSec ver Rows Cols secId e = Inr (r, e') \<and> eng_ok ver Rows Cols e' \<and>
    r = (numSecurities e \<noteq> Rows * Cols) \<and>
    set (eng_secs e') = (if numSecurities e \<noteq> Rows * Cols \<and> validCnt (hashLine e ! getLineIdx Rows secId) < Cols
       then insert secId (set (eng_secs e)) else set (eng_secs e))"
proof (cases "numSecurities e = Rows * Cols")
  case True
  then show ?thesis using ok by (intro exI [of _ False] exI [of _ e]) (simp add: subscribeSec_def)
next
  case False
  let ?i = "getLineIdx Rows secId"
  let ?l = "hashLine e ! ?i"
  have i: "?i < Rows" "length (hashLine e) = Rows" using ok getLineIdx_less by (simp_all add: eng_ok_def)
  have lok: "line_ok ver Rows Cols ?i ?l" using ok i(1) by (simp add: eng_ok_def)
  have row: "getLineIdx Rows s = ?i" if "s \<in> set (line_secs ?l)" for s
    using line_row [OF lok that] .
  have "\<forall>s \<in> set (line_secs ?l). getHash ver Rows s = getHash ver Rows secId \<longrightarrow> s = secId"
    using no_clash row eng_secs_iff [OF ok] by simp
  from line_add [OF lok refl this] obtain added l' where l': "line_addSecurity ver Rows Cols secId ?l = Inr (added, l')"
    "line_ok ver Rows Cols ?i l'" "added = (validCnt ?l < Cols \<and> secId \<notin> set (line_secs ?l))"
    "line_secs l' = line_secs ?l @ (if added then [secId] else [])" "validCnt l' = validCnt ?l + (if added then 1 else 0)"
    by blast
  define e' where "e' = e\<lparr>hashLine := (hashLine e)[?i := l'], numSecurities := numSecurities e + (if added then 1 else 0)\<rparr>"
  have e': "hashLine e' = (hashLine e)[?i := l']" by (simp add: e'_def)
  have "subscribeSec ver Rows Cols secId e = Inr (True, e')"
    using False l'(1) by (simp add: subscribeSec_def Let_def e'_def)
  moreover have ok': "eng_ok ver Rows Cols e'"
    using ok l'(2,5) i sum_list_update_nat [of ?i "map validCnt (hashLine e)" "validCnt l'"]
    by (auto simp: eng_ok_def nth_list_update map_update e'_def)
  moreover have "set (eng_secs e') = (if validCnt ?l < Cols then insert secId (set (eng_secs e)) else set (eng_secs e))"
  proof -
    have "s \<in> set (eng_secs e') \<longleftrightarrow> s \<in> set (eng_secs e) \<or> validCnt ?l < Cols \<and> s = secId" for s
      using i l'(3,4) by (auto simp: eng_secs_iff [OF ok'] eng_secs_iff [OF ok] e' nth_list_update)
    then show ?thesis by auto
  qed
  ultimately show ?thesis using False by (intro exI [of _ True] exI [of _ e']) simp
qed

text \<open>
  C35. Subscribing keeps the table well formed (every security in the line of its low bits, without
  duplicates and with its hash, the count of securities right). When no other security of the line has
  the same hash, \<open>subscribeSec\<close> returns, and the security is subscribed afterwards unless its line or the
  whole table is full; no other subscription changes. A full line is not reported: the result is true. When another security of the
  line has the same hash, the security is not subscribed yet and there is room, the program aborts.\<close>

theorem subscribeSec_correct:
  fixes secId :: u64
  assumes ok: "eng_ok ver Rows Cols e"
  defines "clash \<equiv> \<exists>s \<in> set (eng_secs e). getLineIdx Rows s = getLineIdx Rows secId \<and> getHash ver Rows s = getHash ver Rows secId \<and> s \<noteq> secId"
  shows "(\<not> clash \<longrightarrow> (\<exists>r e'. subscribeSec ver Rows Cols secId e = Inr (r, e') \<and> eng_ok ver Rows Cols e' \<and>
      r = (numSecurities e \<noteq> Rows * Cols) \<and>
      set (eng_secs e') = (if numSecurities e \<noteq> Rows * Cols \<and> validCnt (hashLine e ! getLineIdx Rows secId) < Cols
         then insert secId (set (eng_secs e)) else set (eng_secs e)))) \<and>
    (clash \<and> secId \<notin> set (eng_secs e) \<and> numSecurities e \<noteq> Rows * Cols \<and> validCnt (hashLine e ! getLineIdx Rows secId) < Cols \<longrightarrow>
      subscribeSec ver Rows Cols secId e = on_error ''Hash error!'')"
proof (intro conjI impI)
  assume "\<not> clash"
  then show "\<exists>r e'. subscribeSec ver Rows Cols secId e = Inr (r, e') \<and> eng_ok ver Rows Cols e' \<and>
      r = (numSecurities e \<noteq> Rows * Cols) \<and>
      set (eng_secs e') = (if numSecurities e \<noteq> Rows * Cols \<and> validCnt (hashLine e ! getLineIdx Rows secId) < Cols
         then insert secId (set (eng_secs e)) else set (eng_secs e))"
    unfolding clash_def by (intro subscribeSec_adds [OF ok]) blast
next
  let ?i = "getLineIdx Rows secId"
  let ?l = "hashLine e ! ?i"
  assume a: "clash \<and> secId \<notin> set (eng_secs e) \<and> numSecurities e \<noteq> Rows * Cols \<and> validCnt ?l < Cols"
  have "?i < Rows" using ok getLineIdx_less by (simp add: eng_ok_def)
  then have lok: "line_ok ver Rows Cols ?i ?l" using ok by (simp add: eng_ok_def)
  obtain s where s: "s \<in> set (eng_secs e)" "getLineIdx Rows s = ?i" "getHash ver Rows s = getHash ver Rows secId"
    using a unfolding clash_def by blast
  have "s \<in> set (line_secs ?l)" "secId \<notin> set (line_secs ?l)" using s(1,2) a eng_secs_iff [OF ok] by auto
  then have "line_addSecurity ver Rows Cols secId ?l = on_error ''Hash error!''" using line_clash [OF lok] a s(3) by blast
  then show "subscribeSec ver Rows Cols secId e = on_error ''Hash error!''" using a by (simp add: subscribeSec_def Let_def on_error_def)
qed

theorem subscribeSec_correct_witness:
  "\<exists>r e'. subscribeSec kOther 4 2 5 (new_eng 4 2) = Inr (r, e') \<and> eng_ok kOther 4 2 e' \<and> set (eng_secs e') = {5}"
proof -
  have "getLineIdx 4 5 = 1" by (simp add: getLineIdx_def)
  then have "validCnt (hashLine (new_eng 4 2) ! getLineIdx 4 5) = 0" by (simp add: new_eng_def new_line_def)
  moreover have "set (eng_secs (new_eng 4 2)) = {}" by (auto simp: eng_secs_def new_eng_def new_line_def line_secs_def)
  ultimately show ?thesis using conjunct1 [OF subscribeSec_correct [OF eng_ok_new [of 4 kOther 2], of 5]]
    by (simp add: new_eng_def) blast
qed

section \<open>Subscription ids\<close>

text \<open>The position of an element in a list.\<close>

fun index_of :: "'a \<Rightarrow> 'a list \<Rightarrow> nat" where
  "index_of x [] = 0"
| "index_of x (y # ys) = (if x = y then 0 else Suc (index_of x ys))"

lemma index_of_append:
  "index_of x (xs @ ys) = (if x \<in> set xs then index_of x xs else length xs + index_of x ys)"
  by (induction xs) auto

lemma index_of_nth: "x \<in> set xs \<Longrightarrow> index_of x xs < length xs \<and> xs ! index_of x xs = x"
  by (induction xs) auto

lemma subscription_loop_eq:
  "subscription_loop s cs i = (if s \<in> col_secId ` set cs then Some (i + index_of s (map col_secId cs)) else None)"
  by (induction cs arbitrary: i) auto

lemma pack_loop_nth:
  "i < length ls \<Longrightarrow> pack_loop ls sm ! i = snd (line_pack (sm + sum_list (map validCnt (take i ls))) (ls ! i))"
proof (induction ls arbitrary: sm i)
  case (Cons l ls)
  then show ?case by (cases i) (auto simp: line_pack_def add.assoc)
qed simp

lemma length_pack_loop [simp]: "length (pack_loop ls sm) = length ls"
  by (induction ls arbitrary: sm) (simp_all add: line_pack_def)

lemma index_in_concat:
  assumes "i < length xss" and "x \<in> set (xss ! i)" and "\<forall>j < i. x \<notin> set (xss ! j)"
  shows "index_of x (concat xss) = length (concat (take i xss)) + index_of x (xss ! i)"
proof -
  have "concat xss = concat (take i xss) @ (xss ! i @ concat (drop (Suc i) xss))"
    using id_take_nth_drop [OF assms(1)] by (metis concat.simps(2) concat_append)
  moreover have "x \<notin> set (concat (take i xss))"
  proof
    assume "x \<in> set (concat (take i xss))"
    then obtain ys where "ys \<in> set (take i xss)" "x \<in> set ys" by auto
    moreover from this obtain j where "j < i" "ys = xss ! j" by (auto simp: in_set_conv_nth)
    ultimately show False using assms(3) by blast
  qed
  ultimately show ?thesis using assms(2) by (simp add: index_of_append)
qed

lemma distinct_concat_nth:
  "\<forall>i < length xss. distinct (xss ! i) \<Longrightarrow>
   \<forall>i < length xss. \<forall>j < length xss. i \<noteq> j \<longrightarrow> set (xss ! i) \<inter> set (xss ! j) = {} \<Longrightarrow> distinct (concat xss)"
proof (induction xss)
  case (Cons xs xss)
  have "distinct xs" using Cons.prems(1) by force
  moreover have "distinct (concat xss)"
  proof (rule Cons.IH)
    show "\<forall>i < length xss. distinct (xss ! i)" using Cons.prems(1) by force
    show "\<forall>i < length xss. \<forall>j < length xss. i \<noteq> j \<longrightarrow> set (xss ! i) \<inter> set (xss ! j) = {}"
      using Cons.prems(2) by (metis Suc_less_eq length_Cons nat.inject nth_Cons_Suc)
  qed
  moreover have "set xs \<inter> set ys = {}" if ys: "ys \<in> set xss" for ys
  proof -
    obtain j where j: "j < length xss" "ys = xss ! j" using ys by (auto simp: in_set_conv_nth)
    have "0 < length (xs # xss)" "Suc j < length (xs # xss)" "0 \<noteq> Suc j" using j(1) by simp_all
    from Cons.prems(2) [rule_format, OF this] show ?thesis using j(2) by simp
  qed
  ultimately show ?case by auto
qed simp

lemma packed_id:
  assumes ok: "eng_ok ver Rows Cols e"
  shows "getSubscriptionId Rows s (packDB e) = (if s \<in> set (eng_secs e) then of_nat (index_of s (eng_secs e)) else - 1)"
proof -
  let ?i = "getLineIdx Rows s"
  let ?l = "hashLine e ! ?i"
  have i: "?i < length (hashLine e)" "?i < Rows" "length (hashLine e) = Rows"
    using ok getLineIdx_less by (simp_all add: eng_ok_def)
  have cnt: "sum_list (map validCnt (take ?i (hashLine e))) = length (concat (map line_secs (take ?i (hashLine e))))"
  proof -
    have "map validCnt (take ?i (hashLine e)) = map (\<lambda>l. length (line_secs l)) (take ?i (hashLine e))"
      using validCnt_secs [OF ok] by (auto dest: in_set_takeD)
    then show ?thesis unfolding length_concat map_map o_def by (rule arg_cong)
  qed
  have id: "getSubscriptionId Rows s (packDB e) =
      (if s \<in> set (line_secs ?l) then of_nat (length (concat (map line_secs (take ?i (hashLine e)))) + index_of s (line_secs ?l)) else - 1)"
    using i(1) cnt by (simp add: getSubscriptionId_def packDB_def pack_loop_nth line_pack_def line_getSubscriptionId_def
        subscription_loop_eq line_secs_def)
  have "s \<notin> set (line_secs (hashLine e ! j))" if "j < ?i" for j
  proof
    assume "s \<in> set (line_secs (hashLine e ! j))"
    moreover have "line_ok ver Rows Cols j (hashLine e ! j)" using ok that i(2) by (simp add: eng_ok_def)
    ultimately have "?i = j" using line_row by blast
    then show False using that by simp
  qed
  then have "index_of s (eng_secs e) = length (concat (map line_secs (take ?i (hashLine e)))) + index_of s (line_secs ?l)"
    if "s \<in> set (line_secs ?l)"
    using index_in_concat [of ?i "map line_secs (hashLine e)" s] that i by (simp add: eng_secs_def take_map)
  then show ?thesis using id eng_secs_iff [OF ok] by auto
qed

text \<open>
  C19. After \<open>packDB\<close> the subscription ids of the subscribed securities are exactly the numbers from 0 to
  the count of securities, each used once, and a security that is not subscribed gets -1. Hence two
  securities never share an id.\<close>

theorem subscription_ids_unique:
  assumes ok: "eng_ok ver Rows Cols e" and small: "numSecurities e < 2 ^ 31"
  shows "bij_betw (\<lambda>s. unat (getSubscriptionId Rows s (packDB e))) (set (eng_secs e)) {0..<numSecurities e} \<and>
    (\<forall>s. s \<notin> set (eng_secs e) \<longrightarrow> getSubscriptionId Rows s (packDB e) = - 1)"
proof -
  let ?xs = "eng_secs e"
  have len: "length ?xs = numSecurities e"
  proof -
    have "map (length \<circ> line_secs) (hashLine e) = map validCnt (hashLine e)" using validCnt_secs [OF ok] by simp
    then have "sum_list (map (length \<circ> line_secs) (hashLine e)) = numSecurities e" using ok by (simp only: eng_ok_def)
    then show ?thesis by (simp add: eng_secs_def length_concat o_def)
  qed
  have id: "unat (getSubscriptionId Rows s (packDB e)) = index_of s ?xs" if "s \<in> set ?xs" for s
  proof -
    have "index_of s ?xs < 4294967296" using index_of_nth [OF that] len small by simp
    then show ?thesis using that by (simp add: packed_id [OF ok] unat_of_nat_u32)
  qed
  have inj: "inj_on (\<lambda>s. index_of s ?xs) (set ?xs)"
    by (rule inj_onI) (metis index_of_nth)
  have "distinct ?xs"
  proof -
    have len: "length (map line_secs (hashLine e)) = Rows" using ok by (simp add: eng_ok_def)
    have lok: "line_ok ver Rows Cols i (hashLine e ! i)" if "i < Rows" for i using ok that by (simp add: eng_ok_def)
    have d: "set (line_secs (hashLine e ! i)) \<inter> set (line_secs (hashLine e ! j)) = {}" if "i < Rows" "j < Rows" "i \<noteq> j" for i j
    proof (rule equals0I)
      fix s
      assume "s \<in> set (line_secs (hashLine e ! i)) \<inter> set (line_secs (hashLine e ! j))"
      then have "getLineIdx Rows s = i" "getLineIdx Rows s = j"
        using line_row [OF lok [OF that(1)]] line_row [OF lok [OF that(2)]] by blast+
      then show False using that(3) by simp
    qed
    show ?thesis unfolding eng_secs_def
    proof (rule distinct_concat_nth; intro allI impI; unfold len)
      fix i
      assume "i < Rows"
      then have "map line_secs (hashLine e) ! i = line_secs (hashLine e ! i)" using len by simp
      then show "distinct (map line_secs (hashLine e) ! i)" using lok [OF \<open>i < Rows\<close>] by (simp add: line_ok_def)
    next
      fix i j
      assume ij: "i < Rows" "j < Rows" "i \<noteq> j"
      then have "map line_secs (hashLine e) ! i = line_secs (hashLine e ! i)" "map line_secs (hashLine e) ! j = line_secs (hashLine e ! j)"
        using len by simp_all
      then show "set (map line_secs (hashLine e) ! i) \<inter> set (map line_secs (hashLine e) ! j) = {}"
        using d [OF ij] by (simp only:)
    qed
  qed
  then have "card (set ?xs) = numSecurities e" using len by (simp add: distinct_card)
  moreover have "(\<lambda>s. index_of s ?xs) ` set ?xs \<subseteq> {0..<numSecurities e}" using index_of_nth len by fastforce
  ultimately have "(\<lambda>s. index_of s ?xs) ` set ?xs = {0..<numSecurities e}"
    using inj by (intro card_subset_eq) (simp_all add: card_image)
  then have "bij_betw (\<lambda>s. index_of s ?xs) (set ?xs) {0..<numSecurities e}" using inj by (simp add: bij_betw_def)
  then have "bij_betw (\<lambda>s. unat (getSubscriptionId Rows s (packDB e))) (set ?xs) {0..<numSecurities e}"
    using id by (subst bij_betw_cong [of _ _ "\<lambda>s. index_of s ?xs"]) simp_all
  then show ?thesis by (simp add: packed_id [OF ok])
qed

definition demo_eng :: EkaHashEng where
  "demo_eng = (new_eng 4 2)\<lparr>hashLine := [new_line 2, (new_line 2)\<lparr>validCnt := 1, line_col :=
       [\<lparr>col_valid = True, col_secId = 5, col_hash = 1\<rparr>, \<lparr>col_valid = False, col_secId = 0, col_hash = 0\<rparr>]\<rparr>,
     new_line 2, new_line 2], numSecurities := 1\<rparr>"

lemma demo_eng_ok: "eng_ok kOther 4 2 demo_eng" "eng_secs demo_eng = [5]"
proof -
  have "line_ok kOther 4 2 i (hashLine demo_eng ! i)" if "i < 4" for i
  proof (cases "i = 1")
    case True
    then show ?thesis by (simp add: demo_eng_def line_ok_def line_secs_def getHash_def getLineIdx_def)
  next
    case False
    then have "hashLine demo_eng ! i = new_line 2" using that by (auto simp: demo_eng_def nth_Cons' numeral_eq_Suc)
    then show ?thesis by (simp add: line_ok_new)
  qed
  then show "eng_ok kOther 4 2 demo_eng" by (simp add: eng_ok_def) (simp add: demo_eng_def new_line_def)
  show "eng_secs demo_eng = [5]" by (simp add: eng_secs_def demo_eng_def line_secs_def new_line_def)
qed

theorem subscription_ids_unique_witness:
  "unat (getSubscriptionId 4 5 (packDB demo_eng)) = 0 \<and> getSubscriptionId 4 7 (packDB demo_eng) = - 1"
proof -
  have "numSecurities demo_eng = 1" by (simp add: demo_eng_def)
  then show ?thesis
    using subscription_ids_unique [OF demo_eng_ok(1)] by (auto simp: demo_eng_ok(2) bij_betw_def)
qed

end
