(* ===== verification/EkaTemplates.thy ===== *)
theory EkaTemplates
  imports EkaPacket
begin

text \<open>
  The packet templates of the FPGA: \<open>src/src/EpmTemplate.h\<close>, \<open>EpmTemplate.cpp\<close>, \<open>EpmHwFieldsMap.h\<close> and
  the field tables \<open>src/src/Epm*Template.h\<close>. A template says for every byte of a packet whether the FPGA takes it
  from the packet in the heap or from one of its own registers (sequence numbers, price, side, ...), and in two
  bitmaps which register bytes enter the TCP checksum as the low and as the high byte of a 16-bit word.
  Fields of arrays that the class declares with a fixed size are lists of that length.
\<close>

section \<open>The registers of the FPGA\<close>

datatype HwField = IMMEDIATE | LOCAL_SEQ | REMOTE_SEQ | TCP_WINDOW | TCP_CHCK_SUM | PRICE | SIZE | SIDE | TIME
  | APPSEQ | ASK_PRICE | ASK_SIZE | SECURITY_ID | ASCII_CNT

primrec HwField_int :: "HwField \<Rightarrow> nat" where
  "HwField_int IMMEDIATE = 0"
| "HwField_int LOCAL_SEQ = 1"
| "HwField_int REMOTE_SEQ = 2"
| "HwField_int TCP_WINDOW = 3"
| "HwField_int TCP_CHCK_SUM = 4"
| "HwField_int PRICE = 5"
| "HwField_int SIZE = 6"
| "HwField_int SIDE = 7"
| "HwField_int TIME = 8"
| "HwField_int APPSEQ = 9"
| "HwField_int ASK_PRICE = 10"
| "HwField_int ASK_SIZE = 11"
| "HwField_int SECURITY_ID = 12"
| "HwField_int ASCII_CNT = 13"

text \<open>The sizes that the constructor of the map sets, by the number of the field, and the starts it computes from them.\<close>

definition hw_sizes :: "nat list" where
  "hw_sizes = [8, 4, 4, 2, 2, 8, 8, 1, 16, 8, 8, 8, 8, 8]"

fun map_start :: "nat list \<Rightarrow> nat \<Rightarrow> nat" where
  "map_start sizes 0 = 0"
| "map_start sizes (Suc i) = map_start sizes i + sizes ! i"

definition hw_size :: "HwField \<Rightarrow> nat" where "hw_size f = hw_sizes ! HwField_int f"
definition hw_start :: "HwField \<Rightarrow> nat" where "hw_start f = map_start hw_sizes (HwField_int f)"

section \<open>Templates\<close>

definition EpmMaxRawTcpSize :: nat where "EpmMaxRawTcpSize = 1536"

record EpmTemplateField =
  fname :: string
  fsize :: nat
  source :: HwField
  swap :: bool
  clear :: bool

record EpmTemplate =
  t_id :: u32
  templateStruct :: "EpmTemplateField list"
  byteSize :: nat
  t_data :: "u8 list"
  low_rows :: "u16 list"
  high_rows :: "u16 list"

definition setCsBitmap :: "nat \<Rightarrow> u8 \<Rightarrow> EpmTemplate \<Rightarrow> EpmTemplate" where
  "setCsBitmap idx hwIdx t =
     (let row = unat hwIdx div 16; col = unat hwIdx mod 16; bitmapSet = push_bit col 1 in
      if idx mod 2 = 0 then t\<lparr>low_rows := (low_rows t)[row := low_rows t ! row OR bitmapSet]\<rparr>
      else t\<lparr>high_rows := (high_rows t)[row := high_rows t ! row OR bitmapSet]\<rparr>)"

definition init_byte :: "EpmTemplateField \<Rightarrow> nat \<Rightarrow> nat \<Rightarrow> EpmTemplate \<Rightarrow> EpmTemplate outcome" where
  "init_byte f b idx t =
     (if idx \<ge> EpmMaxRawTcpSize then Inl InvalidAccess
      else if source f = IMMEDIATE then Inr (t\<lparr>t_data := (t_data t)[idx := of_nat (idx mod 8)]\<rparr>)
      else let hwFiledByteIdx = (if swap f then hw_start (source f) + b else hw_start (source f) + fsize f - b - 1);
               t = t\<lparr>t_data := (t_data t)[idx := of_nat hwFiledByteIdx]\<rparr>
           in Inr (if source f \<noteq> TCP_CHCK_SUM then setCsBitmap idx (of_nat hwFiledByteIdx) t else t))"

text \<open>The loop over the bytes \<open>bs\<close> of a field at \<open>idx\<close>, and the loop over the fields.\<close>

fun init_bytes :: "EpmTemplateField \<Rightarrow> nat list \<Rightarrow> nat \<Rightarrow> EpmTemplate \<Rightarrow> EpmTemplate outcome" where
  "init_bytes f [] idx t = Inr t"
| "init_bytes f (b # bs) idx t = obind (init_byte f b idx t) (\<lambda>t. init_bytes f bs (idx + 1) t)"

fun init_fields :: "EpmTemplateField list \<Rightarrow> nat \<Rightarrow> EpmTemplate \<Rightarrow> EpmTemplate outcome" where
  "init_fields [] idx t = Inr t"
| "init_fields (f # fs) idx t =
     obind (init_bytes f [0..<fsize f] idx t) (\<lambda>t.
       init_fields fs (idx + fsize f) (t\<lparr>byteSize := byteSize t + fsize f\<rparr>))"

definition template_init :: "EpmTemplate \<Rightarrow> EpmTemplate outcome" where
  "template_init t = init_fields (templateStruct t) 0 (t\<lparr>byteSize := 0\<rparr>)"

text \<open>A template object with the field table of its class, before \<open>init\<close>, and after it.\<close>

definition EpmTemplate_ctor :: "u32 \<Rightarrow> EpmTemplateField list \<Rightarrow> EpmTemplate" where
  "EpmTemplate_ctor idx fs =
     \<lparr>t_id = idx, templateStruct = fs, byteSize = 0, t_data = replicate EpmMaxRawTcpSize 0,
      low_rows = replicate 16 0, high_rows = replicate 16 0\<rparr>"

definition new_template :: "u32 \<Rightarrow> EpmTemplateField list \<Rightarrow> EpmTemplate outcome" where
  "new_template idx fs =
     (if length fs > 512 then on_error ''tSize > MAX_FIELDS'' else template_init (EpmTemplate_ctor idx fs))"

text \<open>Writing zeros over the fields of a packet that the FPGA fills in.\<close>

fun clear_bytes :: "nat \<Rightarrow> nat \<Rightarrow> u8 list \<Rightarrow> u8 list outcome" where
  "clear_bytes 0 idx pkt = Inr pkt"
| "clear_bytes (Suc n) idx pkt =
     (if idx \<ge> length pkt then Inl InvalidAccess else clear_bytes n (idx + 1) (pkt[idx := 0]))"

fun clear_fields :: "EpmTemplateField list \<Rightarrow> nat \<Rightarrow> u8 list \<Rightarrow> u8 list outcome" where
  "clear_fields [] idx pkt = Inr pkt"
| "clear_fields (f # fs) idx pkt =
     (if clear f then obind (clear_bytes (fsize f) idx pkt) (clear_fields fs (idx + fsize f))
      else clear_fields fs (idx + fsize f) pkt)"

definition clearHwFields :: "EpmTemplate \<Rightarrow> u8 list \<Rightarrow> u8 list outcome" where
  "clearHwFields t pkt = clear_fields (templateStruct t) 0 pkt"

definition getDataTemplateAddr :: "EpmTemplate \<Rightarrow> nat" where
  "getDataTemplateAddr t = 0xc0000 + unat (t_id t * of_nat EpmMaxRawTcpSize)"

definition getCsumTemplateAddr :: "EpmTemplate \<Rightarrow> nat" where
  "getCsumTemplateAddr t = 0x88000 + unat (t_id t * (2 * 16 * 16 div 8))"

definition getByteSize :: "EpmTemplate \<Rightarrow> u16" where
  "getByteSize t = of_nat (byteSize t) - 14 - 20 - 20"

section \<open>The field tables\<close>

definition fld :: "string \<Rightarrow> nat \<Rightarrow> HwField \<Rightarrow> bool \<Rightarrow> bool \<Rightarrow> EpmTemplateField" where
  "fld n s src sw cl = \<lparr>fname = n, fsize = s, source = src, swap = sw, clear = cl\<rparr>"

text \<open>The Ethernet and IP header of every table but the raw one, and the TCP header.\<close>

definition nw_hdr_fields :: "EpmTemplateField list" where
  "nw_hdr_fields =
     [fld ''macDa'' 6 IMMEDIATE False False,
      fld ''macSa'' 6 IMMEDIATE False False,
      fld ''ethType'' 2 IMMEDIATE False False,
      fld ''v_hl'' 1 IMMEDIATE False False,
      fld ''tos'' 1 IMMEDIATE False False,
      fld ''len'' 2 IMMEDIATE False False,
      fld ''id'' 2 IMMEDIATE False False,
      fld ''offset'' 2 IMMEDIATE False False,
      fld ''ttl'' 1 IMMEDIATE False False,
      fld ''proto'' 1 IMMEDIATE False False,
      fld ''chksum'' 2 IMMEDIATE False False,
      fld ''src'' 4 IMMEDIATE False False,
      fld ''dst'' 4 IMMEDIATE False False]"

definition tcp_hdr_fields :: "EpmTemplateField list" where
  "tcp_hdr_fields =
     [fld ''src'' 2 IMMEDIATE False False,
      fld ''dest'' 2 IMMEDIATE False False,
      fld ''seqno'' 4 LOCAL_SEQ False True,
      fld ''ackno'' 4 REMOTE_SEQ False True,
      fld ''hdrlen'' 2 IMMEDIATE False False,
      fld ''wnd'' 2 TCP_WINDOW False True,
      fld ''chksum'' 2 TCP_CHCK_SUM False True,
      fld ''urgp'' 2 IMMEDIATE False False]"

definition EpmBoeQuoteUpdateShortTemplate :: "EpmTemplateField list" where
  "EpmBoeQuoteUpdateShortTemplate = nw_hdr_fields @ tcp_hdr_fields @ 
     [fld ''StartOfMessage'' 2 IMMEDIATE False False,
      fld ''MessageLength'' 2 IMMEDIATE False False,
      fld ''MessageType'' 1 IMMEDIATE False False,
      fld ''MatchingUnit'' 1 IMMEDIATE False False,
      fld ''SequenceNumber'' 4 IMMEDIATE False False,
      fld ''QuoteUpdateIdtxt'' 7 IMMEDIATE False False,
      fld ''QuoteUpdateIdseq'' 8 ASCII_CNT False True,
      fld ''QuoteUpdateIdtail'' 1 IMMEDIATE False False,
      fld ''ClearingFirm'' 4 IMMEDIATE False False,
      fld ''ClearingAccount'' 4 IMMEDIATE False False,
      fld ''CustomGroupID'' 2 IMMEDIATE False False,
      fld ''Capacity'' 1 IMMEDIATE False False,
      fld ''Reserved'' 3 IMMEDIATE False False,
      fld ''SendTime'' 8 TIME False True,
      fld ''PostingInstruction'' 1 IMMEDIATE False False,
      fld ''SessionEligibility'' 1 IMMEDIATE False False,
      fld ''QuoteCnt'' 1 IMMEDIATE False False,
      fld ''Symbol'' 6 SECURITY_ID False True,
      fld ''Side'' 1 SIDE True True,
      fld ''OpenClose'' 1 IMMEDIATE False False,
      fld ''Price'' 4 PRICE True True,
      fld ''OrderQty'' 2 SIZE True True,
      fld ''Reserved'' 2 IMMEDIATE False False]"

definition EpmCancelBoeTemplate :: "EpmTemplateField list" where
  "EpmCancelBoeTemplate = nw_hdr_fields @ tcp_hdr_fields @ 
     [fld ''StartOfMessage'' 2 IMMEDIATE False False,
      fld ''MessageLength'' 2 IMMEDIATE False False,
      fld ''MessageType'' 1 IMMEDIATE False False,
      fld ''MatchingUnit'' 1 IMMEDIATE False False,
      fld ''SequenceNumber'' 4 IMMEDIATE False False,
      fld ''ClOrdIDtxt'' 11 IMMEDIATE False False,
      fld ''ClOrdIDseq'' 8 ASCII_CNT False True,
      fld ''ClOrdIDtail'' 1 IMMEDIATE False False,
      fld ''NumberOfBitfields'' 1 IMMEDIATE False False,
      fld ''NewOrderBitfield1'' 1 IMMEDIATE False False,
      fld ''NewOrderBitfield2'' 1 IMMEDIATE False False,
      fld ''ClearingFirm'' 4 IMMEDIATE False False,
      fld ''MassCancelIdtxt'' 11 IMMEDIATE False False,
      fld ''MassCancelIdseq'' 8 ASCII_CNT False True,
      fld ''MassCancelIdtail'' 1 IMMEDIATE False False,
      fld ''MassCancelInst'' 16 IMMEDIATE False False,
      fld ''SendTime'' 8 TIME False False]"

definition EpmCancelSqfTemplate :: "EpmTemplateField list" where
  "EpmCancelSqfTemplate = nw_hdr_fields @ tcp_hdr_fields @ 
     [fld ''typeSub'' 2 IMMEDIATE False False,
      fld ''badge'' 4 IMMEDIATE False False,
      fld ''messageId'' 8 IMMEDIATE False False,
      fld ''quoteCount'' 2 IMMEDIATE False False,
      fld ''optionId'' 4 SECURITY_ID False True,
      fld ''bidPrice'' 4 IMMEDIATE False False,
      fld ''bidSize'' 4 IMMEDIATE False False,
      fld ''askPrice'' 4 IMMEDIATE False False,
      fld ''askSize'' 4 IMMEDIATE False False,
      fld ''reentry'' 1 IMMEDIATE False False]"

definition EpmCmeILinkHbTemplate :: "EpmTemplateField list" where
  "EpmCmeILinkHbTemplate = nw_hdr_fields @ tcp_hdr_fields @ 
     [fld ''MessageSize'' 2 IMMEDIATE False False,
      fld ''EncodingType'' 2 IMMEDIATE False False,
      fld ''BlockLength'' 2 IMMEDIATE False False,
      fld ''TemplateID'' 2 IMMEDIATE False False,
      fld ''SchemaID'' 2 IMMEDIATE False False,
      fld ''Version'' 2 IMMEDIATE False False,
      fld ''Prefix'' 8 IMMEDIATE False False,
      fld ''SeqNum'' 4 APPSEQ True True,
      fld ''Trailing'' 1400 IMMEDIATE False False]"

definition EpmCmeILinkSwTemplate :: "EpmTemplateField list" where
  "EpmCmeILinkSwTemplate = nw_hdr_fields @ tcp_hdr_fields @ 
     [fld ''MessageSize'' 2 IMMEDIATE False False,
      fld ''EncodingType'' 2 IMMEDIATE False False,
      fld ''BlockLength'' 2 IMMEDIATE False False,
      fld ''TemplateID'' 2 IMMEDIATE False False,
      fld ''SchemaID'' 2 IMMEDIATE False False,
      fld ''Version'' 2 IMMEDIATE False False,
      fld ''PartyDetailsListReqID'' 8 IMMEDIATE False False,
      fld ''SendingTimeEpoch'' 8 IMMEDIATE False False,
      fld ''ManualOrderIndicator'' 1 IMMEDIATE False False,
      fld ''SeqNum'' 4 APPSEQ True True,
      fld ''Trailing'' 1400 IMMEDIATE False False]"

definition EpmCmeILinkTemplate :: "EpmTemplateField list" where
  "EpmCmeILinkTemplate = nw_hdr_fields @ tcp_hdr_fields @ 
     [fld ''MessageSize'' 2 IMMEDIATE False False,
      fld ''EncodingType'' 2 IMMEDIATE False False,
      fld ''BlockLength'' 2 IMMEDIATE False False,
      fld ''TemplateID'' 2 IMMEDIATE False False,
      fld ''SchemaID'' 2 IMMEDIATE False False,
      fld ''Version'' 2 IMMEDIATE False False,
      fld ''PartyDetailsListReqID'' 8 IMMEDIATE False False,
      fld ''SendingTimeEpoch'' 8 TIME False True,
      fld ''ManualOrderIndicator'' 1 IMMEDIATE False False,
      fld ''SeqNum'' 4 APPSEQ True True,
      fld ''Trailing'' 1400 IMMEDIATE False False]"

definition EpmFastPathTemplate :: "EpmTemplateField list" where
  "EpmFastPathTemplate = nw_hdr_fields @ tcp_hdr_fields @ 
     [fld ''payload'' (EpmMaxRawTcpSize - 14 - 20 - 20) IMMEDIATE False False]"

definition EpmFastSweepUDPReactTemplate :: "EpmTemplateField list" where
  "EpmFastSweepUDPReactTemplate = nw_hdr_fields @ 
     [fld ''udp_srcport'' 2 IMMEDIATE False False,
      fld ''udp_dstport'' 2 IMMEDIATE False False,
      fld ''udp_length'' 2 IMMEDIATE False False,
      fld ''udp_cs'' 2 IMMEDIATE False False,
      fld ''MDLocateID'' 2 SECURITY_ID True True,
      fld ''MDUDPPayloadSize'' 2 SIZE True True,
      fld ''MDLastMsgNumber'' 2 PRICE True True,
      fld ''Padding60'' 12 IMMEDIATE False False]"

definition EpmFireBoeTemplate :: "EpmTemplateField list" where
  "EpmFireBoeTemplate = nw_hdr_fields @ tcp_hdr_fields @ 
     [fld ''StartOfMessage'' 2 IMMEDIATE False False,
      fld ''MessageLength'' 2 IMMEDIATE False False,
      fld ''MessageType'' 1 IMMEDIATE False False,
      fld ''MatchingUnit'' 1 IMMEDIATE False False,
      fld ''SequenceNumber'' 4 IMMEDIATE False False,
      fld ''ClOrdIDtxt'' 5 IMMEDIATE False False,
      fld ''ClOrdIDseq'' 8 ASCII_CNT False True,
      fld ''ClOrdIDtail'' 7 IMMEDIATE False False,
      fld ''Side'' 1 SIDE True True,
      fld ''OrderQty'' 4 SIZE True True,
      fld ''NumberOfBitfields'' 1 IMMEDIATE False False,
      fld ''NewOrderBitfield1'' 1 IMMEDIATE False False,
      fld ''NewOrderBitfield2'' 1 IMMEDIATE False False,
      fld ''NewOrderBitfield3'' 1 IMMEDIATE False False,
      fld ''NewOrderBitfield4'' 1 IMMEDIATE False False,
      fld ''ClearingFirm'' 4 IMMEDIATE False False,
      fld ''ClearingAccount'' 4 IMMEDIATE False False,
      fld ''Price'' 8 PRICE True True,
      fld ''OrdType'' 1 IMMEDIATE False False,
      fld ''TimeInForce'' 1 IMMEDIATE False False,
      fld ''Symbol'' 6 SECURITY_ID False True,
      fld ''SymbolPadding'' 2 IMMEDIATE False False,
      fld ''Capacity'' 1 IMMEDIATE False False,
      fld ''Account'' 16 IMMEDIATE False False,
      fld ''OpenClose'' 1 IMMEDIATE False False]"

definition EpmFireSqfTemplate :: "EpmTemplateField list" where
  "EpmFireSqfTemplate = nw_hdr_fields @ tcp_hdr_fields @ 
     [fld ''typeSub'' 2 IMMEDIATE False False,
      fld ''badge'' 4 IMMEDIATE False False,
      fld ''messageId'' 8 IMMEDIATE False False,
      fld ''quoteCount'' 2 IMMEDIATE False False,
      fld ''optionId'' 4 SECURITY_ID False True,
      fld ''bidPrice'' 4 PRICE False True,
      fld ''bidSize'' 4 SIZE False True,
      fld ''askPrice'' 4 ASK_PRICE False True,
      fld ''askSize'' 4 ASK_SIZE False True,
      fld ''reentry'' 1 IMMEDIATE False False]"

definition EpmMoexFireNewTemplate :: "EpmTemplateField list" where
  "EpmMoexFireNewTemplate = nw_hdr_fields @ tcp_hdr_fields @ 
     [fld ''BlockLength'' 2 IMMEDIATE False False,
      fld ''TemplateID'' 2 IMMEDIATE False False,
      fld ''SchemaID'' 2 IMMEDIATE False False,
      fld ''Version'' 2 IMMEDIATE False False,
      fld ''SendingTime'' 8 TIME False True,
      fld ''ClOrdID'' 8 SECURITY_ID True True,
      fld ''EffectiveTime'' 8 IMMEDIATE False False,
      fld ''Price'' 8 PRICE True True,
      fld ''OrderQty'' 8 SIZE True True,
      fld ''MaxFloor'' 8 IMMEDIATE False False,
      fld ''CashOrderQty'' 8 IMMEDIATE False False,
      fld ''Side'' 1 SIDE True True,
      fld ''OrdType'' 1 IMMEDIATE False False,
      fld ''MaxPriceLevels'' 1 IMMEDIATE False False,
      fld ''TimeInForce'' 1 IMMEDIATE False False,
      fld ''OrderRestriction'' 1 IMMEDIATE False False,
      fld ''TradeThruTime'' 1 IMMEDIATE False False,
      fld ''LiquidityType'' 1 IMMEDIATE False False,
      fld ''Account'' 12 IMMEDIATE False False,
      fld ''SecondaryClOrdID'' 12 IMMEDIATE False False,
      fld ''ClientCode'' 12 IMMEDIATE False False,
      fld ''Board'' 4 IMMEDIATE False False,
      fld ''Symbol'' 12 IMMEDIATE False False,
      fld ''Brokerref'' 20 IMMEDIATE False False,
      fld ''ComplianceID'' 1 IMMEDIATE False False]"

definition EpmMoexFireReplaceTemplate :: "EpmTemplateField list" where
  "EpmMoexFireReplaceTemplate = nw_hdr_fields @ tcp_hdr_fields @ 
     [fld ''BlockLength'' 2 IMMEDIATE False False,
      fld ''TemplateID'' 2 IMMEDIATE False False,
      fld ''SchemaID'' 2 IMMEDIATE False False,
      fld ''Version'' 2 IMMEDIATE False False,
      fld ''SendingTime'' 8 IMMEDIATE False False,
      fld ''ClOrdID'' 8 SECURITY_ID True True,
      fld ''OrdID'' 8 IMMEDIATE False False,
      fld ''OrigClOrdID'' 8 ASK_PRICE True True,
      fld ''Price'' 8 PRICE True True,
      fld ''OrderQty'' 8 SIZE True True,
      fld ''Side'' 1 SIDE True True,
      fld ''Account'' 12 IMMEDIATE False False,
      fld ''SecondaryClOrdID'' 12 IMMEDIATE False False,
      fld ''ClientCode'' 12 IMMEDIATE False False,
      fld ''Board'' 4 IMMEDIATE False False,
      fld ''Symbol'' 12 IMMEDIATE False False,
      fld ''Brokerref'' 20 IMMEDIATE False False,
      fld ''ComplianceID'' 1 IMMEDIATE False False]"

definition EpmMoexSwPktTemplate :: "EpmTemplateField list" where
  "EpmMoexSwPktTemplate = nw_hdr_fields @ tcp_hdr_fields @ 
     [fld ''BodyLen'' 4 IMMEDIATE False False,
      fld ''TemplateID'' 2 IMMEDIATE False False,
      fld ''NetworkMsgID'' 8 IMMEDIATE False False,
      fld ''Pad2'' 2 IMMEDIATE False False,
      fld ''MsgSeqNum'' 4 APPSEQ True True,
      fld ''Trailing'' 1400 IMMEDIATE False False]"

definition EpmQEDFireTemplate :: "EpmTemplateField list" where
  "EpmQEDFireTemplate = nw_hdr_fields @ tcp_hdr_fields @ 
     [fld ''payload'' (EpmMaxRawTcpSize - 14 - 20 - 20) IMMEDIATE False False]"

definition EpmRawPktTemplate :: "EpmTemplateField list" where
  "EpmRawPktTemplate = 
     [fld ''rawL2PktData'' EpmMaxRawTcpSize IMMEDIATE False False]"

section \<open>What the tables say\<close>

lemma fld_simps [simp]: "fsize (fld n s src sw cl) = s" "source (fld n s src sw cl) = src" "swap (fld n s src sw cl) = sw"
  "clear (fld n s src sw cl) = cl"
  by (simp_all add: fld_def)

text \<open>
  The register byte of byte \<open>b\<close> of a field, and the positions of a packet that the FPGA fills in with the register
  byte of each: of all fields, and of those that enter the checksum.
\<close>

definition hw_index :: "EpmTemplateField \<Rightarrow> nat \<Rightarrow> nat" where
  "hw_index f b = (if swap f then hw_start (source f) + b else hw_start (source f) + fsize f - b - 1)"

fun hw_positions :: "(HwField \<Rightarrow> bool) \<Rightarrow> EpmTemplateField list \<Rightarrow> nat \<Rightarrow> (nat \<times> nat) list" where
  "hw_positions P [] idx = []"
| "hw_positions P (f # fs) idx =
     (if P (source f) then map (\<lambda>b. (idx + b, hw_index f b)) [0..<fsize f] else []) @
     hw_positions P fs (idx + fsize f)"

abbreviation hw_bytes :: "EpmTemplateField list \<Rightarrow> nat \<Rightarrow> (nat \<times> nat) list" where
  "hw_bytes \<equiv> hw_positions (\<lambda>s. s \<noteq> IMMEDIATE)"

abbreviation csum_bytes :: "EpmTemplateField list \<Rightarrow> nat \<Rightarrow> (nat \<times> nat) list" where
  "csum_bytes \<equiv> hw_positions (\<lambda>s. s \<noteq> IMMEDIATE \<and> s \<noteq> TCP_CHCK_SUM)"

definition total_size :: "EpmTemplateField list \<Rightarrow> nat" where
  "total_size fs = sum_list (map fsize fs)"

text \<open>A table fits its buffers: the bytes the packet, and each field its register.\<close>

definition table_fits :: "EpmTemplateField list \<Rightarrow> bool" where
  "table_fits fs \<longleftrightarrow> total_size fs \<le> EpmMaxRawTcpSize \<and>
     (\<forall>f \<in> set fs. source f \<noteq> IMMEDIATE \<longrightarrow> fsize f \<le> hw_size (source f))"

lemma hw_map_values:
  "hw_size IMMEDIATE = 8" "hw_size LOCAL_SEQ = 4" "hw_size REMOTE_SEQ = 4" "hw_size TCP_WINDOW = 2"
  "hw_size TCP_CHCK_SUM = 2" "hw_size PRICE = 8" "hw_size SIZE = 8" "hw_size SIDE = 1" "hw_size TIME = 16"
  "hw_size APPSEQ = 8" "hw_size ASK_PRICE = 8" "hw_size ASK_SIZE = 8" "hw_size SECURITY_ID = 8" "hw_size ASCII_CNT = 8"
  "hw_start IMMEDIATE = 0" "hw_start LOCAL_SEQ = 8" "hw_start REMOTE_SEQ = 12" "hw_start TCP_WINDOW = 16"
  "hw_start TCP_CHCK_SUM = 18" "hw_start PRICE = 20" "hw_start SIZE = 28" "hw_start SIDE = 36" "hw_start TIME = 37"
  "hw_start APPSEQ = 53" "hw_start ASK_PRICE = 61" "hw_start ASK_SIZE = 69" "hw_start SECURITY_ID = 77" "hw_start ASCII_CNT = 85"
  by (simp_all add: hw_size_def hw_start_def hw_sizes_def eval_nat_numeral)

lemma hw_index_range:
  assumes "b < fsize f" "fsize f \<le> hw_size (source f)"
  shows "hw_start (source f) \<le> hw_index f b \<and> hw_index f b < hw_start (source f) + hw_size (source f)"
  using assms by (auto simp: hw_index_def)

lemma hw_register_range: "s \<noteq> IMMEDIATE \<Longrightarrow> 8 \<le> hw_start s \<and> hw_start s + hw_size s \<le> 93"
  by (cases s) (simp_all add: hw_map_values)

lemma hw_positions_mem:
  "(i, h) \<in> set (hw_positions P fs idx) \<Longrightarrow> idx \<le> i \<and> i < idx + total_size fs \<and> (\<exists>f \<in> set fs. \<exists>b < fsize f. P (source f) \<and> h = hw_index f b)"
  by (induction fs arbitrary: idx) (fastforce simp: total_size_def split: if_splits)+

lemma hw_positions_unique:
  "(i, h) \<in> set (hw_positions P fs idx) \<Longrightarrow> (i, h') \<in> set (hw_positions P fs idx) \<Longrightarrow> h = h'"
  by (induction fs arbitrary: idx) (auto split: if_splits dest: hw_positions_mem)

text \<open>
  A template is well formed when its arrays have their declared lengths. \<open>filled t lo hi H C t'\<close>: the loops turned
  \<open>t\<close> into \<open>t'\<close> by writing the data of the bytes from \<open>lo\<close> to \<open>hi\<close>, register bytes as in \<open>H\<close>, and by setting
  the bits of \<open>C\<close>.
\<close>

definition template_wf :: "EpmTemplate \<Rightarrow> bool" where
  "template_wf t \<longleftrightarrow> length (t_data t) = EpmMaxRawTcpSize \<and> length (low_rows t) = 16 \<and> length (high_rows t) = 16"

definition low_bit :: "EpmTemplate \<Rightarrow> nat \<Rightarrow> bool" where
  "low_bit t h = bit (low_rows t ! (h div 16)) (h mod 16)"

definition high_bit :: "EpmTemplate \<Rightarrow> nat \<Rightarrow> bool" where
  "high_bit t h = bit (high_rows t ! (h div 16)) (h mod 16)"

definition data_byte :: "(nat \<times> nat) list \<Rightarrow> nat \<Rightarrow> u8" where
  "data_byte H i = (case map_of H i of Some h \<Rightarrow> of_nat h | None \<Rightarrow> of_nat (i mod 8))"

definition filled ::
  "EpmTemplate \<Rightarrow> nat \<Rightarrow> nat \<Rightarrow> (nat \<times> nat) list \<Rightarrow> (nat \<times> nat) list \<Rightarrow> EpmTemplate \<Rightarrow> bool" where
  "filled t lo hi H C t' \<longleftrightarrow> template_wf t' \<and> t_id t' = t_id t \<and> templateStruct t' = templateStruct t \<and>
     (\<forall>i < EpmMaxRawTcpSize. t_data t' ! i = (if lo \<le> i \<and> i < hi then data_byte H i else t_data t ! i)) \<and>
     (\<forall>h < 256. low_bit t' h \<longleftrightarrow> low_bit t h \<or> (\<exists>i. even i \<and> (i, h) \<in> set C)) \<and>
     (\<forall>h < 256. high_bit t' h \<longleftrightarrow> high_bit t h \<or> (\<exists>i. odd i \<and> (i, h) \<in> set C))"

lemma filledD:
  assumes "filled t lo hi H C t'"
  shows "template_wf t'" "t_id t' = t_id t" "templateStruct t' = templateStruct t"
    "i < EpmMaxRawTcpSize \<Longrightarrow> lo \<le> i \<Longrightarrow> i < hi \<Longrightarrow> t_data t' ! i = data_byte H i"
    "h < 256 \<Longrightarrow> low_bit t' h \<longleftrightarrow> low_bit t h \<or> (\<exists>i. even i \<and> (i, h) \<in> set C)"
    "h < 256 \<Longrightarrow> high_bit t' h \<longleftrightarrow> high_bit t h \<or> (\<exists>i. odd i \<and> (i, h) \<in> set C)"
  using assms by (simp_all add: filled_def)

lemma filled_refl: "template_wf t \<Longrightarrow> filled t lo lo [] [] t"
  by (auto simp: filled_def)

lemma filled_byteSize [simp]: "filled (t\<lparr>byteSize := n\<rparr>) lo hi H C t' = filled t lo hi H C t'"
  "filled t lo hi H C (t'\<lparr>byteSize := n\<rparr>) = filled t lo hi H C t'"
  by (simp_all add: filled_def template_wf_def low_bit_def high_bit_def)

lemma data_byte_append:
  assumes "\<forall>(j, h) \<in> set H1. lo \<le> j \<and> j < mid" "\<forall>(j, h) \<in> set H2. mid \<le> j"
  shows "i < mid \<Longrightarrow> data_byte (H1 @ H2) i = data_byte H1 i" "mid \<le> i \<Longrightarrow> data_byte (H1 @ H2) i = data_byte H2 i"
proof -
  assume i: "i < mid"
  then have "map_of H2 i = None" using assms(2) by (auto simp: map_of_eq_None_iff)
  then show "data_byte (H1 @ H2) i = data_byte H1 i" by (simp add: data_byte_def map_add_def split: option.splits)
next
  assume i: "mid \<le> i"
  then have "map_of H1 i = None" using assms(1) by (auto simp: map_of_eq_None_iff)
  then show "data_byte (H1 @ H2) i = data_byte H2 i" by (simp add: data_byte_def map_add_def split: option.splits)
qed

lemma filled_trans:
  assumes a: "filled t lo mid H1 C1 t1" and b: "filled t1 mid hi H2 C2 t2" and le: "lo \<le> mid" "mid \<le> hi"
    and H: "\<forall>(j, h) \<in> set H1. lo \<le> j \<and> j < mid" "\<forall>(j, h) \<in> set H2. mid \<le> j"
  shows "filled t lo hi (H1 @ H2) (C1 @ C2) t2"
proof -
  have "t_data t2 ! i = (if lo \<le> i \<and> i < hi then data_byte (H1 @ H2) i else t_data t ! i)" if i: "i < EpmMaxRawTcpSize" for i
  proof -
    have "t_data t2 ! i = (if mid \<le> i \<and> i < hi then data_byte H2 i else t_data t1 ! i)"
      "t_data t1 ! i = (if lo \<le> i \<and> i < mid then data_byte H1 i else t_data t ! i)"
      using a b i by (simp_all add: filled_def)
    then show ?thesis using le data_byte_append [OF H, of i] by (cases "i < mid") auto
  qed
  moreover have "low_bit t2 h \<longleftrightarrow> low_bit t h \<or> (\<exists>i. even i \<and> (i, h) \<in> set (C1 @ C2))" if "h < 256" for h
  proof -
    have "low_bit t1 h \<longleftrightarrow> low_bit t h \<or> (\<exists>i. even i \<and> (i, h) \<in> set C1)"
      "low_bit t2 h \<longleftrightarrow> low_bit t1 h \<or> (\<exists>i. even i \<and> (i, h) \<in> set C2)"
      using a b that by (simp_all add: filled_def)
    then show ?thesis by auto
  qed
  moreover have "high_bit t2 h \<longleftrightarrow> high_bit t h \<or> (\<exists>i. odd i \<and> (i, h) \<in> set (C1 @ C2))" if "h < 256" for h
  proof -
    have "high_bit t1 h \<longleftrightarrow> high_bit t h \<or> (\<exists>i. odd i \<and> (i, h) \<in> set C1)"
      "high_bit t2 h \<longleftrightarrow> high_bit t1 h \<or> (\<exists>i. odd i \<and> (i, h) \<in> set C2)"
      using a b that by (simp_all add: filled_def)
    then show ?thesis by auto
  qed
  ultimately show ?thesis using a b by (simp add: filled_def)
qed

lemma set_row_bit:
  assumes "length rows = 16" "k < 256" "h < 256"
  shows "bit ((rows[k div 16 := rows ! (k div 16) OR push_bit (k mod 16) (1 :: u16)]) ! (h div 16)) (h mod 16) \<longleftrightarrow>
    bit (rows ! (h div 16)) (h mod 16) \<or> h = k"
proof (cases "h div 16 = k div 16")
  case True
  have "h = k \<longleftrightarrow> h mod 16 = k mod 16" using True by (metis div_mult_mod_eq)
  moreover have "k div 16 < 16" using assms(2) by (simp add: less_mult_imp_div_less)
  ultimately show ?thesis using True assms(1) by (auto simp: bit_simps)
next
  case False
  then show ?thesis by auto
qed

lemma init_byte_filled:
  assumes wf: "template_wf t" and i: "idx < EpmMaxRawTcpSize" and h: "source f \<noteq> IMMEDIATE \<Longrightarrow> hw_index f b < 256"
  shows "\<exists>t1. init_byte f b idx t = Inr t1 \<and> byteSize t1 = byteSize t \<and>
    filled t idx (Suc idx) (if source f \<noteq> IMMEDIATE then [(idx, hw_index f b)] else [])
      (if source f \<noteq> IMMEDIATE \<and> source f \<noteq> TCP_CHCK_SUM then [(idx, hw_index f b)] else []) t1"
proof -
  let ?h = "hw_index f b"
  consider "source f = IMMEDIATE" | "source f = TCP_CHCK_SUM" | "source f \<noteq> IMMEDIATE" "source f \<noteq> TCP_CHCK_SUM" by blast
  then show ?thesis
  proof cases
    case 1
    then show ?thesis using wf i
      by (auto simp: init_byte_def filled_def template_wf_def low_bit_def high_bit_def data_byte_def nth_list_update less_Suc_eq)
  next
    case 2
    then show ?thesis using wf i
      by (auto simp: init_byte_def filled_def template_wf_def low_bit_def high_bit_def data_byte_def nth_list_update less_Suc_eq
          hw_index_def Let_def)
  next
    case 3
    note h = h [OF 3(1)]
    have u: "unat (of_nat ?h :: u8) = ?h" using h by (simp add: unat_of_nat_u8)
    let ?t1 = "setCsBitmap idx (of_nat ?h) (t\<lparr>t_data := (t_data t)[idx := of_nat ?h]\<rparr>)"
    have r: "init_byte f b idx t = Inr ?t1" using 3 i by (simp add: init_byte_def hw_index_def Let_def)
    have "filled t idx (Suc idx) [(idx, ?h)] [(idx, ?h)] ?t1"
      using wf i set_row_bit [OF _ h, of "low_rows t"] set_row_bit [OF _ h, of "high_rows t"]
      by (auto simp: filled_def setCsBitmap_def template_wf_def low_bit_def high_bit_def data_byte_def nth_list_update less_Suc_eq
          Let_def u even_iff_mod_2_eq_zero)
    then show ?thesis using r 3 by (auto simp: setCsBitmap_def Let_def)
  qed
qed

lemma init_bytes_filled:
  assumes "template_wf t" "idx + (n - b) \<le> EpmMaxRawTcpSize" "b \<le> n" "source f \<noteq> IMMEDIATE \<Longrightarrow> \<forall>b < n. hw_index f b < 256"
  shows "\<exists>t1. init_bytes f [b..<n] idx t = Inr t1 \<and> byteSize t1 = byteSize t \<and>
    filled t idx (idx + (n - b)) (if source f \<noteq> IMMEDIATE then map (\<lambda>k. (idx + (k - b), hw_index f k)) [b..<n] else [])
      (if source f \<noteq> IMMEDIATE \<and> source f \<noteq> TCP_CHCK_SUM then map (\<lambda>k. (idx + (k - b), hw_index f k)) [b..<n] else []) t1"
  using assms
proof (induction "n - b" arbitrary: b idx t)
  case 0
  then show ?case by (auto simp: filled_refl)
next
  case (Suc m)
  then have b: "b < n" by simp
  then have l: "[b..<n] = b # [Suc b..<n]" by (rule upt_conv_Cons)
  obtain t1 where t1: "init_byte f b idx t = Inr t1" "byteSize t1 = byteSize t"
    and f1: "filled t idx (Suc idx) (if source f \<noteq> IMMEDIATE then [(idx, hw_index f b)] else [])
      (if source f \<noteq> IMMEDIATE \<and> source f \<noteq> TCP_CHCK_SUM then [(idx, hw_index f b)] else []) t1"
  proof -
    have "idx < EpmMaxRawTcpSize" "source f \<noteq> IMMEDIATE \<Longrightarrow> hw_index f b < 256" using Suc.prems(2,4) b by auto
    from init_byte_filled [OF Suc.prems(1) this] show thesis using that by blast
  qed
  have wf1: "template_wf t1" using f1 by (simp add: filled_def)
  have shift: "map (\<lambda>k. (Suc idx + (k - Suc b), hw_index f k)) [Suc b..<n] = map (\<lambda>k. (idx + (k - b), hw_index f k)) [Suc b..<n]"
    by (rule map_cong) auto
  obtain t2 where t2: "init_bytes f [Suc b..<n] (Suc idx) t1 = Inr t2" "byteSize t2 = byteSize t1"
    and f2: "filled t1 (Suc idx) (Suc idx + (n - Suc b))
      (if source f \<noteq> IMMEDIATE then map (\<lambda>k. (idx + (k - b), hw_index f k)) [Suc b..<n] else [])
      (if source f \<noteq> IMMEDIATE \<and> source f \<noteq> TCP_CHCK_SUM then map (\<lambda>k. (idx + (k - b), hw_index f k)) [Suc b..<n] else []) t2"
  proof -
    have "m = n - Suc b" "Suc idx + (n - Suc b) \<le> EpmMaxRawTcpSize" "Suc b \<le> n" using Suc.hyps(2) Suc.prems(2) b by auto
    from Suc.hyps(1) [OF this(1) wf1 this(2,3) Suc.prems(4)] show thesis using that unfolding shift by blast
  qed
  have "filled t idx (Suc idx + (n - Suc b)) ((if source f \<noteq> IMMEDIATE then [(idx, hw_index f b)] else []) @
        (if source f \<noteq> IMMEDIATE then map (\<lambda>k. (idx + (k - b), hw_index f k)) [Suc b..<n] else []))
      ((if source f \<noteq> IMMEDIATE \<and> source f \<noteq> TCP_CHCK_SUM then [(idx, hw_index f b)] else []) @
        (if source f \<noteq> IMMEDIATE \<and> source f \<noteq> TCP_CHCK_SUM then map (\<lambda>k. (idx + (k - b), hw_index f k)) [Suc b..<n] else [])) t2"
    by (rule filled_trans [OF f1 f2]) auto
  then show ?case using t1 t2 l b by (auto simp: Suc_diff_Suc)
qed

lemma init_fields_filled:
  assumes "template_wf t" "idx + total_size fs \<le> EpmMaxRawTcpSize" "\<forall>f \<in> set fs. source f \<noteq> IMMEDIATE \<longrightarrow> (\<forall>b < fsize f. hw_index f b < 256)"
  shows "\<exists>t1. init_fields fs idx t = Inr t1 \<and> byteSize t1 = byteSize t + total_size fs \<and>
    filled t idx (idx + total_size fs) (hw_bytes fs idx) (csum_bytes fs idx) t1"
  using assms
proof (induction fs arbitrary: idx t)
  case Nil
  then show ?case by (simp add: filled_refl total_size_def)
next
  case (Cons f fs)
  let ?H = "if source f \<noteq> IMMEDIATE then map (\<lambda>k. (idx + k, hw_index f k)) [0..<fsize f] else []"
  let ?C = "if source f \<noteq> IMMEDIATE \<and> source f \<noteq> TCP_CHCK_SUM then map (\<lambda>k. (idx + k, hw_index f k)) [0..<fsize f] else []"
  obtain t1 where t1: "init_bytes f [0..<fsize f] idx t = Inr t1" "byteSize t1 = byteSize t"
    and f1: "filled t idx (idx + fsize f) ?H ?C t1"
  proof -
    have "idx + (fsize f - 0) \<le> EpmMaxRawTcpSize" "source f \<noteq> IMMEDIATE \<Longrightarrow> \<forall>b < fsize f. hw_index f b < 256"
      using Cons.prems(2,3) by (simp_all add: total_size_def)
    from init_bytes_filled [OF Cons.prems(1) this(1) le0 this(2), unfolded diff_zero] show thesis using that by blast
  qed
  let ?t1 = "t1\<lparr>byteSize := byteSize t1 + fsize f\<rparr>"
  have "template_wf ?t1" using f1 by (simp add: filled_def template_wf_def)
  then obtain t2 where t2: "init_fields fs (idx + fsize f) ?t1 = Inr t2" "byteSize t2 = byteSize ?t1 + total_size fs"
    and f2: "filled ?t1 (idx + fsize f) (idx + fsize f + total_size fs) (hw_bytes fs (idx + fsize f)) (csum_bytes fs (idx + fsize f)) t2"
    using Cons.IH [of ?t1 "idx + fsize f"] Cons.prems by (auto simp: total_size_def add.assoc)
  have "filled t idx (idx + fsize f + total_size fs) (?H @ hw_bytes fs (idx + fsize f)) (?C @ csum_bytes fs (idx + fsize f)) t2"
    using f2 by (intro filled_trans [OF f1]) (auto dest: hw_positions_mem)
  then show ?case using t1 t2 by (simp add: total_size_def add.assoc)
qed

lemma table_fits_index:
  "table_fits fs \<Longrightarrow> (i, h) \<in> set (hw_bytes fs idx) \<Longrightarrow> 8 \<le> h \<and> h < 93"
  using hw_positions_mem [of i h "\<lambda>s. s \<noteq> IMMEDIATE" fs idx] hw_index_range hw_register_range
  unfolding table_fits_def by fastforce

lemma hw_positions_total: "hw_positions P (fs @ gs) idx = hw_positions P fs idx @ hw_positions P gs (idx + total_size fs)"
  by (induction fs arbitrary: idx) (simp_all add: total_size_def add.assoc)

lemma total_size_simps [simp]: "total_size [] = 0" "total_size (f # fs) = fsize f + total_size fs"
  "total_size (fs @ gs) = total_size fs + total_size gs"
  by (simp_all add: total_size_def)

lemma template_ctor_wf: "template_wf (EpmTemplate_ctor idx fs)"
  by (simp add: template_wf_def EpmTemplate_ctor_def)

lemma replicate_nth: "h < 256 \<Longrightarrow> replicate 16 (0 :: u16) ! (h div 16) = 0"
  by (simp add: less_mult_imp_div_less)

lemma ctor_simps [simp]:
  "h < 256 \<Longrightarrow> \<not> low_bit (EpmTemplate_ctor idx fs) h" "h < 256 \<Longrightarrow> \<not> high_bit (EpmTemplate_ctor idx fs) h"
  "t_id (EpmTemplate_ctor idx fs) = idx" "templateStruct (EpmTemplate_ctor idx fs) = fs"
  by (simp_all add: low_bit_def high_bit_def EpmTemplate_ctor_def replicate_nth)

lemma new_template_filled:
  assumes "table_fits fs" "length fs \<le> 512"
  shows "\<exists>t. new_template idx fs = Inr t \<and> byteSize t = total_size fs \<and>
    filled (EpmTemplate_ctor idx fs) 0 (total_size fs) (hw_bytes fs 0) (csum_bytes fs 0) t"
proof -
  have "\<forall>f \<in> set fs. source f \<noteq> IMMEDIATE \<longrightarrow> (\<forall>b < fsize f. hw_index f b < 256)"
    using assms(1) hw_index_range hw_register_range unfolding table_fits_def by fastforce
  from init_fields_filled [of "(EpmTemplate_ctor idx fs)\<lparr>byteSize := 0\<rparr>" 0 fs, OF _ _ this]
  show ?thesis using assms template_ctor_wf [of idx fs]
    by (auto simp: new_template_def template_init_def table_fits_def EpmTemplate_ctor_def template_wf_def)
qed

text \<open>
  The tables of a packet template are what its field list says: for a field list that fits the packet and whose
  fields fit their registers, the constructor builds, without a failure, a template whose data table holds for every byte
  the register byte it comes from (for bytes of the packet itself their position modulo 8, a byte of the immediate
  register), and whose low (high) checksum bitmap has exactly the register bytes that some even (odd) byte of the
  packet takes, except for those of the checksum field.\<close>

theorem template_init_correct:
  assumes "table_fits fs" "length fs \<le> 512"
  shows "\<exists>t. new_template idx fs = Inr t \<and> t_id t = idx \<and> templateStruct t = fs \<and> byteSize t = total_size fs \<and>
    (\<forall>i h. (i, h) \<in> set (hw_bytes fs 0) \<longrightarrow> t_data t ! i = of_nat h) \<and>
    (\<forall>i < total_size fs. i \<notin> fst ` set (hw_bytes fs 0) \<longrightarrow> t_data t ! i = of_nat (i mod 8)) \<and>
    (\<forall>h < 256. low_bit t h \<longleftrightarrow> (\<exists>i. even i \<and> (i, h) \<in> set (csum_bytes fs 0))) \<and>
    (\<forall>h < 256. high_bit t h \<longleftrightarrow> (\<exists>i. odd i \<and> (i, h) \<in> set (csum_bytes fs 0)))"
proof -
  obtain t where t: "new_template idx fs = Inr t" "byteSize t = total_size fs"
    and f: "filled (EpmTemplate_ctor idx fs) 0 (total_size fs) (hw_bytes fs 0) (csum_bytes fs 0) t"
    using new_template_filled [OF assms] by blast
  have total: "total_size fs \<le> EpmMaxRawTcpSize" using assms(1) by (simp add: table_fits_def)
  have H: "t_data t ! i = of_nat h" if m: "(i, h) \<in> set (hw_bytes fs 0)" for i h
  proof -
    have i: "i < total_size fs" using hw_positions_mem [OF m] by simp
    then have "t_data t ! i = data_byte (hw_bytes fs 0) i" using filledD(4) [OF f] total by simp
    moreover obtain h' where h': "map_of (hw_bytes fs 0) i = Some h'" 
      using weak_map_of_SomeI [OF m] by blast
    ultimately show ?thesis using hw_positions_unique [OF m map_of_SomeD [OF h']] by (simp add: data_byte_def)
  qed
  have I: "t_data t ! i = of_nat (i mod 8)" if "i < total_size fs" "i \<notin> fst ` set (hw_bytes fs 0)" for i
  proof -
    have "map_of (hw_bytes fs 0) i = None" using that(2) by (simp add: map_of_eq_None_iff)
    then show ?thesis using filledD(4) [OF f] that(1) total by (simp add: data_byte_def)
  qed
  have bits: "\<forall>h < 256. low_bit t h \<longleftrightarrow> (\<exists>i. even i \<and> (i, h) \<in> set (csum_bytes fs 0))"
    "\<forall>h < 256. high_bit t h \<longleftrightarrow> (\<exists>i. odd i \<and> (i, h) \<in> set (csum_bytes fs 0))"
    and same: "t_id t = idx" "templateStruct t = fs"
    using filledD(2,3,5,6) [OF f] by simp_all
  show ?thesis
    by (intro exI [of _ t] conjI allI impI H I; (rule t same bits [rule_format])?; assumption?)
qed

lemmas table_defs = EpmBoeQuoteUpdateShortTemplate_def EpmCancelBoeTemplate_def EpmCancelSqfTemplate_def
  EpmCmeILinkHbTemplate_def EpmCmeILinkSwTemplate_def EpmCmeILinkTemplate_def EpmFastPathTemplate_def
  EpmFastSweepUDPReactTemplate_def EpmFireBoeTemplate_def EpmFireSqfTemplate_def EpmMoexFireNewTemplate_def
  EpmMoexFireReplaceTemplate_def EpmMoexSwPktTemplate_def EpmQEDFireTemplate_def EpmRawPktTemplate_def
  EpmMaxRawTcpSize_def

definition library_tables :: "EpmTemplateField list list" where
  "library_tables =
     [EpmFastPathTemplate, EpmRawPktTemplate, EpmMoexFireNewTemplate, EpmMoexFireReplaceTemplate, EpmMoexSwPktTemplate,
      EpmBoeQuoteUpdateShortTemplate, EpmCancelBoeTemplate, EpmCancelSqfTemplate, EpmCmeILinkHbTemplate,
      EpmCmeILinkSwTemplate, EpmCmeILinkTemplate, EpmFastSweepUDPReactTemplate, EpmFireBoeTemplate, EpmFireSqfTemplate,
      EpmQEDFireTemplate]"

text \<open>The decidable facts about a table, computed from the field list without its names.\<close>

fun fields_fit :: "EpmTemplateField list \<Rightarrow> bool" where
  "fields_fit [] \<longleftrightarrow> True"
| "fields_fit (f # fs) \<longleftrightarrow> (source f = IMMEDIATE \<or> fsize f \<le> hw_size (source f)) \<and> fields_fit fs"

lemma fields_fit_append [simp]: "fields_fit (fs @ gs) \<longleftrightarrow> fields_fit fs \<and> fields_fit gs"
  by (induction fs) auto

lemma table_fitsI: "total_size fs \<le> 1536 \<Longrightarrow> fields_fit fs \<Longrightarrow> table_fits fs"
  by (induction fs) (auto simp: table_fits_def EpmMaxRawTcpSize_def)

lemma hdr_facts [simp]:
  "total_size nw_hdr_fields = 34" "total_size tcp_hdr_fields = 20" "fields_fit nw_hdr_fields" "fields_fit tcp_hdr_fields"
  "length nw_hdr_fields = 13" "length tcp_hdr_fields = 8"
  by (simp_all add: nw_hdr_fields_def tcp_hdr_fields_def hw_map_values)

lemma hdr_positions [simp]:
  "\<not> P IMMEDIATE \<Longrightarrow> hw_positions P nw_hdr_fields idx = []"
  "hw_positions (\<lambda>s. s \<noteq> IMMEDIATE) tcp_hdr_fields 34 =
     [(38, 11), (39, 10), (40, 9), (41, 8), (42, 15), (43, 14), (44, 13), (45, 12), (48, 17), (49, 16), (50, 19), (51, 18)]"
  "hw_positions (\<lambda>s. s \<noteq> IMMEDIATE \<and> s \<noteq> TCP_CHCK_SUM) tcp_hdr_fields 34 =
     [(38, 11), (39, 10), (40, 9), (41, 8), (42, 15), (43, 14), (44, 13), (45, 12), (48, 17), (49, 16)]"
  by (simp_all add: nw_hdr_fields_def tcp_hdr_fields_def hw_index_def hw_map_values upt_rec)

lemma library_tables_fit: "\<forall>fs \<in> set library_tables. table_fits fs \<and> length fs \<le> 512"
  unfolding library_tables_def list.set ball_simps
  by (intro conjI table_fitsI TrueI) (simp_all add: table_defs hw_map_values)

theorem template_init_correct_witness:
  "\<exists>t. new_template 4 EpmMoexFireNewTemplate = Inr t \<and> byteSize t = 198 \<and> t_data t ! 62 = of_nat 44"
proof -
  have "EpmMoexFireNewTemplate \<in> set library_tables" by (simp add: library_tables_def)
  then have fits: "table_fits EpmMoexFireNewTemplate" "length EpmMoexFireNewTemplate \<le> 512" using library_tables_fit by blast+
  have "(62, 44) \<in> set (hw_bytes EpmMoexFireNewTemplate 0)"
    by (simp add: table_defs hw_positions_total hdr_positions) (simp add: image_iff hw_index_def hw_map_values)
  moreover have "total_size EpmMoexFireNewTemplate = 198" by (simp add: table_defs)
  ultimately show ?thesis using template_init_correct [OF fits, of 4] by metis
qed

section \<open>Clearing and the checksum of the packet that the FPGA sends\<close>

fun clear_positions :: "EpmTemplateField list \<Rightarrow> nat \<Rightarrow> nat list" where
  "clear_positions [] idx = []"
| "clear_positions (f # fs) idx = (if clear f then [idx..<idx + fsize f] else []) @ clear_positions fs (idx + fsize f)"

lemma clear_bytes_eq:
  "idx + n \<le> length pkt \<Longrightarrow> clear_bytes n idx pkt = Inr (map (\<lambda>i. if idx \<le> i \<and> i < idx + n then 0 else pkt ! i) [0..<length pkt])"
proof (induction n idx pkt rule: clear_bytes.induct)
  case (1 idx pkt)
  then show ?case by (auto intro!: nth_equalityI)
next
  case (2 n idx pkt)
  then have "clear_bytes n (idx + 1) (pkt[idx := 0]) =
      Inr (map (\<lambda>i. if idx + 1 \<le> i \<and> i < idx + 1 + n then 0 else pkt[idx := 0] ! i) [0..<length pkt])" by simp
  also have "map (\<lambda>i. if idx + 1 \<le> i \<and> i < idx + 1 + n then 0 else pkt[idx := 0] ! i) [0..<length pkt] =
      map (\<lambda>i. if idx \<le> i \<and> i < idx + Suc n then 0 else pkt ! i) [0..<length pkt]"
    by (rule map_cong) (auto simp: nth_list_update)
  finally show ?case using 2 by simp
qed

lemma clear_fields_eq:
  "\<forall>i \<in> set (clear_positions fs idx). i < length pkt \<Longrightarrow>
   clear_fields fs idx pkt = Inr (map (\<lambda>i. if i \<in> set (clear_positions fs idx) then 0 else pkt ! i) [0..<length pkt])"
proof (induction fs idx pkt rule: clear_fields.induct)
  case (1 idx pkt)
  then show ?case by (simp add: map_nth)
next
  case (2 f fs idx pkt)
  show ?case
  proof (cases "clear f \<and> 0 < fsize f")
    case True
    have "idx + fsize f \<le> length pkt"
    proof -
      have "idx + fsize f - 1 \<in> set (clear_positions (f # fs) idx)" using True by auto
      then have "idx + fsize f - 1 < length pkt" using "2.prems" by blast
      then show ?thesis using True by simp
    qed
    then have c: "clear_bytes (fsize f) idx pkt = Inr (map (\<lambda>i. if idx \<le> i \<and> i < idx + fsize f then 0 else pkt ! i) [0..<length pkt])"
      by (rule clear_bytes_eq)
    then show ?thesis using True "2.prems" by (simp add: "2.IH"(1) ball_Un)
  next
    case False
    then consider "\<not> clear f" | "clear f" "fsize f = 0" by blast
    then show ?thesis
    proof cases
      case 1
      then show ?thesis using 2 by simp
    next
      case 2
      then show ?thesis using "2.IH"(1) "2.prems" by simp
    qed
  qed
qed

lemma clearHwFields_eq:
  "\<forall>i \<in> set (clear_positions (templateStruct t) 0). i < length pkt \<Longrightarrow>
   clearHwFields t pkt = Inr (map (\<lambda>i. if i \<in> set (clear_positions (templateStruct t) 0) then 0 else pkt ! i) [0..<length pkt])"
  unfolding clearHwFields_def by (rule clear_fields_eq)

text \<open>
  What the tables of a template mean to the FPGA, as their construction has them: every byte comes from the packet or
  from a register byte, and the register bytes of the bitmaps are added to the checksum of the cleared packet, those of the
  low one as the first byte of a word.
\<close>

definition fpga_packet :: "EpmTemplate \<Rightarrow> (nat \<Rightarrow> u8) \<Rightarrow> u8 list \<Rightarrow> u8 list" where
  "fpga_packet t regs pkt = map (\<lambda>i. if unat (t_data t ! i) < 8 then pkt ! i else regs (unat (t_data t ! i))) [0..<length pkt]"

definition fpga_csum :: "EpmTemplate \<Rightarrow> (nat \<Rightarrow> u8) \<Rightarrow> nat" where
  "fpga_csum t regs = (\<Sum>h < 256. (if low_bit t h then unat (regs h) else 0) + (if high_bit t h then 256 * unat (regs h) else 0))"

text \<open>A table gives the right checksum when every field that the FPGA fills in is cleared before, and no register byte enters twice with the same parity.\<close>

definition csum_table_ok :: "EpmTemplateField list \<Rightarrow> bool" where
  "csum_table_ok fs \<longleftrightarrow> table_fits fs \<and> length fs \<le> 512 \<and> (\<forall>f \<in> set fs. source f \<noteq> IMMEDIATE \<longrightarrow> clear f) \<and>
     distinct (map (\<lambda>(i, h). (even i, h)) (csum_bytes fs 0)) \<and> (\<forall>i \<in> set (clear_positions fs 0). 34 \<le> i)"

abbreviation wt :: "nat \<Rightarrow> nat" where
  "wt i \<equiv> if even i then 1 else 256"

lemma le_sum_weights: "le_sum bs = (\<Sum>i < length bs. wt i * unat (bs ! i))"
proof (induction bs rule: le_sum.induct)
  case (1 b0 b1 bs)
  have "(\<Sum>i < length (b0 # b1 # bs). wt i * unat ((b0 # b1 # bs) ! i)) =
      unat b0 + (256 * unat b1 + (\<Sum>i < length bs. wt i * unat (bs ! i)))"
    by (simp only: length_Cons sum.lessThan_Suc_shift) simp
  then show ?case using 1 by simp
qed simp_all

lemma hw_positions_mono: "(i, h) \<in> set (hw_positions P fs idx) \<Longrightarrow> (\<And>s. P s \<Longrightarrow> Q s) \<Longrightarrow> (i, h) \<in> set (hw_positions Q fs idx)"
  by (induction fs arbitrary: idx) (auto split: if_splits)

lemma hw_positions_cleared:
  "(i, h) \<in> set (hw_positions P fs idx) \<Longrightarrow> \<forall>f \<in> set fs. P (source f) \<longrightarrow> clear f \<Longrightarrow> i \<in> set (clear_positions fs idx)"
  by (induction fs arbitrary: idx) (auto split: if_splits)

lemma csum_field_register:
  assumes "(i, h) \<in> set (hw_bytes fs idx)" "(i, h) \<notin> set (csum_bytes fs idx)" "table_fits fs"
  shows "h = 18 \<or> h = 19"
proof -
  have "(i, h) \<in> set (hw_positions (\<lambda>s. s = TCP_CHCK_SUM) fs idx)"
    using assms(1,2) by (induction fs arbitrary: idx) (auto split: if_splits)
  from hw_positions_mem [OF this] obtain f b where "f \<in> set fs" "b < fsize f" "source f = TCP_CHCK_SUM" "h = hw_index f b" by blast
  then show ?thesis using hw_index_range [of b f] assms(3) by (auto simp: table_fits_def hw_map_values)
qed

lemma sum_at_positions:
  fixes n :: nat
  assumes "finite S" "\<forall>p \<in> S. fst p < n"
    and "\<And>i. i < n \<Longrightarrow> f i = g i + (\<Sum>p \<in> {p \<in> S. fst p = i}. w p)"
  shows "(\<Sum>i < n. f i) = (\<Sum>i < n. g i) + (\<Sum>p \<in> S. w p :: nat)"
proof -
  have "(\<Sum>i < n. f i) = (\<Sum>i < n. g i) + (\<Sum>i < n. \<Sum>p \<in> {p \<in> S. fst p = i}. w p)"
    using assms(3) by (simp add: sum.distrib)
  also have "(\<Sum>i < n. \<Sum>p \<in> {p \<in> S. fst p = i}. w p) = (\<Sum>p \<in> S. w p)"
    using assms(1,2) by (intro sum.group) auto
  finally show ?thesis .
qed

text \<open>The contributions of the bitmaps are those of the positions of the packet.\<close>

lemma fpga_csum_positions:
  assumes d: "distinct (map (\<lambda>(i, h). (even i, h)) C)" and r: "\<forall>(i, h) \<in> set C. h < 256"
    and low: "\<And>h. h < 256 \<Longrightarrow> low_bit t h \<longleftrightarrow> (\<exists>i. even i \<and> (i, h) \<in> set C)"
    and high: "\<And>h. h < 256 \<Longrightarrow> high_bit t h \<longleftrightarrow> (\<exists>i. odd i \<and> (i, h) \<in> set C)"
  shows "fpga_csum t regs = (\<Sum>(i, h) \<in> set C. wt i * unat (regs h))"
proof -
  define E where "E = {p \<in> set C. even (fst p)}"
  define D where "D = {p \<in> set C. odd (fst p)}"
  have inj: "inj_on (\<lambda>(i, h). (even i, h)) (set C)" using d by (simp add: distinct_map)
  have E: "inj_on snd E" "snd ` E = {h. h < 256 \<and> low_bit t h}"
  proof -
    show "inj_on snd E"
    proof (rule inj_onI)
      fix p q
      assume pq: "p \<in> E" "q \<in> E" "snd p = snd q"
      then have "(\<lambda>(i, h). (even i, h)) p = (\<lambda>(i, h). (even i, h)) q" by (simp add: E_def split_beta)
      then show "p = q" using inj_onD [OF inj, of p q] pq by (simp add: E_def)
    qed
    have "h \<in> snd ` E \<longleftrightarrow> (\<exists>i. even i \<and> (i, h) \<in> set C)" for h
      by (auto simp: E_def image_iff Bex_def)
    moreover have "h < 256" if "(i, h) \<in> set C" for i h using r that by auto
    ultimately have "h \<in> snd ` E \<longleftrightarrow> h < 256 \<and> low_bit t h" for h using low by metis
    then show "snd ` E = {h. h < 256 \<and> low_bit t h}" by (simp add: set_eq_iff)
  qed
  have D: "inj_on snd D" "snd ` D = {h. h < 256 \<and> high_bit t h}"
  proof -
    show "inj_on snd D"
    proof (rule inj_onI)
      fix p q
      assume pq: "p \<in> D" "q \<in> D" "snd p = snd q"
      then have "(\<lambda>(i, h). (even i, h)) p = (\<lambda>(i, h). (even i, h)) q" by (simp add: D_def split_beta)
      then show "p = q" using inj_onD [OF inj, of p q] pq by (simp add: D_def)
    qed
    have "h \<in> snd ` D \<longleftrightarrow> (\<exists>i. odd i \<and> (i, h) \<in> set C)" for h
      by (auto simp: D_def image_iff Bex_def)
    moreover have "h < 256" if "(i, h) \<in> set C" for i h using r that by auto
    ultimately have "h \<in> snd ` D \<longleftrightarrow> h < 256 \<and> high_bit t h" for h using high by metis
    then show "snd ` D = {h. h < 256 \<and> high_bit t h}" by (simp add: set_eq_iff)
  qed
  have "(\<Sum>h < 256. if low_bit t h then unat (regs h) else 0) = (\<Sum>h \<in> snd ` E. unat (regs h))"
    unfolding E(2) by (intro sum.mono_neutral_cong_right) auto
  also have "\<dots> = (\<Sum>(i, h) \<in> E. wt i * unat (regs h))"
    unfolding sum.reindex [OF E(1)] by (intro sum.cong) (auto simp: E_def)
  finally have e: "(\<Sum>h < 256. if low_bit t h then unat (regs h) else 0) = (\<Sum>(i, h) \<in> E. wt i * unat (regs h))" .
  have "(\<Sum>h < 256. if high_bit t h then 256 * unat (regs h) else 0) = (\<Sum>h \<in> snd ` D. 256 * unat (regs h))"
    unfolding D(2) by (intro sum.mono_neutral_cong_right) auto
  also have "\<dots> = (\<Sum>(i, h) \<in> D. wt i * unat (regs h))"
    unfolding sum.reindex [OF D(1)] by (intro sum.cong) (auto simp: D_def)
  finally have o: "(\<Sum>h < 256. if high_bit t h then 256 * unat (regs h) else 0) = (\<Sum>(i, h) \<in> D. wt i * unat (regs h))" .
  have "(\<Sum>(i, h) \<in> set C. wt i * unat (regs h)) = (\<Sum>(i, h) \<in> E \<union> D. wt i * unat (regs h))"
    by (rule arg_cong [where f = "sum _"]) (auto simp: E_def D_def)
  also have "\<dots> = (\<Sum>(i, h) \<in> E. wt i * unat (regs h)) + (\<Sum>(i, h) \<in> D. wt i * unat (regs h))"
    by (rule sum.union_disjoint) (auto simp: E_def D_def)
  finally show ?thesis using e o by (simp add: fpga_csum_def sum.distrib)
qed

lemma fpga_packet_nth:
  assumes "csum_table_ok fs" "new_template idx fs = Inr t" "length pkt \<le> EpmMaxRawTcpSize" "i < length pkt"
  shows "fpga_packet t regs pkt ! i = (case map_of (hw_bytes fs 0) i of Some h \<Rightarrow> regs h | None \<Rightarrow> pkt ! i)"
proof -
  have ok: "table_fits fs" "length fs \<le> 512" using assms(1) by (simp_all add: csum_table_ok_def)
  have f: "filled (EpmTemplate_ctor idx fs) 0 (total_size fs) (hw_bytes fs 0) (csum_bytes fs 0) t"
    using new_template_filled [OF ok, of idx] assms(2) by auto
  show ?thesis
  proof (cases "map_of (hw_bytes fs 0) i")
    case (Some h)
    note m = map_of_SomeD [OF Some]
    have "8 \<le> h" "h < 93" using table_fits_index [OF ok(1) m] by simp_all
    moreover have "t_data t ! i = of_nat h"
      using filledD(4) [OF f, of i] hw_positions_mem [OF m] assms(3,4) by (simp add: data_byte_def Some)
    ultimately show ?thesis using assms(4) Some by (simp add: fpga_packet_def unat_of_nat_u8)
  next
    case None
    have i: "i < EpmMaxRawTcpSize" using assms(3,4) by simp
    have "t_data t ! i = of_nat (i mod 8) \<or> t_data t ! i = 0"
    proof (cases "i < total_size fs")
      case True
      then show ?thesis using filledD(4) [OF f i] by (simp add: data_byte_def None)
    next
      case False
      then show ?thesis using f i by (simp add: filled_def EpmTemplate_ctor_def)
    qed
    then have "unat (t_data t ! i) < 8" by (auto simp: unat_of_nat_u8)
    then show ?thesis using assms(4) None by (simp add: fpga_packet_def)
  qed
qed

lemma fpga_packet_sum:
  assumes ok: "csum_table_ok fs" and t: "new_template idx fs = Inr t"
    and len: "length pkt \<le> EpmMaxRawTcpSize" "\<forall>i \<in> set (clear_positions fs 0). i < length pkt \<and> pkt ! i = 0"
    and regs: "regs 18 = 0" "regs 19 = 0"
  shows "le_sum (fpga_packet t regs pkt) = le_sum pkt + fpga_csum t regs"
proof -
  let ?H = "hw_bytes fs 0" and ?C = "csum_bytes fs 0"
  let ?w = "\<lambda>(i, h). wt i * unat (regs h)"
  have fits: "table_fits fs" "length fs \<le> 512" and cl: "\<forall>f \<in> set fs. source f \<noteq> IMMEDIATE \<longrightarrow> clear f"
    and d: "distinct (map (\<lambda>(i, h). (even i, h)) ?C)"
    using ok by (simp_all add: csum_table_ok_def)
  have f: "filled (EpmTemplate_ctor idx fs) 0 (total_size fs) ?H ?C t"
    using new_template_filled [OF fits, of idx] t by auto
  have sub: "(i, h) \<in> set ?H" if "(i, h) \<in> set ?C" for i h
    by (rule hw_positions_mono [OF that]) simp
  have pos: "i < length pkt \<and> pkt ! i = 0" if "(i, h) \<in> set ?H" for i h
    using hw_positions_cleared [OF that cl] len(2) by blast
  have "fpga_csum t regs = sum ?w (set ?C)"
    using filledD(5,6) [OF f] table_fits_index [OF fits(1) sub] by (intro fpga_csum_positions [OF d]) force+
  moreover have "(\<Sum>i < length pkt. wt i * unat (fpga_packet t regs pkt ! i)) = (\<Sum>i < length pkt. wt i * unat (pkt ! i)) + sum ?w (set ?C)"
  proof (rule sum_at_positions)
    show "\<forall>p \<in> set ?C. fst p < length pkt" 
    proof
      fix p
      assume "p \<in> set ?C"
      then have "(fst p, snd p) \<in> set ?C" by simp
      then show "fst p < length pkt" using pos [OF sub] by blast
    qed
    fix i
    assume i: "i < length pkt"
    note nth = fpga_packet_nth [OF ok t len(1) i, of regs]
    show "wt i * unat (fpga_packet t regs pkt ! i) = wt i * unat (pkt ! i) + sum ?w {p \<in> set ?C. fst p = i}"
    proof (cases "map_of ?H i")
      case None
      then have e: "{p \<in> set ?C. fst p = i} = {}" using sub by (force simp: map_of_eq_None_iff)
      have z: "sum ?w {p \<in> set ?C. fst p = i} = 0" unfolding e by (rule sum.empty)
      show ?thesis unfolding nth z None by simp
    next
      case (Some h)
      note m = map_of_SomeD [OF Some]
      have p0: "pkt ! i = 0" using pos [OF m] by simp
      show ?thesis
      proof (cases "(i, h) \<in> set ?C")
        case True
        have u: "(i, h') \<in> set ?C \<Longrightarrow> h' = h" for h' using hw_positions_unique [OF m sub] by metis
        have "p \<in> set ?C \<and> fst p = i \<longleftrightarrow> p = (i, h)" for p using True u [of "snd p"] by (cases p) auto
        then have "{p \<in> set ?C. fst p = i} = {(i, h)}" by simp
        then have z: "sum ?w {p \<in> set ?C. fst p = i} = wt i * unat (regs h)" by simp
        show ?thesis unfolding nth z Some p0 by simp
      next
        case False
        then have e: "{p \<in> set ?C. fst p = i} = {}" 
        proof -
          have "(i, h') \<notin> set ?C" for h' using hw_positions_unique [OF m sub] False by metis
          then show ?thesis by auto
        qed
        have z: "sum ?w {p \<in> set ?C. fst p = i} = 0" unfolding e by (rule sum.empty)
        have "regs h = 0" using csum_field_register [OF m False fits(1)] regs by blast
        then show ?thesis unfolding nth z Some p0 by simp
      qed
    qed
  qed simp
  moreover have "length (fpga_packet t regs pkt) = length pkt" by (simp add: fpga_packet_def)
  ultimately show ?thesis unfolding le_sum_weights by simp
qed

lemma fpga_packet_header:
  assumes "csum_table_ok fs" "new_template idx fs = Inr t" "length pkt \<le> EpmMaxRawTcpSize"
  shows "take 34 (fpga_packet t regs pkt) = take 34 pkt"
proof (rule nth_equalityI)
  show l: "length (take 34 (fpga_packet t regs pkt)) = length (take 34 pkt)" by (simp add: fpga_packet_def)
  fix i
  assume "i < length (take 34 (fpga_packet t regs pkt))"
  then have i: "i < 34" "i < length pkt" by (simp_all add: fpga_packet_def)
  have cl: "\<forall>f \<in> set fs. source f \<noteq> IMMEDIATE \<longrightarrow> clear f" and ge: "\<forall>i \<in> set (clear_positions fs 0). 34 \<le> i"
    using assms(1) by (simp_all add: csum_table_ok_def)
  have "34 \<le> j" if "(j, h) \<in> set (hw_bytes fs 0)" for j h using hw_positions_cleared [OF that cl] ge by blast
  then have "i \<notin> fst ` set (hw_bytes fs 0)" using i(1) by force
  then have "map_of (hw_bytes fs 0) i = None" by (simp add: map_of_eq_None_iff)
  then show "take 34 (fpga_packet t regs pkt) ! i = take 34 pkt ! i"
    using fpga_packet_nth [OF assms i(2)] i by simp
qed

text \<open>
  The checksum bitmaps of a template are right. Take a field table in which every field that the FPGA fills in is
  also cleared by the software and no register byte enters twice with the same parity. Clear these fields of a
  packet: then the sum of the 16-bit words of the TCP segment that the FPGA sends (with its registers filled in and the
  checksum field still zero) is the sum of the cleared segment plus what the two bitmaps add, and the Ethernet and IP
  headers of the packet are as they were.\<close>

lemma template_csum_correct:
  assumes "csum_table_ok fs" and "new_template idx fs = Inr t" and "clearHwFields t pkt = Inr pkt'"
    and "length pkt \<le> EpmMaxRawTcpSize" and "\<forall>i \<in> set (clear_positions fs 0). i < length pkt"
    and "regs 18 = 0" and "regs 19 = 0"
  shows "le_sum (drop 34 (fpga_packet t regs pkt')) = le_sum (drop 34 pkt') + fpga_csum t regs \<and>
    take 34 (fpga_packet t regs pkt') = take 34 pkt' \<and> take 34 pkt' = take 34 pkt"
proof -
  have fits: "table_fits fs" "length fs \<le> 512" and ge: "\<forall>i \<in> set (clear_positions fs 0). 34 \<le> i"
    using assms(1) by (simp_all add: csum_table_ok_def)
  have "templateStruct t = fs"
    using new_template_filled [OF fits, of idx] assms(2) by (auto dest: filledD(3))
  then have pkt': "pkt' = map (\<lambda>i. if i \<in> set (clear_positions fs 0) then 0 else pkt ! i) [0..<length pkt]"
    using clearHwFields_eq [of t pkt] assms(3,5) by simp
  have same: "take 34 pkt' = take 34 pkt"
    by (rule nth_equalityI) (use ge in \<open>auto simp: pkt'\<close>)
  have len: "length pkt' \<le> EpmMaxRawTcpSize" "\<forall>i \<in> set (clear_positions fs 0). i < length pkt' \<and> pkt' ! i = 0"
    using assms(4,5) by (auto simp: pkt')
  have split: "le_sum xs = le_sum (take 34 xs) + le_sum (drop 34 xs)" for xs :: "u8 list"
    using le_sum_append_even [of "take 34 xs" "drop 34 xs"] by (cases "length xs < 34") simp_all
  note h = fpga_packet_header [OF assms(1,2) len(1), of regs]
  show ?thesis
    using fpga_packet_sum [OF assms(1,2) len assms(6,7)] split [of pkt'] split [of "fpga_packet t regs pkt'"] same h by simp
qed

text \<open>All tables of the library but one satisfy the condition.\<close>

lemma clear_positions_append [simp]:
  "clear_positions (fs @ gs) idx = clear_positions fs idx @ clear_positions gs (idx + total_size fs)"
  by (induction fs arbitrary: idx) (simp_all add: add.assoc)

fun fields_cleared :: "EpmTemplateField list \<Rightarrow> bool" where
  "fields_cleared [] \<longleftrightarrow> True"
| "fields_cleared (f # fs) \<longleftrightarrow> (source f = IMMEDIATE \<or> clear f) \<and> fields_cleared fs"

lemma fields_cleared_iff: "fields_cleared fs \<longleftrightarrow> (\<forall>f \<in> set fs. source f \<noteq> IMMEDIATE \<longrightarrow> clear f)"
  by (induction fs) auto

lemma fields_cleared_append [simp]: "fields_cleared (fs @ gs) \<longleftrightarrow> fields_cleared fs \<and> fields_cleared gs"
  by (induction fs) auto

lemma hdr_cleared [simp]: "fields_cleared nw_hdr_fields" "fields_cleared tcp_hdr_fields" "clear_positions nw_hdr_fields idx = []"
  by (simp_all add: nw_hdr_fields_def tcp_hdr_fields_def)

lemma clear_positions_ge: "i \<in> set (clear_positions fs idx) \<Longrightarrow> idx \<le> i"
  by (induction fs arbitrary: idx) (force split: if_splits)+

lemma csum_table_okI:
  assumes "fs = nw_hdr_fields @ gs" "fields_cleared fs" "table_fits fs" "length fs \<le> 512"
    "distinct (map (\<lambda>(i, h). (even i, h)) (csum_bytes fs 0))"
  shows "csum_table_ok fs"
  using assms clear_positions_ge [of _ gs 34] by (auto simp: csum_table_ok_def fields_cleared_iff)

definition tcp_tables :: "EpmTemplateField list list" where
  "tcp_tables =
     [EpmFastPathTemplate, EpmMoexFireNewTemplate, EpmMoexFireReplaceTemplate, EpmMoexSwPktTemplate,
      EpmBoeQuoteUpdateShortTemplate, EpmCancelSqfTemplate, EpmCmeILinkHbTemplate,
      EpmCmeILinkSwTemplate, EpmCmeILinkTemplate, EpmFireBoeTemplate, EpmFireSqfTemplate, EpmQEDFireTemplate]"

lemma tcp_tables_ok: "\<forall>fs \<in> set tcp_tables. csum_table_ok fs"
proof -
  have sub: "set tcp_tables \<subseteq> set library_tables" by (simp add: tcp_tables_def library_tables_def)
  have "\<forall>fs \<in> set tcp_tables. \<exists>gs. fs = nw_hdr_fields @ gs" by (simp add: tcp_tables_def table_defs)
  moreover have "\<forall>fs \<in> set tcp_tables. fields_cleared fs"
    unfolding tcp_tables_def list.set ball_simps by (intro conjI TrueI) (simp_all add: table_defs)
  moreover have "\<forall>fs \<in> set tcp_tables. distinct (map (\<lambda>(i, h). (even i, h)) (csum_bytes fs 0))"
    unfolding tcp_tables_def list.set ball_simps
    by (intro conjI TrueI) (simp_all add: table_defs hw_positions_total hw_index_def hw_map_values upt_rec)
  moreover have "\<forall>fs \<in> set tcp_tables. table_fits fs \<and> length fs \<le> 512" using library_tables_fit sub by blast
  ultimately show ?thesis using csum_table_okI by blast
qed

lemma fpga_checksum:
  assumes "fs \<in> set tcp_tables" and "new_template idx fs = Inr t" and "clearHwFields t pkt = Inr pkt'"
    and "length pkt \<le> 1536" and "\<forall>i \<in> set (clear_positions fs 0). i < length pkt"
    and "regs 18 = 0" and "regs 19 = 0"
    and "34 \<le> length pkt" and "unat (be16toh (ip_len h)) = length pkt - 14"
  shows "\<exists>s. ekaPseudoTcpCsum h (drop 34 pkt') = Inr s \<and>
    foldPseudoCsum (s + of_nat (fpga_csum t regs)) =
      inet_chksum_pseudo [(a, drop 34 (fpga_packet t regs pkt'))] EKA_PROTO_TCP (of_nat (length pkt - 34)) (ip_src h) (ip_dest h)"
proof -
  have ok: "csum_table_ok fs" using assms(1) tcp_tables_ok by blast
  then have fits: "table_fits fs" "length fs \<le> 512" by (simp_all add: csum_table_ok_def)
  have st: "templateStruct t = fs"
    using new_template_filled [OF fits, of idx] assms(2) by (auto dest: filledD(3))
  have l: "length pkt' = length pkt"
    using clearHwFields_eq [of t pkt] assms(3,5) st by auto
  then have seg: "unat (be16toh (ip_len h)) = 20 + length (drop 34 pkt')" using assms(8,9) by simp
  note e = ekaPseudoTcpCsum_segment [OF seg]
  have sum: "le_sum (drop 34 pkt') + fpga_csum t regs = le_sum (drop 34 (fpga_packet t regs pkt'))"
    using template_csum_correct [OF ok assms(2,3) _ assms(5,6,7)] assms(4) by (simp add: EpmMaxRawTcpSize_def)
  have short: "length (drop 34 (fpga_packet t regs pkt')) < 2048" "length (drop 34 pkt') < 2048"
    using assms(4) l by (simp_all add: fpga_packet_def)
  show ?thesis
    using e(3) foldPseudoCsum_data [OF e(2) sum short(1)] l by (simp add: pseudo_csum_unrolled_eq [OF short(2)])
qed

text \<open>
  C5. The TCP checksum of the packets that the FPGA fires is right. The library hands the FPGA the 32-bit pseudo sum of
  a packet whose FPGA-filled fields are cleared, and the checksum bitmaps of the template. For every TCP
  template table of the library but the one of the BOE cancel message, for every packet of up to 1536 bytes that holds
  all the cleared fields, and for all values of the FPGA's registers: adding the register bytes of the bitmaps to the
  pseudo sum and folding gives the checksum that lwIP's \<open>inet_chksum_pseudo\<close> has for the segment with the registers
  filled in (and a zero checksum field).\<close>

theorem fpga_checksum_correct:
  assumes "fs \<in> set tcp_tables" and "new_template idx fs = Inr t" and "clearHwFields t pkt = Inr pkt'"
    and "length pkt \<le> 1536" and "\<forall>i \<in> set (clear_positions fs 0). i < length pkt"
    and "regs 18 = 0" and "regs 19 = 0"
    and "34 \<le> length pkt" and "unat (be16toh (ip_len h)) = length pkt - 14"
  shows "\<exists>s. ekaPseudoTcpCsum h (drop 34 pkt') = Inr s \<and>
    foldPseudoCsum (s + of_nat (fpga_csum t regs)) =
      inet_chksum_pseudo [(a, drop 34 (fpga_packet t regs pkt'))] EKA_PROTO_TCP (of_nat (length pkt - 34)) (ip_src h) (ip_dest h)"
  using assms by (rule fpga_checksum)

lemma tcp_tables_shape: "fs \<in> set tcp_tables \<Longrightarrow> \<exists>gs. fs = nw_hdr_fields @ tcp_hdr_fields @ gs"
  by (auto simp: tcp_tables_def table_defs)

definition fp_template :: EpmTemplate where
  "fp_template = projr (new_template 0 EpmFastPathTemplate)"

theorem fpga_checksum_correct_witness:
  "\<exists>pkt'. clearHwFields fp_template (replicate 60 1) = Inr pkt' \<and>
     (\<exists>s. ekaPseudoTcpCsum (demo_ip 0x2e00) (drop 34 pkt') = Inr s \<and>
       foldPseudoCsum (s + of_nat (fpga_csum fp_template (\<lambda>h. if h = 18 \<or> h = 19 then 0 else of_nat h))) =
       inet_chksum_pseudo [(0, drop 34 (fpga_packet fp_template (\<lambda>h. if h = 18 \<or> h = 19 then 0 else of_nat h) pkt'))]
         EKA_PROTO_TCP 26 0x0100000a 0x0200000a)"
proof -
  have m: "EpmFastPathTemplate \<in> set tcp_tables" by (simp add: tcp_tables_def)
  then have "csum_table_ok EpmFastPathTemplate" using tcp_tables_ok by blast
  then have fits: "table_fits EpmFastPathTemplate" "length EpmFastPathTemplate \<le> 512" by (simp_all add: csum_table_ok_def)
  obtain t where t: "new_template 0 EpmFastPathTemplate = Inr t" and st: "templateStruct t = EpmFastPathTemplate"
    using new_template_filled [OF fits, of 0] by (auto dest: filledD(3))
  then have t': "fp_template = t" by (simp add: fp_template_def)
  have c: "\<forall>i \<in> set (clear_positions EpmFastPathTemplate 0). i < length (replicate 60 (1 :: u8))"
    by (simp add: table_defs tcp_hdr_fields_def)
  obtain pkt' where pkt': "clearHwFields t (replicate 60 1) = Inr pkt'"
    using clearHwFields_eq [of t "replicate 60 1"] c unfolding st by blast
  have "unat (be16toh (ip_len (demo_ip 0x2e00))) = length (replicate 60 (1 :: u8)) - 14" by (simp add: be16toh_def demo_ip_def)
  from fpga_checksum_correct [OF m t pkt' _ c _ _ _ this, of "\<lambda>h. if h = 18 \<or> h = 19 then 0 else of_nat h" 0] pkt' t'
  show ?thesis by (simp add: demo_ip_def)
qed

text \<open>The table that fails: the BOE cancel message has a time stamp that the FPGA fills in and the software does not clear.\<close>

lemma cancel_boe_not_cleared: "\<not> csum_table_ok EpmCancelBoeTemplate"
  by (simp add: csum_table_ok_def EpmCancelBoeTemplate_def)

end
