(* ===== verification/EkaWc.thy ===== *)
theory EkaWc
  imports EkaEpmRegion LwDef
begin

text \<open>
  The accesses to the FPGA: the register writes of \<open>src/src/EkaDev.h\<close> and the write-combining windows of
  \<open>src/src/EkaWc.h\<close>. The card is a trace of 64-bit stores, to registers and to the windows, each with its address.
  The spin locks of the windows make the stores of a call contiguous.
\<close>

section \<open>Model\<close>

datatype hw_op = RegWrite nat u64 | WcWrite nat u64

definition le64 :: "u8 list \<Rightarrow> u64" where
  "le64 bs = foldr (\<lambda>b w. push_bit 8 w OR ucast b) bs 0"

text \<open>The 64-bit words of a buffer whose length is a multiple of 8.\<close>

fun words64 :: "u8 list \<Rightarrow> u64 list" where
  "words64 (b0 # b1 # b2 # b3 # b4 # b5 # b6 # b7 # bs) = le64 [b0, b1, b2, b3, b4, b5, b6, b7] # words64 bs"
| "words64 bs = []"

fun writes :: "(nat \<Rightarrow> u64 \<Rightarrow> hw_op) \<Rightarrow> nat \<Rightarrow> u64 list \<Rightarrow> hw_op list" where
  "writes wr dstAddr [] = []"
| "writes wr dstAddr (w # ws) = wr dstAddr w # writes wr (dstAddr + 8) ws"

definition copyBuf2Hw :: "nat \<Rightarrow> u8 list \<Rightarrow> hw_op list" where
  "copyBuf2Hw dstAddr src = writes RegWrite dstAddr (words64 src)"

text \<open>The same with the bytes of each 32-bit half in reverse order.\<close>

fun swap4 :: "u8 list \<Rightarrow> u8 list" where
  "swap4 (b0 # b1 # b2 # b3 # bs) = b3 # b2 # b1 # b0 # swap4 bs"
| "swap4 bs = []"

definition copyBuf2Hw_swap4 :: "nat \<Rightarrow> u8 list \<Rightarrow> hw_op list" where
  "copyBuf2Hw_swap4 dstAddr src = writes RegWrite dstAddr (words64 (swap4 src))"

definition atomicIndirectBufWrite :: "nat \<Rightarrow> u8 \<Rightarrow> u8 \<Rightarrow> u32 \<Rightarrow> u8 \<Rightarrow> hw_op list" where
  "atomicIndirectBufWrite addr bank threadId idx target_table =
     [RegWrite addr (ucast bank OR push_bit 8 (ucast threadId) OR push_bit 16 (ucast (idx AND 0xFFFFFF)) OR
        push_bit 56 (ucast target_table))]"

definition roundUp64 :: "nat \<Rightarrow> nat" where
  "roundUp64 x = (x + 63) div 64 * 64"

datatype SendOp = Send | DontSend

primrec SendOp_int :: "SendOp \<Rightarrow> u64" where
  "SendOp_int Send = 1"
| "SendOp_int DontSend = 2"

text \<open>The trigger descriptor, with bit fields of 32, 16, 11 and 5 bits.\<close>

definition epm_trig_desc :: "u32 \<Rightarrow> u16 \<Rightarrow> u16 \<Rightarrow> u16 \<Rightarrow> u64" where
  "epm_trig_desc tcp_cs action_index sz rgn =
     ucast tcp_cs OR push_bit 32 (ucast action_index) OR push_bit 48 (ucast (sz AND 0x7FF)) OR
     push_bit 59 (ucast (rgn AND 0x1F))"

text \<open>The two words of \<open>WcDesc\<close>: the trigger, and bit fields of 12, 32 and 2 bits.\<close>

definition wc_desc :: "nat \<Rightarrow> u64 \<Rightarrow> u16 \<Rightarrow> u16 \<Rightarrow> u32 \<Rightarrow> SendOp \<Rightarrow> u64 list" where
  "wc_desc pktSize hwHeapAddr actionLocalIdx epmRgn tcpPseudoCsum send =
     [epm_trig_desc tcpPseudoCsum actionLocalIdx (of_nat (pktSize mod 65536)) epmRgn,
      (of_nat (roundUp64 pktSize) AND 0xFFF) OR push_bit 12 (hwHeapAddr AND 0xFFFFFFFF) OR push_bit 44 (SendOp_int send)]"

definition epmCopyWcDesc :: "nat \<Rightarrow> nat \<Rightarrow> u64 \<Rightarrow> u16 \<Rightarrow> u16 \<Rightarrow> u32 \<Rightarrow> SendOp \<Rightarrow> hw_op list" where
  "epmCopyWcDesc descAddr pktSize hwHeapAddr actionLocalIdx epmRgn tcpPseudoCsum send =
     writes WcWrite descAddr (wc_desc pktSize hwHeapAddr actionLocalIdx epmRgn tcpPseudoCsum send)"

definition epmCopyWcPayload :: "nat \<Rightarrow> u8 list \<Rightarrow> hw_op list" where
  "epmCopyWcPayload dst src = writes WcWrite dst (words64 src)"

text \<open>
  \<open>mem\<close> is the heap from the packet on; rounding up reads bytes behind the packet. Addresses are relative to
  the first window. The offset, a \<open>uint64_t\<close>, is converted to the \<open>int\<close> that \<open>geWcChByOffs\<close> takes.
\<close>

definition epmCopyWcBuf :: "nat \<Rightarrow> u8 list \<Rightarrow> nat \<Rightarrow> u16 \<Rightarrow> u16 \<Rightarrow> hw_op list outcome" where
  "epmCopyWcBuf hwHeapAddr mem pktSize actionLocalIdx epmRgn =
     obind (geWcChByOffs (sint (of_nat hwHeapAddr :: u32))) (\<lambda>wcChId.
       let wcRegionBase = wcChId * 0x800 in
       if length mem < roundUp64 pktSize then Inl InvalidAccess
       else Inr (epmCopyWcDesc wcRegionBase pktSize (of_nat hwHeapAddr) actionLocalIdx epmRgn 0 DontSend @
                 epmCopyWcPayload (wcRegionBase + 8 * 8) (take (roundUp64 pktSize) mem)))"

definition TxBufAddr_0 :: nat where "TxBufAddr_0 = 8 * 1024 * 1024 - 2048"

definition epmCopyAndSendWcBuf :: "bool \<Rightarrow> u8 list \<Rightarrow> nat \<Rightarrow> u16 \<Rightarrow> u16 \<Rightarrow> u32 \<Rightarrow> (bool \<times> hw_op list) outcome" where
  "epmCopyAndSendWcBuf txBuf mem pktSize actionLocalIdx epmRgn tcpPseudoCsum =
     (let hwHeapAddr = (if txBuf then TxBufAddr_1 else TxBufAddr_0); wcRegionBase = 0 * 0x800 in
      if length mem < roundUp64 pktSize then Inl InvalidAccess
      else Inr (\<not> txBuf,
        epmCopyWcDesc wcRegionBase pktSize (of_nat hwHeapAddr) actionLocalIdx epmRgn tcpPseudoCsum Send @
        epmCopyWcPayload (wcRegionBase + 8 * 8) (take (roundUp64 pktSize) mem)))"

section \<open>Windows and descriptors\<close>

fun op_addr :: "hw_op \<Rightarrow> nat" where
  "op_addr (RegWrite a w) = a"
| "op_addr (WcWrite a w) = a"

lemma roundUp64_bounds: "n \<le> roundUp64 n \<and> roundUp64 n < n + 64 \<and> 64 dvd roundUp64 n"
proof -
  have "(n + 63) div 64 * 64 + (n + 63) mod 64 = n + 63" by simp
  moreover have "(n + 63) mod 64 < 64" by simp
  ultimately show ?thesis unfolding roundUp64_def by (intro conjI dvd_triv_right) linarith+
qed

lemma roundUp64_mono: "m \<le> n \<Longrightarrow> roundUp64 m \<le> roundUp64 n"
  by (simp add: roundUp64_def div_le_mono)

lemma length_words64: "length (words64 bs) = length bs div 8"
  by (induction bs rule: words64.induct) simp_all

lemma writes_nth: "writes wr a ws = map (\<lambda>i. wr (a + 8 * i) (ws ! i)) [0..<length ws]"
proof (induction ws arbitrary: a)
  case (Cons w ws)
  have "[0..<length (w # ws)] = 0 # map Suc [0..<length ws]" by (simp add: upt_conv_Cons map_Suc_upt del: upt_Suc)
  then show ?case by (simp add: Cons add.assoc)
qed simp

lemma length_writes [simp]: "length (writes wr a ws) = length ws"
  by (simp add: writes_nth)

text \<open>The unsigned fields of a word, read back.\<close>

definition field64 :: "nat \<Rightarrow> nat \<Rightarrow> u64 \<Rightarrow> nat" where
  "field64 lo n w = unat (take_bit n (drop_bit lo w))"

lemma and_masks:
  "(sz :: u16) AND 0x7FF = take_bit 11 sz" "(sz :: u16) AND 0x1F = take_bit 5 sz" "(w :: u64) AND 0xFFF = take_bit 12 w"
  "(w :: u64) AND 0xFFFFFFFF = take_bit 32 w"
  by (simp_all add: take_bit_eq_mask mask_eq_decr_exp)

lemma unat_ucast_u64:
  "unat (ucast (a :: u32) :: u64) = unat a" "unat (ucast (b :: u16) :: u64) = unat b"
proof -
  have "unat a < 18446744073709551616" "unat b < 18446744073709551616"
    using unat_u32_less [of a] unat_u16_less [of b] by linarith+
  then show "unat (ucast a :: u64) = unat a" "unat (ucast b :: u64) = unat b"
    by (simp_all add: unsigned_ucast_eq take_bit_nat_eq_self_iff)
qed

lemma unat_take_bit: "unat (take_bit n (w :: 'a :: len word)) = unat w mod 2 ^ n"
  by (simp add: unsigned_take_bit_eq) (simp add: take_bit_eq_mod)

lemma bit_above: "LENGTH('a) \<le> n \<Longrightarrow> \<not> bit (w :: 'a :: len word) n"
  by (auto dest: bit_imp_le_length)

lemma trig_desc_fields:
  "field64 0 32 (epm_trig_desc cs idx sz rgn) = unat cs"
  "field64 32 16 (epm_trig_desc cs idx sz rgn) = unat idx"
  "field64 48 11 (epm_trig_desc cs idx sz rgn) = unat sz mod 2048"
  "field64 59 5 (epm_trig_desc cs idx sz rgn) = unat rgn mod 32"
proof -
  let ?d = "epm_trig_desc cs idx sz rgn"
  have "take_bit 32 (drop_bit 0 ?d) = ucast cs" "take_bit 16 (drop_bit 32 ?d) = ucast idx"
    "take_bit 11 (drop_bit 48 ?d) = ucast (take_bit 11 sz)" "take_bit 5 (drop_bit 59 ?d) = ucast (take_bit 5 rgn)"
    by (rule bit_word_eqI; auto simp: epm_trig_desc_def and_masks bit_simps bit_above)+
  then show "field64 0 32 ?d = unat cs" "field64 32 16 ?d = unat idx" "field64 48 11 ?d = unat sz mod 2048" "field64 59 5 ?d = unat rgn mod 32"
    by (simp_all add: field64_def unat_ucast_u64 unat_take_bit)
qed

lemma wc_desc_fields:
  "field64 0 12 (wc_desc n a i r cs send ! 1) = roundUp64 n mod 4096"
  "field64 12 32 (wc_desc n a i r cs send ! 1) = unat a mod 2 ^ 32"
  "field64 44 2 (wc_desc n a i r cs send ! 1) = (case send of Send \<Rightarrow> 1 | DontSend \<Rightarrow> 2)"
proof -
  let ?d = "wc_desc n a i r cs send ! 1" and ?r = "of_nat (roundUp64 n) :: u64"
  have "take_bit 12 (drop_bit 0 ?d) = take_bit 12 ?r" "take_bit 32 (drop_bit 12 ?d) = take_bit 32 a"
    by (rule bit_word_eqI; cases send; auto simp: wc_desc_def and_masks bit_simps)+
  moreover have "take_bit 2 (drop_bit 44 ?d) = SendOp_int send"
    by (rule bit_word_eqI; cases send; auto simp: wc_desc_def and_masks bit_simps)
  moreover have "unat (take_bit 12 ?r) = roundUp64 n mod 4096"
    by (simp only: unat_take_bit unat_of_nat) (simp add: take_bit_eq_mod mod_mod_cancel)
  ultimately show "field64 0 12 ?d = roundUp64 n mod 4096" "field64 12 32 ?d = unat a mod 2 ^ 32"
    "field64 44 2 ?d = (case send of Send \<Rightarrow> 1 | DontSend \<Rightarrow> 2)"
    by (cases send; simp add: field64_def unat_take_bit)+
qed

lemma words64_nth: "i < length bs div 8 \<Longrightarrow> words64 bs ! i = le64 (take 8 (drop (8 * i) bs))"
proof (induction bs arbitrary: i rule: words64.induct)
  case (1 b0 b1 b2 b3 b4 b5 b6 b7 bs)
  let ?bs = "b0 # b1 # b2 # b3 # b4 # b5 # b6 # b7 # bs"
  show ?case
  proof (cases i)
    case (Suc k)
    have "drop (8 * i) ?bs = drop (8 * k) (drop 8 ?bs)" unfolding Suc drop_drop by (simp add: add.commute)
    moreover have "drop 8 ?bs = bs" by simp
    ultimately show ?thesis using 1 Suc by simp
  qed simp
qed simp_all

text \<open>The conversion of a heap offset to \<open>int\<close>.\<close>

lemma offs_int:
  "offs mod 2 ^ 32 < 5341184 \<Longrightarrow> sint (of_nat offs :: u32) = int (offs mod 2 ^ 32)"
  "0 \<le> sint (of_nat offs :: u32) \<and> sint (of_nat offs :: u32) < 5341184 \<Longrightarrow> offs mod 2 ^ 32 < 5341184"
proof -
  have u: "uint (of_nat offs :: u32) = int (offs mod 2 ^ 32)" by (simp add: take_bit_eq_mod of_nat_mod unsigned_of_nat)
  show "sint (of_nat offs :: u32) = int (offs mod 2 ^ 32)" if "offs mod 2 ^ 32 < 5341184"
    using that unfolding sint_uint u by (intro signed_take_bit_int_eq_self) simp_all
  show "offs mod 2 ^ 32 < 5341184" if s: "0 \<le> sint (of_nat offs :: u32) \<and> sint (of_nat offs :: u32) < 5341184"
  proof -
    have "uint (of_nat offs :: u32) = take_bit 32 (sint (of_nat offs :: u32))" by (simp add: uint_sint)
    also have "\<dots> = sint (of_nat offs :: u32)" using s by (intro take_bit_int_eq_self) simp_all
    finally show ?thesis using s u by linarith
  qed
qed

lemma offs_int_small: "offs < 5341184 \<Longrightarrow> sint (of_nat offs :: u32) = int offs"
  using offs_int(1) [of offs] by simp

text \<open>
  C26. A packet copy to the FPGA keeps to its window and says what it copies. The heap offset counts modulo \<open>2\<^sup>3\<^sup>2\<close>, which the
  conversion to \<open>int\<close> leaves of it: an offset beyond that is not refused but taken for its low 32 bits, by the look-up of the
  channel as by the descriptor. When these are an offset of a region, and for a packet
  of at most 1984 bytes (the largest frame has 1536), \<open>epmCopyWcBuf\<close> stores one descriptor and then the words of the
  packet, rounded up to 64 bytes, in order; all stores lie in the 2048-byte window of the region's channel; and the bit
  fields of the descriptor read back as the action index, the region, the size, the rounded size and the offset.
  Otherwise the program ends in \<open>on_error\<close>.\<close>

theorem wc_copy_correct:
  assumes "n \<le> 1984" and "roundUp64 n \<le> length mem" and "unat rgn < 32"
  shows "(case epmCopyWcBuf offs mem n idx rgn of
      Inl e \<Rightarrow> 5341184 \<le> offs mod 2 ^ 32 \<and> e = Assertion ''heapOffs is out of Heap''
    | Inr ops \<Rightarrow> \<exists>ch d0 d1. offs mod 2 ^ 32 < 5341184 \<and> geWcChByOffs (int (offs mod 2 ^ 32)) = Inr ch \<and>
        (\<forall>op \<in> set ops. ch * 0x800 \<le> op_addr op \<and> op_addr op + 8 \<le> (ch + 1) * 0x800) \<and>
        length ops = 2 + roundUp64 n div 8 \<and> ops ! 0 = WcWrite (ch * 0x800) d0 \<and> ops ! 1 = WcWrite (ch * 0x800 + 8) d1 \<and>
        (\<forall>i < roundUp64 n div 8. ops ! (2 + i) = WcWrite (ch * 0x800 + 64 + 8 * i) (le64 (take 8 (drop (8 * i) mem)))) \<and>
        field64 32 16 d0 = unat idx \<and> field64 48 11 d0 = n \<and> field64 59 5 d0 = unat rgn \<and>
        field64 0 12 d1 = roundUp64 n \<and> field64 12 32 d1 = offs mod 2 ^ 32 \<and> field64 44 2 d1 = 2)"
proof (cases "offs mod 2 ^ 32 < 5341184")
  case False
  let ?o = "sint (of_nat offs :: u32)"
  have "\<forall>i \<in> set [0..<Total]. i < Total \<and> \<not> in_region ?o i"
    using in_region_iff [of ?o] offs_int(2) [of offs] False by (metis atLeastLessThan_iff set_upt)
  then have "geWcChByOffs ?o = on_error ''heapOffs is out of Heap''"
    unfolding geWcChByOffs_def by (rule wc_loop_miss)
  then show ?thesis using False by (simp add: epmCopyWcBuf_def on_error_def)
next
  case True
  let ?o = "offs mod 2 ^ 32"
  obtain r where "r < Total" "in_region (int ?o) r" using in_region_iff [of "int ?o"] True by auto
  then have ch: "geWcChByOffs (int ?o) = Inr (wcChId (region ! r))"
    unfolding geWcChByOffs_def by (intro wc_loop_hit) auto
  let ?ch = "wcChId (region ! r)" and ?p = "take (roundUp64 n) mem"
  let ?d = "wc_desc n (of_nat offs) idx rgn 0 DontSend"
  have R: "roundUp64 n \<le> 1984" using roundUp64_mono [OF assms(1)] by (simp add: roundUp64_def)
  have ops: "epmCopyWcBuf offs mem n idx rgn =
      Inr (writes WcWrite (?ch * 0x800) ?d @ writes WcWrite (?ch * 0x800 + 64) (words64 ?p))"
    using ch assms(2) offs_int(1) [OF True] by (simp add: epmCopyWcBuf_def epmCopyWcDesc_def epmCopyWcPayload_def Let_def)
  have len: "length (words64 ?p) = roundUp64 n div 8" using assms(2) by (simp add: length_words64)
  have d: "writes WcWrite (?ch * 0x800) ?d = [WcWrite (?ch * 0x800) (?d ! 0), WcWrite (?ch * 0x800 + 8) (?d ! 1)]"
    by (simp add: wc_desc_def)
  have win: "?ch * 0x800 \<le> op_addr op \<and> op_addr op + 8 \<le> (?ch + 1) * 0x800"
    if "op \<in> set (writes WcWrite (?ch * 0x800 + 64) (words64 ?p))" for op
    using that R len by (auto simp: writes_nth)
  have pay: "writes WcWrite (?ch * 0x800 + 64) (words64 ?p) ! i = WcWrite (?ch * 0x800 + 64 + 8 * i) (le64 (take 8 (drop (8 * i) mem)))"
    if i: "i < roundUp64 n div 8" for i
  proof -
    have "8 * i + 8 \<le> roundUp64 n" using i by linarith
    then have "take 8 (drop (8 * i) ?p) = take 8 (drop (8 * i) mem)" by (simp add: drop_take take_take min_def)
    then show ?thesis using i len words64_nth [of i ?p] assms(2) by (simp add: writes_nth)
  qed
  have f: "field64 32 16 (?d ! 0) = unat idx" "field64 48 11 (?d ! 0) = n" "field64 59 5 (?d ! 0) = unat rgn"
    "field64 0 12 (?d ! 1) = roundUp64 n" "field64 12 32 (?d ! 1) = ?o" "field64 44 2 (?d ! 1) = 2"
    using assms(1,3) R True trig_desc_fields [of 0 idx "of_nat (n mod 65536)" rgn]
    by (simp_all only: wc_desc_fields) (simp_all add: wc_desc_def unat_of_nat_u16 unat_of_nat take_bit_eq_mod mod_mod_cancel)
  show ?thesis
    unfolding ops sum.case
    by (rule exI [of _ ?ch], rule exI [of _ "?d ! 0"], rule exI [of _ "?d ! 1"])
      (use True ch win pay f len in \<open>auto simp: d\<close>)
qed

theorem wc_copy_correct_witness:
  "\<exists>ops ch. epmCopyWcBuf 1536 (replicate 64 7) 60 1 0 = Inr ops \<and> geWcChByOffs 1536 = Inr ch \<and> length ops = 10"
  using wc_copy_correct [of 60 "replicate 64 7" 0 1536 1] by (auto simp: roundUp64_def split: sum.splits)

end
