(* ===== verification/EkaEpmAction.thy ===== *)
theory EkaEpmAction
  imports EkaTemplates EkaWc
begin

text \<open>
  The actions of the FPGA, class \<open>EkaEpmAction\<close> of \<open>src/src/EkaEpmAction.h\<close> and \<open>EkaEpmAction.cpp\<close>: an action has
  a slot of the packet heap of \<open>EkaEpm\<close>, in which the library builds a frame, and a descriptor in the FPGA.
  The heap is a function on offsets, with accesses beyond its size checked; the stores to the card are a trace.
  A pointer into the slot is its offset. Templates do not change once they are built, so an action holds its template
  by value. Memory of the caller is the list of its bytes; a \<open>uint\<close> index that the region checks bound is a number.
\<close>

section \<open>Types\<close>

datatype EpmActionType = INVALID | TcpFullPkt | TcpFastPath | TcpEmptyAck | Igmp | HwFireAction | SqfFire | SqfCancel
  | BoeFire | BoeCancel | CmeFire | CmeCancel | CmeHwCancel | CmeSwFire | CmeSwHeartbeat | ItchHwFastSweep | QEDHwPurge
  | CmeFc | EurFire | EurSwSend | MoexSwSend | MoexFireNew | MoexFireReplace | LAST_ACTION | UserAction

primrec EpmActionType_int :: "EpmActionType \<Rightarrow> nat" where
  "EpmActionType_int INVALID = 0"
| "EpmActionType_int TcpFullPkt = 11"
| "EpmActionType_int TcpFastPath = 12"
| "EpmActionType_int TcpEmptyAck = 13"
| "EpmActionType_int Igmp = 14"
| "EpmActionType_int HwFireAction = 21"
| "EpmActionType_int SqfFire = 22"
| "EpmActionType_int SqfCancel = 23"
| "EpmActionType_int BoeFire = 24"
| "EpmActionType_int BoeCancel = 25"
| "EpmActionType_int CmeFire = 26"
| "EpmActionType_int CmeCancel = 27"
| "EpmActionType_int CmeHwCancel = 31"
| "EpmActionType_int CmeSwFire = 32"
| "EpmActionType_int CmeSwHeartbeat = 33"
| "EpmActionType_int ItchHwFastSweep = 41"
| "EpmActionType_int QEDHwPurge = 50"
| "EpmActionType_int CmeFc = 60"
| "EpmActionType_int EurFire = 61"
| "EpmActionType_int EurSwSend = 62"
| "EpmActionType_int MoexSwSend = 70"
| "EpmActionType_int MoexFireNew = 71"
| "EpmActionType_int MoexFireReplace = 72"
| "EpmActionType_int LAST_ACTION = 65535"
| "EpmActionType_int UserAction = 100"

datatype TemplateId = T_TcpFastPath | T_Raw | T_EurEtiFire | T_EurEtiSwSend | T_MoexFireNew | T_MoexFireReplace
  | T_MoexSwSend | T_BoeQuoteUpdateShort | T_BoeCancel | T_SqfHwFire | T_SqfSwCancel | T_CmeHwCancel | T_CmeSwFire
  | T_CmeSwHb | T_QedHwFire

datatype FrameType = Tcp | Udp | Ip | Mac

record EpmActionBitmap =
  originatedFromHw :: bool
  app_seq_inc :: bool
  empty_report_en :: bool
  feedbck_en :: bool
  action_valid :: bool
  report_en :: bool
  israw :: bool

record EpmAction =
  la_token :: u64
  la_nextAction :: u32
  la_enable :: u64
  la_postLocalMask :: u64
  la_postStratMask :: u64
  la_actionFlags :: u32

record epm_action_t =
  bit_params :: EpmActionBitmap
  tcpcs_template_db_ptr :: u8
  template_db_ptr :: u16
  data_db_ptr :: u32
  target_prod_id :: u8
  target_core_id :: u8
  target_session_id :: u8
  next_action_index :: u16
  mask_post_strat :: u64
  mask_post_local :: u64
  enable_bitmap :: u64
  user_field :: u64
  token_field :: u64
  hw_tcpCSum :: u32
  payloadSize :: u16
  tcpCsSizeSource :: u8

record EkaTcpSess =
  s_coreId :: u8
  s_sessId :: u8
  s_macDa :: "u8 list"
  s_macSa :: "u8 list"
  s_srcIp :: u32
  s_dstIp :: u32
  s_srcPort :: u16
  s_dstPort :: u16

record EkaEpmAction =
  act_type :: EpmActionType
  act_idx :: nat
  act_regionId :: nat
  act_coreId :: u8
  act_sessId :: u8
  act_productIdx :: u32
  act_epmTemplate :: "EpmTemplate option"
  act_hwAction :: epm_action_t
  act_epmActionLocalCopy :: EpmAction
  act_actionBitParams :: EpmActionBitmap
  act_heapOffs :: nat
  act_payloadLen :: u32
  act_pktSize :: u32
  act_tcpCSum :: u32
  act_tcpSess :: "EkaTcpSess option"
  act_udpSess :: "nat option"

record EkaEpm =
  heap :: "nat \<Rightarrow> u8"
  epmRegion :: "nat \<Rightarrow> bool"
  epmTemplate :: "TemplateId \<Rightarrow> EpmTemplate option"
  a_table :: "nat \<Rightarrow> EkaEpmAction option"
  nAllocated :: nat
  hw :: "hw_op list"
  txBuf :: bool

definition EFC_HW_TTL :: u8 where "EFC_HW_TTL = 0x55"
definition EFC_HW_ID :: u16 where "EFC_HW_ID = 0xabcd"
definition EPM_LAST_ACTION :: u32 where "EPM_LAST_ACTION = 0xFFFF"
definition AF_Valid :: u32 where "AF_Valid = 1"
definition ALWAYS_ENABLE :: u64 where "ALWAYS_ENABLE = 0xFFFFFFFFFFFFFFFF"
definition DefaultToken :: u64 where "DefaultToken = 0x1122334455667788"
definition FROM_ACTION :: u8 where "FROM_ACTION = 1"
definition FROM_DESCR :: u8 where "FROM_DESCR = 2"

definition emptyBitmap :: EpmActionBitmap where
  "emptyBitmap = \<lparr>originatedFromHw = False, app_seq_inc = False, empty_report_en = False, feedbck_en = False,
     action_valid = False, report_en = False, israw = False\<rparr>"

definition emptyAction :: epm_action_t where
  "emptyAction = \<lparr>bit_params = emptyBitmap, tcpcs_template_db_ptr = 0, template_db_ptr = 0, data_db_ptr = 0,
     target_prod_id = 0, target_core_id = 0, target_session_id = 0, next_action_index = 0, mask_post_strat = 0,
     mask_post_local = 0, enable_bitmap = 0, user_field = 0, token_field = 0, hw_tcpCSum = 0, payloadSize = 0,
     tcpCsSizeSource = 0\<rparr>"

text \<open>The structures in memory.\<close>

definition bitmap_bits :: "EpmActionBitmap \<Rightarrow> u8" where
  "bitmap_bits b = push_bit 1 (of_bool (originatedFromHw b)) OR push_bit 2 (of_bool (app_seq_inc b)) OR
     push_bit 3 (of_bool (empty_report_en b)) OR push_bit 4 (of_bool (feedbck_en b)) OR
     push_bit 5 (of_bool (action_valid b)) OR push_bit 6 (of_bool (report_en b)) OR push_bit 7 (of_bool (israw b))"

definition bytes64 :: "u64 \<Rightarrow> u8 list" where
  "bytes64 x = map (\<lambda>i. ucast (drop_bit (8 * i) x)) [0..<8]"

definition epm_action_bytes :: "epm_action_t \<Rightarrow> u8 list" where
  "epm_action_bytes h = [bitmap_bits (bit_params h), tcpcs_template_db_ptr h] @ mem16 (template_db_ptr h) @
     bytes32 (data_db_ptr h) @ [target_prod_id h, target_core_id h, target_session_id h] @ mem16 (next_action_index h) @
     bytes64 (mask_post_strat h) @ bytes64 (mask_post_local h) @ bytes64 (enable_bitmap h) @ bytes64 (user_field h) @
     bytes64 (token_field h) @ bytes32 (hw_tcpCSum h) @ mem16 (payloadSize h) @ [tcpCsSizeSource h] @ replicate 4 0"

section \<open>The heap\<close>

definition heap_bytes :: "nat \<Rightarrow> nat \<Rightarrow> EkaEpm \<Rightarrow> u8 list" where
  "heap_bytes off n epm = map (heap epm) [off..<off + n]"

text \<open>The memory from an offset on, as far as a 16-bit length reaches.\<close>

definition heap_from :: "nat \<Rightarrow> EkaEpm \<Rightarrow> u8 list" where
  "heap_from off epm = heap_bytes off (min 65536 (MaxHeap - off)) epm"

definition write_slot :: "nat \<Rightarrow> u8 list \<Rightarrow> EkaEpm \<Rightarrow> EkaEpm" where
  "write_slot off bs epm = epm\<lparr>heap := (\<lambda>i. if off \<le> i \<and> i < off + length bs then bs ! (i - off) else heap epm i)\<rparr>"

definition heap_put :: "nat \<Rightarrow> u8 list \<Rightarrow> EkaEpm \<Rightarrow> EkaEpm outcome" where
  "heap_put off bs epm = (if off + length bs > MaxHeap then Inl InvalidAccess else Inr (write_slot off bs epm))"

text \<open>A sequence of stores at offsets from a pointer.\<close>

fun heap_puts :: "nat \<Rightarrow> (nat \<times> u8 list) list \<Rightarrow> EkaEpm \<Rightarrow> EkaEpm outcome" where
  "heap_puts p [] epm = Inr epm"
| "heap_puts p ((k, bs) # sts) epm = obind (heap_put (p + k) bs epm) (heap_puts p sts)"

definition ip_hdr_of :: "u8 list \<Rightarrow> EkaIpHdr" where
  "ip_hdr_of bs = \<lparr>v_hl = bs ! 0, tos = bs ! 1, ip_len = le16 (bs ! 2) (bs ! 3), ip_id = le16 (bs ! 4) (bs ! 5),
     ip_offset = le16 (bs ! 6) (bs ! 7), ttl = bs ! 8, ip_proto = bs ! 9, ip_chksum = le16 (bs ! 10) (bs ! 11),
     ip_src = le32 (bs ! 12) (bs ! 13) (bs ! 14) (bs ! 15), ip_dest = le32 (bs ! 16) (bs ! 17) (bs ! 18) (bs ! 19)\<rparr>"

section \<open>Operations\<close>

definition setActionBitmap :: "EkaEpmAction \<Rightarrow> EkaEpmAction outcome" where
  "setActionBitmap act =
     (let b = (act_actionBitParams act)\<lparr>action_valid := (la_actionFlags (act_epmActionLocalCopy act) = AF_Valid), originatedFromHw := False\<rparr>;
          set = (\<lambda>b raw rep fb. Inr (act\<lparr>act_actionBitParams := b\<lparr>israw := raw, report_en := rep, feedbck_en := fb\<rparr>\<rparr>));
          hwFire = (\<lambda>b. set (b\<lparr>app_seq_inc := True\<rparr>) False True True)
      in case act_type act of
           TcpFastPath \<Rightarrow> set b False False True
         | TcpFullPkt \<Rightarrow> set b True False False
         | TcpEmptyAck \<Rightarrow> set b False False False
         | Igmp \<Rightarrow> set b True False False
         | CmeSwFire \<Rightarrow> set (b\<lparr>app_seq_inc := True\<rparr>) False False True
         | EurSwSend \<Rightarrow> set (b\<lparr>app_seq_inc := True\<rparr>) False True True
         | MoexFireNew \<Rightarrow> hwFire (b\<lparr>originatedFromHw := True\<rparr>)
         | MoexFireReplace \<Rightarrow> hwFire (b\<lparr>originatedFromHw := True\<rparr>)
         | EurFire \<Rightarrow> hwFire (b\<lparr>originatedFromHw := True\<rparr>)
         | BoeFire \<Rightarrow> hwFire (b\<lparr>originatedFromHw := True\<rparr>)
         | CmeHwCancel \<Rightarrow> hwFire (b\<lparr>originatedFromHw := True\<rparr>)
         | QEDHwPurge \<Rightarrow> hwFire (b\<lparr>originatedFromHw := True\<rparr>)
         | SqfFire \<Rightarrow> hwFire (b\<lparr>originatedFromHw := True\<rparr>)
         | HwFireAction \<Rightarrow> hwFire b
         | BoeCancel \<Rightarrow> set b False True True
         | SqfCancel \<Rightarrow> set b False True True
         | CmeSwHeartbeat \<Rightarrow> set b False True True
         | ItchHwFastSweep \<Rightarrow> set b True True False
         | UserAction \<Rightarrow> set b False True True
         | _ \<Rightarrow> on_error ''Unexpected EkaEpmAction type_'')"

definition marks_hw :: "EpmActionType \<Rightarrow> bool" where
  "marks_hw t \<longleftrightarrow> t \<in> {UserAction, HwFireAction, EurFire, MoexFireNew, MoexFireReplace, EurSwSend, BoeFire, BoeCancel,
     SqfFire, SqfCancel, CmeHwCancel, QEDHwPurge, ItchHwFastSweep}"

text \<open>The IP header starts 14 bytes into the slot; \<open>_id\<close> is at 4 and \<open>_ttl\<close> at 8 in it.\<close>

definition setIpTtl :: "EkaEpmAction \<Rightarrow> EkaEpm \<Rightarrow> EkaEpm outcome" where
  "setIpTtl act epm =
     (if marks_hw (act_type act) then heap_puts (act_heapOffs act) [(22, [EFC_HW_TTL]), (18, mem16 EFC_HW_ID)] epm else Inr epm)"

definition setTcpCsSizeSource :: "EpmActionType \<Rightarrow> u8" where
  "setTcpCsSizeSource t =
     (if t \<in> {UserAction, HwFireAction, EurFire, MoexFireNew, MoexFireReplace, BoeFire, BoeCancel, SqfFire, SqfCancel,
        CmeHwCancel, QEDHwPurge, ItchHwFastSweep} then FROM_ACTION else FROM_DESCR)"

definition hwActionUserField :: "u32 \<Rightarrow> EpmActionType \<Rightarrow> u64 outcome" where
  "hwActionUserField idx t =
     (let ti = of_nat (EpmActionType_int t) :: u32 in
      if idx AND 0xFFFF0000 \<noteq> 0 then on_error ''action Idx is too high''
      else if ti AND 0xFFFFFF00 \<noteq> 0 then on_error ''action type is too high''
      else Inr (ucast (push_bit 16 (ti AND 0xFF) OR (idx AND 0xFFFF))))"

definition copyHwActionParams2Fpga :: "epm_action_t \<Rightarrow> u32 \<Rightarrow> EkaEpm \<Rightarrow> EkaEpm" where
  "copyHwActionParams2Fpga params actionGlobalIdx epm =
     epm\<lparr>hw := hw epm @ copyBuf2Hw 0x89000 (epm_action_bytes params) @ atomicIndirectBufWrite 0xf0238 0 0 actionGlobalIdx 0\<rparr>"

definition globalIdx :: "EkaEpmAction \<Rightarrow> u32 outcome" where
  "globalIdx act = obind (getBaseActionIdx (int (act_regionId act))) (\<lambda>base. Inr (of_nat (base + act_idx act)))"

definition setHwAction :: "EkaEpmAction \<times> EkaEpm \<Rightarrow> (EkaEpmAction \<times> EkaEpm) outcome" where
  "setHwAction s =
     (let (act, epm) = s in
      case act_epmTemplate act of None \<Rightarrow> Inl InvalidAccess | Some t \<Rightarrow>
      obind (globalIdx act) (\<lambda>gi.
      obind (hwActionUserField gi (act_type act)) (\<lambda>user.
      let lc = act_epmActionLocalCopy act;
          h = (act_hwAction act)\<lparr>bit_params := act_actionBitParams act, tcpcs_template_db_ptr := ucast (t_id t),
            template_db_ptr := of_nat (getDataTemplateAddr t), data_db_ptr := of_nat (act_heapOffs act),
            target_prod_id := ucast (act_productIdx act), target_core_id := act_coreId act, target_session_id := act_sessId act,
            next_action_index := ucast (la_nextAction lc), mask_post_strat := la_postStratMask lc,
            mask_post_local := la_postLocalMask lc, enable_bitmap := la_enable lc, user_field := user,
            token_field := la_token lc, hw_tcpCSum := act_tcpCSum act, payloadSize := ucast (act_pktSize act),
            tcpCsSizeSource := setTcpCsSizeSource (act_type act)\<rparr>
      in Inr (act\<lparr>act_hwAction := h\<rparr>, copyHwActionParams2Fpga h gi epm))))"

text \<open>The \<open>UserAction\<close> case of the source evaluates the table entry without storing it.\<close>

definition setTemplate :: "EkaEpmAction \<Rightarrow> EkaEpm \<Rightarrow> EkaEpmAction outcome" where
  "setTemplate act epm =
     obind (case act_type act of
         TcpFastPath \<Rightarrow> Inr (epmTemplate epm T_TcpFastPath)
       | TcpFullPkt \<Rightarrow> Inr (epmTemplate epm T_Raw)
       | TcpEmptyAck \<Rightarrow> Inr (epmTemplate epm T_TcpFastPath)
       | Igmp \<Rightarrow> Inr (epmTemplate epm T_Raw)
       | SqfFire \<Rightarrow> Inr (epmTemplate epm T_SqfHwFire)
       | SqfCancel \<Rightarrow> Inr (epmTemplate epm T_SqfSwCancel)
       | EurFire \<Rightarrow> Inr (epmTemplate epm T_EurEtiFire)
       | EurSwSend \<Rightarrow> Inr (epmTemplate epm T_EurEtiSwSend)
       | MoexFireNew \<Rightarrow> Inr (epmTemplate epm T_MoexFireNew)
       | MoexFireReplace \<Rightarrow> Inr (epmTemplate epm T_MoexFireReplace)
       | MoexSwSend \<Rightarrow> Inr (epmTemplate epm T_MoexSwSend)
       | BoeFire \<Rightarrow> Inr (epmTemplate epm T_BoeQuoteUpdateShort)
       | BoeCancel \<Rightarrow> Inr (epmTemplate epm T_BoeCancel)
       | CmeHwCancel \<Rightarrow> Inr (epmTemplate epm T_CmeHwCancel)
       | ItchHwFastSweep \<Rightarrow> Inr (epmTemplate epm T_Raw)
       | CmeSwFire \<Rightarrow> Inr (epmTemplate epm T_CmeSwFire)
       | CmeSwHeartbeat \<Rightarrow> Inr (epmTemplate epm T_CmeSwHb)
       | QEDHwPurge \<Rightarrow> Inr (epmTemplate epm T_QedHwFire)
       | UserAction \<Rightarrow> Inr (act_epmTemplate act)
       | _ \<Rightarrow> on_error ''Unexpected EkaEpmAction type_'')
     (\<lambda>t. if t = None then on_error ''epmTemplate == NULL'' else Inr (act\<lparr>act_epmTemplate := t\<rparr>))"

definition getFrameType :: "EpmActionType \<Rightarrow> FrameType outcome" where
  "getFrameType t = (case t of INVALID \<Rightarrow> on_error ''Invalid ActionType'' | ItchHwFastSweep \<Rightarrow> Inr Udp | Igmp \<Rightarrow> Inr Ip | _ \<Rightarrow> Inr Tcp)"

primrec payload_offset :: "FrameType \<Rightarrow> nat" where
  "payload_offset Mac = 14"
| "payload_offset Ip = 14 + 20"
| "payload_offset Tcp = 14 + 20 + 20"
| "payload_offset Udp = 14 + 20 + 8"

definition getPayloadOffset :: "EpmActionType \<Rightarrow> nat outcome" where
  "getPayloadOffset t = obind (getFrameType t) (\<lambda>f. Inr (payload_offset f))"

primrec l3l4_len :: "FrameType \<Rightarrow> u32" where
  "l3l4_len Mac = 0"
| "l3l4_len Ip = 20"
| "l3l4_len Tcp = 20 + 20"
| "l3l4_len Udp = 20 + 8"

definition getL3L4len :: "EpmActionType \<Rightarrow> u32 outcome" where
  "getL3L4len t = obind (getFrameType t) (\<lambda>f. Inr (l3l4_len f))"

definition isUdpAction :: "EpmActionType \<Rightarrow> bool" where
  "isUdpAction t \<longleftrightarrow> t = ItchHwFastSweep"

definition initEpmActionLocalCopy :: "EpmAction \<Rightarrow> EpmAction" where
  "initEpmActionLocalCopy lc = lc\<lparr>la_token := DefaultToken, la_nextAction := EPM_LAST_ACTION, la_enable := ALWAYS_ENABLE,
     la_postStratMask := ALWAYS_ENABLE, la_postLocalMask := ALWAYS_ENABLE, la_actionFlags := AF_Valid\<rparr>"

text \<open>The constructor; the device, its heap and its windows exist.\<close>

definition new_action :: "EpmActionType \<Rightarrow> nat \<Rightarrow> nat \<Rightarrow> EkaEpm \<Rightarrow> (EkaEpmAction \<times> EkaEpm) outcome" where
  "new_action t localIdx regionId epm =
     obind (getActionHeapOffs (int regionId) (int localIdx)) (\<lambda>offs.
     obind (getPayloadOffset t) (\<lambda>po.
     obind (heap_put offs (replicate po 0) epm) (\<lambda>epm.
     let act = \<lparr>act_type = t, act_idx = localIdx, act_regionId = regionId, act_coreId = - 1, act_sessId = - 1, act_productIdx = - 1,
           act_epmTemplate = None, act_hwAction = emptyAction,
           act_epmActionLocalCopy = initEpmActionLocalCopy \<lparr>la_token = 0, la_nextAction = 0, la_enable = 0, la_postLocalMask = 0,
             la_postStratMask = 0, la_actionFlags = 0\<rparr>,
           act_actionBitParams = emptyBitmap, act_heapOffs = offs, act_payloadLen = 0, act_pktSize = 0, act_tcpCSum = 0, act_tcpSess = None, act_udpSess = None\<rparr>
     in obind (setTemplate act epm) (\<lambda>act.
        obind (setActionBitmap act) (\<lambda>act.
        obind (setHwAction (act, epm)) (\<lambda>(act, epm).
        obind (setIpTtl act epm) (\<lambda>epm. Inr (act, epm))))))))"

text \<open>Recomputing the checksum of the IP header in the slot, and the pseudo sum of the segment.\<close>

definition put_ip_csum :: "EkaEpmAction \<Rightarrow> EkaEpm \<Rightarrow> EkaEpm outcome" where
  "put_ip_csum act epm =
     obind (heap_put (act_heapOffs act + 24) (mem16 0) epm) (\<lambda>epm.
       heap_put (act_heapOffs act + 24) (mem16 (csum (heap_bytes (act_heapOffs act + 14) 20 epm))) epm)"

definition slot_pseudo_csum :: "EkaEpmAction \<Rightarrow> EkaEpm \<Rightarrow> u32 outcome" where
  "slot_pseudo_csum act epm =
     ekaPseudoTcpCsum (ip_hdr_of (heap_bytes (act_heapOffs act + 14) 20 epm)) (heap_from (act_heapOffs act + 34) epm)"

definition ip_len_field :: "u32 \<Rightarrow> u8 list" where
  "ip_len_field n = mem16 (be16toh (ucast n))"

definition setUdpMcNwHdrs :: "u8 list \<Rightarrow> u32 \<Rightarrow> u32 \<Rightarrow> u16 \<Rightarrow> u16 \<Rightarrow> u32 \<Rightarrow> EkaEpmAction \<times> EkaEpm \<Rightarrow> (EkaEpmAction \<times> EkaEpm) outcome" where
  "setUdpMcNwHdrs macSa srcIp dstIp srcPort dstPort plSize s =
     (let (act, epm) = s; p = act_heapOffs act;
          macDa = [0x01, 0x00, 0x5e, (bytes32 dstIp ! 1) AND 0x7F, bytes32 dstIp ! 2, bytes32 dstIp ! 3] in
      obind (heap_put p (replicate (14 + 20 + 8) 0) epm) (\<lambda>epm.
      obind (getL3L4len (act_type act)) (\<lambda>l.
      obind (heap_puts p
        [(0, macDa), (6, take 6 macSa), (12, mem16 (be16toh 0x0800)), (14, [0x45]), (15, [0]), (20, mem16 0x0040), (22, [64]),
         (23, [EKA_PROTO_UDP]), (24, mem16 0), (18, mem16 0), (26, bytes32 srcIp), (30, bytes32 dstIp),
         (16, ip_len_field (l + plSize))] epm) (\<lambda>epm.
      obind (heap_put (p + 24) (mem16 (csum (heap_bytes (p + 14) 20 epm))) epm) (\<lambda>epm.
      obind (heap_puts p
        [(34, mem16 (be16toh srcPort)), (36, mem16 (be16toh dstPort)), (38, mem16 (be16toh (ucast (8 + plSize)))),
         (40, mem16 0)] epm) (\<lambda>epm.
      obind (getPayloadOffset (act_type act)) (\<lambda>po.
      obind (heap_put (p + 34 + 8) (replicate (unat plSize) 0) epm) (\<lambda>epm.
      Inr (act\<lparr>act_payloadLen := plSize, act_pktSize := of_nat po + plSize\<rparr>, epm)))))))))"

definition setNwHdrs :: "u8 list \<Rightarrow> u8 list \<Rightarrow> u32 \<Rightarrow> u32 \<Rightarrow> u16 \<Rightarrow> u16 \<Rightarrow> EkaEpmAction \<times> EkaEpm \<Rightarrow> (EkaEpmAction \<times> EkaEpm) outcome" where
  "setNwHdrs macDa macSa srcIp dstIp srcPort dstPort s =
     (let (act, epm) = s; p = act_heapOffs act in
      obind (getFrameType (act_type act)) (\<lambda>f.
      obind (heap_put p (replicate (payload_offset f) 0) epm) (\<lambda>epm.
      obind (heap_puts p
        ([(0, take 6 macDa), (6, take 6 macSa), (12, mem16 (be16toh 0x0800)), (14, [0x45]), (20, mem16 0x0040), (22, [64]),
          (23, [if f = Udp then EKA_PROTO_UDP else EKA_PROTO_TCP]), (24, mem16 0), (18, mem16 0), (26, bytes32 srcIp),
          (30, bytes32 dstIp), (16, ip_len_field (l3l4_len f + act_payloadLen act))] @
         (if f = Udp then [(34, mem16 (be16toh srcPort)), (36, mem16 (be16toh dstPort)),
            (38, mem16 (be16toh (ucast (8 + act_payloadLen act))))] else []) @
         (if f = Tcp then [(34, mem16 (be16toh srcPort)), (36, mem16 (be16toh dstPort)), (46, mem16 (be16toh 0x5018)),
            (52, mem16 0)] else [])) epm) (\<lambda>epm.
      obind (setIpTtl act epm) (\<lambda>epm.
      obind (put_ip_csum act epm) (\<lambda>epm.
      let act = act\<lparr>act_pktSize := of_nat (payload_offset f) + act_payloadLen act\<rparr> in
      obind (slot_pseudo_csum act epm) (\<lambda>c. Inr (act\<lparr>act_tcpCSum := c\<rparr>, epm))))))))"

definition setTcpSess :: "EkaTcpSess option \<Rightarrow> EkaEpmAction \<times> EkaEpm \<Rightarrow> (EkaEpmAction \<times> EkaEpm) outcome" where
  "setTcpSess sess s =
     (case sess of None \<Rightarrow> on_error ''!tcpSess'' | Some ts \<Rightarrow>
      let (act, epm) = s; act = act\<lparr>act_tcpSess := sess, act_coreId := s_coreId ts, act_sessId := s_sessId ts\<rparr> in
      obind (setNwHdrs (s_macDa ts) (s_macSa ts) (s_srcIp ts) (s_dstIp ts) (s_srcPort ts) (s_dstPort ts) (act, epm)) setHwAction)"

text \<open>A UDP session only has an identity here.\<close>

definition setUdpSess :: "nat option \<Rightarrow> EkaEpmAction \<times> EkaEpm \<Rightarrow> (EkaEpmAction \<times> EkaEpm) outcome" where
  "setUdpSess sess s = (let (act, epm) = s in setHwAction (act\<lparr>act_udpSess := sess\<rparr>, epm))"

definition setCoreId :: "u8 \<Rightarrow> EkaEpmAction \<times> EkaEpm \<Rightarrow> (EkaEpmAction \<times> EkaEpm) outcome" where
  "setCoreId core s = (let (act, epm) = s in setHwAction (act\<lparr>act_coreId := core\<rparr>, epm))"

definition setNextAction :: "u32 \<Rightarrow> EkaEpmAction \<times> EkaEpm \<Rightarrow> (EkaEpmAction \<times> EkaEpm) outcome" where
  "setNextAction nextIdx s =
     (let (act, epm) = s in
      setHwAction (act\<lparr>act_epmActionLocalCopy := (act_epmActionLocalCopy act)\<lparr>la_nextAction := nextIdx\<rparr>\<rparr>, epm))"

definition copyHeap2Fpga :: "EkaEpmAction \<Rightarrow> EkaEpm \<Rightarrow> EkaEpm outcome" where
  "copyHeap2Fpga act epm =
     obind (epmCopyWcBuf (act_heapOffs act) (heap_from (act_heapOffs act) epm) (unat (act_pktSize act))
       (of_nat (act_idx act)) (of_nat (act_regionId act))) (\<lambda>ops. Inr (epm\<lparr>hw := hw epm @ ops\<rparr>))"

definition copyHeap2FpgaAndSend :: "EkaEpmAction \<Rightarrow> EkaEpm \<Rightarrow> EkaEpm outcome" where
  "copyHeap2FpgaAndSend act epm =
     obind (epmCopyAndSendWcBuf (txBuf epm) (heap_from (act_heapOffs act) epm) (unat (act_pktSize act))
       (of_nat (act_idx act)) (of_nat (act_regionId act)) (act_tcpCSum act))
       (\<lambda>(b, ops). Inr (epm\<lparr>hw := hw epm @ ops, txBuf := b\<rparr>))"

text \<open>The template clears the fields that the FPGA fills in, in the slot.\<close>

definition clear_slot :: "EkaEpmAction \<Rightarrow> EkaEpm \<Rightarrow> EkaEpm outcome" where
  "clear_slot act epm =
     (case act_epmTemplate act of None \<Rightarrow> Inl InvalidAccess
      | Some t \<Rightarrow> obind (clearHwFields t (heap_from (act_heapOffs act) epm)) (\<lambda>bs. heap_put (act_heapOffs act) bs epm))"

definition updatePayload :: "EkaEpmAction \<times> EkaEpm \<Rightarrow> (EkaEpmAction \<times> EkaEpm) outcome" where
  "updatePayload s =
     (let (act, epm) = s; p = act_heapOffs act in
      obind (getL3L4len (act_type act)) (\<lambda>l.
      obind (heap_put (p + 16) (ip_len_field (l + act_payloadLen act)) epm) (\<lambda>epm.
      obind (put_ip_csum act epm) (\<lambda>epm.
      obind (if isUdpAction (act_type act) then heap_put (p + 38) (mem16 (be16toh (ucast (8 + act_payloadLen act)))) epm
             else Inr epm) (\<lambda>epm.
      obind (clear_slot act epm) (\<lambda>epm.
      obind (setIpTtl act epm) (\<lambda>epm.
      obind (slot_pseudo_csum act epm) (\<lambda>c.
      obind (setHwAction (act\<lparr>act_tcpCSum := c\<rparr>, epm)) (\<lambda>(act, epm).
      obind (copyHeap2Fpga act epm) (\<lambda>epm. Inr (act, epm)))))))))))"

definition setPayload :: "u8 list \<Rightarrow> EkaEpmAction \<times> EkaEpm \<Rightarrow> (EkaEpmAction \<times> EkaEpm) outcome" where
  "setPayload buf s =
     (let (act, epm) = s; act = act\<lparr>act_payloadLen := of_nat (length buf)\<rparr> in
      obind (getPayloadOffset (act_type act)) (\<lambda>po.
      case act_epmTemplate act of None \<Rightarrow> on_error ''!epmTemplate''
      | Some t \<Rightarrow>
        if tcpCsSizeSource (act_hwAction act) = FROM_ACTION \<and> unat (getByteSize t) < length buf
        then on_error ''Template payload size < len''
        else obind (heap_put (act_heapOffs act + po) (take (unat (act_payloadLen act)) buf) epm) (\<lambda>epm.
          updatePayload (act\<lparr>act_pktSize := of_nat po + act_payloadLen act\<rparr>, epm))))"

definition preloadFullPkt :: "u8 list \<Rightarrow> EkaEpmAction \<times> EkaEpm \<Rightarrow> (EkaEpmAction \<times> EkaEpm) outcome" where
  "preloadFullPkt buf s =
     (let (act, epm) = s;
          act = act\<lparr>act_pktSize := of_nat (length buf), act_tcpCSum := 0,
            act_hwAction := (act_hwAction act)\<lparr>payloadSize := of_nat (length buf), hw_tcpCSum := 0\<rparr>\<rparr> in
      obind (heap_put (act_heapOffs act) buf epm) (\<lambda>epm.
      obind (copyHeap2Fpga act epm) (\<lambda>epm.
      obind (globalIdx act) (\<lambda>gi. Inr (act, copyHwActionParams2Fpga (act_hwAction act) gi epm)))))"

definition sendFullPkt :: "u8 list \<Rightarrow> EkaEpmAction \<times> EkaEpm \<Rightarrow> (EkaEpmAction \<times> EkaEpm) outcome" where
  "sendFullPkt buf s =
     (let (act, epm) = s; act = act\<lparr>act_pktSize := of_nat (length buf), act_tcpCSum := 0\<rparr> in
      obind (heap_put (act_heapOffs act) buf epm) (\<lambda>epm.
      obind (copyHeap2FpgaAndSend act epm) (\<lambda>epm. Inr (act, epm))))"

definition setPktPayloadAndSendWC :: "u8 list \<Rightarrow> EkaEpmAction \<times> EkaEpm \<Rightarrow> (EkaEpmAction \<times> EkaEpm) outcome" where
  "setPktPayloadAndSendWC buf s =
     (let (act, epm) = s; p = act_heapOffs act; len = of_nat (length buf) in
      obind (getFrameType (act_type act)) (\<lambda>f.
      obind (heap_put (p + 16) (ip_len_field (l3l4_len f + len)) epm) (\<lambda>epm.
      let act = act\<lparr>act_pktSize := of_nat (payload_offset f) + len\<rparr> in
      obind (put_ip_csum act epm) (\<lambda>epm.
      obind (setIpTtl act epm) (\<lambda>epm.
      obind (heap_put (p + payload_offset f) buf epm) (\<lambda>epm.
      obind (clear_slot act epm) (\<lambda>epm.
      obind (slot_pseudo_csum act epm) (\<lambda>c.
      let act = act\<lparr>act_tcpCSum := c\<rparr> in
      obind (copyHeap2FpgaAndSend act epm) (\<lambda>epm. Inr (act, epm))))))))))"

definition setUdpPktPayload :: "u8 list \<Rightarrow> EkaEpmAction \<times> EkaEpm \<Rightarrow> (EkaEpmAction \<times> EkaEpm) outcome" where
  "setUdpPktPayload buf s =
     (let (act, epm) = s; p = act_heapOffs act in
      obind (getFrameType (act_type act)) (\<lambda>f.
      let act = act\<lparr>act_payloadLen := of_nat (length buf), act_pktSize := of_nat (payload_offset f) + of_nat (length buf)\<rparr> in
      obind (heap_put (p + 16) (ip_len_field (l3l4_len f + act_payloadLen act)) epm) (\<lambda>epm.
      obind (put_ip_csum act epm) (\<lambda>epm.
      obind (heap_put (p + payload_offset f) buf epm) (\<lambda>epm.
      obind (copyHeap2Fpga act epm) (\<lambda>epm. Inr (act, epm)))))))"

definition send_desc :: "u32 \<Rightarrow> EkaEpmAction \<times> EkaEpm \<Rightarrow> u32 \<times> EkaEpm" where
  "send_desc cs s =
     (let (act, epm) = s in
      (act_payloadLen act,
       epm\<lparr>hw := hw epm @ [RegWrite 0xf0230 (epm_trig_desc cs (of_nat (act_idx act)) (ucast (act_pktSize act)) (of_nat (act_regionId act)))]\<rparr>))"

definition send :: "EkaEpmAction \<times> EkaEpm \<Rightarrow> u32 \<times> EkaEpm" where
  "send s = send_desc (act_tcpCSum (fst s)) s"

text \<open>\<open>preSendCheck\<close> stands for the check of the session: what it returns for a length.\<close>

definition fastSend :: "(EkaTcpSess \<Rightarrow> nat \<Rightarrow> int) \<Rightarrow> u8 list \<Rightarrow> EkaEpmAction \<times> EkaEpm \<Rightarrow> (int \<times> EkaEpmAction \<times> EkaEpm) outcome" where
  "fastSend preSendCheck buf s =
     (let snd_it = obind (setPktPayloadAndSendWC buf s) (\<lambda>s. Inr (int (length buf), s)) in
      if act_type (fst s) \<noteq> TcpFastPath then
        (case act_tcpSess (fst s) of None \<Rightarrow> on_error ''TCP session is not set''
         | Some ts \<Rightarrow>
           let rc = preSendCheck ts (length buf) in
           if rc \<le> 0 then Inr (rc, s)
           else if rc \<noteq> int (length buf) then on_error ''rc != len'' else snd_it)
      else snd_it)"

section \<open>Slots\<close>

lemma length_epm_action_bytes: "length (epm_action_bytes h) = 64"
  by (simp add: epm_action_bytes_def mem16_def bytes64_def)

lemma length_heap_bytes [simp]: "length (heap_bytes off n epm) = n"
  by (simp add: heap_bytes_def)

lemma heap_bytes_nth [simp]: "i < n \<Longrightarrow> heap_bytes off n epm ! i = heap epm (off + i)"
  by (simp add: heap_bytes_def)

lemma write_slot_self: "write_slot off (heap_bytes off n epm) epm = epm"
proof -
  have "(\<lambda>i. if off \<le> i \<and> i < off + n then heap_bytes off n epm ! (i - off) else heap epm i) = heap epm"
    by (rule ext) auto
  then show ?thesis by (simp add: write_slot_def)
qed

lemma write_slot_simps [simp]:
  "write_slot off l (epm\<lparr>hw := h\<rparr>) = (write_slot off l epm)\<lparr>hw := h\<rparr>"
  "write_slot off l (epm\<lparr>txBuf := b\<rparr>) = (write_slot off l epm)\<lparr>txBuf := b\<rparr>"
  "hw (write_slot off l epm) = hw epm" "txBuf (write_slot off l epm) = txBuf epm"
  "epmTemplate (write_slot off l epm) = epmTemplate epm" "a_table (write_slot off l epm) = a_table epm"
  "epmRegion (write_slot off l epm) = epmRegion epm" "nAllocated (write_slot off l epm) = nAllocated epm"
  "heap_bytes off n (epm\<lparr>hw := h\<rparr>) = heap_bytes off n epm"
  by (simp_all add: write_slot_def heap_bytes_def cong: if_cong)

lemma write_slot_heap: "heap (write_slot off l epm) i = (if off \<le> i \<and> i < off + length l then l ! (i - off) else heap epm i)"
  by (simp add: write_slot_def)

lemma memcpy_nth:
  "k + length bs \<le> length l \<Longrightarrow> i < length l \<Longrightarrow> memcpy l k bs ! i = (if k \<le> i \<and> i < k + length bs then bs ! (i - k) else l ! i)"
  by (auto simp: memcpy_def nth_append min_def)

lemma write_slot_nested:
  assumes "k + length bs \<le> length l"
  shows "write_slot (off + k) bs (write_slot off l epm) = write_slot off (memcpy l k bs) epm"
proof -
  have "length (memcpy l k bs) = length l" using assms by (rule length_memcpy)
  then have "heap (write_slot (off + k) bs (write_slot off l epm)) i = heap (write_slot off (memcpy l k bs) epm) i" for i
    using assms memcpy_nth [OF assms, of "i - off"] by (auto simp: write_slot_heap)
  then show ?thesis by (simp add: write_slot_def fun_eq_iff)
qed

lemma heap_put_slot:
  "off + length l \<le> MaxHeap \<Longrightarrow> k + length bs \<le> length l \<Longrightarrow>
   heap_put (off + k) bs (write_slot off l epm) = Inr (write_slot off (memcpy l k bs) epm)"
  by (simp add: heap_put_def write_slot_nested)

lemma heap_put_slot0:
  "off + length l \<le> MaxHeap \<Longrightarrow> length bs \<le> length l \<Longrightarrow>
   heap_put off bs (write_slot off l epm) = Inr (write_slot off (memcpy l 0 bs) epm)"
  using heap_put_slot [of off l 0 bs epm] by simp

lemma heap_puts_slot:
  "off + length l \<le> MaxHeap \<Longrightarrow> \<forall>(k, bs) \<in> set sts. k + length bs \<le> length l \<Longrightarrow>
   heap_puts off sts (write_slot off l epm) = Inr (write_slot off (foldl (\<lambda>l (k, bs). memcpy l k bs) l sts) epm)"
proof (induction sts arbitrary: l)
  case (Cons st sts)
  obtain k bs where st: "st = (k, bs)" by fastforce
  then have "length (memcpy l k bs) = length l" using Cons.prems(2) by (simp add: length_memcpy)
  then show ?case using Cons by (simp add: st heap_put_slot)
qed simp

lemma heap_bytes_slot:
  "k + n \<le> length l \<Longrightarrow> heap_bytes (off + k) n (write_slot off l epm) = take n (drop k l)"
  by (rule nth_equalityI) (simp_all add: write_slot_heap add.assoc)

lemma heap_bytes_slot0: "n \<le> length l \<Longrightarrow> heap_bytes off n (write_slot off l epm) = take n l"
  using heap_bytes_slot [of 0 n l off epm] by simp

lemma take_heap_bytes: "m \<le> n \<Longrightarrow> take m (heap_bytes off n epm) = heap_bytes off m epm"
  by (rule nth_equalityI) simp_all

lemma heap_from_slot:
  "k \<le> length l \<Longrightarrow> length l = min 65536 (MaxHeap - off) \<Longrightarrow>
   take (length l - k) (heap_from (off + k) (write_slot off l epm)) = drop k l"
proof -
  assume k: "k \<le> length l" and l: "length l = min 65536 (MaxHeap - off)"
  have "length l - k \<le> min 65536 (MaxHeap - (off + k))" unfolding l by linarith
  then have "take (length l - k) (heap_from (off + k) (write_slot off l epm)) = heap_bytes (off + k) (length l - k) (write_slot off l epm)"
    by (simp add: heap_from_def take_heap_bytes)
  then show ?thesis using k heap_bytes_slot [of k "length l - k" l off epm] by simp
qed

section \<open>The frame of an action\<close>

text \<open>The headers of a TCP frame, with the fields that the operations set.\<close>

definition frame_hdr :: "EkaTcpSess \<Rightarrow> u8 list \<Rightarrow> u8 list \<Rightarrow> u8 \<Rightarrow> u8 list \<Rightarrow> u8 list" where
  "frame_hdr s len ident tt ck =
     s_macDa s @ s_macSa s @ [0x08, 0x00] @ [0x45, 0x00] @ len @ ident @ [0x40, 0x00] @ [tt, EKA_PROTO_TCP] @ ck @
     bytes32 (s_srcIp s) @ bytes32 (s_dstIp s) @
     mem16 (be16toh (s_srcPort s)) @ mem16 (be16toh (s_dstPort s)) @ replicate 8 0 @ [0x50, 0x18] @ replicate 4 0 @ [0, 0]"

definition sess_ok :: "EkaTcpSess \<Rightarrow> bool" where
  "sess_ok s \<longleftrightarrow> length (s_macDa s) = 6 \<and> length (s_macSa s) = 6"

lemma length_mem16 [simp]: "length (mem16 x) = 2"
  by (simp add: mem16_def)

lemma length_frame_hdr [simp]:
  "sess_ok s \<Longrightarrow> length len = 2 \<Longrightarrow> length ident = 2 \<Longrightarrow> length ck = 2 \<Longrightarrow> length (frame_hdr s len ident tt ck) = 54"
  by (simp add: frame_hdr_def sess_ok_def)

lemma memcpy_first: "length xs \<le> length as \<Longrightarrow> memcpy (as @ bs) 0 xs = memcpy as 0 xs @ bs"
  by (simp add: memcpy_def)

lemma header_stores:
  assumes "sess_ok s" "length len = 2"
  shows "foldl (\<lambda>l (k, bs). memcpy l k bs) (replicate 54 0)
      [(0, take 6 (s_macDa s)), (6, take 6 (s_macSa s)), (12, mem16 (be16toh 0x0800)), (14, [0x45]), (20, mem16 0x0040), (22, [64]),
       (23, [EKA_PROTO_TCP]), (24, mem16 0), (18, mem16 0), (26, bytes32 (s_srcIp s)), (30, bytes32 (s_dstIp s)), (16, len),
       (34, mem16 (be16toh (s_srcPort s))), (36, mem16 (be16toh (s_dstPort s))), (46, mem16 (be16toh 0x5018)), (52, mem16 0)] =
    frame_hdr s len [0, 0] 64 [0, 0]"
proof -
  have l: "length (s_macDa s) = 6" "length (s_macSa s) = 6" using assms(1) by (simp_all add: sess_ok_def)
  have m: "mem16 (be16toh 0x0800) = [8, 0]" "mem16 (be16toh 0x5018) = [0x50, 0x18]" "mem16 0 = [0, 0]" "mem16 0x0040 = [0x40, 0]"
    by (simp_all add: mem16_def be16toh_def)
  have z: "replicate 54 (0 :: u8) = replicate 6 0 @ replicate 6 0 @ [0, 0] @ [0, 0] @ [0, 0] @ [0, 0] @ [0, 0] @ [0, 0] @ [0, 0] @
      replicate 4 0 @ replicate 4 0 @ [0, 0] @ [0, 0] @ replicate 8 0 @ [0, 0] @ replicate 4 0 @ [0, 0]"
    by (simp add: numeral_eq_Suc)
  show ?thesis
    unfolding z m frame_hdr_def by (simp add: memcpy_def l assms(2))
qed

lemma frame_hdr_stores:
  assumes "sess_ok s" "length len = 2" "length ident = 2" "length ck = 2"
  shows "length bs = 2 \<Longrightarrow> memcpy (frame_hdr s len ident tt ck) 16 bs = frame_hdr s bs ident tt ck"
    "length bs = 2 \<Longrightarrow> memcpy (frame_hdr s len ident tt ck) 18 bs = frame_hdr s len bs tt ck"
    "memcpy (frame_hdr s len ident tt ck) 22 [b] = frame_hdr s len ident b ck"
    "length bs = 2 \<Longrightarrow> memcpy (frame_hdr s len ident tt ck) 24 bs = frame_hdr s len ident tt bs"
  using assms by (simp_all add: memcpy_def frame_hdr_def sess_ok_def)

text \<open>Stores into the header leave what is behind it.\<close>

lemma frame_stores:
  assumes "sess_ok s" "length len = 2" "length ident = 2" "length ck = 2"
  shows "length bs = 2 \<Longrightarrow> memcpy (frame_hdr s len ident tt ck @ r) 16 bs = frame_hdr s bs ident tt ck @ r"
    "length bs = 2 \<Longrightarrow> memcpy (frame_hdr s len ident tt ck @ r) 18 bs = frame_hdr s len bs tt ck @ r"
    "memcpy (frame_hdr s len ident tt ck @ r) 22 [b] = frame_hdr s len ident b ck @ r"
    "length bs = 2 \<Longrightarrow> memcpy (frame_hdr s len ident tt ck @ r) 24 bs = frame_hdr s len ident tt bs @ r"
    "memcpy (frame_hdr s len ident tt ck @ r) 54 bs = frame_hdr s len ident tt ck @ memcpy r 0 bs"
  using assms by (simp_all add: memcpy_append1 memcpy_append2 frame_hdr_stores)

text \<open>A slot of the heap with all the memory behind it that a 16-bit length reaches, holding \<open>l\<close>.\<close>

definition slot_room :: "nat \<Rightarrow> u8 list \<Rightarrow> bool" where
  "slot_room off l \<longleftrightarrow> off + 1536 \<le> MaxHeap \<and> length l = min 65536 (MaxHeap - off)"

lemma slot_roomD: "slot_room off l \<Longrightarrow> off + length l \<le> MaxHeap \<and> 1536 \<le> length l"
  unfolding slot_room_def by linarith

definition ip20 :: "EkaTcpSess \<Rightarrow> u8 list \<Rightarrow> u8 list \<Rightarrow> u8 \<Rightarrow> u8 list \<Rightarrow> u8 list" where
  "ip20 s len ident tt ck = [0x45, 0x00] @ len @ ident @ [0x40, 0x00] @ [tt, EKA_PROTO_TCP] @ ck @
     bytes32 (s_srcIp s) @ bytes32 (s_dstIp s)"

lemma ip20_frame:
  "sess_ok s \<Longrightarrow> length len = 2 \<Longrightarrow> length ident = 2 \<Longrightarrow> length ck = 2 \<Longrightarrow>
   take 20 (drop 14 (frame_hdr s len ident tt ck @ r)) = ip20 s len ident tt ck \<and>
   take 20 (drop 14 (frame_hdr s len ident tt ck)) = ip20 s len ident tt ck"
  by (simp add: frame_hdr_def ip20_def sess_ok_def)

definition ttl_of :: "EpmActionType \<Rightarrow> u8 \<Rightarrow> u8" where
  "ttl_of t tt = (if marks_hw t then EFC_HW_TTL else tt)"

definition id_of :: "EpmActionType \<Rightarrow> u8 list \<Rightarrow> u8 list" where
  "id_of t ident = (if marks_hw t then mem16 EFC_HW_ID else ident)"

lemma length_id_of [simp]: "length ident = 2 \<Longrightarrow> length (id_of t ident) = 2"
  by (simp add: id_of_def)

lemma ttl_id_idem [simp]: "ttl_of t (ttl_of t tt) = ttl_of t tt" "id_of t (id_of t ident) = id_of t ident"
  by (simp_all add: ttl_of_def id_of_def)

definition ip_csum :: "EkaTcpSess \<Rightarrow> u8 list \<Rightarrow> u8 list \<Rightarrow> u8 \<Rightarrow> u8 list" where
  "ip_csum s len ident tt = mem16 (csum (ip20 s len ident tt [0, 0]))"

lemma length_ip_csum [simp]: "length (ip_csum s len ident tt) = 2"
  by (simp add: ip_csum_def)

lemma put_ip_csum_frame:
  assumes "sess_ok s" "length len = 2" "length ident = 2" "length ck = 2"
    and room: "slot_room off (frame_hdr s len ident tt ck @ r)" and off: "act_heapOffs act = off"
  shows "put_ip_csum act (write_slot off (frame_hdr s len ident tt ck @ r) epm) =
    Inr (write_slot off (frame_hdr s len ident tt (ip_csum s len ident tt) @ r) epm)"
proof -
  note lens = assms(1-3)
  have m: "mem16 0 = [0, 0]" by (simp add: mem16_def)
  have l: "length (frame_hdr s len ident tt [0, 0] @ r) = length (frame_hdr s len ident tt ck @ r)"
    using assms by simp
  note R = slot_roomD [OF room]
  have 1: "heap_put (off + 24) (mem16 0) (write_slot off (frame_hdr s len ident tt ck @ r) epm) =
      Inr (write_slot off (frame_hdr s len ident tt [0, 0] @ r) epm)"
    using R assms by (subst heap_put_slot) (simp_all add: frame_stores m)
  have 2: "heap_bytes (off + 14) 20 (write_slot off (frame_hdr s len ident tt [0, 0] @ r) epm) = ip20 s len ident tt [0, 0]"
    using assms by (subst heap_bytes_slot) (simp_all add: ip20_frame)
  have 3: "heap_put (off + 24) (ip_csum s len ident tt) (write_slot off (frame_hdr s len ident tt [0, 0] @ r) epm) =
      Inr (write_slot off (frame_hdr s len ident tt (ip_csum s len ident tt) @ r) epm)"
    using R l assms by (subst heap_put_slot) (simp_all add: frame_stores)
  show ?thesis using 1 2 3 by (simp add: put_ip_csum_def off ip_csum_def)
qed

lemma setIpTtl_frame:
  assumes "sess_ok s" "length len = 2" "length ident = 2" "length ck = 2"
    and room: "slot_room off (frame_hdr s len ident tt ck @ r)" and off: "act_heapOffs act = off"
  shows "setIpTtl act (write_slot off (frame_hdr s len ident tt ck @ r) epm) =
    Inr (write_slot off (frame_hdr s len (id_of (act_type act) ident) (ttl_of (act_type act) tt) ck @ r) epm)"
  using slot_roomD [OF room] assms
  by (simp add: setIpTtl_def off ttl_of_def id_of_def heap_puts_slot frame_stores del: heap_puts.simps)

lemma ekaPseudoTcpCsum_take:
  "unat (be16toh (ip_len h)) - 20 \<le> m \<Longrightarrow> ekaPseudoTcpCsum h (take m tcp) = ekaPseudoTcpCsum h tcp"
  by (auto simp: ekaPseudoTcpCsum_def SIZEOF_IPHDR_def Let_def min_def)

lemma slot_pseudo_csum_slot:
  assumes room: "slot_room off l" and off: "act_heapOffs act = off"
    and n: "unat (be16toh (ip_len (ip_hdr_of (take 20 (drop 14 l))))) = 20 + n" "34 + n \<le> length l"
  shows "slot_pseudo_csum act (write_slot off l epm) = ekaPseudoTcpCsum (ip_hdr_of (take 20 (drop 14 l))) (take n (drop 34 l))"
proof -
  let ?h = "ip_hdr_of (take 20 (drop 14 l))"
  have h: "heap_bytes (off + 14) 20 (write_slot off l epm) = take 20 (drop 14 l)"
    using slot_roomD [OF room] by (intro heap_bytes_slot) simp
  have f: "take (length l - 34) (heap_from (off + 34) (write_slot off l epm)) = drop 34 l"
    using slot_roomD [OF room] room by (intro heap_from_slot) (simp_all add: slot_room_def)
  have "ekaPseudoTcpCsum ?h (heap_from (off + 34) (write_slot off l epm)) = ekaPseudoTcpCsum ?h (drop 34 l)"
    using ekaPseudoTcpCsum_take [of ?h "length l - 34" "heap_from (off + 34) (write_slot off l epm)"] n unfolding f by simp
  also have "\<dots> = ekaPseudoTcpCsum ?h (take n (drop 34 l))" using ekaPseudoTcpCsum_take [of ?h n "drop 34 l"] n by simp
  finally show ?thesis by (simp add: slot_pseudo_csum_def off h)
qed

lemma be16toh_be16toh [simp]: "be16toh (be16toh x) = x"
  by (simp add: be16toh_htons)

lemma le16_mem16: "le16 (ucast x) (ucast (drop_bit 8 x)) = x"
  using unat_u16_less [of x]
  by (simp add: word_unat_eq_iff unat_le16 unat_ucast_16_8 unat_drop_bit_u16 less_mult_imp_div_less)

lemma le32_bytes32: "le32 (ucast x) (ucast (drop_bit 8 x)) (ucast (drop_bit 16 x)) (ucast (drop_bit 24 x)) = x"
proof -
  define n where "n = unat x"
  have "n = n mod 256 + 256 * (n div 256)" "n div 256 = n div 256 mod 256 + 256 * (n div 65536)"
    "n div 65536 = n div 65536 mod 256 + 256 * (n div 16777216)"
    using mod_mult_div_eq [of n 256] mod_mult_div_eq [of "n div 256" 256] mod_mult_div_eq [of "n div 65536" 256]
    by (simp_all add: div_mult2_eq [symmetric])
  then have "unat x = unat x mod 256 + 256 * (unat x div 256 mod 256) + 65536 * (unat x div 65536 mod 256) + 16777216 * (unat x div 16777216)"
    unfolding n_def by linarith
  moreover have "unat x div 16777216 < 256" using unat_u32_less [of x] by (simp add: less_mult_imp_div_less)
  ultimately show ?thesis by (simp add: word_unat_eq_iff unat_le32 unat_ucast_32_8 unat_drop_bit_u32)
qed

lemma ip_hdr_of_ip20:
  assumes "length ident = 2" "length ck = 2"
  shows "ip_len (ip_hdr_of (ip20 s (mem16 x) ident tt ck)) = x"
    "ip_src (ip_hdr_of (ip20 s (mem16 x) ident tt ck)) = s_srcIp s"
    "ip_dest (ip_hdr_of (ip20 s (mem16 x) ident tt ck)) = s_dstIp s"
proof -
  obtain i0 i1 c0 c1 where "ident = [i0, i1]" "ck = [c0, c1]"
    using assms by (auto simp: length_Suc_conv numeral_2_eq_2)
  then have e: "ip20 s (mem16 x) ident tt ck = [0x45, 0, ucast x, ucast (drop_bit 8 x), i0, i1, 0x40, 0, tt, EKA_PROTO_TCP, c0, c1,
      ucast (s_srcIp s), ucast (drop_bit 8 (s_srcIp s)), ucast (drop_bit 16 (s_srcIp s)), ucast (drop_bit 24 (s_srcIp s)),
      ucast (s_dstIp s), ucast (drop_bit 8 (s_dstIp s)), ucast (drop_bit 16 (s_dstIp s)), ucast (drop_bit 24 (s_dstIp s))]"
    by (simp add: ip20_def mem16_def bytes32_def)
  show "ip_len (ip_hdr_of (ip20 s (mem16 x) ident tt ck)) = x"
    "ip_src (ip_hdr_of (ip20 s (mem16 x) ident tt ck)) = s_srcIp s"
    "ip_dest (ip_hdr_of (ip20 s (mem16 x) ident tt ck)) = s_dstIp s"
    unfolding e by (simp_all add: ip_hdr_of_def le16_mem16 le32_bytes32)
qed

section \<open>What the operations do to a frame\<close>

definition act_ok :: "EkaEpmAction \<Rightarrow> bool" where
  "act_ok act \<longleftrightarrow> act_regionId act < Total \<and> act_idx act < nActions (region ! act_regionId act) \<and>
     act_heapOffs act = heap_base (act_regionId act) + act_idx act * actionHeapBudget (region ! act_regionId act) \<and>
     act_type act \<noteq> LAST_ACTION \<and> act_epmTemplate act \<noteq> None"

text \<open>What identifies an action and its slot.\<close>

definition same_id :: "EkaEpmAction \<Rightarrow> EkaEpmAction \<Rightarrow> bool" where
  "same_id act act' \<longleftrightarrow> act_type act' = act_type act \<and> act_idx act' = act_idx act \<and> act_regionId act' = act_regionId act \<and>
     act_heapOffs act' = act_heapOffs act \<and> act_epmTemplate act' = act_epmTemplate act"

lemma same_id_ok: "same_id act act' \<Longrightarrow> act_ok act \<Longrightarrow> act_ok act'"
  by (simp add: same_id_def act_ok_def)

lemma act_ok_bounds:
  assumes "act_ok act"
  shows "act_heapOffs act + actionHeapBudget (region ! act_regionId act) \<le> 5341184"
    "base_idx (act_regionId act) + act_idx act < 6912"
proof -
  let ?r = "act_regionId act"
  have r: "?r < Total" "act_idx act < nActions (region ! ?r)" using assms by (simp_all add: act_ok_def)
  show "act_heapOffs act + actionHeapBudget (region ! ?r) \<le> 5341184"
    using slot_in_region [OF r(2)] heap_end [OF r(1)] assms by (simp add: act_ok_def)
  show "base_idx ?r + act_idx act < 6912"
    using sum_loop_next [OF r(1), of "\<lambda>i. nActions (region ! i)"] r(2) region_values by simp
qed

lemma and_high_zero: "n < 65536 \<Longrightarrow> (of_nat n :: u32) AND 0xFFFF0000 = 0"
proof (rule bit_word_eqI)
  fix k
  assume n: "n < 65536" and k: "k < LENGTH(32)"
  have e: "(0xFFFF0000 :: u32) = push_bit 16 (mask 16)" by (simp add: mask_eq_decr_exp)
  have "take_bit 16 (of_nat n :: u32) = of_nat n"
    using n by (simp add: word_unat_eq_iff unsigned_take_bit_eq unat_of_nat take_bit_nat_eq_self_iff)
  then have "k < 16 \<or> \<not> bit (of_nat n :: u32) k" by (metis bit_take_bit_iff)
  then show "bit ((of_nat n :: u32) AND 0xFFFF0000) k = bit 0 k" unfolding e by (auto simp: bit_simps)
qed

lemma action_type_byte: "t \<noteq> LAST_ACTION \<Longrightarrow> (of_nat (EpmActionType_int t) :: u32) AND 0xFFFFFF00 = 0"
  by (cases t) simp_all

lemma setHwAction_ok:
  assumes "act_ok act"
  shows "\<exists>h ops. setHwAction (act, epm) = Inr (act\<lparr>act_hwAction := h\<rparr>, epm\<lparr>hw := hw epm @ ops\<rparr>) \<and>
    hw_tcpCSum h = act_tcpCSum act \<and> payloadSize h = ucast (act_pktSize act) \<and>
    tcpCsSizeSource h = setTcpCsSizeSource (act_type act) \<and> data_db_ptr h = of_nat (act_heapOffs act)"
proof -
  obtain t where t: "act_epmTemplate act = Some t" using assms by (auto simp: act_ok_def)
  have g: "globalIdx act = Inr (of_nat (base_idx (act_regionId act) + act_idx act))"
    using assms by (simp add: globalIdx_def act_ok_def)
  have "base_idx (act_regionId act) + act_idx act < 65536" using act_ok_bounds(2) [OF assms] by simp
  from and_high_zero [OF this] action_type_byte [of "act_type act"] assms
  obtain u where u: "hwActionUserField (of_nat (base_idx (act_regionId act) + act_idx act)) (act_type act) = Inr u"
    by (simp add: hwActionUserField_def act_ok_def)
  show ?thesis
    unfolding setHwAction_def prod.case Let_def t option.case g u obind_simps copyHwActionParams2Fpga_def append_assoc
    by (intro exI conjI, rule refl) simp_all
qed

lemma copyHeap2Fpga_ok:
  assumes "act_heapOffs act = off" "off < 5341184" "length (heap_from off epm) \<ge> 1536" "unat (act_pktSize act) \<le> 1536"
  shows "\<exists>ops. copyHeap2Fpga act epm = Inr (epm\<lparr>hw := hw epm @ ops\<rparr>)"
proof -
  obtain r where "r < Total" "in_region (int off) r" using in_region_iff [of "int off"] assms(2) by auto
  then have ch: "geWcChByOffs (int off) = Inr (wcChId (region ! r))"
    unfolding geWcChByOffs_def by (intro wc_loop_hit) auto
  have "roundUp64 (unat (act_pktSize act)) \<le> 1536" using roundUp64_mono [OF assms(4)] by (simp add: roundUp64_def)
  then show ?thesis using assms ch offs_int_small [OF assms(2)] by (simp add: copyHeap2Fpga_def epmCopyWcBuf_def Let_def) (rule exI, rule refl)
qed

lemma ip_len_small: "n \<le> 1482 \<Longrightarrow> unat (ucast (40 + of_nat n :: u32) :: u16) = 40 + n"
  by (simp add: unat_ucast_32_16 unat_plus_u32 unat_of_nat_u32)

text \<open>The pseudo sum of a frame with \<open>n\<close> bytes of payload.\<close>

definition frame_seg :: "EkaTcpSess \<Rightarrow> u8 list \<Rightarrow> u8 list" where
  "frame_seg s pl = mem16 (be16toh (s_srcPort s)) @ mem16 (be16toh (s_dstPort s)) @ replicate 8 0 @ [0x50, 0x18] @ replicate 4 0 @ [0, 0] @ pl"

definition frame_ip :: "EkaTcpSess \<Rightarrow> u32 \<Rightarrow> u8 list \<Rightarrow> u8 \<Rightarrow> u8 list" where
  "frame_ip s n ident tt = (let len = ip_len_field (40 + n) in ip20 s len ident tt (ip_csum s len ident tt))"

lemma drop34_frame:
  "sess_ok s \<Longrightarrow> length len = 2 \<Longrightarrow> length ident = 2 \<Longrightarrow> length ck = 2 \<Longrightarrow>
   drop 34 (frame_hdr s len ident tt ck @ r) = frame_seg s r"
  by (simp add: frame_hdr_def frame_seg_def sess_ok_def)

lemma frame_hdr_tcp:
  "sess_ok s \<Longrightarrow> length ident = 2 \<Longrightarrow> length len = 2 \<Longrightarrow> length ck = 2 \<Longrightarrow>
   take 16 (drop 38 (frame_hdr s len ident tt ck @ r)) = replicate 8 0 @ [0x50, 0x18] @ replicate 6 0"
proof -
  assume a: "sess_ok s" "length ident = 2" "length len = 2" "length ck = 2"
  have z: "replicate 6 (0 :: u8) = replicate 4 0 @ [0, 0]" by (simp add: eval_nat_numeral)
  have "drop 38 (frame_hdr s len ident tt ck @ r) = drop 4 (drop 34 (frame_hdr s len ident tt ck @ r))" by (simp del: drop_append)
  also have "\<dots> = (replicate 8 0 @ [0x50, 0x18] @ replicate 4 0 @ [0, 0]) @ r"
    using drop34_frame [OF a(1,3,2,4)] by (simp add: frame_seg_def)
  finally show ?thesis unfolding z by simp
qed

lemma length_frame_seg [simp]: "length (frame_seg s pl) = 20 + length pl"
  by (simp add: frame_seg_def)

lemma take_frame_seg: "take (20 + n) (frame_seg s r) = frame_seg s (take n r)"
proof -
  have a: "frame_seg s pl = frame_seg s [] @ pl" for pl by (simp add: frame_seg_def)
  have "take (20 + n) (frame_seg s [] @ r) = frame_seg s [] @ take n r" by simp
  then show ?thesis unfolding a [symmetric] .
qed

lemma slot_pseudo_csum_frame:
  assumes "sess_ok s" "length ident = 2" "unat n \<le> 1482"
    and room: "slot_room off (frame_hdr s (ip_len_field (40 + n)) ident tt (ip_csum s (ip_len_field (40 + n)) ident tt) @ r)"
    and off: "act_heapOffs act = off"
  shows "\<exists>c. slot_pseudo_csum act
      (write_slot off (frame_hdr s (ip_len_field (40 + n)) ident tt (ip_csum s (ip_len_field (40 + n)) ident tt) @ r) epm) = Inr c \<and>
    ekaPseudoTcpCsum (ip_hdr_of (frame_ip s n ident tt)) (frame_seg s (take (unat n) r)) = Inr c"
proof -
  let ?len = "ip_len_field (40 + n)" let ?ck = "ip_csum s ?len ident tt"
  let ?l = "frame_hdr s ?len ident tt ?ck @ r"
  have l2: "length ?len = 2" by (simp add: ip_len_field_def)
  have h: "take 20 (drop 14 ?l) = frame_ip s n ident tt"
    unfolding frame_ip_def Let_def by (rule ip20_frame [THEN conjunct1]) (use assms l2 in simp_all)
  have "ip_len (ip_hdr_of (frame_ip s n ident tt)) = be16toh (ucast (40 + n))"
    unfolding frame_ip_def Let_def ip_len_field_def using assms(2) by (intro ip_hdr_of_ip20(1)) simp_all
  then have n: "unat (be16toh (ip_len (ip_hdr_of (take 20 (drop 14 ?l))))) = 20 + (20 + unat n)"
    unfolding h using ip_len_small [OF assms(3)] by simp
  have L: "34 + (20 + unat n) \<le> length ?l" using slot_roomD [OF room] assms(3) by linarith
  have d: "drop 34 ?l = frame_seg s r" by (rule drop34_frame) (use assms l2 in simp_all)
  have e: "take (20 + unat n) (frame_seg s r) = frame_seg s (take (unat n) r)"
    by (rule take_frame_seg)
  have "ekaPseudoTcpCsum (ip_hdr_of (frame_ip s n ident tt)) (frame_seg s (take (unat n) r)) =
      Inr (calc_pseudo_ipHdrPart (ip_hdr_of (frame_ip s n ident tt)) + pseudo_csum_unrolled (frame_seg s (take (unat n) r)))"
  proof (rule ekaPseudoTcpCsum_segment(3))
    have "unat n \<le> length r" using L assms l2 by simp
    then show "unat (be16toh (ip_len (ip_hdr_of (frame_ip s n ident tt)))) = 20 + length (frame_seg s (take (unat n) r))"
      using n unfolding h by (simp add: min_def)
  qed
  moreover have "slot_pseudo_csum act (write_slot off ?l epm) =
      ekaPseudoTcpCsum (ip_hdr_of (frame_ip s n ident tt)) (frame_seg s (take (unat n) r))"
    using slot_pseudo_csum_slot [OF room off n L] unfolding d e h .
  ultimately show ?thesis by simp
qed

lemma length_ip_len_field [simp]: "length (ip_len_field n) = 2"
  by (simp add: ip_len_field_def)

lemma frame_ip_marks:
  "take 6 (drop 4 (frame_ip s n (id_of t [0, 0]) (ttl_of t 64))) =
     (if marks_hw t then [0xcd, 0xab, 0x40, 0x00, 0x55, 6] else [0x00, 0x00, 0x40, 0x00, 64, 6])"
  by (simp add: frame_ip_def ip20_def Let_def id_of_def ttl_of_def EFC_HW_ID_def EFC_HW_TTL_def EKA_PROTO_TCP_def mem16_def)

text \<open>Binding a session builds the headers of the frame; the memory behind them stays.\<close>

lemma setNwHdrs_frame:
  assumes "getFrameType (act_type act) = Inr Tcp" "sess_ok s" "slot_room off l" "act_heapOffs act = off" "unat (act_payloadLen act) \<le> 1482"
  shows "\<exists>c ident tt. ident = id_of (act_type act) [0, 0] \<and> tt = ttl_of (act_type act) 64 \<and>
    setNwHdrs (s_macDa s) (s_macSa s) (s_srcIp s) (s_dstIp s) (s_srcPort s) (s_dstPort s) (act, write_slot off l epm) =
      Inr (act\<lparr>act_pktSize := 54 + act_payloadLen act, act_tcpCSum := c\<rparr>,
           write_slot off (frame_hdr s (ip_len_field (40 + act_payloadLen act)) ident tt
             (ip_csum s (ip_len_field (40 + act_payloadLen act)) ident tt) @ drop 54 l) epm)"
proof -
  let ?n = "act_payloadLen act" and ?ident = "id_of (act_type act) [0, 0]" and ?tt = "ttl_of (act_type act) 64"
  let ?len = "ip_len_field (40 + ?n)" and ?r = "drop 54 l"
  note R = slot_roomD [OF assms(3)]
  have room: "slot_room off (xs @ ?r)" if "length xs = 54" for xs
  proof -
    have "length (xs @ ?r) = length l" using that R by simp
    then show ?thesis using assms(3) by (simp only: slot_room_def)
  qed
  have z: "heap_put off (replicate 54 0) (write_slot off l epm) = Inr (write_slot off (replicate 54 0 @ ?r) epm)"
    using R by (subst heap_put_slot0) (simp_all add: memcpy_def)
  let ?sts = "[(0, take 6 (s_macDa s)), (6, take 6 (s_macSa s)), (12, mem16 (be16toh 0x0800)), (14, [0x45]), (20, mem16 0x0040), (22, [64]),
       (23, [EKA_PROTO_TCP]), (24, mem16 0), (18, mem16 0), (26, bytes32 (s_srcIp s)), (30, bytes32 (s_dstIp s)), (16, ?len),
       (34, mem16 (be16toh (s_srcPort s))), (36, mem16 (be16toh (s_dstPort s))), (46, mem16 (be16toh 0x5018)), (52, mem16 0)]"
  have fold: "\<forall>(k, bs) \<in> set sts. k + length bs \<le> length xs \<Longrightarrow>
      foldl (\<lambda>l (k, bs). memcpy l k bs) (xs @ ?r) sts = foldl (\<lambda>l (k, bs). memcpy l k bs) xs sts @ ?r" for sts xs
    by (induction sts arbitrary: xs) (auto simp: memcpy_append1 length_memcpy)
  have small: "\<forall>(k, bs) \<in> set ?sts. k + length bs \<le> length (replicate 54 (0 :: u8))" using assms(2) by (simp add: sess_ok_def)
  have h: "foldl (\<lambda>l (k, bs). memcpy l k bs) (replicate 54 0 @ ?r) ?sts = frame_hdr s ?len [0, 0] 64 [0, 0] @ ?r"
    unfolding fold [OF small] by (subst header_stores) (use assms(2) in simp_all)
  have small': "\<forall>(k, bs) \<in> set ?sts. k + length bs \<le> length (replicate 54 0 @ ?r)" using small by force
  have "off + length (replicate 54 0 @ ?r) \<le> MaxHeap" using R by simp
  from heap_puts_slot [OF this small', of epm]
  have p: "heap_puts off ?sts (write_slot off (replicate 54 0 @ ?r) epm) = Inr (write_slot off (frame_hdr s ?len [0, 0] 64 [0, 0] @ ?r) epm)"
    unfolding h .
  have t: "setIpTtl act (write_slot off (frame_hdr s ?len [0, 0] 64 [0, 0] @ ?r) epm) =
      Inr (write_slot off (frame_hdr s ?len ?ident ?tt [0, 0] @ ?r) epm)"
    using assms(2,4) by (intro setIpTtl_frame room) simp_all
  have c: "put_ip_csum act (write_slot off (frame_hdr s ?len ?ident ?tt [0, 0] @ ?r) epm) =
      Inr (write_slot off (frame_hdr s ?len ?ident ?tt (ip_csum s ?len ?ident ?tt) @ ?r) epm)"
    using assms(2,4) by (intro put_ip_csum_frame room) simp_all
  obtain cs where s: "slot_pseudo_csum (act\<lparr>act_pktSize := 54 + ?n\<rparr>)
      (write_slot off (frame_hdr s ?len ?ident ?tt (ip_csum s ?len ?ident ?tt) @ ?r) epm) = Inr cs"
    using slot_pseudo_csum_frame [OF assms(2) _ assms(5) room, of ?ident ?tt "act\<lparr>act_pktSize := 54 + ?n\<rparr>" epm] assms(2,4) by auto
  show ?thesis
    using z p t c s by (intro exI [of _ cs] exI [of _ ?ident] exI [of _ ?tt] conjI refl) (simp add: setNwHdrs_def Let_def assms(1,4))
qed

definition cleared :: "EpmTemplateField list \<Rightarrow> nat \<Rightarrow> u8 list \<Rightarrow> u8 list" where
  "cleared fs k bs = map (\<lambda>i. if k + i \<in> set (clear_positions fs 0) then 0 else bs ! i) [0..<length bs]"

lemma length_cleared [simp]: "length (cleared fs k bs) = length bs"
  by (simp add: cleared_def)

lemma cleared_append: "cleared fs k (xs @ ys) = cleared fs k xs @ cleared fs (k + length xs) ys"
  by (rule nth_equalityI) (auto simp: cleared_def nth_append add.assoc)

lemma cleared_outside: "\<forall>i \<in> set (clear_positions fs 0). i < k \<or> k + length bs \<le> i \<Longrightarrow> cleared fs k bs = bs"
  by (rule nth_equalityI) (auto simp: cleared_def)

lemma cleared_zeros: "cleared fs k (replicate n 0) = replicate n 0"
  by (rule nth_equalityI) (auto simp: cleared_def)

lemma tcp_clear_positions:
  assumes "fs \<in> set tcp_tables" "i \<in> set (clear_positions fs 0)"
  shows "38 \<le> i \<and> i < 46 \<or> 48 \<le> i \<and> i < 52 \<or> 54 \<le> i"
proof -
  obtain gs where fs: "fs = nw_hdr_fields @ tcp_hdr_fields @ gs" using tcp_tables_shape [OF assms(1)] by blast
  have t: "set (clear_positions tcp_hdr_fields 34) = {38..<46} \<union> {48..<52}"
    by (auto simp: tcp_hdr_fields_def)
  show ?thesis using assms(2) t clear_positions_ge [of i gs 54] by (auto simp: fs)
qed

lemma cleared_frame:
  assumes "fs \<in> set tcp_tables" "sess_ok s" "length len = 2" "length ident = 2" "length ck = 2"
  shows "cleared fs 0 (frame_hdr s len ident tt ck) = frame_hdr s len ident tt ck"
proof -
  obtain A where A: "length A = 38" and f: "frame_hdr s len ident tt ck = A @ replicate 8 0 @ [0x50, 0x18] @ replicate 4 0 @ [0, 0]"
  proof
    let ?A = "s_macDa s @ s_macSa s @ [0x08, 0x00] @ [0x45, 0x00] @ len @ ident @ [0x40, 0x00] @ [tt, EKA_PROTO_TCP] @ ck @
      bytes32 (s_srcIp s) @ bytes32 (s_dstIp s) @ mem16 (be16toh (s_srcPort s)) @ mem16 (be16toh (s_dstPort s))"
    show "length ?A = 38" using assms by (simp add: sess_ok_def)
    show "frame_hdr s len ident tt ck = ?A @ replicate 8 0 @ [0x50, 0x18] @ replicate 4 0 @ [0, 0]" by (simp add: frame_hdr_def)
  qed
  note P = tcp_clear_positions [OF assms(1)]
  have out: "cleared fs 0 A = A" "cleared fs 46 [0x50, 0x18] = [0x50, 0x18]" "cleared fs 52 [0, 0] = [0, 0]"
    by (rule cleared_outside; use P A in fastforce)+
  have "cleared fs 0 (A @ replicate 8 0 @ [0x50, 0x18] @ replicate 4 0 @ [0, 0]) =
      cleared fs 0 A @ cleared fs 38 (replicate 8 0) @ cleared fs 46 [0x50, 0x18] @ cleared fs 48 (replicate 4 0) @ cleared fs 52 [0, 0]"
    by (simp only: cleared_append A length_replicate list.size) simp
  then show ?thesis unfolding f by (simp only: out cleared_zeros)
qed

lemma heap_from_slot0: "slot_room off l \<Longrightarrow> heap_from off (write_slot off l epm) = l"
  using heap_from_slot [of 0 l off epm] by (simp add: slot_room_def heap_from_def)

lemma clear_slot_slot:
  assumes "slot_room off l" "act_heapOffs act = off" "act_epmTemplate act = Some t" "templateStruct t = fs"
    "\<forall>i \<in> set (clear_positions fs 0). i < length l"
  shows "clear_slot act (write_slot off l epm) = Inr (write_slot off (cleared fs 0 l) epm)"
proof -
  have "clearHwFields t l = Inr (cleared fs 0 l)"
    using clearHwFields_eq [of t l] assms(4,5) by (simp add: cleared_def)
  moreover have "heap_put off (cleared fs 0 l) (write_slot off l epm) = Inr (write_slot off (cleared fs 0 l) epm)"
    using slot_roomD [OF assms(1)] by (subst heap_put_slot0) (simp_all add: memcpy_def)
  ultimately show ?thesis using assms(2,3) heap_from_slot0 [OF assms(1)] by (simp add: clear_slot_def)
qed

lemma cleared_payload_frame:
  assumes "fs \<in> set tcp_tables" "sess_ok s" "length len = 2" "length ident = 2" "length ck = 2"
    "\<forall>i \<in> set (clear_positions fs 0). i < 54 + length buf"
  shows "cleared fs 0 (frame_hdr s len ident tt ck @ buf @ rest) = frame_hdr s len ident tt ck @ cleared fs 54 buf @ rest"
proof -
  have "cleared fs (54 + length buf) rest = rest" using assms(6) by (intro cleared_outside) auto
  then show ?thesis using cleared_frame [OF assms(1-5)] assms by (simp add: cleared_append)
qed

lemma setPayload_frame:
  assumes ok: "act_ok act" and f: "getFrameType (act_type act) = Inr Tcp" and t: "act_epmTemplate act = Some t"
    and fs: "templateStruct t = fs" "fs \<in> set tcp_tables" and s: "sess_ok s"
    and room: "slot_room off (frame_hdr s len ident tt ck @ r)" and off: "act_heapOffs act = off" "off < 5341184"
    and lens: "length len = 2" "length ident = 2" "length ck = 2"
    and marks: "id_of (act_type act) ident = ident" "ttl_of (act_type act) tt = tt"
    and buf: "length buf \<le> unat (getByteSize t)" "length buf \<le> 1482"
    and clr: "\<forall>i \<in> set (clear_positions fs 0). i < 54 + length buf"
  shows "\<exists>act' ops len'. len' = ip_len_field (40 + of_nat (length buf)) \<and>
    setPayload buf (act, write_slot off (frame_hdr s len ident tt ck @ r) epm) =
      Inr (act', (write_slot off (frame_hdr s len' ident tt (ip_csum s len' ident tt) @ cleared fs 54 buf @ drop (length buf) r) epm)
        \<lparr>hw := hw epm @ ops\<rparr>) \<and>
    act_pktSize act' = of_nat (54 + length buf) \<and> same_id act act' \<and>
    ekaPseudoTcpCsum (ip_hdr_of (frame_ip s (of_nat (length buf)) ident tt)) (frame_seg s (cleared fs 54 buf)) = Inr (act_tcpCSum act')"
proof -
  let ?n = "of_nat (length buf) :: u32" let ?len = "ip_len_field (40 + ?n)" let ?ck = "ip_csum s ?len ident tt"
  let ?rest = "drop (length buf) r"
  have n: "unat ?n = length buf" using buf(2) by (simp add: unat_of_nat_u32)
  have R: "off + (54 + length r) \<le> MaxHeap" "1536 \<le> 54 + length r"
    using slot_roomD [OF room] s lens by simp_all
  have room': "slot_room off (frame_hdr s a ident tt b @ buf' @ ?rest)" if "length a = 2" "length b = 2" "length buf' = length buf" for a b buf'
  proof -
    have "length (frame_hdr s a ident tt b @ buf' @ ?rest) = length (frame_hdr s len ident tt ck @ r)" using that R s lens buf by simp
    then show ?thesis using room by (simp only: slot_room_def)
  qed
  define act1 where "act1 = act\<lparr>act_payloadLen := ?n, act_pktSize := 54 + ?n\<rparr>"
  have a1: "act_type act1 = act_type act" "act_heapOffs act1 = off" "act_epmTemplate act1 = Some t" "act_payloadLen act1 = ?n"
    using t off by (simp_all add: act1_def)
  have udp: "\<not> isUdpAction (act_type act)" using f by (auto simp: isUdpAction_def getFrameType_def)
  have 1: "heap_put (off + 54) buf (write_slot off (frame_hdr s len ident tt ck @ r) epm) =
      Inr (write_slot off (frame_hdr s len ident tt ck @ buf @ ?rest) epm)"
    using R buf s lens by (subst heap_put_slot) (simp_all add: frame_stores, simp add: memcpy_def)
  have 2: "heap_put (off + 16) ?len (write_slot off (frame_hdr s len ident tt ck @ buf @ ?rest) epm) =
      Inr (write_slot off (frame_hdr s ?len ident tt ck @ buf @ ?rest) epm)"
    using R buf s lens by (subst heap_put_slot) (simp_all add: frame_stores)
  have 3: "put_ip_csum act1 (write_slot off (frame_hdr s ?len ident tt ck @ buf @ ?rest) epm) =
      Inr (write_slot off (frame_hdr s ?len ident tt ?ck @ buf @ ?rest) epm)"
    using s lens a1 by (intro put_ip_csum_frame room') simp_all
  have 4: "clear_slot act1 (write_slot off (frame_hdr s ?len ident tt ?ck @ buf @ ?rest) epm) =
      Inr (write_slot off (frame_hdr s ?len ident tt ?ck @ cleared fs 54 buf @ ?rest) epm)"
  proof -
    have "\<forall>i \<in> set (clear_positions fs 0). i < length (frame_hdr s ?len ident tt ?ck @ buf @ ?rest)"
      using clr R s lens by auto
    from clear_slot_slot [OF room' a1(2,3) fs(1) this, of epm] show ?thesis
      unfolding cleared_payload_frame [OF fs(2) s length_ip_len_field lens(2) length_ip_csum clr] by simp
  qed
  have 5: "setIpTtl act1 (write_slot off (frame_hdr s ?len ident tt ?ck @ cleared fs 54 buf @ ?rest) epm) =
      Inr (write_slot off (frame_hdr s ?len ident tt ?ck @ cleared fs 54 buf @ ?rest) epm)"
    using setIpTtl_frame [OF s _ lens(2) _ room' a1(2), of ?len ?ck "cleared fs 54 buf" epm] marks a1(1) by simp
  obtain c where 6: "slot_pseudo_csum act1 (write_slot off (frame_hdr s ?len ident tt ?ck @ cleared fs 54 buf @ ?rest) epm) = Inr c"
    and c: "ekaPseudoTcpCsum (ip_hdr_of (frame_ip s ?n ident tt)) (frame_seg s (cleared fs 54 buf)) = Inr c"
    using slot_pseudo_csum_frame [OF s lens(2) _ room' a1(2), of ?n "cleared fs 54 buf" epm] buf(2) by (auto simp: n)
  let ?epm = "write_slot off (frame_hdr s ?len ident tt ?ck @ cleared fs 54 buf @ ?rest) epm"
  have ok1: "act_ok (act1\<lparr>act_tcpCSum := c\<rparr>)" using ok by (simp add: act_ok_def act1_def)
  obtain h ops where 7: "setHwAction (act1\<lparr>act_tcpCSum := c\<rparr>, ?epm) =
      Inr (act1\<lparr>act_tcpCSum := c, act_hwAction := h\<rparr>, ?epm\<lparr>hw := hw ?epm @ ops\<rparr>)"
    using setHwAction_ok [OF ok1, of ?epm] by auto
  let ?act = "act1\<lparr>act_tcpCSum := c, act_hwAction := h\<rparr>"
  have "heap_from off (?epm\<lparr>hw := hw ?epm @ ops\<rparr>) = frame_hdr s ?len ident tt ?ck @ cleared fs 54 buf @ ?rest"
    using heap_from_slot0 [OF room', of ?len ?ck "cleared fs 54 buf" epm] by (simp add: heap_from_def)
  moreover have "unat (act_pktSize ?act) \<le> 1536" using buf(2) by (simp add: act1_def unat_plus_u32 n)
  ultimately obtain ops' where 8: "copyHeap2Fpga ?act (?epm\<lparr>hw := hw ?epm @ ops\<rparr>) =
      Inr (?epm\<lparr>hw := hw ?epm @ ops @ ops'\<rparr>)"
    using copyHeap2Fpga_ok [of ?act off "?epm\<lparr>hw := hw ?epm @ ops\<rparr>"] R s lens buf off(2) a1(2) by auto
  have u: "updatePayload (act1, write_slot off (frame_hdr s len ident tt ck @ buf @ ?rest) epm) = Inr (?act, ?epm\<lparr>hw := hw ?epm @ ops @ ops'\<rparr>)"
    unfolding updatePayload_def using 2 3 4 5 6 7 8 f udp a1 by (simp add: getL3L4len_def Let_def)
  have "setPayload buf (act, write_slot off (frame_hdr s len ident tt ck @ r) epm) = Inr (?act, ?epm\<lparr>hw := hw ?epm @ ops @ ops'\<rparr>)"
    using 1 u f t off buf n by (simp add: setPayload_def getPayloadOffset_def Let_def act1_def)
  then show ?thesis
    using c by (intro exI [of _ ?act] exI [of _ "ops @ ops'"] exI [of _ ?len]) (simp add: act1_def same_id_def)
qed

lemma frame_ip_chksum:
  assumes "length ident = 2"
  shows "inet_chksum a (frame_ip s n ident tt) = 0"
proof -
  let ?len = "ip_len_field (40 + n)"
  define c where "c = csum (ip20 s ?len ident tt [0, 0])"
  have l: "length ?len = 2" by simp
  have i: "ip20 s ?len ident tt ck = ([0x45, 0x00] @ ?len @ ident @ [0x40, 0x00] @ [tt, EKA_PROTO_TCP]) @ ck @
      (bytes32 (s_srcIp s) @ bytes32 (s_dstIp s))" for ck
    by (simp add: ip20_def)
  have "c = inet_chksum 0 (ip20 s ?len ident tt [0, 0])"
    unfolding c_def by (rule csum_inet_chksum) (simp add: ip20_def assms)
  then have "inet_chksum a (ip20 s ?len ident tt (mem16 c)) = 0"
    unfolding i mem16_def by (intro chksum_field_verifies) (simp_all add: assms)
  then show ?thesis by (simp add: frame_ip_def Let_def ip_csum_def c_def)
qed

lemma frame_ip_hdr:
  assumes "length ident = 2"
  shows "ip_len (ip_hdr_of (frame_ip s n ident tt)) = be16toh (ucast (40 + n))"
    "ip_src (ip_hdr_of (frame_ip s n ident tt)) = s_srcIp s" "ip_dest (ip_hdr_of (frame_ip s n ident tt)) = s_dstIp s"
  using assms by (simp_all add: frame_ip_def Let_def ip_len_field_def ip_hdr_of_ip20)

lemma cleared_frame_csum:
  assumes fs: "fs \<in> set tcp_tables" and t: "new_template tid fs = Inr t" "templateStruct t = fs"
    and s: "sess_ok s" and id: "length ident = 2" and buf: "length buf \<le> 1482"
    and clr: "\<forall>i \<in> set (clear_positions fs 0). i < 54 + length buf" and regs: "regs 18 = 0" "regs 19 = 0"
    and c: "ekaPseudoTcpCsum (ip_hdr_of (frame_ip s (of_nat (length buf)) ident tt)) (frame_seg s (cleared fs 54 buf)) = Inr c"
    and hdr: "H = frame_hdr s len ident tt (ip_csum s len ident tt)" "length len = 2"
  shows "foldPseudoCsum (c + of_nat (fpga_csum t regs)) =
    inet_chksum_pseudo [(a, drop 34 (fpga_packet t regs (H @ cleared fs 54 buf)))] EKA_PROTO_TCP (of_nat (20 + length buf)) (s_srcIp s) (s_dstIp s)"
proof -
  let ?h = "ip_hdr_of (frame_ip s (of_nat (length buf)) ident tt)"
  have lH: "length H = 54" using s id hdr by simp
  have cl: "clearHwFields t (H @ buf) = Inr (H @ cleared fs 54 buf)"
    using clearHwFields_eq [of t "H @ buf"] clr lH t(2)
      cleared_payload_frame [OF fs s hdr(2) id _ clr, of "ip_csum s len ident tt" tt "[]"]
    unfolding hdr(1) by (simp add: cleared_def [of fs 0])
  have "unat (of_nat (length buf) :: u32) = length buf" using buf by (simp add: unat_of_nat_u32)
  then have len: "unat (be16toh (ip_len ?h)) = length (H @ buf) - 14"
    using ip_len_small [OF buf] lH frame_ip_hdr(1) [OF id] by simp
  have d: "drop 34 (H @ cleared fs 54 buf) = frame_seg s (cleared fs 54 buf)"
    unfolding hdr(1) by (rule drop34_frame) (use s id hdr in simp_all)
  from fpga_checksum [OF fs t(1) cl _ _ regs _ len, of a] show ?thesis
    using lH buf clr c unfolding d by (simp add: frame_ip_hdr [OF id])
qed

text \<open>Binding to a session and setting a payload, as one store of the frame.\<close>

lemma bind_setPayload:
  assumes "act_ok act" and "getFrameType (act_type act) = Inr Tcp" and "act_epmTemplate act = Some t"
    and "fs \<in> set tcp_tables" and st: "templateStruct t = fs" and "sess_ok s"
    and "unat (act_payloadLen act) \<le> 1482" and "length buf \<le> unat (getByteSize t)" and "length buf \<le> 1482"
    and "\<forall>i \<in> set (clear_positions fs 0). i < 54 + length buf"
  shows "\<exists>act' ops ident tt len. length ident = 2 \<and> len = ip_len_field (40 + of_nat (length buf)) \<and>
    ident = id_of (act_type act) [0, 0] \<and> tt = ttl_of (act_type act) 64 \<and>
    obind (setTcpSess (Some s) (act, epm)) (setPayload buf) =
      Inr (act', (write_slot (act_heapOffs act) (frame_hdr s len ident tt (ip_csum s len ident tt) @ cleared fs 54 buf) epm)\<lparr>hw := hw epm @ ops\<rparr>) \<and>
    act_pktSize act' = of_nat (54 + length buf) \<and> same_id act act' \<and>
    ekaPseudoTcpCsum (ip_hdr_of (frame_ip s (of_nat (length buf)) ident tt)) (frame_seg s (cleared fs 54 buf)) = Inr (act_tcpCSum act')"
proof -
  define off where "off = act_heapOffs act"
  define l where "l = heap_from off epm"
  have "0 < actionHeapBudget (region ! act_regionId act)" using assms(1) budget_pos [of "act_regionId act"] by (simp add: act_ok_def)
  then have o: "off < 5341184" using act_ok_bounds(1) [OF assms(1)] by (simp add: off_def)
  have room: "slot_room off l" using o by (simp add: slot_room_def l_def heap_from_def MaxHeap_def)
  have e: "write_slot off l epm = epm" unfolding l_def heap_from_def by (rule write_slot_self)
  define act1 where "act1 = act\<lparr>act_tcpSess := Some s, act_coreId := s_coreId s, act_sessId := s_sessId s\<rparr>"
  have a1: "act_type act1 = act_type act" "act_heapOffs act1 = off" "act_payloadLen act1 = act_payloadLen act" "act_epmTemplate act1 = Some t"
    using assms(3) by (simp_all add: act1_def off_def)
  define ident tt where "ident = id_of (act_type act) [0, 0]" and "tt = ttl_of (act_type act) 64"
  have id: "length ident = 2" by (simp add: ident_def)
  let ?len = "ip_len_field (40 + act_payloadLen act)" let ?l = "frame_hdr s ?len ident tt (ip_csum s ?len ident tt) @ drop 54 l"
  obtain c where nw: "setNwHdrs (s_macDa s) (s_macSa s) (s_srcIp s) (s_dstIp s) (s_srcPort s) (s_dstPort s) (act1, epm) =
      Inr (act1\<lparr>act_pktSize := 54 + act_payloadLen act, act_tcpCSum := c\<rparr>, write_slot off ?l epm)"
    using setNwHdrs_frame [OF _ assms(6) room a1(2), of epm] assms(2,7) unfolding e a1 ident_def tt_def by auto
  let ?act2 = "act1\<lparr>act_pktSize := 54 + act_payloadLen act, act_tcpCSum := c\<rparr>"
  have ok2: "act_ok ?act2" using assms(1) by (simp add: act_ok_def act1_def)
  obtain h ops where hw: "setHwAction (?act2, write_slot off ?l epm) =
      Inr (?act2\<lparr>act_hwAction := h\<rparr>, (write_slot off ?l epm)\<lparr>hw := hw (write_slot off ?l epm) @ ops\<rparr>)"
    using setHwAction_ok [OF ok2] by blast
  define act3 epm3 where "act3 = ?act2\<lparr>act_hwAction := h\<rparr>" and "epm3 = epm\<lparr>hw := hw epm @ ops\<rparr>"
  have bind: "setTcpSess (Some s) (act, epm) = Inr (act3, write_slot off ?l epm3)"
    using nw hw by (simp add: setTcpSess_def Let_def act1_def act3_def epm3_def)
  have a3: "act_ok act3" "act_type act3 = act_type act" "act_epmTemplate act3 = Some t" "act_heapOffs act3 = off"
    using ok2 a1 by (simp_all add: act3_def act_ok_def)
  have "length ?l = length l" using slot_roomD [OF room] assms(6) id by simp
  then have room3: "slot_room off ?l" using room by (simp only: slot_room_def)
  have type: "getFrameType (act_type act3) = Inr Tcp" using assms(2) a3(2) by simp
  have marks: "id_of (act_type act3) ident = ident" "ttl_of (act_type act3) tt = tt"
    by (simp_all only: a3(2) ident_def tt_def ttl_id_idem)
  let ?len' = "ip_len_field (40 + of_nat (length buf))" let ?H = "frame_hdr s ?len' ident tt (ip_csum s ?len' ident tt)"
  obtain act' ops' where p: "setPayload buf (act3, write_slot off ?l epm3) =
      Inr (act', (write_slot off (?H @ cleared fs 54 buf @ drop (length buf) (drop 54 l)) epm3)\<lparr>hw := hw epm3 @ ops'\<rparr>)"
    and size: "act_pktSize act' = of_nat (54 + length buf)" and same_id: "same_id act3 act'"
    and cs: "ekaPseudoTcpCsum (ip_hdr_of (frame_ip s (of_nat (length buf)) ident tt)) (frame_seg s (cleared fs 54 buf)) = Inr (act_tcpCSum act')"
    using setPayload_frame [OF a3(1) type a3(3) st assms(4,6) room3 a3(4) o _ id _ marks assms(8-10), of epm3] by auto
  let ?fr = "?H @ cleared fs 54 buf"
  have ws: "write_slot off (?H @ cleared fs 54 buf @ drop (length buf) (drop 54 l)) epm3 = write_slot off ?fr epm3"
  proof -
    let ?f' = "?fr @ drop (54 + length buf) l"
    have lH: "length ?H = 54" using assms(6) id by simp
    have n: "length buf + 54 \<le> length l" using slot_roomD [OF room] assms(9) by simp
    have "heap (write_slot off ?f' epm3) i = heap (write_slot off ?fr epm3) i" for i
    proof (cases "off + (54 + length buf) \<le> i \<and> i < off + length l")
      case True
      moreover have "length l = min 65536 (MaxHeap - off)" by (simp add: l_def heap_from_def)
      ultimately have "i - off < min 65536 (MaxHeap - off)" by linarith
      then have "l ! (i - off) = heap epm3 i" using True by (simp add: l_def heap_from_def epm3_def)
      then show ?thesis using True n lH by (auto simp: write_slot_heap nth_append add.commute)
    qed (use lH n in \<open>auto simp: write_slot_heap nth_append\<close>)
    then show ?thesis by (simp add: write_slot_def fun_eq_iff add.commute)
  qed
  have p: "setPayload buf (act3, write_slot off ?l epm3) = Inr (act', (write_slot off ?fr epm)\<lparr>hw := hw epm @ ops @ ops'\<rparr>)"
    unfolding p ws by (simp add: epm3_def)
  have "obind (setTcpSess (Some s) (act, epm)) (setPayload buf) = Inr (act', (write_slot off ?fr epm)\<lparr>hw := hw epm @ ops @ ops'\<rparr>)"
    unfolding bind obind_simps p ..
  moreover have "same_id act act'" using same_id by (simp add: same_id_def act3_def act1_def)
  ultimately show ?thesis
    using size cs id ident_def tt_def unfolding off_def
    by blast
qed


definition demo_action :: EkaEpmAction where
  "demo_action = \<lparr>act_type = TcpFastPath, act_idx = 0, act_regionId = 0, act_coreId = 0, act_sessId = 0, act_productIdx = 0,
     act_epmTemplate = Some fp_template, act_hwAction = emptyAction,
     act_epmActionLocalCopy = \<lparr>la_token = 0, la_nextAction = 0, la_enable = 0, la_postLocalMask = 0, la_postStratMask = 0, la_actionFlags = 1\<rparr>,
     act_actionBitParams = emptyBitmap, act_heapOffs = 0, act_payloadLen = 0, act_pktSize = 0, act_tcpCSum = 0, act_tcpSess = None, act_udpSess = None\<rparr>"

definition demo_epm :: EkaEpm where
  "demo_epm = \<lparr>heap = (\<lambda>i. 7), epmRegion = (\<lambda>i. True), epmTemplate = (\<lambda>i. Some fp_template), a_table = (\<lambda>i. None), nAllocated = 256,
     hw = [], txBuf = False\<rparr>"

definition demo_sess :: EkaTcpSess where
  "demo_sess = \<lparr>s_coreId = 0, s_sessId = 3, s_macDa = [2, 0, 0, 0, 0, 1], s_macSa = [2, 0, 0, 0, 0, 2], s_srcIp = 0x0100000a,
     s_dstIp = 0x0200000a, s_srcPort = 4000, s_dstPort = 5000\<rparr>"

lemma demo_action_ok: "act_ok demo_action"
  by (simp add: act_ok_def demo_action_def region_def Total_def NumEfcActions_def)

lemma demo_template:
  shows "new_template 0 EpmFastPathTemplate = Inr fp_template" and "unat (getByteSize fp_template) = 1482"
proof -
  have "csum_table_ok EpmFastPathTemplate" using tcp_tables_ok by (simp add: tcp_tables_def)
  then have fits: "table_fits EpmFastPathTemplate" "length EpmFastPathTemplate \<le> 512" by (simp_all add: csum_table_ok_def)
  obtain t where t: "new_template 0 EpmFastPathTemplate = Inr t" "byteSize t = total_size EpmFastPathTemplate"
    using new_template_filled [OF fits, of 0] by blast
  then have e: "fp_template = t" by (simp add: fp_template_def)
  then show "new_template 0 EpmFastPathTemplate = Inr fp_template" using t(1) by simp
  have "total_size EpmFastPathTemplate = 1536"
    by (simp add: EpmFastPathTemplate_def hdr_facts EpmMaxRawTcpSize_def)
  then show "unat (getByteSize fp_template) = 1482" using t(2) e by (simp add: getByteSize_def)
qed


section \<open>Creation\<close>

text \<open>The template of the types that can be created.\<close>

fun type_template :: "EpmActionType \<Rightarrow> TemplateId option" where
  "type_template TcpFastPath = Some T_TcpFastPath"
| "type_template TcpFullPkt = Some T_Raw"
| "type_template TcpEmptyAck = Some T_TcpFastPath"
| "type_template Igmp = Some T_Raw"
| "type_template SqfFire = Some T_SqfHwFire"
| "type_template SqfCancel = Some T_SqfSwCancel"
| "type_template EurFire = Some T_EurEtiFire"
| "type_template EurSwSend = Some T_EurEtiSwSend"
| "type_template MoexFireNew = Some T_MoexFireNew"
| "type_template MoexFireReplace = Some T_MoexFireReplace"
| "type_template BoeFire = Some T_BoeQuoteUpdateShort"
| "type_template BoeCancel = Some T_BoeCancel"
| "type_template CmeHwCancel = Some T_CmeHwCancel"
| "type_template ItchHwFastSweep = Some T_Raw"
| "type_template CmeSwFire = Some T_CmeSwFire"
| "type_template CmeSwHeartbeat = Some T_CmeSwHb"
| "type_template QEDHwPurge = Some T_QedHwFire"
| "type_template t = None"

lemma setTemplate_eq:
  "type_template (act_type act) = Some T \<Longrightarrow> epmTemplate epm T = Some tm \<Longrightarrow>
   setTemplate act epm = Inr (act\<lparr>act_epmTemplate := Some tm\<rparr>)"
  by (cases "act_type act") (auto simp: setTemplate_def)

lemma setTemplate_fails:
  "act_epmTemplate act = None \<Longrightarrow> (\<forall>T. type_template (act_type act) = Some T \<longrightarrow> epmTemplate epm T = None) \<Longrightarrow>
   act_type act \<noteq> MoexSwSend \<Longrightarrow> \<exists>m. setTemplate act epm = on_error m"
  by (cases "act_type act") (auto simp: setTemplate_def on_error_def)

lemma setActionBitmap_eq:
  "type_template (act_type act) \<noteq> None \<Longrightarrow> \<exists>b. setActionBitmap act = Inr (act\<lparr>act_actionBitParams := b\<rparr>)"
  by (cases "act_type act"; simp only: setActionBitmap_def Let_def EpmActionType.case sum.inject type_template.simps; blast)

lemma getPayloadOffset_type:
  "t \<noteq> INVALID \<Longrightarrow> \<exists>po. getPayloadOffset t = Inr po \<and> 34 \<le> po \<and> po \<le> 54"
  by (cases t) (simp_all add: getPayloadOffset_def getFrameType_def)

definition same_outside :: "nat \<Rightarrow> nat \<Rightarrow> EkaEpm \<Rightarrow> EkaEpm \<Rightarrow> bool" where
  "same_outside lo hi epm epm' \<longleftrightarrow> (\<forall>i. i < lo \<or> hi \<le> i \<longrightarrow> heap epm' i = heap epm i) \<and> epmRegion epm' = epmRegion epm \<and>
     epmTemplate epm' = epmTemplate epm \<and> a_table epm' = a_table epm \<and> nAllocated epm' = nAllocated epm"

lemma same_outside_refl [simp]: "same_outside lo hi epm epm"
  by (simp add: same_outside_def)

lemma same_outside_trans [trans]:
  "same_outside lo hi epm epm' \<Longrightarrow> same_outside lo hi epm' epm'' \<Longrightarrow> same_outside lo hi epm epm''"
  by (simp add: same_outside_def)

lemma same_outside_hw [simp]: "same_outside lo hi epm (epm'\<lparr>hw := h\<rparr>) = same_outside lo hi epm epm'"
  by (simp add: same_outside_def)

lemma same_outside_mono: "same_outside lo hi epm epm' \<Longrightarrow> lo' \<le> lo \<Longrightarrow> hi \<le> hi' \<Longrightarrow> same_outside lo' hi' epm epm'"
  by (auto simp: same_outside_def)

lemma heap_put_ok:
  "p + length bs \<le> MaxHeap \<Longrightarrow> lo \<le> p \<Longrightarrow> p + length bs \<le> hi \<Longrightarrow>
   \<exists>epm'. heap_put p bs epm = Inr epm' \<and> same_outside lo hi epm epm' \<and> hw epm' = hw epm"
  by (auto simp: heap_put_def same_outside_def write_slot_heap)

lemma setIpTtl_ok:
  assumes "act_heapOffs act = off" "off + 23 \<le> MaxHeap" "off + 23 \<le> hi"
  shows "\<exists>epm'. setIpTtl act epm = Inr epm' \<and> same_outside off hi epm epm' \<and> hw epm' = hw epm"
proof (cases "marks_hw (act_type act)")
  case True
  obtain e1 where 1: "heap_put (off + 22) [EFC_HW_TTL] epm = Inr e1" "same_outside off hi epm e1" "hw e1 = hw epm"
    using heap_put_ok [of "off + 22" "[EFC_HW_TTL]" off hi epm] assms by auto
  obtain e2 where 2: "heap_put (off + 18) (mem16 EFC_HW_ID) e1 = Inr e2" "same_outside off hi e1 e2" "hw e2 = hw e1"
    using heap_put_ok [of "off + 18" "mem16 EFC_HW_ID" off hi e1] assms by auto
  have "same_outside off hi epm e2" using 1(2) 2(2) by (rule same_outside_trans)
  then show ?thesis using True 1 2 assms(1) by (simp add: setIpTtl_def)
qed (simp add: setIpTtl_def)

lemma new_action_ok:
  assumes r: "r < Total" "a < nActions (region ! r)" and t: "type_template t = Some T" "epmTemplate epm T = Some tm"
  shows "\<exists>act epm'. new_action t a r epm = Inr (act, epm') \<and> act_ok act \<and> act_type act = t \<and> act_idx act = a \<and> act_regionId act = r \<and>
    act_epmTemplate act = Some tm \<and> act_payloadLen act = 0 \<and>
    same_outside (act_heapOffs act) (act_heapOffs act + actionHeapBudget (region ! r)) epm epm'"
proof -
  let ?off = "heap_base r + a * actionHeapBudget (region ! r)"
  let ?hi = "?off + actionHeapBudget (region ! r)"
  have offs: "getActionHeapOffs (int r) (int a) = Inr ?off"
    using action_offs [of r "int a"] r by simp
  have b: "?hi \<le> 5341184" "64 \<le> actionHeapBudget (region ! r)"
    using slot_in_region [OF r(2)] heap_end [OF r(1)] budget_pos [OF r(1)] by simp_all
  obtain po where po: "getPayloadOffset t = Inr po" "34 \<le> po" "po \<le> 54"
    using getPayloadOffset_type [of t] t(1) by (cases t) auto
  obtain e1 where e1: "heap_put ?off (replicate po 0) epm = Inr e1" "same_outside ?off ?hi epm e1"
    using heap_put_ok [of ?off "replicate po 0" ?off ?hi epm] b po by (auto simp: MaxHeap_def)
  define act0 where "act0 = \<lparr>act_type = t, act_idx = a, act_regionId = r, act_coreId = - 1, act_sessId = - 1, act_productIdx = - 1,
           act_epmTemplate = None, act_hwAction = emptyAction,
           act_epmActionLocalCopy = initEpmActionLocalCopy \<lparr>la_token = 0, la_nextAction = 0, la_enable = 0, la_postLocalMask = 0,
             la_postStratMask = 0, la_actionFlags = 0\<rparr>,
           act_actionBitParams = emptyBitmap, act_heapOffs = ?off, act_payloadLen = 0, act_pktSize = 0, act_tcpCSum = 0, act_tcpSess = None, act_udpSess = None\<rparr>"
  let ?act1 = "act0\<lparr>act_epmTemplate := Some tm\<rparr>"
  have t0: "act_type act0 = t" by (simp add: act0_def)
  have 1: "setTemplate act0 e1 = Inr ?act1"
    using setTemplate_eq [of act0 T e1 tm] t e1(2) by (simp add: t0 same_outside_def)
  obtain bm where 2: "setActionBitmap ?act1 = Inr (?act1\<lparr>act_actionBitParams := bm\<rparr>)"
    using setActionBitmap_eq [of ?act1] t(1) t0 by auto
  let ?act2 = "?act1\<lparr>act_actionBitParams := bm\<rparr>"
  have ok: "act_ok ?act2" using r t(1) by (auto simp: act_ok_def act0_def)
  obtain h ops where 3: "setHwAction (?act2, e1) = Inr (?act2\<lparr>act_hwAction := h\<rparr>, e1\<lparr>hw := hw e1 @ ops\<rparr>)"
    using setHwAction_ok [OF ok] by blast
  let ?act = "?act2\<lparr>act_hwAction := h\<rparr>"
  obtain e2 where 4: "setIpTtl ?act (e1\<lparr>hw := hw e1 @ ops\<rparr>) = Inr e2" "same_outside ?off ?hi (e1\<lparr>hw := hw e1 @ ops\<rparr>) e2"
    using setIpTtl_ok [of ?act ?off ?hi "e1\<lparr>hw := hw e1 @ ops\<rparr>"] b by (auto simp: act0_def MaxHeap_def)
  have s: "same_outside ?off ?hi epm e2"
    using e1(2) 4(2) by (simp add: same_outside_def)
  have "new_action t a r epm = Inr (?act, e2)"
    unfolding new_action_def offs obind_simps po(1) e1(1) act0_def [symmetric] Let_def 1 2 3 prod.case 4(1) ..
  moreover have "act_ok ?act" using ok by (simp add: act_ok_def)
  ultimately show ?thesis using s by (intro exI [of _ ?act] exI [of _ e2]) (simp add: act0_def)
qed

lemma new_action_template:
  assumes "new_action t a r epm = Inr x"
  shows "\<exists>T tm. type_template t = Some T \<and> epmTemplate epm T = Some tm"
proof -
  from assms obtain act0 :: EkaEpmAction and epm1 act1 act2 where act0: "act_type act0 = t" "act_epmTemplate act0 = None"
    and e1: "epmTemplate epm1 = epmTemplate epm" and 1: "setTemplate act0 epm1 = Inr act1" and 2: "setActionBitmap act1 = Inr act2"
  proof (unfold new_action_def Let_def obind_Inr_iff, elim exE conjE)
    fix offs po e act1 act2
    assume p: "heap_put offs (replicate po 0) epm = Inr e" and s: "setTemplate \<lparr>act_type = t, act_idx = a, act_regionId = r, act_coreId = - 1, act_sessId = - 1, act_productIdx = - 1,
           act_epmTemplate = None, act_hwAction = emptyAction,
           act_epmActionLocalCopy = initEpmActionLocalCopy \<lparr>la_token = 0, la_nextAction = 0, la_enable = 0, la_postLocalMask = 0,
             la_postStratMask = 0, la_actionFlags = 0\<rparr>,
           act_actionBitParams = emptyBitmap, act_heapOffs = offs, act_payloadLen = 0, act_pktSize = 0, act_tcpCSum = 0, act_tcpSess = None, act_udpSess = None\<rparr> e = Inr act1"
      "setActionBitmap act1 = Inr act2"
    have "epmTemplate e = epmTemplate epm" using p by (auto simp: heap_put_def split: if_splits)
    from that [OF _ _ this s] show thesis by simp
  qed
  have "act_type act1 = t" using 1 act0 by (auto simp: setTemplate_def obind_Inr_iff on_error_def split: if_splits)
  then have "t \<noteq> MoexSwSend" using 2 by (auto simp: setActionBitmap_def Let_def on_error_def)
  then show ?thesis using setTemplate_fails [of act0 epm1] 1 act0 e1 by (fastforce simp: on_error_def)
qed

end
