(* ===== verification/EkaEpm.thy ===== *)
theory EkaEpm
  imports EkaEpmAction
begin

text \<open>
  The packet manager, class \<open>EkaEpm\<close> of \<open>src/src/EkaEpm.h\<close> and \<open>EkaEpm.cpp\<close>: the regions of the heap, the templates in the
  FPGA and the table \<open>a_\<close> of the actions. An action lives in its table entry; a pointer to it is the index of the entry.
  The mutexes make each operation one step.
\<close>

section \<open>Model\<close>

definition HeapPage :: nat where "HeapPage = 4 * 1024"
definition EPM_REGIONS :: nat where "EPM_REGIONS = 32"
definition P4Reserved :: nat where "P4Reserved = 64 * 4"
definition TotalEpmActions :: nat where "TotalEpmActions = getTotalActions"

definition strategyEnableAddr :: "int \<Rightarrow> nat" where
  "strategyEnableAddr i = nat (0x85000 + i * 8)"

definition eka_write :: "nat \<Rightarrow> u64 \<Rightarrow> EkaEpm \<Rightarrow> EkaEpm" where
  "eka_write addr v epm = epm\<lparr>hw := hw epm @ [RegWrite addr v]\<rparr>"

text \<open>The constructor of a region, in \<open>EkaEpmRegion.h\<close>.\<close>

definition new_region :: "int \<Rightarrow> EkaEpm \<Rightarrow> EkaEpm outcome" where
  "new_region i epm = obind (getBaseActionIdx i) (\<lambda>base. Inr (eka_write (nat (0x82000 + 8 * i)) (of_nat base) epm))"

definition init_page :: "int \<Rightarrow> nat \<Rightarrow> EkaEpm \<Rightarrow> EkaEpm outcome" where
  "init_page regionId pageStart epm =
     obind (epmCopyWcBuf pageStart (heap_from pageStart epm) 1024 0 (of_int regionId)) (\<lambda>ops. Inr (epm\<lparr>hw := hw epm @ ops\<rparr>))"

fun init_pages :: "int \<Rightarrow> nat \<Rightarrow> nat list \<Rightarrow> EkaEpm \<Rightarrow> EkaEpm outcome" where
  "init_pages regionId base [] epm = Inr epm"
| "init_pages regionId base (i # is) epm = obind (init_page regionId (base + i * 1024) epm) (init_pages regionId base is)"

definition initHeap :: "int \<Rightarrow> u8 \<Rightarrow> EkaEpm \<Rightarrow> EkaEpm outcome" where
  "initHeap regionId payloadByte epm =
     obind (getHeapSize regionId) (\<lambda>regionHeapSize.
     obind (getBaseHeapOffs regionId) (\<lambda>base.
       if regionHeapSize mod HeapPage \<noteq> 0 then on_error ''regionHeapSize is not multiple of HeapPage''
       else obind (heap_put base (replicate regionHeapSize payloadByte) epm)
         (init_pages regionId base [0..<regionHeapSize div 1024])))"

fun reset_actions :: "nat \<Rightarrow> nat list \<Rightarrow> EkaEpm \<Rightarrow> EkaEpm" where
  "reset_actions base [] epm = epm"
| "reset_actions base (i # is) epm = reset_actions base is (copyHwActionParams2Fpga emptyAction (of_nat (base + i)) epm)"

definition createRegion :: "int \<Rightarrow> EkaEpm \<Rightarrow> EkaEpm outcome" where
  "createRegion regionId epm =
     (if regionId < 0 \<or> regionId \<ge> int EPM_REGIONS then Inl InvalidAccess
      else if epmRegion epm (nat regionId) then on_error ''epmRegion already created''
      else obind (new_region regionId (epm\<lparr>epmRegion := (epmRegion epm)(nat regionId := True)\<rparr>)) (\<lambda>epm.
        let epm = eka_write (strategyEnableAddr regionId) ALWAYS_ENABLE epm in
        obind (getMaxActions regionId) (\<lambda>n.
        obind (getBaseActionIdx regionId) (\<lambda>base.
        initHeap regionId 0 (reset_actions base [0..<n] epm)))))"

definition tcpcs_template_bytes :: "EpmTemplate \<Rightarrow> u8 list" where
  "tcpcs_template_bytes t = concat (map mem16 (low_rows t)) @ concat (map mem16 (high_rows t))"

definition DownloadSingleTemplate2HW :: "EpmTemplate option \<Rightarrow> EkaEpm \<Rightarrow> EkaEpm outcome" where
  "DownloadSingleTemplate2HW templ epm =
     (case templ of None \<Rightarrow> on_error ''!t''
      | Some t \<Rightarrow> Inr (epm\<lparr>hw := hw epm @ copyBuf2Hw_swap4 (getDataTemplateAddr t) (t_data t) @
                        copyBuf2Hw (getCsumTemplateAddr t) (tcpcs_template_bytes t)\<rparr>))"

primrec TemplateId_int :: "TemplateId \<Rightarrow> nat" where
  "TemplateId_int T_TcpFastPath = 0"
| "TemplateId_int T_Raw = 1"
| "TemplateId_int T_EurEtiFire = 2"
| "TemplateId_int T_EurEtiSwSend = 3"
| "TemplateId_int T_MoexFireNew = 4"
| "TemplateId_int T_MoexFireReplace = 5"
| "TemplateId_int T_MoexSwSend = 6"
| "TemplateId_int T_BoeQuoteUpdateShort = 7"
| "TemplateId_int T_BoeCancel = 8"
| "TemplateId_int T_SqfHwFire = 9"
| "TemplateId_int T_SqfSwCancel = 10"
| "TemplateId_int T_CmeHwCancel = 11"
| "TemplateId_int T_CmeSwFire = 12"
| "TemplateId_int T_CmeSwHb = 13"
| "TemplateId_int T_QedHwFire = 14"

definition install_template :: "TemplateId \<Rightarrow> EpmTemplateField list \<Rightarrow> EkaEpm \<Rightarrow> EkaEpm outcome" where
  "install_template i fs epm =
     obind (new_template (of_nat (TemplateId_int i)) fs) (\<lambda>t.
       DownloadSingleTemplate2HW (Some t) (epm\<lparr>epmTemplate := (epmTemplate epm)(i := Some t)\<rparr>))"

definition InitDefaultTemplates :: "EkaEpm \<Rightarrow> EkaEpm outcome" where
  "InitDefaultTemplates epm =
     obind (install_template T_TcpFastPath EpmFastPathTemplate epm) (install_template T_Raw EpmRawPktTemplate)"

definition actionParamsSanityCheck :: "EpmActionType \<Rightarrow> int \<Rightarrow> 'a outcome \<Rightarrow> 'a outcome" where
  "actionParamsSanityCheck t regionId rest =
     (if regionId \<ge> int Total then on_error ''Wrong regionId''
      else if t = UserAction then rest
      else if (t = TcpFullPkt \<or> t = TcpFastPath) \<and> regionId \<noteq> int TcpTxFullPkt then on_error ''regionId doesnt match actionType''
      else if t = TcpEmptyAck \<and> regionId \<noteq> int TcpTxEmptyAck then on_error ''regionId doesnt match actionType''
      else rest)"

text \<open>The result is the index of the new entry.\<close>

definition addAction :: "EpmActionType \<Rightarrow> nat \<Rightarrow> int \<Rightarrow> EkaEpm \<Rightarrow> (nat \<times> EkaEpm) outcome" where
  "addAction t localIdx regionId epm =
     (if regionId < 0 \<or> regionId \<ge> int EPM_REGIONS then Inl InvalidAccess
      else if \<not> epmRegion epm (nat regionId) then on_error ''!epmRegion''
      else actionParamsSanityCheck t regionId
        (sanityCheckActionId regionId (int localIdx)
        (obind (getBaseActionIdx regionId) (\<lambda>base.
           let gi = base + localIdx in
           if gi \<ge> TotalEpmActions then Inl InvalidAccess
           else if a_table epm gi \<noteq> None then on_error ''a_ is already set''
           else obind (new_action t localIdx (nat regionId) epm) (\<lambda>(act, epm).
             Inr (gi, epm\<lparr>a_table := (a_table epm)(gi := Some act)\<rparr>))))))"

definition deleteAction :: "nat \<Rightarrow> int \<Rightarrow> EkaEpm \<Rightarrow> EkaEpm outcome" where
  "deleteAction localIdx regionId epm =
     obind (getBaseActionIdx regionId) (\<lambda>base.
       let gi = base + localIdx in
       if gi \<ge> TotalEpmActions then Inl InvalidAccess
       else Inr (if a_table epm gi \<noteq> None then epm\<lparr>a_table := (a_table epm)(gi := None)\<rparr> else epm))"

text \<open>\<open>addAction\<close> returns the entry that it has set, so that storing it again changes nothing.\<close>

definition allocateAction :: "EpmActionType \<Rightarrow> EkaEpm \<Rightarrow> (nat \<times> EkaEpm) outcome" where
  "allocateAction t epm =
     obind (getMaxActions (int Efc)) (\<lambda>m.
       if nAllocated epm = m then on_error ''Out of free actions''
       else let gi = nAllocated epm in
         obind (getBaseActionIdx (int Efc)) (\<lambda>base.
         obind (addAction t (gi - base) (int Efc) epm) (\<lambda>(added, epm).
         Inr (gi, epm\<lparr>a_table := (a_table epm)(gi := a_table epm added), nAllocated := nAllocated epm + 1\<rparr>))))"

text \<open>A call of an operation of an action through its entry.\<close>

definition on_action :: "nat \<Rightarrow> (EkaEpmAction \<times> EkaEpm \<Rightarrow> (EkaEpmAction \<times> EkaEpm) outcome) \<Rightarrow> EkaEpm \<Rightarrow> EkaEpm outcome" where
  "on_action gi f epm =
     (case a_table epm gi of None \<Rightarrow> Inl InvalidAccess
      | Some act \<Rightarrow> obind (f (act, epm)) (\<lambda>(act, epm). Inr (epm\<lparr>a_table := (a_table epm)(gi := Some act)\<rparr>)))"

section \<open>Operations of an action keep the tables\<close>

definition same_tables :: "EkaEpm \<Rightarrow> EkaEpm \<Rightarrow> bool" where
  "same_tables epm epm' \<longleftrightarrow> epmRegion epm' = epmRegion epm \<and> epmTemplate epm' = epmTemplate epm \<and> a_table epm' = a_table epm \<and>
     nAllocated epm' = nAllocated epm"

lemma same_tables_simps [simp]:
  "same_tables epm epm" "same_tables epm (epm'\<lparr>hw := h\<rparr>) = same_tables epm epm'" "same_tables epm (epm'\<lparr>txBuf := b\<rparr>) = same_tables epm epm'"
  "same_tables epm (write_slot off l epm') = same_tables epm epm'"
  "same_tables (epm\<lparr>hw := h\<rparr>) epm' = same_tables epm epm'"
  by (simp_all add: same_tables_def)

lemma same_tables_trans: "same_tables epm epm' \<Longrightarrow> same_tables epm' epm'' \<Longrightarrow> same_tables epm epm''"
  by (simp add: same_tables_def)

lemma heap_put_tables: "heap_put p bs epm = Inr epm' \<Longrightarrow> same_tables epm epm'"
  by (auto simp: heap_put_def split: if_splits)

lemma heap_puts_tables: "heap_puts p sts epm = Inr epm' \<Longrightarrow> same_tables epm epm'"
proof (induction sts arbitrary: epm)
  case (Cons st sts)
  then show ?case by (cases st) (auto simp: obind_Inr_iff dest!: heap_put_tables intro: same_tables_trans)
qed simp

lemma stores_tables:
  "setIpTtl act epm = Inr epm' \<Longrightarrow> same_tables epm epm'"
  "put_ip_csum act epm = Inr epm' \<Longrightarrow> same_tables epm epm'"
  "clear_slot act epm = Inr epm' \<Longrightarrow> same_tables epm epm'"
  "copyHeap2Fpga act epm = Inr epm' \<Longrightarrow> same_tables epm epm'"
  "copyHeap2FpgaAndSend act epm = Inr epm' \<Longrightarrow> same_tables epm epm'"
  by (auto simp: setIpTtl_def put_ip_csum_def clear_slot_def copyHeap2Fpga_def copyHeap2FpgaAndSend_def obind_Inr_iff
      simp del: heap_puts.simps split: if_splits option.splits dest!: heap_put_tables heap_puts_tables intro: same_tables_trans)

lemmas tables_dest = heap_put_tables heap_puts_tables stores_tables

text \<open>The contract of the operations of an action: they change neither the action's identity nor the tables.\<close>

locale action_op =
  fixes f :: "EkaEpmAction \<times> EkaEpm \<Rightarrow> (EkaEpmAction \<times> EkaEpm) outcome"
  assumes keeps: "f (act, epm) = Inr (act', epm') \<Longrightarrow> same_id act act' \<and> same_tables epm epm'"
begin

lemma on_action_tables:
  assumes "on_action gi f epm = Inr epm'"
  shows "\<exists>act act'. a_table epm gi = Some act \<and> same_id act act' \<and> a_table epm' = (a_table epm)(gi := Some act') \<and>
    epmRegion epm' = epmRegion epm \<and> epmTemplate epm' = epmTemplate epm \<and> nAllocated epm' = nAllocated epm"
  using assms keeps
  by (fastforce simp: on_action_def obind_Inr_iff same_tables_def split: option.splits)

end

lemma action_op_comp: "action_op f \<Longrightarrow> action_op g \<Longrightarrow> action_op (\<lambda>s. obind (f s) g)"
proof
  fix act epm act' epm'
  assume f: "action_op f" and g: "action_op g" and r: "obind (f (act, epm)) g = Inr (act', epm')"
  then obtain s where "f (act, epm) = Inr s" "g s = Inr (act', epm')" by (auto simp: obind_Inr_iff)
  then show "same_id act act' \<and> same_tables epm epm'"
    using action_op.keeps [OF f, of act epm "fst s" "snd s"] action_op.keeps [OF g, of "fst s" "snd s"]
    by (auto simp: same_id_def same_tables_def)
qed

interpretation hw_op: action_op setHwAction
  by unfold_locales (auto simp: setHwAction_def obind_Inr_iff Let_def copyHwActionParams2Fpga_def same_id_def split: option.splits)

interpretation core_op: action_op "setCoreId c"
  by unfold_locales (auto simp: setCoreId_def dest!: hw_op.keeps simp: same_id_def)

interpretation udp_sess_op: action_op "setUdpSess sess"
  by unfold_locales (auto simp: setUdpSess_def dest!: hw_op.keeps simp: same_id_def)

interpretation next_op: action_op "setNextAction n"
  by unfold_locales (auto simp: setNextAction_def dest!: hw_op.keeps simp: same_id_def)

interpretation nw_op: action_op "setNwHdrs macDa macSa srcIp dstIp srcPort dstPort"
  by unfold_locales
    (auto simp: setNwHdrs_def Let_def obind_Inr_iff same_id_def simp del: heap_puts.simps dest!: tables_dest intro: same_tables_trans)

interpretation mc_op: action_op "setUdpMcNwHdrs macSa srcIp dstIp srcPort dstPort n"
  by unfold_locales
    (auto simp: setUdpMcNwHdrs_def Let_def obind_Inr_iff same_id_def simp del: heap_puts.simps dest!: tables_dest simp: same_tables_def)

interpretation sess_op: action_op "setTcpSess sess"
proof
  fix act epm act' epm'
  assume "setTcpSess sess (act, epm) = Inr (act', epm')"
  then obtain ts where "sess = Some ts" and "obind (setNwHdrs (s_macDa ts) (s_macSa ts) (s_srcIp ts) (s_dstIp ts) (s_srcPort ts) (s_dstPort ts)
       (act\<lparr>act_tcpSess := sess, act_coreId := s_coreId ts, act_sessId := s_sessId ts\<rparr>, epm)) setHwAction = Inr (act', epm')"
    by (auto simp: setTcpSess_def Let_def on_error_def split: option.splits)
  then show "same_id act act' \<and> same_tables epm epm'"
    by (auto simp: obind_Inr_iff same_id_def same_tables_def dest!: nw_op.keeps hw_op.keeps)
qed

interpretation update_op: action_op updatePayload
  by unfold_locales
    (auto simp: updatePayload_def Let_def obind_Inr_iff same_id_def split: if_splits dest!: tables_dest hw_op.keeps simp: same_tables_def)

interpretation payload_op: action_op "setPayload buf"
  by unfold_locales
    (fastforce simp: setPayload_def Let_def obind_Inr_iff same_id_def on_error_def split: if_splits option.splits
      dest!: heap_put_tables update_op.keeps simp: same_tables_def)

interpretation preload_op: action_op "preloadFullPkt buf"
  by unfold_locales
    (auto simp: preloadFullPkt_def Let_def obind_Inr_iff same_id_def copyHwActionParams2Fpga_def dest!: tables_dest simp: same_tables_def)

interpretation full_op: action_op "sendFullPkt buf"
  by unfold_locales (auto simp: sendFullPkt_def Let_def obind_Inr_iff same_id_def dest!: tables_dest simp: same_tables_def)

interpretation wc_op: action_op "setPktPayloadAndSendWC buf"
  by unfold_locales
    (auto simp: setPktPayloadAndSendWC_def Let_def obind_Inr_iff same_id_def dest!: tables_dest simp: same_tables_def)

interpretation udp_op: action_op "setUdpPktPayload buf"
  by unfold_locales
    (auto simp: setUdpPktPayload_def Let_def obind_Inr_iff same_id_def dest!: tables_dest simp: same_tables_def)

section \<open>The table of actions\<close>

text \<open>Every entry is the action of its index, in its region and slot.\<close>

definition table_ok :: "EkaEpm \<Rightarrow> bool" where
  "table_ok epm \<longleftrightarrow> (\<forall>gi act. a_table epm gi = Some act \<longrightarrow> act_ok act \<and> gi = base_idx (act_regionId act) + act_idx act \<and>
     epmRegion epm (act_regionId act))"

lemma table_okD:
  "table_ok epm \<Longrightarrow> a_table epm gi = Some act \<Longrightarrow>
   act_ok act \<and> gi = base_idx (act_regionId act) + act_idx act \<and> epmRegion epm (act_regionId act)"
  by (simp add: table_ok_def)

context action_op
begin

lemma on_action_ok:
  assumes "on_action gi f epm = Inr epm'" "table_ok epm"
  shows "table_ok epm'"
  using on_action_tables [OF assms(1)] assms(2) same_id_ok by (fastforce simp: table_ok_def same_id_def)

end

text \<open>Different entries have different slots.\<close>

definition slot_hi :: "EkaEpmAction \<Rightarrow> nat" where
  "slot_hi act = act_heapOffs act + actionHeapBudget (region ! act_regionId act)"

lemma table_slots:
  assumes "table_ok epm" "a_table epm gi = Some act" "a_table epm gj = Some act'" "gi \<noteq> gj"
  shows "slot_hi act \<le> act_heapOffs act' \<or> slot_hi act' \<le> act_heapOffs act"
proof -
  note A = table_okD [OF assms(1,2)] table_okD [OF assms(1,3)]
  then have "(act_regionId act, act_idx act) \<noteq> (act_regionId act', act_idx act')" using assms(4) by auto
  then show ?thesis
    using slots_apart [of "act_regionId act" "act_idx act" "act_regionId act'" "act_idx act'"] A
    by (simp add: act_ok_def slot_hi_def)
qed

lemma new_action_tables: "same_outside lo hi epm epm' \<Longrightarrow> same_tables epm epm'"
  by (simp add: same_outside_def same_tables_def)

lemma params_pass: "actionParamsSanityCheck t r rest = Inr x \<Longrightarrow> rest = Inr x"
  by (auto simp: actionParamsSanityCheck_def on_error_def split: if_splits)

text \<open>What \<open>addAction\<close> returns when it returns, for an index of the region.\<close>

lemma addAction_result:
  assumes "addAction t a (int r) epm = Inr (gi, epm')" "a < nActions (region ! r)"
  shows "\<exists>act. r < Total \<and> gi = base_idx r + a \<and> gi < 6912 \<and> a_table epm gi = None \<and> epmRegion epm r \<and>
    act_ok act \<and> act_type act = t \<and> act_idx act = a \<and> act_regionId act = r \<and> act_payloadLen act = 0 \<and>
    (\<exists>T. type_template t = Some T \<and> act_epmTemplate act = epmTemplate epm T) \<and>
    a_table epm' = (a_table epm)(gi := Some act) \<and> epmRegion epm' = epmRegion epm \<and> epmTemplate epm' = epmTemplate epm \<and>
    nAllocated epm' = nAllocated epm \<and> (\<forall>i. i < act_heapOffs act \<or> slot_hi act \<le> i \<longrightarrow> heap epm' i = heap epm i)"
proof -
  have r: "r < Total" "epmRegion epm r" using assms(1) by (auto simp: addAction_def EPM_REGIONS_def Total_def on_error_def split: if_splits)
  have check: "sanityCheckActionId (int r) (int a) rest = rest" for rest :: "(nat \<times> EkaEpm) outcome"
    using r(1) assms(2) by (simp add: sanityCheckActionId_def)
  define body where "body = obind (getBaseActionIdx (int r)) (\<lambda>base.
           let gi = base + a in
           if gi \<ge> TotalEpmActions then Inl InvalidAccess
           else if a_table epm gi \<noteq> None then on_error ''a_ is already set''
           else obind (new_action t a (nat (int r)) epm) (\<lambda>(act, epm).
             Inr (gi, epm\<lparr>a_table := (a_table epm)(gi := Some act)\<rparr>)))"
  have "actionParamsSanityCheck t (int r) body = Inr (gi, epm')"
    using assms(1) r unfolding addAction_def check body_def by (simp add: EPM_REGIONS_def Total_def)
  then have "body = Inr (gi, epm')" by (rule params_pass)
  then obtain act e where gi: "gi = base_idx r + a" "gi < TotalEpmActions" "a_table epm gi = None"
    and n: "new_action t a r epm = Inr (act, e)" and e: "epm' = e\<lparr>a_table := (a_table e)(gi := Some act)\<rparr>"
    using r(1) by (auto simp: body_def on_error_def obind_Inr_iff Let_def split: if_splits)
  obtain T tm where T: "type_template t = Some T" "epmTemplate epm T = Some tm" using new_action_template [OF n] by blast
  from new_action_ok [OF r(1) assms(2) T] n have "act_ok act" "act_type act = t" "act_idx act = a" "act_regionId act = r"
      "act_payloadLen act = 0" "act_epmTemplate act = Some tm" "same_outside (act_heapOffs act) (slot_hi act) epm e"
    by (auto simp: slot_hi_def)
  then show ?thesis
    using r gi e T by (intro exI [of _ act]) (auto simp: same_outside_def TotalEpmActions_def getTotalActions_def region_values)
qed

lemma addAction_template:
  assumes "addAction t a (int r) epm = Inr x" "a < nActions (region ! r)"
  shows "type_template t \<noteq> None"
proof -
  have "\<exists>y. new_action t a (nat (int r)) epm = Inr y"
    using assms(1)
    by (auto simp: addAction_def on_error_def actionParamsSanityCheck_def sanityCheckActionId_def obind_Inr_iff Let_def split: if_splits)
  then show ?thesis using new_action_template by fastforce
qed

lemma addAction_ok:
  assumes "r < Total" "a < nActions (region ! r)" "epmRegion epm r" "a_table epm (base_idx r + a) = None"
    and "type_template t = Some T" "epmTemplate epm T = Some tm"
    and "t = TcpFullPkt \<or> t = TcpFastPath \<Longrightarrow> r = TcpTxFullPkt" "t = TcpEmptyAck \<Longrightarrow> r = TcpTxEmptyAck"
  shows "\<exists>epm'. addAction t a (int r) epm = Inr (base_idx r + a, epm')"
proof -
  obtain act e where n: "new_action t a r epm = Inr (act, e)" using new_action_ok [OF assms(1,2,5,6)] by blast
  have "base_idx r + a < TotalEpmActions"
    using sum_loop_next [OF assms(1), of "\<lambda>i. nActions (region ! i)"] assms(2) by (simp add: TotalEpmActions_def getTotalActions_def)
  then show ?thesis
    using assms n by (auto simp: addAction_def EPM_REGIONS_def Total_def actionParamsSanityCheck_def sanityCheckActionId_def Let_def)
qed

lemma add_table_ok:
  "addAction t a (int r) epm = Inr (gi, epm') \<Longrightarrow> a < nActions (region ! r) \<Longrightarrow> table_ok epm \<Longrightarrow> table_ok epm'"
  by (drule (1) addAction_result) (auto simp: table_ok_def split: if_splits)

lemma delete_table_ok: "deleteAction a r epm = Inr epm' \<Longrightarrow> table_ok epm \<Longrightarrow> table_ok epm'"
  by (auto simp: deleteAction_def obind_Inr_iff Let_def table_ok_def split: if_splits)

lemma efc_values: "base_idx Efc = 0" "nActions (region ! Efc) = 2048" "Efc < Total"
  by (simp_all add: Efc_def Total_def region_def NumEfcActions_def)

lemma allocateAction_result:
  assumes "allocateAction t epm = Inr (gi, epm')" "nAllocated epm \<le> 2048"
  shows "gi = nAllocated epm \<and> gi < 2048 \<and> nAllocated epm' = gi + 1 \<and>
    (\<exists>epm1. addAction t gi (int Efc) epm = Inr (gi, epm1) \<and> epm' = epm1\<lparr>nAllocated := gi + 1\<rparr>)"
proof -
  have "nAllocated epm \<noteq> 2048" using assms(1) efc_values by (auto simp: allocateAction_def on_error_def)
  then obtain added e where a: "addAction t (nAllocated epm) (int Efc) epm = Inr (added, e)" and gi: "gi = nAllocated epm"
    and e: "epm' = e\<lparr>a_table := (a_table e)(gi := a_table e added), nAllocated := nAllocated e + 1\<rparr>"
    using assms(1) efc_values by (auto simp: allocateAction_def obind_Inr_iff Let_def)
  then have lt: "gi < 2048" using assms(2) \<open>nAllocated epm \<noteq> 2048\<close> by simp
  have R: "added = gi" "nAllocated e = gi" using addAction_result [OF a] lt gi efc_values by auto
  then have "epm' = e\<lparr>nAllocated := gi + 1\<rparr>" using e by simp
  then show ?thesis using a R lt gi by auto
qed

lemma allocate_table_ok:
  assumes "allocateAction t epm = Inr (gi, epm')" "nAllocated epm \<le> 2048" "table_ok epm"
  shows "table_ok epm'"
proof -
  note R = allocateAction_result [OF assms(1,2)]
  then obtain e where e: "addAction t gi (int Efc) epm = Inr (gi, e)" "epm' = e\<lparr>nAllocated := gi + 1\<rparr>" and g: "gi < 2048" by blast
  have "table_ok e" by (rule add_table_ok [OF e(1) _ assms(3)]) (use g efc_values in simp)
  then show ?thesis by (simp add: table_ok_def e(2))
qed

lemma init_pages_run:
  assumes "\<forall>i \<in> set is. base + i * 1024 < 5341184"
  shows "\<exists>ops. init_pages r base is epm = Inr (epm\<lparr>hw := hw epm @ ops\<rparr>) \<and>
    ops = concat (map (\<lambda>i. projr (epmCopyWcBuf (base + i * 1024) (heap_from (base + i * 1024) epm) 1024 0 (of_int r))) is)"
  using assms
proof (induction "is" arbitrary: epm)
  case (Cons i "is")
  let ?p = "base + i * 1024"
  have p: "?p < 5341184" using Cons.prems by simp
  then obtain k where "k < Total" "in_region (int ?p) k" using in_region_iff [of "int ?p"] by auto
  then have ch: "geWcChByOffs (int ?p) = Inr (wcChId (region ! k))"
    unfolding geWcChByOffs_def by (intro wc_loop_hit) auto
  have "length (heap_from ?p epm) \<ge> roundUp64 1024" using p by (simp add: heap_from_def MaxHeap_def roundUp64_def)
  then obtain ops where ops: "epmCopyWcBuf ?p (heap_from ?p epm) 1024 0 (of_int r) = Inr ops"
    using ch offs_int_small [OF p] by (auto simp: epmCopyWcBuf_def Let_def)
  have h: "heap_from q (epm\<lparr>hw := hs\<rparr>) = heap_from q epm" for q hs by (simp add: heap_from_def)
  from Cons.IH [of "epm\<lparr>hw := hw epm @ ops\<rparr>"] Cons.prems show ?case
    using ops by (simp add: init_page_def h)
qed simp

lemma epmCopyWcBuf_take:
  assumes "roundUp64 n \<le> length mem" "take (roundUp64 n) mem = take (roundUp64 n) mem'" "roundUp64 n \<le> length mem'"
  shows "epmCopyWcBuf p mem n i r = epmCopyWcBuf p mem' n i r"
  using assms by (simp add: epmCopyWcBuf_def Let_def)

text \<open>The stores to the FPGA that clear an action descriptor, and a page of the heap.\<close>

definition clear_action_ops :: "nat \<Rightarrow> hw_op list" where
  "clear_action_ops gi = copyBuf2Hw 0x89000 (epm_action_bytes emptyAction) @ atomicIndirectBufWrite 0xf0238 0 0 (of_nat gi) 0"

definition clear_page_ops :: "nat \<Rightarrow> nat \<Rightarrow> hw_op list" where
  "clear_page_ops r p = projr (epmCopyWcBuf p (replicate 1024 0) 1024 0 (of_nat r))"

lemma reset_actions_run:
  "reset_actions base is epm = epm\<lparr>hw := hw epm @ concat (map (\<lambda>i. clear_action_ops (base + i)) is)\<rparr>"
  by (induction "is" arbitrary: epm) (simp_all add: copyHwActionParams2Fpga_def clear_action_ops_def)

lemma heap_pages: "r < Total \<Longrightarrow> heap_size r mod 4096 = 0"
proof -
  have "\<forall>x \<in> set region. nActions x * actionHeapBudget x mod 4096 = 0"
    by (simp add: region_def efh_igmp_def NumEfcActions_def NumNewsActions_def NumTcpActions_def NumEfcIgmpActions_def
        NumIgmpActions_def HeapPerRegularAction_def HeapPerSmallAction_def)
  then show "r < Total \<Longrightarrow> heap_size r mod 4096 = 0" by simp
qed

lemma createRegion_run:
  assumes "r < Total" "\<not> epmRegion epm r"
  shows "createRegion (int r) epm = Inr ((write_slot (heap_base r) (replicate (heap_size r) 0) epm)
    \<lparr>epmRegion := (epmRegion epm)(r := True),
     hw := hw epm @ [RegWrite (0x82000 + 8 * r) (of_nat (base_idx r)), RegWrite (0x85000 + 8 * r) ALWAYS_ENABLE] @
       concat (map (\<lambda>i. clear_action_ops (base_idx r + i)) [0..<nActions (region ! r)]) @
       concat (map (\<lambda>i. clear_page_ops r (heap_base r + i * 1024)) [0..<heap_size r div 1024])\<rparr>)"
proof -
  let ?n = "heap_size r" and ?b = "heap_base r"
  define epm1 where "epm1 = epm\<lparr>epmRegion := (epmRegion epm)(r := True), hw := hw epm @
      [RegWrite (0x82000 + 8 * r) (of_nat (base_idx r)), RegWrite (0x85000 + 8 * r) ALWAYS_ENABLE] @
       concat (map (\<lambda>i. clear_action_ops (base_idx r + i)) [0..<nActions (region ! r)])\<rparr>"
  let ?epm2 = "write_slot ?b (replicate ?n 0) epm1"
  have e: "?b + ?n \<le> 5341184" using heap_end [OF assms(1)] by simp
  then have "?b + ?n \<le> MaxHeap" by (rule order_trans) (simp add: MaxHeap_def)
  then have "\<not> ?b + length (replicate ?n (0 :: u8)) > MaxHeap" unfolding length_replicate by (rule leD)
  then have put: "heap_put ?b (replicate ?n 0) epm1 = Inr ?epm2" unfolding heap_put_def by (rule if_not_P)
  have "4096 dvd ?n" using heap_pages [OF assms(1)] by (simp only: mod_eq_0_iff_dvd)
  moreover have "1024 dvd (4096 :: nat)" by simp
  ultimately have "1024 dvd ?n" by (rule dvd_trans [rotated])
  then have pages: "?n = 1024 * (?n div 1024)" by (rule dvd_mult_div_cancel [symmetric])
  then have in_page: "i * 1024 + 1024 \<le> ?n" if "i < ?n div 1024" for i using that by linarith
  have "clear_page_ops r (?b + i * 1024) = projr (epmCopyWcBuf (?b + i * 1024) (heap_from (?b + i * 1024) ?epm2) 1024 0 (of_nat r))"
    if i: "i < ?n div 1024" for i
  proof -
    let ?p = "?b + i * 1024"
    have r64: "roundUp64 1024 = 1024" by (simp add: roundUp64_def)
    have "1024 \<le> min 65536 (MaxHeap - ?p)" using in_page [OF i] e by (simp add: MaxHeap_def)
    moreover have "heap_bytes ?p 1024 ?epm2 = replicate 1024 0"
      using heap_bytes_slot [of "i * 1024" 1024 "replicate ?n (0 :: u8)" ?b epm1] in_page [OF i] by simp
    ultimately show ?thesis
      unfolding clear_page_ops_def by (intro arg_cong [of _ _ projr] epmCopyWcBuf_take) (simp_all add: r64 heap_from_def take_heap_bytes)
  qed
  then have "concat (map (\<lambda>i. clear_page_ops r (?b + i * 1024)) [0..<?n div 1024]) =
      concat (map (\<lambda>i. projr (epmCopyWcBuf (?b + i * 1024) (heap_from (?b + i * 1024) ?epm2) 1024 0 (of_nat r))) [0..<?n div 1024])"
    by (intro arg_cong [of _ _ concat] map_cong) simp_all
  moreover have "\<forall>i \<in> set [0..<?n div 1024]. ?b + i * 1024 < 5341184" using in_page e by fastforce
  from init_pages_run [OF this, of "int r" ?epm2]
  have "init_pages (int r) ?b [0..<?n div 1024] ?epm2 = Inr (?epm2\<lparr>hw := hw ?epm2 @
      concat (map (\<lambda>i. projr (epmCopyWcBuf (?b + i * 1024) (heap_from (?b + i * 1024) ?epm2) 1024 0 (of_nat r))) [0..<?n div 1024])\<rparr>)"
    by simp
  ultimately have "init_pages (int r) ?b [0..<?n div 1024] ?epm2 = Inr (?epm2\<lparr>hw := hw ?epm2 @
      concat (map (\<lambda>i. clear_page_ops r (?b + i * 1024)) [0..<?n div 1024])\<rparr>)" by (simp only:)
  then have init: "initHeap (int r) 0 epm1 = Inr (?epm2\<lparr>hw := hw ?epm2 @
      concat (map (\<lambda>i. clear_page_ops r (?b + i * 1024)) [0..<?n div 1024])\<rparr>)"
    using assms(1) heap_pages [OF assms(1)] put by (simp add: initHeap_def HeapPage_def)
  have "createRegion (int r) epm = initHeap (int r) 0 epm1"
    using assms by (simp add: createRegion_def EPM_REGIONS_def Total_def new_region_def eka_write_def Let_def reset_actions_run
        strategyEnableAddr_def epm1_def nat_add_distrib nat_mult_distrib mult.commute)
  then show ?thesis unfolding init by (simp add: epm1_def write_slot_def cong: if_cong)
qed

lemma createRegion_fails:
  "epmRegion epm r \<Longrightarrow> r < Total \<Longrightarrow> createRegion (int r) epm = on_error ''epmRegion already created''"
  by (simp add: createRegion_def EPM_REGIONS_def Total_def)

lemma InitDefaultTemplates_run:
  "\<exists>fp raw ops. new_template 0 EpmFastPathTemplate = Inr fp \<and> new_template 1 EpmRawPktTemplate = Inr raw \<and>
     InitDefaultTemplates epm = Inr (epm\<lparr>epmTemplate := (epmTemplate epm)(T_TcpFastPath := Some fp, T_Raw := Some raw), hw := hw epm @ ops\<rparr>)"
proof -
  have "table_fits EpmFastPathTemplate" "table_fits EpmRawPktTemplate" "length EpmFastPathTemplate \<le> 512" "length EpmRawPktTemplate \<le> 512"
    using library_tables_fit by (simp_all add: library_tables_def)
  then obtain fp raw where "new_template 0 EpmFastPathTemplate = Inr fp" "new_template 1 EpmRawPktTemplate = Inr raw"
    using new_template_filled by meson
  then show ?thesis
    by (intro exI conjI) (auto simp: InitDefaultTemplates_def install_template_def DownloadSingleTemplate2HW_def)
qed

section \<open>Reachable states\<close>

definition initial_epm :: "(nat \<Rightarrow> u8) \<Rightarrow> EkaEpm \<Rightarrow> bool" where
  "initial_epm h epm \<longleftrightarrow> heap epm = h \<and> a_table epm = (\<lambda>i. None) \<and> epmRegion epm = (\<lambda>i. False) \<and>
     epmTemplate epm = (\<lambda>i. None) \<and> nAllocated epm = P4Reserved"

text \<open>The calls that change an action through its entry.\<close>

inductive action_call :: "(EkaEpmAction \<times> EkaEpm \<Rightarrow> (EkaEpmAction \<times> EkaEpm) outcome) \<Rightarrow> bool" where
  "action_call (setCoreId c)"
| "action_call (setUdpSess us)"
| "action_call (setNextAction n)"
| "action_call (setNwHdrs macDa macSa srcIp dstIp srcPort dstPort)"
| "action_call (setUdpMcNwHdrs macSa srcIp dstIp srcPort dstPort plSize)"
| "action_call (setTcpSess sess)"
| "action_call updatePayload"
| "action_call (setPayload buf)"
| "action_call (preloadFullPkt buf)"
| "action_call (sendFullPkt buf)"
| "action_call (setPktPayloadAndSendWC buf)"
| "action_call (setUdpPktPayload buf)"

lemma action_call_op: "action_call f \<Longrightarrow> action_op f"
  by (induction rule: action_call.induct)
    (rule core_op.action_op_axioms udp_sess_op.action_op_axioms next_op.action_op_axioms nw_op.action_op_axioms mc_op.action_op_axioms sess_op.action_op_axioms
      update_op.action_op_axioms payload_op.action_op_axioms preload_op.action_op_axioms full_op.action_op_axioms
      wc_op.action_op_axioms udp_op.action_op_axioms)+

text \<open>A step of the program; indices that it gives for a region are below the number of the region's actions.\<close>

inductive epm_step :: "EkaEpm \<Rightarrow> EkaEpm \<Rightarrow> bool" where
  region: "createRegion (int r) epm = Inr epm' \<Longrightarrow> epm_step epm epm'"
| templates: "InitDefaultTemplates epm = Inr epm' \<Longrightarrow> epm_step epm epm'"
| template: "install_template i fs epm = Inr epm' \<Longrightarrow> epm_step epm epm'"
| add: "addAction t a (int r) epm = Inr (gi, epm') \<Longrightarrow> a < nActions (region ! r) \<Longrightarrow> epm_step epm epm'"
| delete: "deleteAction a (int r) epm = Inr epm' \<Longrightarrow> epm_step epm epm'"
| allocate: "allocateAction t epm = Inr (gi, epm') \<Longrightarrow> epm_step epm epm'"
| call: "action_call f \<Longrightarrow> on_action gi f epm = Inr epm' \<Longrightarrow> epm_step epm epm'"

inductive epm_reachable :: "EkaEpm \<Rightarrow> bool" where
  initial: "initial_epm h epm \<Longrightarrow> epm_reachable epm"
| step: "epm_reachable epm \<Longrightarrow> epm_step epm epm' \<Longrightarrow> epm_reachable epm'"

definition epm_inv :: "EkaEpm \<Rightarrow> bool" where
  "epm_inv epm \<longleftrightarrow> table_ok epm \<and> P4Reserved \<le> nAllocated epm \<and> nAllocated epm \<le> 2048"

lemma install_tables:
  "install_template i fs epm = Inr epm' \<Longrightarrow> a_table epm' = a_table epm \<and> epmRegion epm' = epmRegion epm \<and> nAllocated epm' = nAllocated epm"
  by (auto simp: install_template_def obind_Inr_iff DownloadSingleTemplate2HW_def)

lemma epm_step_inv: "epm_step epm epm' \<Longrightarrow> epm_inv epm \<Longrightarrow> epm_inv epm'"
proof (induction rule: epm_step.induct)
  case (region r epm epm')
  show ?case
  proof (cases "r < Total")
    case True
    then have "\<not> epmRegion epm r" using region(1) createRegion_fails [of epm r] by (auto simp: on_error_def)
    from createRegion_run [OF True this] region show ?thesis by (auto simp: epm_inv_def table_ok_def)
  next
    case False
    then show ?thesis using region(1) by (simp add: createRegion_def EPM_REGIONS_def Total_def)
  qed
next
  case (templates epm epm')
  then show ?case using InitDefaultTemplates_run [of epm] by (auto simp: epm_inv_def table_ok_def)
next
  case (template i fs epm epm')
  then show ?case using install_tables [OF template(1)] by (simp add: epm_inv_def table_ok_def)
next
  case (add t a r epm gi epm')
  then show ?case using add_table_ok [OF add(1,2)] addAction_result [OF add(1,2)] by (auto simp: epm_inv_def)
next
  case (delete a r epm epm')
  then show ?case using delete_table_ok [OF delete(1)]
    by (auto simp: epm_inv_def deleteAction_def obind_Inr_iff Let_def split: if_splits)
next
  case (allocate t epm gi epm')
  then show ?case using allocate_table_ok [OF allocate(1)] allocateAction_result [OF allocate(1)] by (auto simp: epm_inv_def)
next
  case (call f gi epm epm')
  have op: "action_op f" using call(1) by (rule action_call_op)
  from action_op.on_action_ok [OF op call(2)] action_op.on_action_tables [OF op call(2)] call(3) show ?case by (auto simp: epm_inv_def)
qed

lemma epm_reachable_inv: "epm_reachable epm \<Longrightarrow> epm_inv epm"
proof (induction rule: epm_reachable.induct)
  case (initial h epm)
  then show ?case by (simp add: initial_epm_def epm_inv_def table_ok_def P4Reserved_def)
qed (rule epm_step_inv)

section \<open>Properties\<close>

text \<open>
  C6. The table of actions stays right in every state that the packet manager can reach from its initial state by creating
  regions and templates, adding, deleting and allocating actions, and calling the operations of actions: each entry is the
  action of that global index, in a region that has been created, with the memory slot that the layout gives it; different
  entries have disjoint slots; every slot lies below the transmit buffers; and the number of allocated actions stays between the
  ones reserved for the P4 strategy and the size of the EFC region.\<close>

theorem epm_table_invariant:
  assumes "epm_reachable epm"
  shows "(\<forall>gi act. a_table epm gi = Some act \<longrightarrow>
      gi = base_idx (act_regionId act) + act_idx act \<and> gi < TotalEpmActions \<and> epmRegion epm (act_regionId act) \<and>
      getActionHeapOffs (int (act_regionId act)) (int (act_idx act)) = Inr (act_heapOffs act) \<and> slot_hi act \<le> TxBufAddr_1 \<and>
      act_epmTemplate act \<noteq> None) \<and>
    (\<forall>gi gj act act'. a_table epm gi = Some act \<and> a_table epm gj = Some act' \<and> gi \<noteq> gj \<longrightarrow>
      slot_hi act \<le> act_heapOffs act' \<or> slot_hi act' \<le> act_heapOffs act) \<and>
    P4Reserved \<le> nAllocated epm \<and> nAllocated epm \<le> 2048"
proof -
  have inv: "epm_inv epm" using assms by (rule epm_reachable_inv)
  have entry: "gi = base_idx (act_regionId act) + act_idx act \<and> gi < TotalEpmActions \<and> epmRegion epm (act_regionId act) \<and>
      getActionHeapOffs (int (act_regionId act)) (int (act_idx act)) = Inr (act_heapOffs act) \<and> slot_hi act \<le> TxBufAddr_1 \<and>
      act_epmTemplate act \<noteq> None" if "a_table epm gi = Some act" for gi act
  proof -
    have t: "act_ok act" "gi = base_idx (act_regionId act) + act_idx act" "epmRegion epm (act_regionId act)"
      using table_okD [OF _ that] inv by (simp_all add: epm_inv_def)
    then have r: "act_regionId act < Total" "act_idx act < nActions (region ! act_regionId act)" by (simp_all add: act_ok_def)
    have "5341184 \<le> TxBufAddr_1" by (simp add: TxBufAddr_1_def)
    with act_ok_bounds(1) [OF t(1)] have "slot_hi act \<le> TxBufAddr_1" unfolding slot_hi_def by (rule order_trans)
    then show ?thesis using t r act_ok_bounds(2) [OF t(1)]
      by (simp add: action_offs act_ok_def TotalEpmActions_def getTotalActions_def region_values)
  qed
  moreover have "slot_hi act \<le> act_heapOffs act' \<or> slot_hi act' \<le> act_heapOffs act"
    if "a_table epm gi = Some act \<and> a_table epm gj = Some act' \<and> gi \<noteq> gj" for gi gj act act'
    using that inv table_slots [of epm gi act gj act'] by (simp add: epm_inv_def)
  ultimately show ?thesis using inv unfolding epm_inv_def by blast
qed

text \<open>A sequence of allocations.\<close>

fun allocations :: "EpmActionType list \<Rightarrow> EkaEpm \<Rightarrow> (nat list \<times> EkaEpm) outcome" where
  "allocations [] epm = Inr ([], epm)"
| "allocations (t # ts) epm = obind (allocateAction t epm) (\<lambda>(gi, epm). obind (allocations ts epm) (\<lambda>(gs, epm). Inr (gi # gs, epm)))"

definition creatable :: "EkaEpm \<Rightarrow> EpmActionType \<Rightarrow> bool" where
  "creatable epm t \<longleftrightarrow> (\<exists>T. type_template t = Some T \<and> epmTemplate epm T \<noteq> None) \<and> t \<noteq> TcpFullPkt \<and> t \<noteq> TcpFastPath \<and> t \<noteq> TcpEmptyAck"

lemma allocateAction_ok:
  assumes "creatable epm t" "epmRegion epm Efc" "nAllocated epm < 2048" "a_table epm (nAllocated epm) = None"
  shows "\<exists>act epm'. allocateAction t epm = Inr (nAllocated epm, epm') \<and> nAllocated epm' = nAllocated epm + 1 \<and>
    act_type act = t \<and> act_idx act = nAllocated epm \<and> act_regionId act = Efc \<and>
    a_table epm' = (a_table epm)(nAllocated epm := Some act) \<and> epmRegion epm' = epmRegion epm \<and> epmTemplate epm' = epmTemplate epm"
proof -
  let ?n = "nAllocated epm"
  obtain T tm where T: "type_template t = Some T" "epmTemplate epm T = Some tm" using assms(1) by (auto simp: creatable_def)
  obtain e where e: "addAction t ?n (int Efc) epm = Inr (?n, e)"
    using addAction_ok [OF efc_values(3) _ assms(2) _ T, of ?n] assms efc_values by (auto simp: creatable_def)
  have a: "allocateAction t epm = Inr (?n, e\<lparr>a_table := (a_table e)(?n := a_table e ?n), nAllocated := nAllocated e + 1\<rparr>)"
    using e assms(3) efc_values by (simp add: allocateAction_def Let_def)
  have "?n < nActions (region ! Efc)" using assms(3) efc_values by simp
  from addAction_result [OF e this] a show ?thesis by auto
qed

lemma allocations_ok:
  assumes "\<forall>t \<in> set ts. creatable epm t" "epmRegion epm Efc" "nAllocated epm + length ts \<le> 2048"
    "\<forall>gi. nAllocated epm \<le> gi \<and> gi < 2048 \<longrightarrow> a_table epm gi = None"
  shows "\<exists>epm'. allocations ts epm = Inr ([nAllocated epm..<nAllocated epm + length ts], epm') \<and>
    nAllocated epm' = nAllocated epm + length ts \<and> epmRegion epm' = epmRegion epm \<and> epmTemplate epm' = epmTemplate epm \<and>
    (\<forall>i < length ts. \<exists>act. a_table epm' (nAllocated epm + i) = Some act \<and> act_type act = ts ! i \<and> act_idx act = nAllocated epm + i) \<and>
    (\<forall>gi. gi < nAllocated epm \<or> nAllocated epm + length ts \<le> gi \<longrightarrow> a_table epm' gi = a_table epm gi)"
  using assms
proof (induction ts arbitrary: epm)
  case (Cons t ts)
  let ?n = "nAllocated epm"
  obtain act e where e: "allocateAction t epm = Inr (?n, e)" "nAllocated e = ?n + 1" "act_type act = t" "act_idx act = ?n"
    "a_table e = (a_table epm)(?n := Some act)" "epmRegion e = epmRegion epm" "epmTemplate e = epmTemplate epm"
    using allocateAction_ok [of epm t] Cons.prems by auto
  obtain epm' where IH: "allocations ts e = Inr ([?n + 1..<?n + 1 + length ts], epm')" "nAllocated epm' = ?n + 1 + length ts"
    "epmRegion epm' = epmRegion epm" "epmTemplate epm' = epmTemplate epm"
    "\<forall>i < length ts. \<exists>act. a_table epm' (?n + 1 + i) = Some act \<and> act_type act = ts ! i \<and> act_idx act = ?n + 1 + i"
    "\<forall>gi. gi < ?n + 1 \<or> ?n + 1 + length ts \<le> gi \<longrightarrow> a_table epm' gi = a_table e gi"
    using Cons.IH [of e] Cons.prems e by (auto simp: creatable_def)
  have "\<exists>act. a_table epm' (?n + i) = Some act \<and> act_type act = (t # ts) ! i \<and> act_idx act = ?n + i" if "i < length (t # ts)" for i
    using that e IH(5,6) by (cases i) auto
  moreover have "[?n..<?n + length (t # ts)] = ?n # [?n + 1..<?n + 1 + length ts]" by (simp add: upt_conv_Cons del: upt_Suc)
  ultimately show ?case using e IH by (intro exI [of _ epm']) (auto simp del: upt_Suc)
qed simp

text \<open>
  C25. Allocating actions hands out the indices behind the reserved ones in order, and stops at the end of the region: in a state
  with the EFC region created and no action behind the allocated ones, allocating any list of types whose templates are
  loaded, that still fits the 2048 actions of the region, returns the next consecutive indices, with a new action of the
  type asked for in each of these entries and no other entry changed; the next allocation after the 2048th aborts. The types
  that have no template, among them \<open>UserAction\<close>, and \<open>MoexSwSend\<close>, which has one, cannot be allocated.\<close>

theorem allocateAction_sequence:
  assumes "epmRegion epm Efc" and "\<forall>gi. nAllocated epm \<le> gi \<and> gi < 2048 \<longrightarrow> a_table epm gi = None"
    and "\<forall>t \<in> set ts. creatable epm t" and "nAllocated epm + length ts \<le> 2048"
  shows "\<exists>epm'. allocations ts epm = Inr ([nAllocated epm..<nAllocated epm + length ts], epm') \<and>
    (\<forall>i < length ts. \<exists>act. a_table epm' (nAllocated epm + i) = Some act \<and> act_type act = ts ! i \<and> act_idx act = nAllocated epm + i) \<and>
    (\<forall>gi. gi < nAllocated epm \<or> nAllocated epm + length ts \<le> gi \<longrightarrow> a_table epm' gi = a_table epm gi) \<and>
    (nAllocated epm + length ts = 2048 \<longrightarrow> (\<forall>t. allocateAction t epm' = on_error ''Out of free actions'')) \<and>
    (\<forall>x. allocateAction MoexSwSend epm' \<noteq> Inr x \<and> allocateAction UserAction epm' \<noteq> Inr x)"
proof -
  obtain epm' where E: "allocations ts epm = Inr ([nAllocated epm..<nAllocated epm + length ts], epm')"
    "nAllocated epm' = nAllocated epm + length ts"
    "\<forall>i < length ts. \<exists>act. a_table epm' (nAllocated epm + i) = Some act \<and> act_type act = ts ! i \<and> act_idx act = nAllocated epm + i"
    "\<forall>gi. gi < nAllocated epm \<or> nAllocated epm + length ts \<le> gi \<longrightarrow> a_table epm' gi = a_table epm gi"
    using allocations_ok [of ts epm] assms by blast
  have "allocateAction t epm' \<noteq> Inr x" if "type_template t = None" for t x
  proof
    assume "allocateAction t epm' = Inr x"
    moreover obtain gi e where "x = (gi, e)" by fastforce
    ultimately have "allocateAction t epm' = Inr (gi, e)" by simp
    from allocateAction_result [OF this] E(2) assms(4) obtain e1 where "addAction t gi (int Efc) epm' = Inr (gi, e1)" "gi < 2048" by auto
    then show False using that efc_values addAction_template [of t gi Efc epm'] by auto
  qed
  moreover have "nAllocated epm + length ts = 2048 \<Longrightarrow> allocateAction t epm' = on_error ''Out of free actions''" for t
    using E(2) efc_values by (simp add: allocateAction_def)
  ultimately show ?thesis using E by (intro exI [of _ epm']) simp
qed

definition epm_start :: EkaEpm where
  "epm_start = \<lparr>heap = (\<lambda>i. 7), epmRegion = (\<lambda>i. False), epmTemplate = (\<lambda>i. None), a_table = (\<lambda>i. None), nAllocated = 256, hw = [], txBuf = False\<rparr>"

text \<open>A state with the EFC region and the default templates.\<close>

lemma started_epm:
  "\<exists>epm. epm_reachable epm \<and> epmRegion epm Efc \<and> a_table epm = (\<lambda>i. None) \<and> nAllocated epm = 256 \<and> creatable epm Igmp"
proof -
  have s: "epm_reachable epm_start" by (rule initial) (simp add: initial_epm_def epm_start_def P4Reserved_def)
  have "\<not> epmRegion epm_start Efc" by (simp add: epm_start_def)
  then obtain e1 where e1: "createRegion (int Efc) epm_start = Inr e1" "epmRegion e1 Efc" "a_table e1 = (\<lambda>i. None)" "nAllocated e1 = 256"
    using createRegion_run [OF efc_values(3), of epm_start] by (simp add: epm_start_def)
  obtain e2 where e2: "InitDefaultTemplates e1 = Inr e2" "epmRegion e2 Efc" "a_table e2 = (\<lambda>i. None)" "nAllocated e2 = 256" "epmTemplate e2 T_Raw \<noteq> None"
    using InitDefaultTemplates_run [of e1] e1 by auto
  have "epm_reachable e2" using s e1(1) e2(1) by (meson epm_reachable.step epm_step.region epm_step.templates)
  then show ?thesis using e2 by (auto simp: creatable_def)
qed

theorem epm_table_invariant_witness:
  "\<exists>epm act. epm_reachable epm \<and> a_table epm 256 = Some act \<and> act_type act = Igmp \<and>
     getActionHeapOffs (int (act_regionId act)) (int (act_idx act)) = Inr (act_heapOffs act)"
proof -
  obtain e where e: "epm_reachable e" "epmRegion e Efc" "a_table e = (\<lambda>i. None)" "nAllocated e = 256" "creatable e Igmp"
    using started_epm by blast
  then obtain act epm where a: "allocateAction Igmp e = Inr (256, epm)" "act_type act = Igmp" "a_table epm 256 = Some act"
    using allocateAction_ok [of e Igmp] by auto
  have "epm_reachable epm" using e(1) a(1) by (meson epm_reachable.step epm_step.allocate)
  from epm_table_invariant [OF this] a this show ?thesis by blast
qed

theorem allocateAction_sequence_witness:
  "\<exists>epm epm'. nAllocated epm = 256 \<and> allocations [Igmp, Igmp] epm = Inr ([256, 257], epm')"
proof -
  obtain e where e: "epmRegion e Efc" "a_table e = (\<lambda>i. None)" "nAllocated e = 256" "creatable e Igmp"
    using started_epm by blast
  have "[256..<258 :: nat] = [256, 257]" by (simp add: upt_rec)
  then show ?thesis using allocateAction_sequence [OF e(1), of "[Igmp, Igmp]"] e by auto
qed

text \<open>
  C0. Creating a region clears it, in memory and in the card: for a region that has not been created, \<open>createRegion\<close>
  succeeds; exactly the bytes of the region become 0; the stores to the card are the base index of the region, its enable word, an
  empty descriptor for each action index of the region, and a copy of zeros for each 1024-byte page of the region, that cover it. Creating a
  region a second time aborts.\<close>

theorem createRegion_correct:
  assumes "r < Total" and "\<not> epmRegion epm r"
  shows "\<exists>epm'. createRegion (int r) epm = Inr epm' \<and> epmRegion epm' = (epmRegion epm)(r := True) \<and>
    (\<forall>i. heap epm' i = (if heap_base r \<le> i \<and> i < heap_base (Suc r) then 0 else heap epm i)) \<and>
    hw epm' = hw epm @ [RegWrite (0x82000 + 8 * r) (of_nat (base_idx r)), RegWrite (0x85000 + 8 * r) ALWAYS_ENABLE] @
      concat (map clear_action_ops [base_idx r..<base_idx (Suc r)]) @
      concat (map (\<lambda>i. clear_page_ops r (heap_base r + i * 1024)) [0..<heap_size r div 1024]) \<and>
    heap_base r + (heap_size r div 1024) * 1024 = heap_base (Suc r) \<and>
    a_table epm' = a_table epm \<and> epmTemplate epm' = epmTemplate epm \<and> nAllocated epm' = nAllocated epm \<and>
    createRegion (int r) epm' = on_error ''epmRegion already created''"
proof -
  have "4096 dvd heap_size r" using heap_pages [OF assms(1)] by (simp only: mod_eq_0_iff_dvd)
  moreover have "1024 dvd (4096 :: nat)" by simp
  ultimately have "1024 dvd heap_size r" by (rule dvd_trans [rotated])
  then have size: "heap_size r div 1024 * 1024 = heap_size r" by (rule dvd_div_mult_self)
  have acts: "map (\<lambda>i. clear_action_ops (base_idx r + i)) [0..<nActions (region ! r)] = map clear_action_ops [base_idx r..<base_idx (Suc r)]"
    by (rule nth_equalityI) simp_all
  show ?thesis
    using createRegion_run [OF assms] createRegion_fails [OF _ assms(1)] size
    unfolding acts by (auto simp: write_slot_heap)
qed

theorem createRegion_correct_witness:
  "\<exists>epm'. createRegion 0 epm_start = Inr epm' \<and> heap epm' 1536 = 0 \<and> heap epm' 6000000 = 7"
proof -
  have "heap_base (Suc 0) = 3145728" by (simp add: region_def NumEfcActions_def HeapPerRegularAction_def)
  then show ?thesis using createRegion_correct [of 0 epm_start] by (auto simp: Total_def epm_start_def)
qed

text \<open>
  C17. Filling one action does not touch the others. In every reachable state, binding an action of a TCP type to a session and
  setting a payload, that with the headers fits the slot of the action, succeeds, and every other action of the table
  keeps its entry and every byte of its slot.\<close>

theorem payload_isolated:
  assumes "epm_reachable epm" and "a_table epm gi = Some act" and "a_table epm gj = Some act'" and "gi \<noteq> gj"
    and "getFrameType (act_type act) = Inr Tcp" and "act_epmTemplate act = Some t"
    and "fs \<in> set tcp_tables" and "new_template tid fs = Inr t" and "sess_ok s"
    and "unat (act_payloadLen act) \<le> 1482" and "length buf \<le> unat (getByteSize t)"
    and "54 + length buf \<le> actionHeapBudget (region ! act_regionId act)"
    and "\<forall>i \<in> set (clear_positions fs 0). i < 54 + length buf"
  shows "\<exists>epm'. on_action gi (\<lambda>st. obind (setTcpSess (Some s) st) (setPayload buf)) epm = Inr epm' \<and>
    a_table epm' gj = Some act' \<and> heap_bytes (act_heapOffs act') (actionHeapBudget (region ! act_regionId act')) epm' =
      heap_bytes (act_heapOffs act') (actionHeapBudget (region ! act_regionId act')) epm"
proof -
  have ok: "table_ok epm" using epm_reachable_inv [OF assms(1)] by (simp add: epm_inv_def)
  have a: "act_ok act" using table_okD [OF ok assms(2)] by simp
  have "csum_table_ok fs" using assms(7) tcp_tables_ok by blast
  then have st: "templateStruct t = fs"
    using new_template_filled [of fs tid] assms(8) by (auto simp: csum_table_ok_def dest: filledD(3))
  have n: "length buf \<le> 1482" using budget_le [of "act_regionId act"] a assms(12) by (simp add: act_ok_def)
  obtain b ops ident tt len where id: "length ident = 2" "length len = 2"
    and r: "obind (setTcpSess (Some s) (act, epm)) (setPayload buf) = Inr (b, (write_slot (act_heapOffs act)
      (frame_hdr s len ident tt (ip_csum s len ident tt) @ cleared fs 54 buf) epm)\<lparr>hw := hw epm @ ops\<rparr>)"
    using bind_setPayload [OF a assms(5-7) st assms(9-11) n assms(13), of epm] by (metis length_ip_len_field)
  let ?fr = "frame_hdr s len ident tt (ip_csum s len ident tt) @ cleared fs 54 buf"
  let ?epm' = "(write_slot (act_heapOffs act) ?fr epm)\<lparr>hw := hw epm @ ops\<rparr>\<lparr>a_table := (a_table epm)(gi := Some b)\<rparr>"
  have "length ?fr = 54 + length buf" using assms(9) id by simp
  then have "heap ?epm' i = heap epm i" if "act_heapOffs act' \<le> i" "i < slot_hi act'" for i
    using table_slots [OF ok assms(2-4)] that assms(12) unfolding slot_hi_def by (auto simp: write_slot_heap)
  then have "heap_bytes (act_heapOffs act') (actionHeapBudget (region ! act_regionId act')) ?epm' =
      heap_bytes (act_heapOffs act') (actionHeapBudget (region ! act_regionId act')) epm"
    by (intro nth_equalityI) (simp_all add: slot_hi_def)
  moreover have "on_action gi (\<lambda>st. obind (setTcpSess (Some s) st) (setPayload buf)) epm = Inr ?epm'"
    using assms(2) r by (simp add: on_action_def)
  ultimately show ?thesis using assms(3,4) by (intro exI [of _ ?epm']) simp
qed

theorem payload_isolated_witness:
  "\<exists>epm epm' act'. a_table epm 3073 = Some act' \<and>
     on_action 3072 (\<lambda>st. obind (setTcpSess (Some demo_sess) st) (setPayload [1, 2, 3])) epm = Inr epm' \<and> a_table epm' 3073 = Some act'"
proof -
  have v: "base_idx 5 = 3072" "nActions (region ! 5) = 256" "5 < Total" "actionHeapBudget (region ! 5) = 1536"
    by (simp_all add: sum_loop_region [of 5 nActions] Total_def) (simp_all add: region_def NumEfcActions_def NumNewsActions_def NumTcpActions_def HeapPerRegularAction_def)
  have s: "epm_reachable epm_start" by (rule initial) (simp add: initial_epm_def epm_start_def P4Reserved_def)
  have "\<not> epmRegion epm_start 5" by (simp add: epm_start_def)
  then obtain e1 where e1: "createRegion (int 5) epm_start = Inr e1" "epmRegion e1 5" "a_table e1 = (\<lambda>i. None)"
    using createRegion_run [OF v(3), of epm_start] by (simp add: epm_start_def)
  obtain e2 where e2: "InitDefaultTemplates e1 = Inr e2" "epmRegion e2 5" "a_table e2 = (\<lambda>i. None)" "epmTemplate e2 T_TcpFastPath = Some fp_template"
    using InitDefaultTemplates_run [of e1] e1 demo_template(1) by auto
  have "\<exists>e. addAction TcpFastPath 0 (int 5) e2 = Inr (base_idx 5 + 0, e)"
    by (rule addAction_ok [OF v(3), of _ _ _ T_TcpFastPath fp_template]) (simp_all only: e2 v TcpTxFullPkt_def, simp_all)
  then obtain e3 where e3: "addAction TcpFastPath 0 (int 5) e2 = Inr (3072, e3)" unfolding v by auto
  obtain act where a: "a_table e3 = [3072 \<mapsto> act]" "act_type act = TcpFastPath" "act_regionId act = 5" "act_payloadLen act = 0"
      "act_epmTemplate act = Some fp_template" and e3': "epmRegion e3 5" "epmTemplate e3 T_TcpFastPath = Some fp_template"
    using addAction_result [OF e3] v e2 by auto
  have "\<exists>e. addAction TcpFastPath 1 (int 5) e3 = Inr (base_idx 5 + 1, e)"
    by (rule addAction_ok [OF v(3), of _ _ _ T_TcpFastPath fp_template]) (simp_all only: e3' a v TcpTxFullPkt_def, simp_all)
  then obtain e4 where e4: "addAction TcpFastPath 1 (int 5) e3 = Inr (3073, e4)" unfolding v by auto
  obtain act' where b: "a_table e4 = [3072 \<mapsto> act, 3073 \<mapsto> act']"
    using addAction_result [OF e4] v a by auto
  have "epm_step epm_start e1" "epm_step e1 e2" by (rule epm_step.region [OF e1(1)]) (rule epm_step.templates [OF e2(1)])
  moreover have "epm_step e2 e3" "epm_step e3 e4"
    by (rule epm_step.add [OF e3], use v in simp) (rule epm_step.add [OF e4], use v in simp)
  ultimately have reach: "epm_reachable e4" using s epm_reachable.step by blast
  have m: "EpmFastPathTemplate \<in> set tcp_tables" by (simp add: tcp_tables_def)
  have c: "\<forall>i \<in> set (clear_positions EpmFastPathTemplate 0). i < 54 + length [1 :: u8, 2, 3]"
    by (auto simp: EpmFastPathTemplate_def tcp_hdr_fields_def)
  have f: "getFrameType (act_type act) = Inr Tcp" "sess_ok demo_sess" by (simp_all add: a getFrameType_def sess_ok_def demo_sess_def)
  have "\<exists>epm'. on_action 3072 (\<lambda>st. obind (setTcpSess (Some demo_sess) st) (setPayload [1, 2, 3])) e4 = Inr epm' \<and> a_table epm' 3073 = Some act'"
    using payload_isolated [OF reach _ _ _ f(1) a(5) m demo_template(1) f(2) _ _ _ c, of 3072 3073 act'] b a v demo_template(2) by auto
  moreover have "a_table e4 3073 = Some act'" by (simp add: b)
  ultimately show ?thesis by blast
qed

end
