(* ===== verification/EkaTcp.thy ===== *)
theory EkaTcp
  imports EkaEpm
begin

text \<open>
  The TCP sessions: class \<open>EkaTcpSess\<close> of \<open>src/src/EkaTcpSess.h\<close> and \<open>EkaTcpSess.cpp\<close>. (The tables of
  sessions and the dispatch of packets are in theory \<open>EkaCore\<close>.) A session sends
  its data through the FPGA and lets lwIP send the same bytes as dummy packets, which it drops; what lwIP and the
  card have sent and what the peer has acknowledged is counted in 64-bit numbers. Each load and each store of an atomic
  member is one step; a loop that waits for another thread loads it anew each time that the code does. A packet is the list of its bytes from the Ethernet header on, and an access behind it is
  an \<open>InvalidAccess\<close>.
\<close>

section \<open>Packets\<close>

definition rd16 :: "u8 list \<Rightarrow> nat \<Rightarrow> u16" where
  "rd16 pkt k = le16 (pkt ! k) (pkt ! (k + 1))"

definition rd32 :: "u8 list \<Rightarrow> nat \<Rightarrow> u32" where
  "rd32 pkt k = le32 (pkt ! k) (pkt ! (k + 1)) (pkt ! (k + 2)) (pkt ! (k + 3))"

definition EKA_IPH_LEN :: "u8 list \<Rightarrow> u16" where "EKA_IPH_LEN pkt = be16toh (rd16 pkt 16)"
definition EKA_IPH_HL_BYTES :: "u8 list \<Rightarrow> u8" where "EKA_IPH_HL_BYTES pkt = (pkt ! 14 AND 0x0f) * 4"
definition EKA_IPH_SRC :: "u8 list \<Rightarrow> u32" where "EKA_IPH_SRC pkt = rd32 pkt 26"
definition EKA_IPH_DST :: "u8 list \<Rightarrow> u32" where "EKA_IPH_DST pkt = rd32 pkt 30"
definition EKA_TCPH_SRC :: "u8 list \<Rightarrow> u16" where "EKA_TCPH_SRC pkt = be16toh (rd16 pkt 34)"
definition EKA_TCPH_DST :: "u8 list \<Rightarrow> u16" where "EKA_TCPH_DST pkt = be16toh (rd16 pkt 36)"
definition EKA_TCPH_SEQNO :: "u8 list \<Rightarrow> u32" where "EKA_TCPH_SEQNO pkt = be32toh (rd32 pkt 38)"
definition EKA_TCPH_ACKNO :: "u8 list \<Rightarrow> u32" where "EKA_TCPH_ACKNO pkt = be32toh (rd32 pkt 42)"
definition EKA_TCPH_WND :: "u8 list \<Rightarrow> u16" where "EKA_TCPH_WND pkt = be16toh (rd16 pkt 48)"

definition EKA_TCPH_HDRLEN_BYTES :: "u8 list \<Rightarrow> u8" where
  "EKA_TCPH_HDRLEN_BYTES pkt = ucast (push_bit 2 (drop_bit 12 (be16toh (rd16 pkt 46))))"

definition EKA_TCPH_FLAGS :: "u8 list \<Rightarrow> u8" where
  "EKA_TCPH_FLAGS pkt = ucast (be16toh (rd16 pkt 46) AND 0x3F)"

definition EKA_TCP_FIN :: "u8 list \<Rightarrow> bool" where "EKA_TCP_FIN pkt \<longleftrightarrow> EKA_TCPH_FLAGS pkt AND 0x01 \<noteq> 0"
definition EKA_TCP_SYN :: "u8 list \<Rightarrow> bool" where "EKA_TCP_SYN pkt \<longleftrightarrow> EKA_TCPH_FLAGS pkt AND 0x02 \<noteq> 0"
definition EKA_TCP_ACK :: "u8 list \<Rightarrow> bool" where "EKA_TCP_ACK pkt \<longleftrightarrow> EKA_TCPH_FLAGS pkt AND 0x10 \<noteq> 0"

definition EKA_TCP_PAYLOAD_LEN :: "u8 list \<Rightarrow> u16" where
  "EKA_TCP_PAYLOAD_LEN pkt = EKA_IPH_LEN pkt - ucast (EKA_IPH_HL_BYTES pkt) - ucast (EKA_TCPH_HDRLEN_BYTES pkt)"

definition EKA_IS_TCP_PKT :: "u8 list \<Rightarrow> bool" where
  "EKA_IS_TCP_PKT pkt \<longleftrightarrow> be16toh (rd16 pkt 12) = 0x0800 \<and> pkt ! 23 = EKA_PROTO_TCP"

definition TCP_SEQ_LT :: "u32 \<Rightarrow> u32 \<Rightarrow> bool" where
  "TCP_SEQ_LT a b \<longleftrightarrow> (a - b) AND 0x80000000 \<noteq> 0"

definition HdrSize :: nat where "HdrSize = 14 + 20 + 20"

section \<open>State\<close>

record TcpSess = EkaTcpSess +
  sock :: int
  fastPathAction :: "nat option"
  fullPktAction :: "nat option"
  emptyAckAction :: "nat option"
  tcpRcvWnd :: u16
  tcpSndWnd :: u32
  tcpSndWndShift :: u8
  mss :: u16
  tcpLocalSeqNum :: u32
  tcpRemoteSeqNum :: u32
  tcpRemoteAckNum :: u32
  realTcpRemoteAckNum :: u64
  realFastPathBytes :: u64
  realDummyBytes :: u64
  realTxDriverBytes :: u64
  lastInsertedEmptyAck :: u64
  txLwipBp :: bool
  connectionEstablished :: bool
  blocking :: bool

record EkaDev =
  exc_active :: bool
  globalFastPathBytes :: u64
  globalDummyBytes :: u64
  epm :: EkaEpm

definition MAX_PAYLOAD_SIZE :: nat where "MAX_PAYLOAD_SIZE = 1360"
definition MAX_ETH_FRAME_SIZE :: nat where "MAX_ETH_FRAME_SIZE = 1536"
definition MAX_SESS_PER_CORE :: nat where "MAX_SESS_PER_CORE = 31"
definition CONTROL_SESS_ID :: nat where "CONTROL_SESS_ID = MAX_SESS_PER_CORE"
definition TOTAL_SESSIONS_PER_CORE :: nat where "TOTAL_SESSIONS_PER_CORE = MAX_SESS_PER_CORE + 1"
definition MAX_CORES :: nat where "MAX_CORES = 4"

section \<open>Operations of a session\<close>

text \<open>The index of the tables in the FPGA.\<close>

datatype SessFpgaUpdateType = AppSeqAscii | AppSeqBin | RemoteSeqWnd | LocalSeqWnd

primrec SessFpgaUpdateType_int :: "SessFpgaUpdateType \<Rightarrow> nat" where
  "SessFpgaUpdateType_int AppSeqAscii = 0"
| "SessFpgaUpdateType_int AppSeqBin = 1"
| "SessFpgaUpdateType_int RemoteSeqWnd = 2"
| "SessFpgaUpdateType_int LocalSeqWnd = 3"

definition updateFpgaCtx :: "SessFpgaUpdateType \<Rightarrow> u64 \<Rightarrow> TcpSess \<Rightarrow> EkaDev \<Rightarrow> EkaDev" where
  "updateFpgaCtx tableId data s dev =
     (let TableSize = 4096; tableOffs = SessFpgaUpdateType_int tableId * TableSize; coreOffs = 4 * TableSize * unat (s_coreId s) in
      dev\<lparr>epm := eka_write (0x40000 + coreOffs + tableOffs + unat (s_sessId s) * 8) data (epm dev)\<rparr>)"

definition setRemoteSeqWnd2FPGA :: "TcpSess \<Rightarrow> EkaDev \<Rightarrow> EkaDev" where
  "setRemoteSeqWnd2FPGA s dev =
     updateFpgaCtx RemoteSeqWnd (ucast (tcpRemoteSeqNum s) OR push_bit 32 (ucast (tcpRcvWnd s))) s dev"

definition setLocalSeqWnd2FPGA :: "TcpSess \<Rightarrow> EkaDev \<Rightarrow> EkaDev" where
  "setLocalSeqWnd2FPGA s dev = updateFpgaCtx LocalSeqWnd (ucast (tcpLocalSeqNum s)) s dev"

text \<open>A call of an action through the pointer that a session holds.\<close>

definition sess_action :: "nat option \<Rightarrow> (EkaEpmAction \<times> EkaEpm \<Rightarrow> (EkaEpmAction \<times> EkaEpm) outcome) \<Rightarrow> EkaDev \<Rightarrow> EkaDev outcome" where
  "sess_action a f dev =
     (case a of None \<Rightarrow> Inl InvalidAccess | Some gi \<Rightarrow> obind (on_action gi f (epm dev)) (\<lambda>e. Inr (dev\<lparr>epm := e\<rparr>)))"

definition send_op :: "EkaEpmAction \<times> EkaEpm \<Rightarrow> (EkaEpmAction \<times> EkaEpm) outcome" where
  "send_op st = Inr (fst st, snd (send st))"

definition sendEthFrame :: "TcpSess \<Rightarrow> u8 list \<Rightarrow> EkaDev \<Rightarrow> (int \<times> EkaDev) outcome" where
  "sendEthFrame s buf dev =
     (if \<not> exc_active dev then Inr (- 1, dev)
      else if length buf > MAX_ETH_FRAME_SIZE then on_error ''Size > MAX_ETH_FRAME_SIZE''
      else obind (sess_action (fullPktAction s) (sendFullPkt buf) dev) (\<lambda>dev. Inr (0, dev)))"

text \<open>\<open>ctl\<close> is the control session of the core. The result of \<open>sendEthFrame\<close> is not looked at.\<close>

definition sendStackEthFrame :: "TcpSess \<Rightarrow> u8 list \<Rightarrow> TcpSess \<times> EkaDev \<Rightarrow> (TcpSess \<times> EkaDev) outcome" where
  "sendStackEthFrame ctl pkt sd =
     (let (s, dev) = sd; via_ctl = (\<lambda>s dev. obind (sendEthFrame ctl pkt dev) (\<lambda>(_, dev). Inr (s, dev))) in
      if length pkt < HdrSize then Inl InvalidAccess
      else if EKA_TCP_SYN pkt then
        (let n = EKA_TCPH_SEQNO pkt + 1;
             s = s\<lparr>tcpLocalSeqNum := n, realTcpRemoteAckNum := ucast n, realFastPathBytes := ucast n, realTxDriverBytes := ucast n,
               realDummyBytes := ucast n, tcpRcvWnd := EKA_TCPH_WND pkt\<rparr>
         in via_ctl s (setLocalSeqWnd2FPGA s dev))
      else if EKA_TCP_FIN pkt then via_ctl s dev
      else if \<not> connectionEstablished s then
        (let s = s\<lparr>tcpRemoteSeqNum := EKA_TCPH_ACKNO pkt, tcpRcvWnd := EKA_TCPH_WND pkt\<rparr> in via_ctl s (setRemoteSeqWnd2FPGA s dev))
      else if TCP_SEQ_LT (EKA_TCPH_SEQNO pkt) (tcpLocalSeqNum s) then via_ctl s dev
      else obind
        (if tcpRemoteSeqNum s \<noteq> EKA_TCPH_ACKNO pkt then
           (let s = s\<lparr>tcpRemoteSeqNum := EKA_TCPH_ACKNO pkt\<rparr> in
            obind (sess_action (emptyAckAction s) send_op (setRemoteSeqWnd2FPGA s dev)) (\<lambda>dev. Inr (s, dev)))
         else Inr (s, dev))
        (\<lambda>(s, dev).
          let s = s\<lparr>tcpLocalSeqNum := EKA_TCPH_SEQNO pkt + ucast (EKA_TCP_PAYLOAD_LEN pkt)\<rparr> in
          Inr (if EKA_IS_TCP_PKT pkt then s\<lparr>realTxDriverBytes := realTxDriverBytes s + ucast (EKA_TCP_PAYLOAD_LEN pkt)\<rparr> else s, dev)))"

text \<open>The 64-bit number of a 32-bit sequence number.\<close>

definition seq32to64 :: "u64 \<Rightarrow> u32 \<Rightarrow> u32 \<Rightarrow> u32 \<Rightarrow> u64" where
  "seq32to64 prev64 prev32 new32 baseOffs =
     (let new64 = prev64;
          new64 = (if new32 < prev32 then new64 + push_bit 32 1 else new64);
          new64 = (new64 AND 0xFFFFFFFF00000000) OR ucast (new32 AND 0xFFFFFFFF)
      in new64 - ucast baseOffs)"

text \<open>The loop over the options of a SYN/ACK, from index \<open>i\<close>; \<open>opt\<close> is the memory from the options on.\<close>

function option_loop :: "u8 list \<Rightarrow> nat \<Rightarrow> nat \<Rightarrow> TcpSess \<Rightarrow> TcpSess outcome" where
  "option_loop opt optLen i s =
     (if i \<ge> optLen then Inr s
      else if i \<ge> length opt then Inl InvalidAccess
      else if opt ! i = 0 then
        (if i \<noteq> optLen - 1 then on_error ''Premature endOfOptions'' else Inr s)
      else if opt ! i = 1 then option_loop opt optLen (i + 1) s
      else if opt ! i = 2 then
        (if i + 1 \<ge> length opt then Inl InvalidAccess
         else if opt ! (i + 1) \<noteq> 4 then on_error ''Unexpected MSS field len''
         else if i + 3 \<ge> length opt then Inl InvalidAccess
         else option_loop opt optLen (i + 4) (s\<lparr>mss := be16toh (rd16 opt (i + 2))\<rparr>))
      else if opt ! i = 3 then
        (if i + 1 \<ge> length opt then Inl InvalidAccess
         else if opt ! (i + 1) \<noteq> 3 then on_error ''Unexpected SndWndShift field len''
         else if i + 2 \<ge> length opt then Inl InvalidAccess
         else Inr (s\<lparr>tcpSndWndShift := opt ! (i + 2)\<rparr>))
      else on_error ''Unexpected option'')"
  by auto

termination option_loop
  by (relation "measure (\<lambda>(opt, optLen, i, s). optLen - i)") auto

definition processSynAck :: "u8 list \<Rightarrow> TcpSess \<Rightarrow> TcpSess outcome" where
  "processSynAck pkt s =
     (if length pkt < HdrSize then Inl InvalidAccess
      else if \<not> EKA_TCP_ACK pkt then on_error ''Non ACK''
      else if EKA_TCPH_HDRLEN_BYTES pkt = 20 then Inr s
      else option_loop (drop HdrSize pkt) (unat (EKA_TCPH_HDRLEN_BYTES pkt) - 20) 0 s)"

text \<open>The packet that acknowledges \<open>seq\<close>, made from the headers of a received packet.\<close>

definition insertEmptyRemoteAck :: "u64 \<Rightarrow> u8 list \<Rightarrow> u8 list outcome" where
  "insertEmptyRemoteAck seq pkt =
     (if length pkt < HdrSize then Inl InvalidAccess
      else let p = take HdrSize pkt;
               p = memcpy p 24 (mem16 0);
               p = memcpy p 16 (mem16 (be16toh (20 + 20)));
               p = memcpy p 50 (mem16 0);
               p = memcpy p 24 (mem16 (csum (take 20 (drop 14 p))));
               p = memcpy p 42 (bytes32 (be32toh (ucast (seq AND 0xFFFFFFFF))))
           in obind (ekaTcpCsum (ip_hdr_of (take 20 (drop 14 p))) (drop 34 p)) (\<lambda>c. Inr (memcpy p 50 (mem16 c))))"

text \<open>
  The wait for lwIP's own transmission: each element of \<open>seen\<close> is what one round of the loop loads of \<open>exc_active\<close> and, in the
  condition of the loop, in the condition of its \<open>if\<close> and for the number to insert, of \<open>realTxDriverBytes\<close>, which the thread of lwIP
  changes meanwhile. Each load is also the value that the session has then. (\<open>realTcpRemoteAckNum\<close> is loaded in every round too;
  beside this function only the SYN of a connection sets it, before there is anything to acknowledge.) The result has the packets that are
  inserted; a loop that is still waiting after all rounds is \<open>Diverges\<close>.
\<close>

type_synonym rx_round = "bool \<times> u64 \<times> u64 \<times> u64"

fun rx_wait :: "rx_round list \<Rightarrow> u8 list \<Rightarrow> TcpSess \<Rightarrow> (u8 list list \<times> TcpSess) outcome" where
  "rx_wait [] pkt s = Inl Diverges"
| "rx_wait ((active, tx1, tx2, tx3) # seen) pkt s =
     (let s = s\<lparr>realTxDriverBytes := tx1\<rparr> in
      if \<not> (active \<and> realTcpRemoteAckNum s > realTxDriverBytes s) then Inr ([], s)
      else let s = s\<lparr>realTxDriverBytes := tx2\<rparr> in
      if realTxDriverBytes s > lastInsertedEmptyAck s then
        (let s = s\<lparr>realTxDriverBytes := tx3\<rparr>;
             s = s\<lparr>lastInsertedEmptyAck := realTxDriverBytes s\<rparr> in
         obind (insertEmptyRemoteAck (lastInsertedEmptyAck s) pkt) (\<lambda>p.
         obind (rx_wait seen pkt s) (\<lambda>(ps, s). Inr (p # ps, s))))
      else rx_wait seen pkt s)"

definition updateRx :: "rx_round list \<Rightarrow> u8 list \<Rightarrow> TcpSess \<Rightarrow> (u8 list list \<times> TcpSess) outcome" where
  "updateRx seen pkt s =
     (if length pkt < HdrSize then Inl InvalidAccess
      else if tcpSndWndShift s \<ge> 32 then Inl Undefined
      else let prevTcpRemoteAckNum = tcpRemoteAckNum s;
               s = s\<lparr>tcpRemoteAckNum := EKA_TCPH_ACKNO pkt\<rparr>;
               s = s\<lparr>tcpSndWnd := push_bit (unat (tcpSndWndShift s)) (ucast (EKA_TCPH_WND pkt))\<rparr>;
               s = s\<lparr>realTcpRemoteAckNum := seq32to64 (realTcpRemoteAckNum s) prevTcpRemoteAckNum (EKA_TCPH_ACKNO pkt) 0\<rparr>
           in obind (rx_wait seen pkt s) (\<lambda>(ps, s).
              obind (if EKA_TCP_SYN pkt then processSynAck pkt s else Inr s) (\<lambda>s. Inr (ps, s))))"

definition WndMargin :: nat where "WndMargin = 2 * 1024"
definition FpgaInFlightLimit :: u64 where "FpgaInFlightLimit = 8 * 1024"

text \<open>How many of \<open>len\<close> bytes may be sent; \<open>dontwait\<close> is the flag \<open>MSG_DONTWAIT\<close>.\<close>

definition preSendCheck :: "int \<Rightarrow> bool \<Rightarrow> TcpSess \<times> EkaDev \<Rightarrow> int \<times> TcpSess \<times> EkaDev" where
  "preSendCheck len dontwait sd =
     (let (s, dev) = sd in
      if \<not> exc_active dev then (- 1, s, dev)
      else if len \<le> 0 then (0, s, dev)
      else let payloadSize2send = (if nat len < MAX_PAYLOAD_SIZE then nat len else MAX_PAYLOAD_SIZE);
               unAckedBytes = sint (realFastPathBytes s - realTcpRemoteAckNum s);
               unAckedBytes = (if unAckedBytes < 0 then 0 else unAckedBytes);
               currTcpSndWnd = unat (tcpSndWnd s);
               allowedWnd = (if currTcpSndWnd < WndMargin then 0 else currTcpSndWnd - WndMargin)
           in if txLwipBp s \<or> unAckedBytes + int payloadSize2send > int allowedWnd \<or>
                 globalFastPathBytes dev - globalDummyBytes dev > FpgaInFlightLimit then (0, s, dev)
              else if blocking s \<and> \<not> dontwait \<and> payloadSize2send \<noteq> nat len then (- 1, s, dev)
              else (int payloadSize2send,
                    s\<lparr>realFastPathBytes := realFastPathBytes s + of_nat payloadSize2send\<rparr>,
                    dev\<lparr>globalFastPathBytes := globalFastPathBytes dev + of_nat payloadSize2send\<rparr>))"

text \<open>The action of a session is of type \<open>TcpFastPath\<close>, for which \<open>fastSend\<close> does no check of its own.\<close>

definition fastSend_op :: "u8 list \<Rightarrow> EkaEpmAction \<times> EkaEpm \<Rightarrow> (EkaEpmAction \<times> EkaEpm) outcome" where
  "fastSend_op buf st = obind (fastSend (\<lambda>ts len. 0) buf st) (\<lambda>(_, st). Inr st)"

definition sendPayload :: "u8 list \<Rightarrow> bool \<Rightarrow> TcpSess \<times> EkaDev \<Rightarrow> (int \<times> TcpSess \<times> EkaDev) outcome" where
  "sendPayload buf dontwait sd =
     (let (payloadSize2send, s, dev) = preSendCheck (int (length buf)) dontwait sd in
      if payloadSize2send \<le> 0 then Inr (0, s, dev)
      else obind (sess_action (fastPathAction s) (fastSend_op (take (nat payloadSize2send) buf)) dev) (\<lambda>dev.
        Inr (payloadSize2send, s, dev)))"

text \<open>
  \<open>lwip_write\<close> is lwIP's; each element of \<open>rounds\<close> is what one round of the loop gets: the result of the call, whether the error
  is a temporary one, and \<open>exc_active\<close> after it. The result is the error that ends the loop, if any, and the bytes
  that lwIP has taken, in order.
\<close>

fun dummy_loop :: "(int \<times> bool \<times> bool) list \<Rightarrow> u8 list \<Rightarrow> TcpSess \<Rightarrow> (int option \<times> u8 list \<times> TcpSess) outcome" where
  "dummy_loop [] p s = Inl Diverges"
| "dummy_loop ((sentBytes, again, active) # rounds) p s =
     (if sentBytes \<le> 0 \<and> \<not> again then Inr (Some sentBytes, [], s)
      else let k = (if sentBytes > 0 then nat sentBytes else 0); rest = drop k p;
               s = (if rest \<noteq> [] then s\<lparr>txLwipBp := True\<rparr> else s)
           in if active \<and> rest \<noteq> []
              then obind (dummy_loop rounds rest s) (\<lambda>(e, d, s). Inr (e, take k p @ d, s))
              else Inr (None, take k p, s))"

definition lwipDummyWrite :: "(int \<times> bool \<times> bool) list \<Rightarrow> u8 list \<Rightarrow> bool \<Rightarrow> TcpSess \<times> EkaDev \<Rightarrow> (int \<times> u8 list \<times> TcpSess \<times> EkaDev) outcome" where
  "lwipDummyWrite rounds buf fromHw sd =
     (let (s, dev) = sd; len = of_nat (length buf);
          s = (if fromHw then s\<lparr>realFastPathBytes := realFastPathBytes s + len\<rparr> else s);
          dev = (if fromHw then dev\<lparr>globalFastPathBytes := globalFastPathBytes dev + len\<rparr> else dev) in
      obind (dummy_loop rounds buf s) (\<lambda>(e, d, s).
        case e of Some rc \<Rightarrow> Inr (rc, d, s, dev)
        | None \<Rightarrow> Inr (int (length buf), d,
            s\<lparr>txLwipBp := False, realDummyBytes := realDummyBytes s + len\<rparr>,
            dev\<lparr>globalDummyBytes := globalDummyBytes dev + len\<rparr>)))"

section \<open>Sequence numbers\<close>

lemma unat_u64_less: "unat (w :: u64) < 18446744073709551616"
  using unsigned_less [of w, where ?'a = nat] by simp

lemma unat_and_high: "unat (w AND 0xFFFFFFFF00000000 :: u64) = unat w div 2 ^ 32 * 2 ^ 32"
proof -
  have m: "(0xFFFFFFFF00000000 :: u64) = push_bit 32 (mask 32)" by (simp add: mask_eq_decr_exp)
  have "w AND 0xFFFFFFFF00000000 = push_bit 32 (drop_bit 32 w)"
    unfolding m by (rule bit_word_eqI) (auto simp: bit_simps)
  moreover have "unat (drop_bit 32 w) = unat w div 2 ^ 32" by (subst unat_drop_bit_eq) (rule drop_bit_eq_div)
  moreover have "unat w div 2 ^ 32 * 2 ^ 32 < 2 ^ 64"
    using order_le_less_trans [OF div_times_less_eq_dividend unat_u64_less] by simp
  moreover have "unat (push_bit 32 x :: u64) = unat x * 2 ^ 32 mod 2 ^ 64" for x
    by (simp add: push_bit_eq_mult unat_word_ariths)
  ultimately show ?thesis by simp
qed

lemma or_low_disjoint: "(w AND 0xFFFFFFFF00000000) OR ucast (x :: u32) = (w AND 0xFFFFFFFF00000000) + (ucast x :: u64)"
proof (rule disjunctive_add [symmetric])
  fix n
  have m: "(0xFFFFFFFF00000000 :: u64) = push_bit 32 (mask 32)" by (simp add: mask_eq_decr_exp)
  show "\<not> bit (w AND 0xFFFFFFFF00000000 :: u64) n \<or> \<not> bit (ucast x :: u64) n"
    unfolding m by (auto simp: bit_simps dest: bit_imp_le_length)
qed

lemma unat_ucast_32_64: "unat (ucast (x :: u32) :: u64) = unat x"
  by (rule unat_ucast_u64)

lemma and_ffffffff: "(x :: u32) AND 0xFFFFFFFF = x"
proof -
  have "(0xFFFFFFFF :: u32) = - 1" by simp
  then show ?thesis by (simp only: and.right_neutral)
qed

text \<open>The result keeps the upper half, one higher when the lower half has gone down.\<close>

lemma seq32to64_value:
  assumes "unat prev64 < 2 ^ 64 - 2 ^ 32"
  shows "unat (seq32to64 prev64 prev32 new32 0) =
    (unat prev64 div 2 ^ 32 + (if new32 < prev32 then 1 else 0)) * 2 ^ 32 + unat new32"
proof -
  define w where "w = (if new32 < prev32 then prev64 + push_bit 32 1 else prev64)"
  have w: "unat w = unat prev64 + (if new32 < prev32 then 2 ^ 32 else 0)"
    using assms by (simp add: w_def unat_word_ariths)
  have hi: "unat w div 2 ^ 32 = unat prev64 div 2 ^ 32 + (if new32 < prev32 then 1 else 0)"
    unfolding w by (simp add: div_add_self2)
  have lt: "unat w div 2 ^ 32 * 2 ^ 32 + unat new32 < 2 ^ 64"
  proof -
    have "unat w div 4294967296 < 4294967296" using unat_u64_less [of w] by (simp add: less_mult_imp_div_less)
    moreover have "unat new32 < 4294967296" by (rule unat_u32_less)
    ultimately have "unat w div 4294967296 * 4294967296 + unat new32 < 18446744073709551616" by linarith
    then show ?thesis by simp
  qed
  have "seq32to64 prev64 prev32 new32 0 = (w AND 0xFFFFFFFF00000000) + ucast new32"
    by (simp add: seq32to64_def w_def Let_def and_ffffffff or_low_disjoint)
  also have "unat \<dots> = unat w div 2 ^ 32 * 2 ^ 32 + unat new32"
    using lt by (simp add: unat_word_ariths unat_and_high unat_ucast_32_64)
  finally show ?thesis unfolding hi .
qed

lemma seq32to64_stale:
  assumes "unat prev64 < 2 ^ 64 - 2 ^ 33" and "prev32 = ucast prev64" and "0 < n" and "n \<le> unat prev32"
  shows "unat (seq32to64 prev64 prev32 (prev32 - of_nat n) 0) = unat prev64 - n + 2 ^ 32"
proof -
  have u: "unat (of_nat n :: u32) = n" using assms(4) unat_u32_less [of prev32] by (intro unat_of_nat_u32) linarith
  then have "(of_nat n :: u32) \<le> prev32" using assms(4) by (simp add: word_le_nat_alt)
  then have d: "unat (prev32 - of_nat n) = unat prev32 - n" using u by (simp add: unat_sub)
  then have "prev32 - of_nat n < prev32" using assms(3,4) by (simp add: word_less_nat_alt)
  moreover have "unat prev32 = unat prev64 mod 2 ^ 32" unfolding assms(2) by (simp add: unsigned_ucast_eq take_bit_eq_mod)
  moreover have "unat prev64 = unat prev64 div 2 ^ 32 * 2 ^ 32 + unat prev64 mod 2 ^ 32" by simp
  moreover have "unat prev64 < 2 ^ 64 - 2 ^ 32" using assms(1) by simp
  ultimately show ?thesis using seq32to64_value [of prev64 prev32 "prev32 - of_nat n"] assms(4) d by simp
qed

text \<open>
  Acknowledgements are counted beyond 32 bits: when the session's 64-bit number ends in the last acknowledgement number and a
  new one is the 32-bit number of a position at most \<open>2 ^ 32 - 1\<close> bytes further on, \<open>seq32to64\<close> returns exactly this
  position, across any number of wrap-arounds. An acknowledgement that is older than the last one, as of segments that arrive
  out of order, does not take the count back: unless it lies before a wrap-around, the result is \<open>2 ^ 32\<close> too large.\<close>

theorem seq32to64_correct:
  assumes "unat prev64 < 2 ^ 64 - 2 ^ 33" and "prev32 = ucast prev64"
  shows "(n < 2 ^ 32 \<longrightarrow> seq32to64 prev64 prev32 (of_nat (unat prev64 + n)) 0 = of_nat (unat prev64 + n)) \<and>
    (0 < n \<and> n \<le> unat prev32 \<longrightarrow> unat (seq32to64 prev64 prev32 (prev32 - of_nat n) 0) = unat prev64 - n + 2 ^ 32)"
proof -
  define q r where "q = unat prev64 div 2 ^ 32" and "r = unat prev64 mod 2 ^ 32"
  have p: "unat prev64 = q * 2 ^ 32 + r" by (simp add: q_def r_def)
  have r32: "unat prev32 = r"
    unfolding assms(2) r_def by (simp add: unsigned_ucast_eq take_bit_eq_mod)
  have r: "r < 2 ^ 32" by (simp add: r_def)
  have q: "q < 2 ^ 32 - 2"
  proof -
    have "q * 2 ^ 32 < (2 ^ 32 - 2) * 2 ^ 32" using assms(1) p by simp
    then show ?thesis by simp
  qed
  have v: "unat (seq32to64 prev64 prev32 x 0) = (q + (if x < prev32 then 1 else 0)) * 2 ^ 32 + unat x" for x
    using seq32to64_value [of prev64] assms(1) by (simp add: q_def)
  have fwd: "seq32to64 prev64 prev32 (of_nat (unat prev64 + n)) 0 = of_nat (unat prev64 + n)" if n: "n < 2 ^ 32"
  proof -
    have m: "(q * 2 ^ 32 + (r + n)) mod 2 ^ 32 = (r + n) mod 2 ^ 32" by (simp add: add.commute mult.commute)
    have x: "unat (of_nat (unat prev64 + n) :: u32) = (r + n) mod 2 ^ 32"
      unfolding p add.assoc by (simp only: unat_of_nat m) (simp add: take_bit_eq_mod m)
    have "(q + (if (of_nat (unat prev64 + n) :: u32) < prev32 then 1 else 0)) * 2 ^ 32 + (r + n) mod 2 ^ 32 = q * 2 ^ 32 + r + n"
    proof (cases "r + n < 2 ^ 32")
      case True
      then show ?thesis using x r32 by (simp add: word_less_nat_alt)
    next
      case False
      then have "(r + n) mod 2 ^ 32 = r + n - 2 ^ 32" using r n by (simp add: mod_if)
      moreover have "r + n - 2 ^ 32 < r" using False n by linarith
      ultimately show ?thesis using x r32 False by (simp add: word_less_nat_alt)
    qed
    then have "unat (seq32to64 prev64 prev32 (of_nat (unat prev64 + n)) 0) = unat prev64 + n" by (simp only: v x) (simp only: p add.assoc)
    moreover have "unat prev64 + n < 2 ^ 64" using assms(1) n by simp
    ultimately show ?thesis by (simp add: word_unat_eq_iff unat_of_nat take_bit_nat_eq_self del: of_nat_add)
  qed
  moreover have "unat (seq32to64 prev64 prev32 (prev32 - of_nat n) 0) = unat prev64 - n + 2 ^ 32" if "0 < n" "n \<le> unat prev32"
    by (rule seq32to64_stale [OF assms that])
  ultimately show ?thesis by blast
qed

theorem seq32to64_correct_witness:
  "seq32to64 0x1FFFFFFF0 0xFFFFFFF0 (of_nat (0x1FFFFFFF0 + 32)) 0 = of_nat (0x1FFFFFFF0 + 32) \<and>
   unat (seq32to64 0x1FFFFFFF0 0xFFFFFFF0 (0xFFFFFFF0 - of_nat 16) 0) = 0x1FFFFFFF0 - 16 + 2 ^ 32"
  using seq32to64_correct [of "0x1FFFFFFF0" "0xFFFFFFF0" 32] seq32to64_correct [of "0x1FFFFFFF0" "0xFFFFFFF0" 16] by simp

section \<open>Flow control\<close>

lemma sint_small: "0 \<le> i \<Longrightarrow> i < 2 ^ 63 \<Longrightarrow> sint (of_int i :: u64) = i"
  by (simp add: sint_sbintrunc' signed_take_bit_int_eq_self)

lemma sint_add_small:
  fixes x :: u64
  assumes "sint x + int n < 2 ^ 63"
  shows "sint (x + of_nat n) = sint x + int n"
proof -
  have lo: "- (2 ^ 63) \<le> sint x" using sint_ge [of x] by simp
  have "x + of_nat n = of_int (sint x + int n)" by simp
  then have "sint (x + of_nat n) = signed_take_bit 63 (sint x + int n)"
    by (simp only: sint_sbintrunc') simp
  also have "\<dots> = sint x + int n" using lo assms by (intro signed_take_bit_int_eq_self) simp_all
  finally show ?thesis .
qed

text \<open>
  C3. The library does not overrun its peer or the card: when \<open>preSendCheck\<close> lets \<open>r\<close> bytes of a payload go, the device is active,
  \<open>r\<close> is at most the payload and at most the maximal segment, the bytes of the session that are sent and not
  acknowledged, with the \<open>r\<close> new ones, stay 2048 bytes below the window that the peer has announced, fewer than
  9600 bytes of all sessions are on their way through the card, and exactly \<open>r\<close> is added to the two counters. In
  all other cases nothing changes.\<close>

theorem preSendCheck_window:
  assumes "preSendCheck len dontwait (s, dev) = (r, s', dev')"
  shows "(r \<le> 0 \<longrightarrow> s' = s \<and> dev' = dev) \<and>
    (0 < r \<longrightarrow> exc_active dev \<and> \<not> txLwipBp s \<and> r \<le> len \<and> r \<le> 1360 \<and>
      s' = s\<lparr>realFastPathBytes := realFastPathBytes s + of_int r\<rparr> \<and>
      dev' = dev\<lparr>globalFastPathBytes := globalFastPathBytes dev + of_int r\<rparr> \<and>
      sint (realFastPathBytes s' - realTcpRemoteAckNum s') + 2048 \<le> int (unat (tcpSndWnd s)) \<and>
      unat (globalFastPathBytes dev' - globalDummyBytes dev') < 9600)"
proof (cases "0 < r")
  case False
  then show ?thesis using assms by (auto simp: preSendCheck_def Let_def MAX_PAYLOAD_SIZE_def split: if_splits)
next
  case True
  define n where "n = (if nat len < MAX_PAYLOAD_SIZE then nat len else MAX_PAYLOAD_SIZE)"
  define u where "u = realFastPathBytes s - realTcpRemoteAckNum s"
  define w where "w = (if unat (tcpSndWnd s) < WndMargin then 0 else unat (tcpSndWnd s) - WndMargin)"
  define x where "x = (if sint u < 0 then 0 else sint u)"
  have c: "exc_active dev" "0 < len" "\<not> txLwipBp s" "x + int n \<le> int w"
    "globalFastPathBytes dev - globalDummyBytes dev \<le> FpgaInFlightLimit"
    and r: "r = int n" "s' = s\<lparr>realFastPathBytes := realFastPathBytes s + of_nat n\<rparr>"
      "dev' = dev\<lparr>globalFastPathBytes := globalFastPathBytes dev + of_nat n\<rparr>"
    using assms True unfolding preSendCheck_def Let_def prod.case n_def [symmetric] u_def [symmetric] x_def [symmetric] w_def [symmetric]
    by (auto simp: not_less split: if_splits)
  have n: "n \<le> 1360" "int n \<le> len" using c(2) by (auto simp: n_def MAX_PAYLOAD_SIZE_def)
  have w: "int w + 2048 \<le> int (unat (tcpSndWnd s))"
    using c(4) True r(1) by (auto simp: w_def WndMargin_def x_def split: if_splits)
  have "int (unat (tcpSndWnd s)) < 4294967296" using unat_u32_less [of "tcpSndWnd s"] by linarith
  moreover have "sint u \<le> x" by (simp add: x_def)
  ultimately have "sint u + int n < 9223372036854775808" using c(4) w by linarith
  then have "sint u + int n < 2 ^ 63" by simp
  then have "sint (u + of_nat n) = sint u + int n" by (rule sint_add_small)
  moreover have "sint u + int n \<le> int w" using c(4) by (simp add: x_def split: if_splits)
  moreover have "realFastPathBytes s' - realTcpRemoteAckNum s' = u + of_nat n" by (simp add: r(2) u_def)
  ultimately have win: "sint (realFastPathBytes s' - realTcpRemoteAckNum s') + 2048 \<le> int (unat (tcpSndWnd s))"
    using w by (simp del: uint_nat add: algebra_simps)
  have "unat (a + b) \<le> unat a + unat b" for a b :: u64 by (simp add: unat_word_ariths)
  moreover have "unat (of_nat n :: u64) \<le> n" by (simp add: unat_of_nat take_bit_eq_mod)
  moreover have "unat (globalFastPathBytes dev - globalDummyBytes dev) \<le> 8192"
    using c(5) by (simp add: FpgaInFlightLimit_def word_le_nat_alt)
  ultimately have "unat (globalFastPathBytes dev - globalDummyBytes dev + of_nat n) \<le> 8192 + n"
    by (meson add_mono order_trans)
  then have "unat (globalFastPathBytes dev' - globalDummyBytes dev') < 9600" using n(1) by (simp add: r(3) algebra_simps)
  moreover have "s' = s\<lparr>realFastPathBytes := realFastPathBytes s + of_int r\<rparr>" using r(1, 2) by (simp only: of_int_of_nat_eq)
  moreover have "dev' = dev\<lparr>globalFastPathBytes := globalFastPathBytes dev + of_int r\<rparr>" using r(1, 3) by (simp only: of_int_of_nat_eq)
  moreover have "r \<le> len" "r \<le> 1360" using n unfolding r(1) by linarith+
  ultimately show ?thesis using True c(1, 3) win by linarith
qed

definition demo_tcp :: TcpSess where
  "demo_tcp = \<lparr>s_coreId = 0, s_sessId = 3, s_macDa = [2, 0, 0, 0, 0, 1], s_macSa = [2, 0, 0, 0, 0, 2], s_srcIp = 0x0100000a,
     s_dstIp = 0x0200000a, s_srcPort = 4000, s_dstPort = 5000, sock = 1, fastPathAction = Some 3072, fullPktAction = None,
     emptyAckAction = Some 3328, tcpRcvWnd = 1000, tcpSndWnd = 8192, tcpSndWndShift = 0, mss = 1460, tcpLocalSeqNum = 100, tcpRemoteSeqNum = 700,
     tcpRemoteAckNum = 100, realTcpRemoteAckNum = 100, realFastPathBytes = 100, realDummyBytes = 100, realTxDriverBytes = 100,
     lastInsertedEmptyAck = 0, txLwipBp = False, connectionEstablished = True, blocking = False\<rparr>"

definition demo_dev :: EkaDev where
  "demo_dev = \<lparr>exc_active = True, globalFastPathBytes = 5000, globalDummyBytes = 4000, epm = demo_epm\<rparr>"

theorem preSendCheck_window_witness:
  "\<exists>s' dev'. preSendCheck 2000 True (demo_tcp, demo_dev) = (1360, s', dev') \<and> s' = demo_tcp\<lparr>realFastPathBytes := 1460\<rparr>"
proof -
  obtain r s' dev' where e: "preSendCheck 2000 True (demo_tcp, demo_dev) = (r, s', dev')" by (metis prod_cases3)
  then have "r = 1360"
    by (simp add: preSendCheck_def Let_def demo_tcp_def demo_dev_def MAX_PAYLOAD_SIZE_def WndMargin_def FpgaInFlightLimit_def)
  then show ?thesis using e preSendCheck_window [OF e] by (simp add: demo_tcp_def)
qed

section \<open>Dummy writes\<close>

lemma dummy_loop_result:
  "dummy_loop rounds p s = Inr (e, d, s') \<Longrightarrow> p \<noteq> [] \<Longrightarrow>
     \<exists>k t. d = take k p \<and> s' = s\<lparr>txLwipBp := t\<rparr> \<and> (txLwipBp s \<longrightarrow> t) \<and>
       (case e of None \<Rightarrow> d = p \<or> (\<exists>r \<in> set rounds. \<not> snd (snd r)) | Some rc \<Rightarrow> rc \<le> 0 \<and> d \<noteq> p \<and> (d \<noteq> [] \<longrightarrow> t))"
proof (induction rounds p s arbitrary: e d s' rule: dummy_loop.induct)
  case (1 p s)
  then show ?case by simp
next
  case (2 sentBytes again active rounds p s)
  define k where "k = (if sentBytes > 0 then nat sentBytes else 0)"
  define s1 where "s1 = (if drop k p \<noteq> [] then s\<lparr>txLwipBp := True\<rparr> else s)"
  show ?case
  proof (cases "sentBytes \<le> 0 \<and> \<not> again")
    case True
    then show ?thesis using 2(2, 3) by (intro exI [of _ 0] exI [of _ "txLwipBp s"]) auto
  next
    case ok: False
    show ?thesis
    proof (cases "active \<and> drop k p \<noteq> []")
      case True
      then obtain d1 where d1: "dummy_loop rounds (drop k p) s1 = Inr (e, d1, s')" "d = take k p @ d1"
        using 2(2) ok unfolding dummy_loop.simps Let_def k_def [symmetric] s1_def [symmetric]
        by (auto split: sum.splits simp: obind_def)
      have s1: "s1 = s\<lparr>txLwipBp := True\<rparr>" using True by (simp add: s1_def)
      obtain j t where ih: "d1 = take j (drop k p)" "s' = s1\<lparr>txLwipBp := t\<rparr>" "t"
        "case e of None \<Rightarrow> d1 = drop k p \<or> (\<exists>r \<in> set rounds. \<not> snd (snd r)) | Some rc \<Rightarrow> rc \<le> 0 \<and> d1 \<noteq> drop k p \<and> (d1 \<noteq> [] \<longrightarrow> t)"
        using 2(1) [OF ok k_def refl s1_def True d1(1)] True s1 by auto
      have "d = take (k + j) p" by (simp add: d1(2) ih(1) take_add)
      moreover have "p = take k p @ drop k p" by simp
      then have "d = p \<longleftrightarrow> d1 = drop k p" unfolding d1(2) by (metis same_append_eq)
      moreover have "s' = s\<lparr>txLwipBp := t\<rparr>" using ih(2) s1 by simp
      ultimately show ?thesis using ih(3,4) by (intro exI [of _ "k + j"] exI [of _ t]) (auto split: option.splits)
    next
      case False
      then have "e = None" "d = take k p" "s' = s1"
        using 2(2) ok unfolding dummy_loop.simps Let_def k_def [symmetric] s1_def [symmetric] by auto
      moreover have "s1 = s\<lparr>txLwipBp := (drop k p \<noteq> [] \<or> txLwipBp s)\<rparr>" by (simp add: s1_def)
      ultimately show ?thesis using False by (intro exI [of _ k] exI [of _ "drop k p \<noteq> [] \<or> txLwipBp s"]) auto
    qed
  qed
qed

lemma dummy_loop_completes:
  "\<forall>r \<in> set rounds. (0 < fst r \<or> fst (snd r)) \<and> snd (snd r) \<Longrightarrow> p \<noteq> [] \<Longrightarrow> length p \<le> sum_list (map (\<lambda>r. nat (fst r)) rounds) \<Longrightarrow>
     \<exists>t. dummy_loop rounds p s = Inr (None, p, s\<lparr>txLwipBp := t\<rparr>)"
proof (induction rounds arbitrary: p s)
  case Nil
  then show ?case by simp
next
  case (Cons r rounds)
  obtain n again active where r: "r = (n, again, active)" by (metis prod_cases3)
  define s1 where "s1 = (if drop (nat n) p \<noteq> [] then s\<lparr>txLwipBp := True\<rparr> else s)"
  have s1: "s1 = s\<lparr>txLwipBp := (drop (nat n) p \<noteq> [] \<or> txLwipBp s)\<rparr>" by (simp add: s1_def)
  have e: "dummy_loop (r # rounds) p s =
    (if drop (nat n) p \<noteq> [] then obind (dummy_loop rounds (drop (nat n) p) s1) (\<lambda>(e, d, s). Inr (e, take (nat n) p @ d, s))
     else Inr (None, take (nat n) p, s1))"
    using Cons.prems(1) by (auto simp: r s1_def Let_def)
  show ?case
  proof (cases "drop (nat n) p = []")
    case True
    then show ?thesis unfolding e s1 by (intro exI [of _ "drop (nat n) p \<noteq> [] \<or> txLwipBp s"]) auto
  next
    case False
    then obtain t where "dummy_loop rounds (drop (nat n) p) s1 = Inr (None, drop (nat n) p, s1\<lparr>txLwipBp := t\<rparr>)"
    proof -
      have "length (drop (nat n) p) \<le> sum_list (map (\<lambda>r. nat (fst r)) rounds)" using Cons.prems(3) by (simp add: r)
      then show ?thesis using Cons.IH [of "drop (nat n) p" s1] Cons.prems(1) False that by auto
    qed
    then show ?thesis using False unfolding e by (auto simp: s1)
  qed
qed

definition in_flight :: "EkaDev \<Rightarrow> u64" where
  "in_flight dev = globalFastPathBytes dev - globalDummyBytes dev"

lemma preSendCheck_throttled:
  "in_flight dev > FpgaInFlightLimit \<Longrightarrow> fst (preSendCheck len dontwait (s, dev)) \<le> 0"
  by (simp add: preSendCheck_def Let_def in_flight_def)

text \<open>
  C13. After the FPGA has sent a payload, lwIP is given the same bytes. When no call of \<open>lwip_write\<close> fails and the calls together take
  the length of the payload, \<open>lwipDummyWrite\<close> hands over exactly the payload, in however many pieces, ends the
  throttling of the session and takes its bytes off those in flight, which for a payload that the FPGA sent by
  itself it first counts. When a call fails, only a part of the payload has been handed over, and what was counted is
  never taken off: the bytes in flight stay as high as before, or higher by the payload, the session stays
  throttled if the first call had succeeded, and once more than 8192 bytes are lost no session sends any more.\<close>

theorem lwipDummyWrite_correct:
  fixes s :: TcpSess
  assumes "buf \<noteq> []"
  defines "n \<equiv> of_nat (length buf)"
  shows "((\<forall>r \<in> set rounds. (0 < fst r \<or> fst (snd r)) \<and> snd (snd r)) \<and> length buf \<le> sum_list (map (\<lambda>r. nat (fst r)) rounds) \<longrightarrow>
      (\<exists>s' dev'. lwipDummyWrite rounds buf fromHw (s, dev) = Inr (int (length buf), buf, s', dev'))) \<and>
    (\<forall>rc d s' dev'. lwipDummyWrite rounds buf fromHw (s, dev) = Inr (rc, d, s', dev') \<longrightarrow>
      prefix d buf \<and> realFastPathBytes s' = realFastPathBytes s + (if fromHw then n else 0) \<and>
      (0 < rc \<longrightarrow> rc = int (length buf) \<and> (d = buf \<or> (\<exists>r \<in> set rounds. \<not> snd (snd r))) \<and> \<not> txLwipBp s' \<and>
         realDummyBytes s' = realDummyBytes s + n \<and> in_flight dev' = in_flight dev - (if fromHw then 0 else n)) \<and>
      (rc \<le> 0 \<longrightarrow> d \<noteq> buf \<and> (d \<noteq> [] \<longrightarrow> txLwipBp s') \<and> realDummyBytes s' = realDummyBytes s \<and>
         in_flight dev' = in_flight dev + (if fromHw then n else 0) \<and>
         (in_flight dev' > 8192 \<longrightarrow> (\<forall>sess len dontwait. fst (preSendCheck len dontwait (sess, dev')) \<le> 0))))"
proof -
  define s0 where "s0 = (if fromHw then s\<lparr>realFastPathBytes := realFastPathBytes s + n\<rparr> else s)"
  define dev0 where "dev0 = (if fromHw then dev\<lparr>globalFastPathBytes := globalFastPathBytes dev + n\<rparr> else dev)"
  have e: "lwipDummyWrite rounds buf fromHw (s, dev) = obind (dummy_loop rounds buf s0) (\<lambda>(e, d, s).
        case e of Some rc \<Rightarrow> Inr (rc, d, s, dev0)
        | None \<Rightarrow> Inr (int (length buf), d, s\<lparr>txLwipBp := False, realDummyBytes := realDummyBytes s + n\<rparr>,
            dev0\<lparr>globalDummyBytes := globalDummyBytes dev0 + n\<rparr>))"
    unfolding lwipDummyWrite_def Let_def prod.case s0_def dev0_def n_def by (rule refl)
  have s0: "realFastPathBytes s0 = realFastPathBytes s + (if fromHw then n else 0)" "realDummyBytes s0 = realDummyBytes s"
    "in_flight dev0 = in_flight dev + (if fromHw then n else 0)"
    "in_flight (dev0\<lparr>globalDummyBytes := globalDummyBytes dev0 + n\<rparr>) = in_flight dev - (if fromHw then 0 else n)"
    by (simp_all add: s0_def dev0_def in_flight_def)
  have lim: "in_flight dev' > 8192 \<Longrightarrow> fst (preSendCheck len dontwait (sess, dev')) \<le> 0" for dev' len dontwait sess
    by (rule preSendCheck_throttled) (simp add: FpgaInFlightLimit_def)
  have "prefix d buf \<and> realFastPathBytes s' = realFastPathBytes s + (if fromHw then n else 0) \<and>
      (0 < rc \<longrightarrow> rc = int (length buf) \<and> (d = buf \<or> (\<exists>r \<in> set rounds. \<not> snd (snd r))) \<and> \<not> txLwipBp s' \<and>
         realDummyBytes s' = realDummyBytes s + n \<and> in_flight dev' = in_flight dev - (if fromHw then 0 else n)) \<and>
      (rc \<le> 0 \<longrightarrow> d \<noteq> buf \<and> (d \<noteq> [] \<longrightarrow> txLwipBp s') \<and> realDummyBytes s' = realDummyBytes s \<and>
         in_flight dev' = in_flight dev + (if fromHw then n else 0))"
    if r: "lwipDummyWrite rounds buf fromHw (s, dev) = Inr (rc, d, s', dev')" for rc d s' dev'
  proof -
    obtain x s1 where l: "dummy_loop rounds buf s0 = Inr (x, d, s1)"
      and res: "(case x of Some rc \<Rightarrow> Inr (rc, d, s1, dev0) | None \<Rightarrow> Inr (int (length buf), d,
          s1\<lparr>txLwipBp := False, realDummyBytes := realDummyBytes s1 + n\<rparr>, dev0\<lparr>globalDummyBytes := globalDummyBytes dev0 + n\<rparr>)) =
        (Inr (rc, d, s', dev') :: (int \<times> u8 list \<times> TcpSess \<times> EkaDev) outcome)"
      using r unfolding e obind_Inr_iff by (auto split: option.splits)
    obtain k t where "d = take k buf" "s1 = s0\<lparr>txLwipBp := t\<rparr>"
      "case x of None \<Rightarrow> d = buf \<or> (\<exists>r \<in> set rounds. \<not> snd (snd r)) | Some rc \<Rightarrow> rc \<le> 0 \<and> d \<noteq> buf \<and> (d \<noteq> [] \<longrightarrow> t)"
      using dummy_loop_result [OF l assms(1)] by blast
    then show ?thesis using res s0 assms(1) by (cases x) (auto simp: take_is_prefix)
  qed
  moreover have "\<exists>s' dev'. lwipDummyWrite rounds buf fromHw (s, dev) = Inr (int (length buf), buf, s', dev')"
    if "\<forall>r \<in> set rounds. (0 < fst r \<or> fst (snd r)) \<and> snd (snd r)" "length buf \<le> sum_list (map (\<lambda>r. nat (fst r)) rounds)"
    using dummy_loop_completes [OF that(1) assms(1) that(2), of s0] unfolding e by auto
  ultimately show ?thesis using lim by blast
qed

theorem lwipDummyWrite_correct_witness:
  "\<exists>s' dev'. lwipDummyWrite [(2, False, True), (- 1, True, True), (1, False, True)] [7, 8, 9] False (demo_tcp, demo_dev) = Inr (3, [7, 8, 9], s', dev') \<and>
     in_flight dev' = 997"
  using lwipDummyWrite_correct [of "[7, 8, 9]" "[(2, False, True), (- 1, True, True), (1, False, True)]" False demo_tcp demo_dev]
  by (auto simp: in_flight_def demo_dev_def)

section \<open>Options of a SYN/ACK\<close>

datatype TcpOption = Nop | Mss u16 | WndScale u8 | OtherOption u8 "u8 list"

primrec option_bytes :: "TcpOption \<Rightarrow> u8 list" where
  "option_bytes Nop = [1]"
| "option_bytes (Mss m) = [2, 4, ucast (drop_bit 8 m), ucast m]"
| "option_bytes (WndScale w) = [3, 3, w]"
| "option_bytes (OtherOption k bs) = k # of_nat (2 + length bs) # bs"

text \<open>What the options mean for a session: those after the window scale are not looked at.\<close>

fun apply_options :: "TcpOption list \<Rightarrow> TcpSess \<Rightarrow> TcpSess" where
  "apply_options [] s = s"
| "apply_options (Nop # os) s = apply_options os s"
| "apply_options (Mss m # os) s = apply_options os (s\<lparr>mss := m\<rparr>)"
| "apply_options (WndScale w # os) s = s\<lparr>tcpSndWndShift := w\<rparr>"
| "apply_options (OtherOption k bs # os) s = s"

definition is_scale :: "TcpOption \<Rightarrow> bool" where
  "is_scale opt \<longleftrightarrow> (\<exists>w. opt = WndScale w)"

primrec supported :: "TcpOption \<Rightarrow> bool" where
  "supported Nop = True"
| "supported (Mss m) = True"
| "supported (WndScale w) = True"
| "supported (OtherOption k bs) = False"

definition options_bytes :: "TcpOption list \<Rightarrow> u8 list" where
  "options_bytes os = concat (map option_bytes os)"

lemma options_bytes_simps [simp]:
  "options_bytes [] = []" "options_bytes (opt # os) = option_bytes opt @ options_bytes os"
  by (simp_all add: options_bytes_def)

lemma be16toh_le16: "be16toh (le16 (ucast (drop_bit 8 m)) (ucast m)) = (m :: u16)"
proof -
  have "le16 a b = ucast a OR push_bit 8 (ucast b)" for a b
  proof -
    have "(ucast a :: u16) + push_bit 8 (ucast b) = ucast a OR push_bit 8 (ucast b)"
      by (rule disjunctive_add) (auto simp: bit_simps dest: bit_imp_le_length)
    then show ?thesis by (simp add: le16_def push_bit_eq_mult mult.commute)
  qed
  then show ?thesis by (simp only: be16toh_def) (rule bit_word_eqI, auto simp: bit_simps)
qed

declare option_loop.simps [simp del]

text \<open>The loop over supported options, followed by \<open>rest\<close>.\<close>

lemma option_loop_supported:
  "drop i opt = options_bytes os @ rest \<Longrightarrow> \<forall>x \<in> set os. supported x \<Longrightarrow> i + length (options_bytes os) \<le> optLen \<Longrightarrow>
     option_loop opt optLen i s =
       (if \<exists>x \<in> set os. is_scale x then Inr (apply_options os s)
        else option_loop opt optLen (i + length (options_bytes os)) (apply_options os s))"
proof (induction os arbitrary: i s)
  case Nil
  then show ?case by simp
next
  case (Cons x os)
  have nth: "opt ! (i + k) = (option_bytes x @ options_bytes os @ rest) ! k" "i + k < length opt"
    if "k < length (option_bytes x)" for k
  proof -
    have d: "drop i opt = option_bytes x @ options_bytes os @ rest" using Cons.prems(1) by simp
    moreover have "option_bytes x \<noteq> []" using that by auto
    ultimately have "drop i opt \<noteq> []" by simp
    then have l: "i \<le> length opt" by simp
    show "opt ! (i + k) = (option_bytes x @ options_bytes os @ rest) ! k" unfolding d [symmetric] by (simp add: l)
    have "length opt - i = length (option_bytes x @ options_bytes os @ rest)" unfolding d [symmetric] by simp
    then show "i + k < length opt" using that l by simp
  qed
  have d: "drop (i + length (option_bytes x)) opt = options_bytes os @ rest"
  proof -
    have "drop (i + length (option_bytes x)) opt = drop (length (option_bytes x)) (drop i opt)" by (simp add: add.commute)
    then show ?thesis unfolding Cons.prems(1) by simp
  qed
  have IH: "option_loop opt optLen (i + length (option_bytes x)) s' =
       (if \<exists>x \<in> set os. is_scale x then Inr (apply_options os s')
        else option_loop opt optLen (i + length (option_bytes x) + length (options_bytes os)) (apply_options os s'))" for s'
    using Cons.IH [OF d] Cons.prems(2,3) by simp
  show ?case
  proof (cases x)
    case Nop
    then show ?thesis using nth [of 0] IH [of s] Cons.prems(3) by (subst option_loop.simps) (simp add: is_scale_def)
  next
    case (Mss m)
    have "rd16 opt (i + 2) = le16 (ucast (drop_bit 8 m)) (ucast m)"
      using nth(1) [of 2] nth(1) [of 3] Mss by (simp add: rd16_def add.commute numeral_3_eq_3)
    moreover have i4: "i + 4 = Suc (Suc (Suc (Suc i)))" by simp
    ultimately show ?thesis using nth [of 0] nth [of 1] nth [of 3] IH [of "s\<lparr>mss := m\<rparr>"] Cons.prems(3) Mss
      by (subst option_loop.simps) (simp add: is_scale_def be16toh_le16 i4)
  next
    case (WndScale w)
    then show ?thesis using nth [of 0] nth [of 1] nth [of 2] Cons.prems(3) by (subst option_loop.simps) (simp add: is_scale_def)
  next
    case (OtherOption k bs)
    then show ?thesis using Cons.prems(2) by simp
  qed
qed

lemma option_loop_other:
  assumes "i < optLen" "i < length opt" "4 \<le> opt ! i"
  shows "option_loop opt optLen i s = on_error ''Unexpected option''"
proof -
  have "opt ! i \<noteq> 0" "opt ! i \<noteq> 1" "opt ! i \<noteq> 2" "opt ! i \<noteq> 3" using assms(3) by (auto simp: word_le_nat_alt)
  then show ?thesis using assms by (subst option_loop.simps) simp
qed



section \<open>Inserted acknowledgements\<close>

lemma split_list_at: "n \<le> length xs \<Longrightarrow> \<exists>ys zs. xs = ys @ zs \<and> length ys = n"
  by (intro exI [of _ "take n xs"] exI [of _ "drop n xs"]) simp

text \<open>The stores into the copied headers, on the fields that they divide it into.\<close>

lemma insertEmptyRemoteAck_fields:
  assumes "HdrSize \<le> length pkt"
  obtains eth ver len ident ck addrs prt ackno off tck urg c where
    "take HdrSize pkt = eth @ (ver @ len @ ident @ ck @ addrs) @ (prt @ ackno @ off @ tck @ urg)"
    "length eth = 14" "length ver = 2" "length len = 2" "length ident = 6" "length ck = 2" "length addrs = 8"
    "length prt = 8" "length ackno = 4" "length off = 4" "length tck = 2" "length urg = 2"
    "c = csum (ver @ mem16 (be16toh 40) @ ident @ [0, 0] @ addrs)"
    "\<And>d. ekaTcpCsum (ip_hdr_of (ver @ mem16 (be16toh 40) @ ident @ mem16 c @ addrs))
       (prt @ bytes32 (be32toh (ucast seq)) @ off @ [0, 0] @ urg) = Inr d \<Longrightarrow>
     insertEmptyRemoteAck seq pkt = Inr (eth @ (ver @ mem16 (be16toh 40) @ ident @ mem16 c @ addrs) @
       (prt @ bytes32 (be32toh (ucast seq)) @ off @ mem16 d @ urg))"
proof -
  define p where "p = take HdrSize pkt"
  have l: "length p = 54" using assms by (simp add: p_def HdrSize_def)
  obtain eth r where 1: "p = eth @ r" "length eth = 14" using split_list_at [of 14 p] l by auto
  obtain ver r1 where 2: "r = ver @ r1" "length ver = 2" using split_list_at [of 2 r] l 1 by auto
  obtain len r2 where 3: "r1 = len @ r2" "length len = 2" using split_list_at [of 2 r1] l 1 2 by auto
  obtain ident r3 where 4: "r2 = ident @ r3" "length ident = 6" using split_list_at [of 6 r2] l 1 2 3 by auto
  obtain ck r4 where 5: "r3 = ck @ r4" "length ck = 2" using split_list_at [of 2 r3] l 1 2 3 4 by auto
  obtain addrs r5 where 6: "r4 = addrs @ r5" "length addrs = 8" using split_list_at [of 8 r4] l 1 2 3 4 5 by auto
  obtain prt r6 where 7: "r5 = prt @ r6" "length prt = 8" using split_list_at [of 8 r5] l 1 2 3 4 5 6 by auto
  obtain ackno r7 where 8: "r6 = ackno @ r7" "length ackno = 4" using split_list_at [of 4 r6] l 1 2 3 4 5 6 7 by auto
  obtain off r8 where 9: "r7 = off @ r8" "length off = 4" using split_list_at [of 4 r7] l 1 2 3 4 5 6 7 8 by auto
  obtain tck urg where 10: "r8 = tck @ urg" "length tck = 2" using split_list_at [of 2 r8] l 1 2 3 4 5 6 7 8 9 by auto
  have u: "length urg = 2" using l 1 2 3 4 5 6 7 8 9 10 by simp
  note lens = 1(2) 2(2) 3(2) 4(2) 5(2) 6(2) 7(2) 8(2) 9(2) 10(2) u
  define F where "F len ck ackno tck = eth @ (ver @ len @ ident @ ck @ addrs) @ (prt @ ackno @ off @ tck @ urg)" for len ck ackno tck
  define c where "c = csum (ver @ mem16 (be16toh 40) @ ident @ [0, 0] @ addrs)"
  have p: "p = F len ck ackno tck" using 1 2 3 4 5 6 7 8 9 10 by (simp add: F_def)
  have a: "(ucast (seq AND 0xFFFFFFFF) :: u32) = ucast seq"
  proof -
    have m: "(0xFFFFFFFF :: u64) = mask 32" by (simp add: mask_eq_decr_exp)
    show ?thesis unfolding m by (rule bit_word_eqI) (auto simp: bit_simps)
  qed
  have st: "memcpy (F len ck ackno tck) 16 x = F x ck ackno tck" "memcpy (F len ck ackno tck) 24 x = F len x ackno tck"
    "memcpy (F len ck ackno tck) 50 x = F len ck ackno x"
    "memcpy (F len ck ackno tck) 42 y = F len ck y tck" "take 20 (drop 14 (F len ck ackno tck)) = ver @ len @ ident @ ck @ addrs"
    "drop 34 (F len ck ackno tck) = prt @ ackno @ off @ tck @ urg"
    if "length len = 2" "length ck = 2" "length ackno = 4" "length tck = 2" "length x = 2" "length y = 4" for len ck ackno tck x y
    using that lens by (simp_all add: F_def memcpy_def)
  have st2: "memcpy (F len ck ackno tck) 16 (mem16 x) = F (mem16 x) ck ackno tck" "memcpy (F len ck ackno tck) 24 (mem16 x) = F len (mem16 x) ackno tck"
    "memcpy (F len ck ackno tck) 50 (mem16 x) = F len ck ackno (mem16 x)"
    "memcpy (F len ck ackno tck) 42 (bytes32 y) = F len ck (bytes32 y) tck" "take 20 (drop 14 (F len ck ackno tck)) = ver @ len @ ident @ ck @ addrs"
    "drop 34 (F len ck ackno tck) = prt @ ackno @ off @ tck @ urg"
    if "length len = 2" "length ck = 2" "length ackno = 4" "length tck = 2" for len ck ackno tck x y
    using st [OF that, of "mem16 x" "bytes32 y"] by simp_all
  have z: "mem16 0 = [0, 0]" by (simp add: mem16_def)
  have e: "insertEmptyRemoteAck seq pkt = obind (ekaTcpCsum (ip_hdr_of (ver @ mem16 (be16toh 40) @ ident @ mem16 c @ addrs))
       (prt @ bytes32 (be32toh (ucast seq)) @ off @ [0, 0] @ urg))
     (\<lambda>d. Inr (F (mem16 (be16toh 40)) (mem16 c) (bytes32 (be32toh (ucast seq))) (mem16 d)))"
    using assms lens unfolding insertEmptyRemoteAck_def Let_def p_def [symmetric] p a
    by (simp add: st2 z [symmetric] c_def)
  show thesis
  proof (rule that [of eth ver len ident ck addrs prt ackno off tck urg c])
    show "take HdrSize pkt = eth @ (ver @ len @ ident @ ck @ addrs) @ (prt @ ackno @ off @ tck @ urg)"
      using p by (simp add: p_def F_def)
  qed (use lens in \<open>simp_all add: e c_def F_def\<close>)
qed

lemma be32toh_htonl: "be32toh x = lwip_htonl x"
  unfolding be32toh_def lwip_htonl_def ff_masks
  by (rule bit_word_eqI) (auto simp: bit_PP_HTONL bit_simps add.commute dest: bit_imp_le_length)

lemma be32toh_be32toh [simp]: "be32toh (be32toh x) = x"
  by (simp add: be32toh_htonl)

lemma nth_other_field:
  "length xs = length ys \<Longrightarrow> i < length as \<or> length as + length xs \<le> i \<Longrightarrow> (as @ xs @ bs) ! i = (as @ ys @ bs) ! i"
  by (auto simp: nth_append)

lemma rd32_bytes32: "rd32 (xs @ bytes32 y @ zs) (length xs) = y"
  by (simp add: rd32_def bytes32_def nth_append le32_bytes32)

lemma insertEmptyRemoteAck_segment:
  assumes "HdrSize \<le> length pkt"
  shows "\<exists>p. insertEmptyRemoteAck seq pkt = Inr p \<and> length p = HdrSize \<and>
    (\<forall>i < HdrSize. i \<notin> {16, 17, 24, 25, 42, 43, 44, 45, 50, 51} \<longrightarrow> p ! i = pkt ! i) \<and>
    EKA_IPH_LEN p = 40 \<and> EKA_TCPH_ACKNO p = ucast seq \<and> inet_chksum a (take 20 (drop 14 p)) = 0 \<and>
    inet_chksum_pseudo [(a, drop 34 p)] EKA_PROTO_TCP 20 (EKA_IPH_SRC p) (EKA_IPH_DST p) = 0"
proof -
  obtain eth ver len ident ck addrs prt ackno off tck urg c where
    pkt: "take HdrSize pkt = eth @ (ver @ len @ ident @ ck @ addrs) @ (prt @ ackno @ off @ tck @ urg)"
    and l: "length eth = 14" "length ver = 2" "length len = 2" "length ident = 6" "length ck = 2" "length addrs = 8"
      "length prt = 8" "length ackno = 4" "length off = 4" "length tck = 2" "length urg = 2"
    and c: "c = csum (ver @ mem16 (be16toh 40) @ ident @ [0, 0] @ addrs)"
    and run: "\<And>d. ekaTcpCsum (ip_hdr_of (ver @ mem16 (be16toh 40) @ ident @ mem16 c @ addrs))
         (prt @ bytes32 (be32toh (ucast seq)) @ off @ [0, 0] @ urg) = Inr d \<Longrightarrow>
       insertEmptyRemoteAck seq pkt = Inr (eth @ (ver @ mem16 (be16toh 40) @ ident @ mem16 c @ addrs) @
         (prt @ bytes32 (be32toh (ucast seq)) @ off @ mem16 d @ urg))"
    using insertEmptyRemoteAck_fields [OF assms, where seq = seq] by metis
  define ip where "ip = ver @ mem16 (be16toh 40) @ ident @ mem16 c @ addrs"
  define xs where "xs = prt @ bytes32 (be32toh (ucast seq)) @ off"
  define d where "d = inet_chksum_pseudo [(0, xs @ [0, 0] @ urg)] EKA_PROTO_TCP 20 (ip_src (ip_hdr_of ip)) (ip_dest (ip_hdr_of ip))"
  define p where "p = eth @ ip @ xs @ mem16 d @ urg"
  have li: "length ip = 20" and lx: "length xs = 16" and lp: "length p = 54"
    using l by (simp_all add: ip_def xs_def p_def)
  have "ip_len (ip_hdr_of ip) = be16toh 40"
    using l by (simp add: ip_hdr_of_def ip_def mem16_def nth_append le16_mem16)
  then have "unat (be16toh (ip_len (ip_hdr_of ip))) = 20 + length (xs @ [0, 0] @ urg)" using lx l by simp
  from ekaTcpCsum_short [OF this, of 0] have "ekaTcpCsum (ip_hdr_of ip) (xs @ [0, 0] @ urg) = Inr d"
    using lx l by (simp add: d_def)
  then have r: "insertEmptyRemoteAck seq pkt = Inr p"
    using run [of d] by (simp add: p_def ip_def xs_def)
  have "c = inet_chksum 0 ((ver @ mem16 (be16toh 40) @ ident) @ [0, 0] @ addrs)"
    unfolding c by (subst csum_inet_chksum [of _ 0]) (simp_all add: l)
  from chksum_field_verifies [OF _ _ this, of a] have ip0: "inet_chksum a ip = 0"
    using l by (simp add: ip_def mem16_def)
  have "even (length xs)" "length xs + length urg + 14 \<le> 0x20000" using l lx by simp_all
  from chksum_pseudo_field_verifies [OF this d_def, of a]
  have tcp0: "inet_chksum_pseudo [(a, xs @ mem16 d @ urg)] EKA_PROTO_TCP 20 (ip_src (ip_hdr_of ip)) (ip_dest (ip_hdr_of ip)) = 0"
    by (simp add: mem16_def)
  have drops: "take 20 (drop 14 p) = ip" "drop 34 p = xs @ mem16 d @ urg" using l li lx by (simp_all add: p_def)
  have nth: "p ! (14 + k) = ip ! k" if "k < 20" for k using that l li by (simp add: p_def nth_append)
  have addrs: "EKA_IPH_SRC p = ip_src (ip_hdr_of ip)" "EKA_IPH_DST p = ip_dest (ip_hdr_of ip)" "EKA_IPH_LEN p = 40"
    using nth [of 2] nth [of 3] nth [of 12] nth [of 13] nth [of 14] nth [of 15] nth [of 16] nth [of 17] nth [of 18] nth [of 19] \<open>ip_len (ip_hdr_of ip) = be16toh 40\<close>
    by (simp_all add: EKA_IPH_SRC_def EKA_IPH_DST_def EKA_IPH_LEN_def rd32_def rd16_def ip_hdr_of_def)
  have q: "p = (eth @ ip @ prt) @ bytes32 (be32toh (ucast seq)) @ off @ mem16 d @ urg" "length (eth @ ip @ prt) = 42"
    using l li by (simp_all add: p_def xs_def)
  have "rd32 p 42 = be32toh (ucast seq)"
    using rd32_bytes32 [of "eth @ ip @ prt"] unfolding q(2) q(1) by simp
  then have ack: "EKA_TCPH_ACKNO p = ucast seq" by (simp add: EKA_TCPH_ACKNO_def)
  have other: "p ! i = pkt ! i" if "i < 54" "i \<notin> {16, 17, 24, 25, 42, 43, 44, 45, 50, 51}" for i
  proof -
    have "i \<noteq> 16" "i \<noteq> 17" "i \<noteq> 24" "i \<noteq> 25" "i \<noteq> 42" "i \<noteq> 43" "i \<noteq> 44" "i \<noteq> 45" "i \<noteq> 50" "i \<noteq> 51"
      using that(2) by auto
    then have side: "i < 16 \<or> 18 \<le> i" "i < 24 \<or> 26 \<le> i" "i < 42 \<or> 46 \<le> i" "i < 50 \<or> 52 \<le> i" by presburger+
    have "pkt ! i = take HdrSize pkt ! i" using that(1) by (simp add: HdrSize_def)
    also have "\<dots> = ((eth @ ver) @ mem16 (be16toh 40) @ (ident @ ck @ addrs @ prt @ ackno @ off @ tck @ urg)) ! i"
      using nth_other_field [of len "mem16 (be16toh 40)" i "eth @ ver"] side l unfolding pkt by simp
    also have "\<dots> = ((eth @ ver @ mem16 (be16toh 40) @ ident) @ mem16 c @ (addrs @ prt @ ackno @ off @ tck @ urg)) ! i"
      using nth_other_field [of ck "mem16 c" i "eth @ ver @ mem16 (be16toh 40) @ ident"] side l by simp
    also have "\<dots> = ((eth @ ver @ mem16 (be16toh 40) @ ident @ mem16 c @ addrs @ prt) @ bytes32 (be32toh (ucast seq)) @ (off @ tck @ urg)) ! i"
      using nth_other_field [of ackno "bytes32 (be32toh (ucast seq))" i "eth @ ver @ mem16 (be16toh 40) @ ident @ mem16 c @ addrs @ prt"] side l by simp
    also have "\<dots> = ((eth @ ver @ mem16 (be16toh 40) @ ident @ mem16 c @ addrs @ prt @ bytes32 (be32toh (ucast seq)) @ off) @ mem16 d @ urg) ! i"
      using nth_other_field [of tck "mem16 d" i "eth @ ver @ mem16 (be16toh 40) @ ident @ mem16 c @ addrs @ prt @ bytes32 (be32toh (ucast seq)) @ off"] side l by simp
    also have "\<dots> = p ! i" by (simp add: p_def ip_def xs_def)
    finally show ?thesis by simp
  qed
  show ?thesis using r lp drops ip0 tcp0 addrs ack other by (intro exI [of _ p]) (simp add: HdrSize_def)
qed

text \<open>
  C20. While lwIP has not yet sent what the peer acknowledges, it is given an acknowledgement of what it has sent: the
  packet that \<open>insertEmptyRemoteAck\<close> makes from the received one is a segment without data that acknowledges the low 32
  bits of the given number, its IP and its TCP checksum verify, and apart from the length, the acknowledgement
  number and the checksums its headers are those of the received packet. (The header length is copied too: of
  a received packet with TCP options it stays above 20 although the options are cut off.)\<close>

theorem insertEmptyRemoteAck_valid:
  assumes "HdrSize \<le> length pkt"
  shows "\<exists>p. insertEmptyRemoteAck seq pkt = Inr p \<and> length p = HdrSize \<and>
    (\<forall>i < HdrSize. i \<notin> {16, 17, 24, 25, 42, 43, 44, 45, 50, 51} \<longrightarrow> p ! i = pkt ! i) \<and>
    EKA_IPH_LEN p = 40 \<and> EKA_TCPH_ACKNO p = ucast seq \<and> inet_chksum a (take 20 (drop 14 p)) = 0 \<and>
    inet_chksum_pseudo [(a, drop 34 p)] EKA_PROTO_TCP 20 (EKA_IPH_SRC p) (EKA_IPH_DST p) = 0"
  using assms by (rule insertEmptyRemoteAck_segment)

theorem insertEmptyRemoteAck_valid_witness:
  "\<exists>p. insertEmptyRemoteAck 0x123456789 (replicate 60 7) = Inr p \<and> length p = 54 \<and> EKA_TCPH_ACKNO p = 0x23456789"
  using insertEmptyRemoteAck_valid [of "replicate 60 7" "0x123456789" 0] by (auto simp: HdrSize_def)

text \<open>The loop up to the round that ends it.\<close>

lemma insertEmptyRemoteAck_ok: "HdrSize \<le> length pkt \<Longrightarrow> \<exists>p. insertEmptyRemoteAck seq pkt = Inr p"
  using insertEmptyRemoteAck_segment [of pkt seq 0] by blast

lemma rx_wait_result:
  "rx_wait seen pkt s = Inr (ps, s') \<Longrightarrow>
     \<exists>xs. list_all2 (\<lambda>x p. insertEmptyRemoteAck x pkt = Inr p) xs ps \<and>
       (\<forall>x \<in> set xs. \<exists>tx1 tx2. (True, tx1, tx2, x) \<in> set seen \<and> tx1 < realTcpRemoteAckNum s) \<and>
       ((\<forall>(_, _, tx2, tx3) \<in> set seen. tx2 \<le> tx3) \<longrightarrow> sorted_wrt (<) (lastInsertedEmptyAck s # xs)) \<and>
       (\<exists>active tx txs. (active, tx, txs) \<in> set seen \<and> (\<not> active \<or> realTcpRemoteAckNum s \<le> tx) \<and>
         s' = s\<lparr>realTxDriverBytes := tx, lastInsertedEmptyAck := last (lastInsertedEmptyAck s # xs)\<rparr>)"
proof (induction seen arbitrary: s ps)
  case Nil
  then show ?case by simp
next
  case (Cons r seen)
  obtain active tx1 tx2 tx3 where r: "r = (active, tx1, tx2, tx3)" by (cases r) auto
  show ?case
  proof (cases "active \<and> realTcpRemoteAckNum s > tx1")
    case False
    then have "ps = [] \<and> s' = s\<lparr>realTxDriverBytes := tx1\<rparr>" using Cons.prems by (auto simp: r Let_def)
    then show ?thesis using False
      by (intro exI [of _ "[]"] conjI exI [of _ active] exI [of _ tx1] exI [of _ "(tx2, tx3)"]) (auto simp: r)
  next
    case True
    show ?thesis
    proof (cases "tx2 > lastInsertedEmptyAck s")
      case skip: False
      define s1 where "s1 = s\<lparr>realTxDriverBytes := tx2\<rparr>"
      have f: "realTcpRemoteAckNum s1 = realTcpRemoteAckNum s" "lastInsertedEmptyAck s1 = lastInsertedEmptyAck s" by (simp_all add: s1_def)
      have "rx_wait seen pkt s1 = Inr (ps, s')" using skip Cons.prems True by (simp add: r Let_def s1_def)
      from Cons.IH [OF this, unfolded f] obtain xs a t ts where ih: "list_all2 (\<lambda>x p. insertEmptyRemoteAck x pkt = Inr p) xs ps"
        "\<forall>x \<in> set xs. \<exists>tx1 tx2. (True, tx1, tx2, x) \<in> set seen \<and> tx1 < realTcpRemoteAckNum s"
        "(\<forall>(_, _, tx2, tx3) \<in> set seen. tx2 \<le> tx3) \<longrightarrow> sorted_wrt (<) (lastInsertedEmptyAck s # xs)"
        "(a, t, ts) \<in> set seen" "\<not> a \<or> realTcpRemoteAckNum s \<le> t"
        "s' = s1\<lparr>realTxDriverBytes := t, lastInsertedEmptyAck := last (lastInsertedEmptyAck s # xs)\<rparr>" by blast
      have "s' = s\<lparr>realTxDriverBytes := t, lastInsertedEmptyAck := last (lastInsertedEmptyAck s # xs)\<rparr>" unfolding ih(6) s1_def by simp
      moreover have "\<forall>x \<in> set xs. \<exists>tx1 tx2. (True, tx1, tx2, x) \<in> set (r # seen) \<and> tx1 < realTcpRemoteAckNum s"
        using ih(2) by (meson list.set_intros(2))
      moreover have "(\<forall>(_, _, tx2, tx3) \<in> set (r # seen). tx2 \<le> tx3) \<longrightarrow> sorted_wrt (<) (lastInsertedEmptyAck s # xs)"
        using ih(3) by simp
      moreover have "(a, t, ts) \<in> set (r # seen)" using ih(4) by simp
      ultimately show ?thesis using ih(1,5) by blast
    next
      case ins: True
      define s1 where "s1 = s\<lparr>realTxDriverBytes := tx3, lastInsertedEmptyAck := tx3\<rparr>"
      have f: "realTcpRemoteAckNum s1 = realTcpRemoteAckNum s" "lastInsertedEmptyAck s1 = tx3" by (simp_all add: s1_def)
      obtain p qs where p: "insertEmptyRemoteAck tx3 pkt = Inr p" "rx_wait seen pkt s1 = Inr (qs, s')" "ps = p # qs"
        using Cons.prems True ins by (auto simp: r Let_def obind_Inr_iff s1_def)
      from Cons.IH [OF p(2), unfolded f] obtain xs a t ts where ih: "list_all2 (\<lambda>x p. insertEmptyRemoteAck x pkt = Inr p) xs qs"
        "\<forall>x \<in> set xs. \<exists>tx1 tx2. (True, tx1, tx2, x) \<in> set seen \<and> tx1 < realTcpRemoteAckNum s"
        "(\<forall>(_, _, tx2, tx3) \<in> set seen. tx2 \<le> tx3) \<longrightarrow> sorted_wrt (<) (tx3 # xs)"
        "(a, t, ts) \<in> set seen" "\<not> a \<or> realTcpRemoteAckNum s \<le> t"
        "s' = s1\<lparr>realTxDriverBytes := t, lastInsertedEmptyAck := last (tx3 # xs)\<rparr>" by blast
      have "list_all2 (\<lambda>x p. insertEmptyRemoteAck x pkt = Inr p) (tx3 # xs) ps" using ih(1) p(1,3) by simp
      moreover have "\<forall>x \<in> set (tx3 # xs). \<exists>tx1 tx2. (True, tx1, tx2, x) \<in> set (r # seen) \<and> tx1 < realTcpRemoteAckNum s"
      proof (intro ballI)
        fix x assume "x \<in> set (tx3 # xs)"
        then consider "x = tx3" | "x \<in> set xs" by auto
        then show "\<exists>tx1 tx2. (True, tx1, tx2, x) \<in> set (r # seen) \<and> tx1 < realTcpRemoteAckNum s"
        proof cases
          case 1
          then have "(True, tx1, tx2, x) \<in> set (r # seen)" using True r by simp
          then show ?thesis using True by blast
        next
          case 2
          then show ?thesis using ih(2) by (meson list.set_intros(2))
        qed
      qed
      moreover have "(\<forall>(_, _, tx2, tx3) \<in> set (r # seen). tx2 \<le> tx3) \<longrightarrow> sorted_wrt (<) (lastInsertedEmptyAck s # tx3 # xs)"
        using ih(3) ins by (auto simp: r)
      moreover have "(a, t, ts) \<in> set (r # seen)" using ih(4) by simp
      moreover have "s' = s\<lparr>realTxDriverBytes := t, lastInsertedEmptyAck := last (lastInsertedEmptyAck s # tx3 # xs)\<rparr>"
        unfolding ih(6) s1_def by simp
      ultimately show ?thesis using ih(5) by blast
    qed
  qed
qed

lemma rx_wait_step:
  assumes "HdrSize \<le> length pkt" "tx1 < realTcpRemoteAckNum s"
  shows "\<exists>p s1 s2. insertEmptyRemoteAck tx3 pkt = Inr p \<and>
    realTcpRemoteAckNum s1 = realTcpRemoteAckNum s \<and> realTcpRemoteAckNum s2 = realTcpRemoteAckNum s \<and>
    rx_wait ((True, tx1, tx2, tx3) # seen) pkt s = (if tx2 > lastInsertedEmptyAck s
      then obind (rx_wait seen pkt s2) (\<lambda>(ps, s). Inr (p # ps, s)) else rx_wait seen pkt s1)"
proof -
  obtain p where p: "insertEmptyRemoteAck tx3 pkt = Inr p" using insertEmptyRemoteAck_ok [OF assms(1)] by blast
  show ?thesis
    by (rule exI [of _ p], rule exI [of _ "s\<lparr>realTxDriverBytes := tx2\<rparr>"], rule exI [of _ "s\<lparr>realTxDriverBytes := tx3, lastInsertedEmptyAck := tx3\<rparr>"])
      (use assms(2) p in \<open>simp add: Let_def\<close>)
qed

lemma rx_wait_returns:
  "HdrSize \<le> length pkt \<Longrightarrow> \<exists>(active, tx, _) \<in> set seen. \<not> active \<or> realTcpRemoteAckNum s \<le> tx \<Longrightarrow> \<exists>ps s'. rx_wait seen pkt s = Inr (ps, s')"
proof (induction seen arbitrary: s)
  case Nil
  then show ?case by simp
next
  case (Cons r seen)
  obtain active tx1 tx2 tx3 where r: "r = (active, tx1, tx2, tx3)" by (cases r) auto
  show ?case
  proof (cases "active \<and> tx1 < realTcpRemoteAckNum s")
    case False
    then show ?thesis by (auto simp: r Let_def)
  next
    case True
    then have rT: "r = (True, tx1, tx2, tx3)" by (simp add: r)
    have rec: "\<exists>ps s'. rx_wait seen pkt s1 = Inr (ps, s')" if "realTcpRemoteAckNum s1 = realTcpRemoteAckNum s" for s1
      using Cons.IH [OF Cons.prems(1), of s1] Cons.prems(2) that True by (auto simp: rT)
    obtain p s1 s2 where e: "realTcpRemoteAckNum s1 = realTcpRemoteAckNum s" "realTcpRemoteAckNum s2 = realTcpRemoteAckNum s"
      "rx_wait (r # seen) pkt s = (if tx2 > lastInsertedEmptyAck s
         then obind (rx_wait seen pkt s2) (\<lambda>(ps, s). Inr (p # ps, s)) else rx_wait seen pkt s1)"
      using rx_wait_step [OF Cons.prems(1) conjunct2 [OF True], of tx3 tx2 seen] unfolding rT by blast
    obtain q1 q2 q3 q4 where "rx_wait seen pkt s1 = Inr (q1, q2)" "rx_wait seen pkt s2 = Inr (q3, q4)"
      using rec [OF e(1)] rec [OF e(2)] by blast
    then show ?thesis unfolding e(3) by simp
  qed
qed

lemma rx_wait_stuck:
  "HdrSize \<le> length pkt \<Longrightarrow> \<forall>(active, tx, _) \<in> set seen. active \<and> tx < realTcpRemoteAckNum s \<Longrightarrow> rx_wait seen pkt s = Inl Diverges"
proof (induction seen arbitrary: s)
  case Nil
  then show ?case by simp
next
  case (Cons r seen)
  obtain tx1 tx2 tx3 where r: "r = (True, tx1, tx2, tx3)" "tx1 < realTcpRemoteAckNum s" using Cons.prems(2) by (cases r) auto
  have rec: "rx_wait seen pkt s1 = Inl Diverges" if "realTcpRemoteAckNum s1 = realTcpRemoteAckNum s" for s1
    using Cons.IH [OF Cons.prems(1), of s1] Cons.prems(2) that by simp
  obtain p s1 s2 where e: "realTcpRemoteAckNum s1 = realTcpRemoteAckNum s" "realTcpRemoteAckNum s2 = realTcpRemoteAckNum s"
    "rx_wait (r # seen) pkt s = (if tx2 > lastInsertedEmptyAck s
       then obind (rx_wait seen pkt s2) (\<lambda>(ps, s). Inr (p # ps, s)) else rx_wait seen pkt s1)"
    using rx_wait_step [OF Cons.prems(1) r(2), of tx3 tx2 seen] unfolding r(1) by blast
  show ?case unfolding e(3) by (simp add: rec [OF e(1)] rec [OF e(2)])
qed

text \<open>lwIP sends between the loads of one round.\<close>

lemma rx_wait_race:
  assumes "HdrSize \<le> length pkt" "tx1 < realTcpRemoteAckNum s" "lastInsertedEmptyAck s < tx2" "realTcpRemoteAckNum s < tx3"
  shows "\<exists>p s'. rx_wait ((True, tx1, tx2, tx3) # (True, tx3, txs) # seen) pkt s = Inr ([p], s') \<and> EKA_TCPH_ACKNO p = ucast tx3"
proof -
  obtain p where p: "insertEmptyRemoteAck tx3 pkt = Inr p" "EKA_TCPH_ACKNO p = ucast tx3"
    using insertEmptyRemoteAck_segment [OF assms(1), of tx3 0] by blast
  have "\<not> tx3 < realTcpRemoteAckNum s" using assms(4) by simp
  then show ?thesis using p assms(2,3) by (cases txs) (simp add: Let_def)
qed

definition acked :: "u8 list \<Rightarrow> TcpSess \<Rightarrow> TcpSess" where
  "acked pkt s = s\<lparr>tcpRemoteAckNum := EKA_TCPH_ACKNO pkt, tcpSndWnd := push_bit (unat (tcpSndWndShift s)) (ucast (EKA_TCPH_WND pkt)),
     realTcpRemoteAckNum := seq32to64 (realTcpRemoteAckNum s) (tcpRemoteAckNum s) (EKA_TCPH_ACKNO pkt) 0\<rparr>"

lemma updateRx_eq:
  "HdrSize \<le> length pkt \<Longrightarrow> \<not> EKA_TCP_SYN pkt \<Longrightarrow> tcpSndWndShift s < 32 \<Longrightarrow> updateRx seen pkt s = rx_wait seen pkt (acked pkt s)"
  by (cases "rx_wait seen pkt (acked pkt s)") (auto simp: updateRx_def acked_def Let_def obind_def)



section \<open>Frames from lwIP\<close>

text \<open>What the driver has sent for lwIP agrees with its sequence number.\<close>

definition driver_in_step :: "TcpSess \<Rightarrow> bool" where
  "driver_in_step s \<longleftrightarrow> ucast (realTxDriverBytes s) = tcpLocalSeqNum s"

definition remote_ctx_addr :: "TcpSess \<Rightarrow> nat" where
  "remote_ctx_addr s = 0x40000 + 0x4000 * unat (s_coreId s) + 0x2000 + unat (s_sessId s) * 8"

lemma setRemoteSeqWnd2FPGA_eq:
  "setRemoteSeqWnd2FPGA s dev = dev\<lparr>epm := eka_write (remote_ctx_addr s) (ucast (tcpRemoteSeqNum s) OR push_bit 32 (ucast (tcpRcvWnd s))) (epm dev)\<rparr>"
  by (simp add: setRemoteSeqWnd2FPGA_def updateFpgaCtx_def remote_ctx_addr_def Let_def)

lemma sess_action_send:
  assumes "a_table (epm dev) gi = Some act"
  shows "sess_action (Some gi) send_op dev = Inr (dev\<lparr>epm := snd (send (act, epm dev))\<rparr>)"
proof -
  have t: "a_table (snd (send (act, epm dev))) = a_table (epm dev)"
    by (simp add: send_def send_desc_def Let_def split_beta eka_write_def)
  have "(a_table (epm dev))(gi := Some act) = a_table (epm dev)" using assms by auto
  then show ?thesis using assms t by (simp add: sess_action_def on_action_def send_op_def)
qed

text \<open>
  C12. New data of an established session leaves the host through the FPGA only: a frame of lwIP that is neither a SYN, a FIN nor a
  retransmission (a frame with a sequence number before that of the session) is dropped. The heap and the actions stay as they are; the card
  gets nothing, or, when the frame acknowledges something new, the new acknowledgement number (with the receive window of the handshake) and
  the trigger of the empty acknowledgement of the session. The session counts the payload of a TCP frame that continues its stream
  exactly where the session stands, so that the number of bytes that the driver has sent keeps agreeing with the sequence number. A FIN or a
  retransmission changes nothing of the session and goes out through the control session. A SYN goes out that way too; it sets
  the sequence number and all counters of the session to the number after its own.\<close>

theorem stack_frames:
  assumes "HdrSize \<le> length pkt" and "connectionEstablished s"
    and "emptyAckAction s = Some gi" and "a_table (epm dev) gi = Some act"
  shows "(\<not> EKA_TCP_SYN pkt \<and> \<not> EKA_TCP_FIN pkt \<and> \<not> TCP_SEQ_LT (EKA_TCPH_SEQNO pkt) (tcpLocalSeqNum s) \<longrightarrow>
      (\<exists>s' dev'. sendStackEthFrame ctl pkt (s, dev) = Inr (s', dev') \<and> heap (epm dev') = heap (epm dev) \<and> a_table (epm dev') = a_table (epm dev) \<and>
        hw (epm dev') = hw (epm dev) @ (if tcpRemoteSeqNum s = EKA_TCPH_ACKNO pkt then []
          else [RegWrite (remote_ctx_addr s) (ucast (EKA_TCPH_ACKNO pkt) OR push_bit 32 (ucast (tcpRcvWnd s))),
            RegWrite 0xf0230 (epm_trig_desc (act_tcpCSum act) (of_nat (act_idx act)) (ucast (act_pktSize act)) (of_nat (act_regionId act)))]) \<and>
        tcpRemoteSeqNum s' = EKA_TCPH_ACKNO pkt \<and>
        (driver_in_step s \<and> EKA_IS_TCP_PKT pkt \<and> EKA_TCPH_SEQNO pkt = tcpLocalSeqNum s \<longrightarrow>
          driver_in_step s' \<and> realTxDriverBytes s' = realTxDriverBytes s + ucast (EKA_TCP_PAYLOAD_LEN pkt)))) \<and>
    (\<not> EKA_TCP_SYN pkt \<and> (EKA_TCP_FIN pkt \<or> TCP_SEQ_LT (EKA_TCPH_SEQNO pkt) (tcpLocalSeqNum s)) \<longrightarrow>
      sendStackEthFrame ctl pkt (s, dev) = obind (sendEthFrame ctl pkt dev) (\<lambda>(_, dev). Inr (s, dev))) \<and>
    (EKA_TCP_SYN pkt \<longrightarrow>
      (\<exists>s'. sendStackEthFrame ctl pkt (s, dev) = obind (sendEthFrame ctl pkt (setLocalSeqWnd2FPGA s' dev)) (\<lambda>(_, dev). Inr (s', dev)) \<and>
        tcpLocalSeqNum s' = EKA_TCPH_SEQNO pkt + 1 \<and> tcpRcvWnd s' = EKA_TCPH_WND pkt \<and>
        {realTcpRemoteAckNum s', realFastPathBytes s', realTxDriverBytes s', realDummyBytes s'} = {ucast (EKA_TCPH_SEQNO pkt + 1)} \<and>
        tcpRemoteSeqNum s' = tcpRemoteSeqNum s \<and> driver_in_step s'))"
proof -
  define n where "n = EKA_TCPH_ACKNO pkt"
  define s1 where "s1 = s\<lparr>tcpRemoteSeqNum := n\<rparr>"
  define dev1 where "dev1 = (if tcpRemoteSeqNum s = n then dev
    else (let dev = setRemoteSeqWnd2FPGA s1 dev in dev\<lparr>epm := snd (send (act, epm dev))\<rparr>))"
  define s2 where "s2 = s1\<lparr>tcpLocalSeqNum := EKA_TCPH_SEQNO pkt + ucast (EKA_TCP_PAYLOAD_LEN pkt)\<rparr>"
  define s3 where "s3 = (if EKA_IS_TCP_PKT pkt then s2\<lparr>realTxDriverBytes := realTxDriverBytes s2 + ucast (EKA_TCP_PAYLOAD_LEN pkt)\<rparr> else s2)"
  have same: "s1 = s" if "tcpRemoteSeqNum s = n" using that by (simp add: s1_def)
  have call: "sess_action (emptyAckAction s1) send_op (setRemoteSeqWnd2FPGA s1 dev) =
      Inr (let dev = setRemoteSeqWnd2FPGA s1 dev in dev\<lparr>epm := snd (send (act, epm dev))\<rparr>)"
    using assms(3,4) sess_action_send [of "setRemoteSeqWnd2FPGA s1 dev" gi act]
    by (simp add: Let_def s1_def setRemoteSeqWnd2FPGA_eq eka_write_def)
  have "sendStackEthFrame ctl pkt (s, dev) = Inr (s3, dev1)"
    if "\<not> EKA_TCP_SYN pkt" "\<not> EKA_TCP_FIN pkt" "\<not> TCP_SEQ_LT (EKA_TCPH_SEQNO pkt) (tcpLocalSeqNum s)"
  proof -
    have "(if tcpRemoteSeqNum s \<noteq> n then obind (sess_action (emptyAckAction s1) send_op (setRemoteSeqWnd2FPGA s1 dev)) (\<lambda>dev. Inr (s1, dev))
        else Inr (s, dev)) = Inr (s1, dev1)"
      using call same by (simp add: dev1_def)
    then show ?thesis using assms(1,2) that
      unfolding sendStackEthFrame_def Let_def prod.case n_def [symmetric] s1_def [symmetric]
      by (simp add: s2_def s3_def)
  qed
  moreover have "heap (epm dev1) = heap (epm dev)" "a_table (epm dev1) = a_table (epm dev)"
    "hw (epm dev1) = hw (epm dev) @ (if tcpRemoteSeqNum s = n then []
       else [RegWrite (remote_ctx_addr s) (ucast n OR push_bit 32 (ucast (tcpRcvWnd s))),
         RegWrite 0xf0230 (epm_trig_desc (act_tcpCSum act) (of_nat (act_idx act)) (ucast (act_pktSize act)) (of_nat (act_regionId act)))])"
    by (simp_all add: dev1_def s1_def setRemoteSeqWnd2FPGA_eq eka_write_def send_def send_desc_def Let_def remote_ctx_addr_def)
  moreover have "driver_in_step s3 \<and> realTxDriverBytes s3 = realTxDriverBytes s + ucast (EKA_TCP_PAYLOAD_LEN pkt)"
    if "driver_in_step s" "EKA_IS_TCP_PKT pkt" "EKA_TCPH_SEQNO pkt = tcpLocalSeqNum s"
  proof -
    have "(ucast (a + b) :: u32) = ucast a + ucast b" for a b :: u64
      by (simp add: word_unat_eq_iff unat_word_ariths unsigned_ucast_eq take_bit_eq_mod mod_mod_cancel mod_simps)
    moreover have "(ucast (ucast (x :: u16) :: u64) :: u32) = ucast x" for x by (rule bit_word_eqI) (auto simp: bit_simps)
    ultimately show ?thesis using that by (simp add: driver_in_step_def s3_def s2_def s1_def)
  qed
  moreover have "tcpRemoteSeqNum s3 = n" by (simp add: s3_def s2_def s1_def)
  moreover have "sendStackEthFrame ctl pkt (s, dev) = obind (sendEthFrame ctl pkt dev) (\<lambda>(_, dev). Inr (s, dev))"
    if "\<not> EKA_TCP_SYN pkt" "EKA_TCP_FIN pkt \<or> TCP_SEQ_LT (EKA_TCPH_SEQNO pkt) (tcpLocalSeqNum s)"
    using assms(1,2) that by (auto simp: sendStackEthFrame_def)
  moreover have "\<exists>s'. sendStackEthFrame ctl pkt (s, dev) = obind (sendEthFrame ctl pkt (setLocalSeqWnd2FPGA s' dev)) (\<lambda>(_, dev). Inr (s', dev)) \<and>
        tcpLocalSeqNum s' = EKA_TCPH_SEQNO pkt + 1 \<and> tcpRcvWnd s' = EKA_TCPH_WND pkt \<and>
        {realTcpRemoteAckNum s', realFastPathBytes s', realTxDriverBytes s', realDummyBytes s'} = {ucast (EKA_TCPH_SEQNO pkt + 1)} \<and>
        tcpRemoteSeqNum s' = tcpRemoteSeqNum s \<and> driver_in_step s'" if syn: "EKA_TCP_SYN pkt"
  proof -
    let ?k = "EKA_TCPH_SEQNO pkt + 1"
    let ?s' = "s\<lparr>tcpLocalSeqNum := ?k, realTcpRemoteAckNum := ucast ?k, realFastPathBytes := ucast ?k, realTxDriverBytes := ucast ?k,
               realDummyBytes := ucast ?k, tcpRcvWnd := EKA_TCPH_WND pkt\<rparr>"
    have "sendStackEthFrame ctl pkt (s, dev) = obind (sendEthFrame ctl pkt (setLocalSeqWnd2FPGA ?s' dev)) (\<lambda>(_, dev). Inr (?s', dev))"
      using assms(1) syn by (simp add: sendStackEthFrame_def Let_def)
    moreover have "(ucast (ucast x :: u64) :: u32) = x" for x :: u32 by (rule bit_word_eqI) (auto simp: bit_simps)
    ultimately show ?thesis by (intro exI [of _ ?s']) (simp add: driver_in_step_def)
  qed
  ultimately show ?thesis unfolding n_def by blast
qed

definition demo_pkt :: "u8 list" where
  "demo_pkt = replicate 12 2 @ [8, 0, 0x45, 0, 0, 50, 0, 0, 0x40, 0, 0x80, 6, 0, 0, 10, 0, 0, 1, 10, 0, 0, 2,
     0x0f, 0xa0, 0x13, 0x88, 0, 0, 0, 100, 0, 0, 3, 32, 0x50, 0x10, 4, 0, 0, 0, 0, 0] @ replicate 10 9"

theorem stack_frames_witness:
  "\<exists>s' dev'. sendStackEthFrame demo_tcp demo_pkt (demo_tcp, demo_dev\<lparr>epm := demo_epm\<lparr>a_table := [3328 \<mapsto> demo_action]\<rparr>\<rparr>) = Inr (s', dev') \<and>
     realTxDriverBytes s' = 110 \<and> tcpRemoteSeqNum s' = 800"
proof -
  let ?dev = "demo_dev\<lparr>epm := demo_epm\<lparr>a_table := [3328 \<mapsto> demo_action]\<rparr>\<rparr>"
  have f: "rd16 demo_pkt 46 = 0x1050" "rd16 demo_pkt 16 = 0x3200" "rd16 demo_pkt 12 = 0x0008" "demo_pkt ! 14 = 0x45" "demo_pkt ! 23 = 6"
    "rd32 demo_pkt 38 = 0x64000000" "rd32 demo_pkt 42 = 0x20030000"
    by (simp_all add: demo_pkt_def rd16_def rd32_def le16_def le32_def nth_append)
  have a: "EKA_TCPH_SEQNO demo_pkt = 100" "EKA_TCPH_ACKNO demo_pkt = 800" "EKA_TCPH_FLAGS demo_pkt = 0x10" "EKA_TCP_PAYLOAD_LEN demo_pkt = 10"
    "EKA_IS_TCP_PKT demo_pkt"
    by (simp_all add: EKA_TCPH_SEQNO_def EKA_TCPH_ACKNO_def EKA_TCPH_FLAGS_def EKA_TCP_PAYLOAD_LEN_def EKA_IPH_LEN_def EKA_IPH_HL_BYTES_def
        EKA_TCPH_HDRLEN_BYTES_def EKA_IS_TCP_PKT_def f be32toh_def be16toh_def EKA_PROTO_TCP_def)
  have h: "HdrSize \<le> length demo_pkt" "\<not> EKA_TCP_SYN demo_pkt" "\<not> EKA_TCP_FIN demo_pkt" "connectionEstablished demo_tcp"
    "emptyAckAction demo_tcp = Some 3328" "a_table (epm ?dev) 3328 = Some demo_action" "\<not> TCP_SEQ_LT (EKA_TCPH_SEQNO demo_pkt) (tcpLocalSeqNum demo_tcp)"
    "driver_in_step demo_tcp" "EKA_TCPH_SEQNO demo_pkt = tcpLocalSeqNum demo_tcp" "realTxDriverBytes demo_tcp = 100"
    by (simp_all add: a EKA_TCP_SYN_def EKA_TCP_FIN_def TCP_SEQ_LT_def demo_tcp_def driver_in_step_def) (simp add: HdrSize_def demo_pkt_def)
  from mp [OF conjunct1 [OF stack_frames [OF h(1,4-6), where ctl = demo_tcp]] conjI [OF h(2) conjI [OF h(3,7)]]] show ?thesis
    using h(8-10) a by (elim exE conjE) (intro exI conjI; simp)
qed

end
