(* ===== verification/EkaCore.thy ===== *)
theory EkaCore
  imports EkaTcp EkaUserReportQ
begin

text \<open>
  The cores of the device and their tables of TCP sessions: classes \<open>EkaCore\<close> (\<open>src/src/EkaCore.h\<close>, \<open>EkaCore.cpp\<close>) and
  \<open>EkaDev\<close> (\<open>EkaDev.cpp\<close>), the constructor and destructor of \<open>EkaTcpSess\<close>, and the dispatch of packets: of lwIP's frames
  and of received packets in \<open>EkaTcp.cpp\<close>, and of the reports of the card in \<open>EkaServThread.cpp\<close>. The state is the map of
  the cores, each with the map of its sessions, and the device of the sessions. What a packet makes the code give to
  lwIP is returned as a list of the cores and the packets.
\<close>

section \<open>State\<close>

record EkaCore =
  coreId :: u8
  c_srcIp :: u32
  c_macSa :: "u8 list"
  connectedL1Switch :: bool
  pLwipNetIf :: bool
  tcpSess :: "nat \<Rightarrow> TcpSess option"

type_synonym cores = "nat \<Rightarrow> EkaCore option"

section \<open>Tables of sessions\<close>

definition myParams :: "u32 \<Rightarrow> u16 \<Rightarrow> u32 \<Rightarrow> u16 \<Rightarrow> TcpSess \<Rightarrow> bool" where
  "myParams srcIp srcPort dstIp dstPort s \<longleftrightarrow>
     srcIp = s_srcIp s \<and> srcPort = s_srcPort s \<and> dstIp = s_dstIp s \<and> dstPort = s_dstPort s"

definition myParams_sock :: "int \<Rightarrow> TcpSess \<Rightarrow> bool" where
  "myParams_sock fd s \<longleftrightarrow> sock s = fd"

text \<open>The loop of both versions of \<open>EkaCore::findTcpSess\<close>.\<close>

fun sess_loop :: "(TcpSess \<Rightarrow> bool) \<Rightarrow> (nat \<Rightarrow> TcpSess option) \<Rightarrow> nat list \<Rightarrow> nat option" where
  "sess_loop P tab [] = None"
| "sess_loop P tab (i # is) =
     (case tab i of None \<Rightarrow> sess_loop P tab is | Some s \<Rightarrow> if P s then Some i else sess_loop P tab is)"

definition core_findTcpSess :: "(TcpSess \<Rightarrow> bool) \<Rightarrow> EkaCore \<Rightarrow> nat option" where
  "core_findTcpSess P core = sess_loop P (tcpSess core) [0..<MAX_SESS_PER_CORE]"

fun core_loop :: "(TcpSess \<Rightarrow> bool) \<Rightarrow> cores \<Rightarrow> nat list \<Rightarrow> (nat \<times> nat) option" where
  "core_loop P cores [] = None"
| "core_loop P cores (c # cs) =
     (case cores c of None \<Rightarrow> core_loop P cores cs
      | Some core \<Rightarrow> (case core_findTcpSess P core of Some i \<Rightarrow> Some (c, i) | None \<Rightarrow> core_loop P cores cs))"

definition findTcpSess :: "u32 \<Rightarrow> u16 \<Rightarrow> u32 \<Rightarrow> u16 \<Rightarrow> cores \<Rightarrow> (nat \<times> nat) option" where
  "findTcpSess srcIp srcPort dstIp dstPort cores = core_loop (myParams srcIp srcPort dstIp dstPort) cores [0..<MAX_CORES]"

definition findTcpSess_sock :: "int \<Rightarrow> cores \<Rightarrow> (nat \<times> nat) option" where
  "findTcpSess_sock fd cores = core_loop (myParams_sock fd) cores [0..<MAX_CORES]"

fun mac_loop :: "u8 list \<Rightarrow> cores \<Rightarrow> nat list \<Rightarrow> int" where
  "mac_loop mac cores [] = - 1"
| "mac_loop mac cores (c # cs) =
     (case cores c of None \<Rightarrow> mac_loop mac cores cs
      | Some core \<Rightarrow> if c_macSa core = take 6 mac then int c else mac_loop mac cores cs)"

text \<open>\<open>0xFF\<close> as an \<open>EkaCoreId\<close>, a signed byte, is -1.\<close>

definition findCoreByMacSa :: "u8 list \<Rightarrow> cores \<Rightarrow> int" where
  "findCoreByMacSa mac cores = mac_loop mac cores [0..<MAX_CORES]"

definition getControlTcpSess :: "nat \<Rightarrow> cores \<Rightarrow> TcpSess outcome" where
  "getControlTcpSess c cores =
     (case cores c of None \<Rightarrow> Inl InvalidAccess
      | Some core \<Rightarrow> (case tcpSess core CONTROL_SESS_ID of None \<Rightarrow> Inl InvalidAccess | Some s \<Rightarrow> Inr s))"

fun free_loop :: "(nat \<Rightarrow> TcpSess option) \<Rightarrow> nat list \<Rightarrow> nat outcome" where
  "free_loop tab [] = on_error ''No free Tcp Sessions to allocate''"
| "free_loop tab (i # is) = (if tab i = None then Inr i else free_loop tab is)"

definition getFreeTcpSess :: "EkaCore \<Rightarrow> nat outcome" where
  "getFreeTcpSess core = free_loop (tcpSess core) [0..<MAX_SESS_PER_CORE]"

section \<open>Creation and deletion\<close>

definition sess_actionIdx :: "u8 \<Rightarrow> u8 \<Rightarrow> nat" where
  "sess_actionIdx core sess = unat core * TOTAL_SESSIONS_PER_CORE + unat sess"

definition add_sess_action :: "EpmActionType \<Rightarrow> nat \<Rightarrow> TcpSess \<Rightarrow> EkaDev \<Rightarrow> (nat \<times> EkaDev) outcome" where
  "add_sess_action t regionId s dev =
     obind (addAction t (sess_actionIdx (s_coreId s) (s_sessId s)) (int regionId) (epm dev)) (\<lambda>(gi, e).
     obind (on_action gi (setTcpSess (Some (EkaTcpSess.truncate s))) e) (\<lambda>e. Inr (gi, dev\<lparr>epm := e\<rparr>)))"

text \<open>
  The constructor of a session: \<open>sock0\<close> is the result of \<open>lwip_socket\<close> and \<open>rcvWnd0\<close> the value of the member
  \<open>tcpRcvWnd\<close>, which is not initialised.
\<close>

definition new_EkaTcpSess :: "bool \<Rightarrow> int \<Rightarrow> u16 \<Rightarrow> u8 \<Rightarrow> u8 \<Rightarrow> u32 \<Rightarrow> u32 \<Rightarrow> u16 \<Rightarrow> u8 list \<Rightarrow> EkaDev \<Rightarrow> (TcpSess \<times> EkaDev) outcome" where
  "new_EkaTcpSess epmEnabled sock0 rcvWnd0 core sess srcIp dstIp dstPort macSa dev =
     (let s = \<lparr>s_coreId = core, s_sessId = sess, s_macDa = [0, 0, 0, 0, 0, 0], s_macSa = take 6 macSa, s_srcIp = srcIp, s_dstIp = dstIp,
            s_srcPort = 0, s_dstPort = dstPort, sock = - 1, fastPathAction = None, fullPktAction = None, emptyAckAction = None,
            tcpRcvWnd = rcvWnd0, tcpSndWnd = 0, tcpSndWndShift = 0, mss = 0, tcpLocalSeqNum = 0, tcpRemoteSeqNum = 0, tcpRemoteAckNum = 0,
            realTcpRemoteAckNum = 0, realFastPathBytes = 0, realDummyBytes = 0, realTxDriverBytes = 0, lastInsertedEmptyAck = 0,
            txLwipBp = False, connectionEstablished = False, blocking = False\<rparr>
      in if \<not> epmEnabled then Inr (s, dev)
      else if sock0 < 0 then on_error ''error creating TCP socket''
      else let s = s\<lparr>sock := sock0\<rparr> in
        obind (if unat sess = CONTROL_SESS_ID
               then obind (add_sess_action TcpFullPkt TcpTxFullPkt s dev) (\<lambda>(gi, dev). Inr (s\<lparr>fullPktAction := Some gi\<rparr>, dev))
               else obind (add_sess_action TcpFastPath TcpTxFullPkt s dev) (\<lambda>(gi, dev). Inr (s\<lparr>fastPathAction := Some gi\<rparr>, dev)))
          (\<lambda>(s, dev). obind (add_sess_action TcpEmptyAck TcpTxEmptyAck s dev) (\<lambda>(gi, dev). Inr (s\<lparr>emptyAckAction := Some gi\<rparr>, dev))))"

text \<open>The destructor; \<open>lwip_close\<close> is lwIP's.\<close>

definition delete_EkaTcpSess :: "TcpSess \<Rightarrow> EkaDev \<Rightarrow> EkaDev outcome" where
  "delete_EkaTcpSess s dev =
     (let localIdx = sess_actionIdx (s_coreId s) (s_sessId s) in
      obind (deleteAction localIdx (int TcpTxFullPkt) (epm dev)) (\<lambda>e.
      obind (deleteAction localIdx (int TcpTxEmptyAck) e) (\<lambda>e. Inr (dev\<lparr>epm := e\<rparr>))))"

definition preloadNwHeaders :: "TcpSess \<Rightarrow> EkaDev \<Rightarrow> EkaDev outcome" where
  "preloadNwHeaders s dev =
     (let hdrs = setNwHdrs (s_macDa s) (s_macSa s) (s_srcIp s) (s_dstIp s) (s_srcPort s) (s_dstPort s) in
      obind (sess_action (emptyAckAction s) hdrs dev) (\<lambda>dev.
      obind (sess_action (emptyAckAction s) (\<lambda>(act, e). obind (copyHeap2Fpga act e) (\<lambda>e. Inr (act, e))) dev) (\<lambda>dev.
      if unat (s_sessId s) = CONTROL_SESS_ID then
        (if fastPathAction s \<noteq> None then on_error ''fastPathAction exists for CONTROL_SESS''
         else if fullPktAction s = None then on_error ''!fullPktAction for CONTROL_SESS''
         else sess_action (fullPktAction s) hdrs dev)
      else
        (if fullPktAction s \<noteq> None then on_error ''fullPktAction exists for CONTROL_SESS''
         else if fastPathAction s = None then on_error ''!fastPathAction for CONTROL_SESS''
         else sess_action (fastPathAction s) hdrs dev))))"

definition addTcpSess :: "bool \<Rightarrow> int \<Rightarrow> u16 \<Rightarrow> EkaCore \<times> EkaDev \<Rightarrow> (nat \<times> EkaCore \<times> EkaDev) outcome" where
  "addTcpSess epmEnabled sock0 rcvWnd0 cd =
     (let (core, dev) = cd in
      obind (getFreeTcpSess core) (\<lambda>sessId.
      obind (new_EkaTcpSess epmEnabled sock0 rcvWnd0 (coreId core) (of_nat sessId) (c_srcIp core) 0 0 (c_macSa core) dev) (\<lambda>(s, dev).
      Inr (sessId, core\<lparr>tcpSess := (tcpSess core)(sessId := Some s)\<rparr>, dev))))"

fun suppress_loop :: "nat \<Rightarrow> (TcpSess \<Rightarrow> bool) \<Rightarrow> nat list \<Rightarrow> EkaCore \<times> EkaDev \<Rightarrow> (EkaCore \<times> EkaDev) outcome" where
  "suppress_loop new P [] cd = Inr cd"
| "suppress_loop new P (i # is) (core, dev) =
     (if i = new then suppress_loop new P is (core, dev)
      else case tcpSess core i of None \<Rightarrow> suppress_loop new P is (core, dev)
      | Some s \<Rightarrow>
        if P s then obind (delete_EkaTcpSess s dev) (\<lambda>dev. suppress_loop new P is (core\<lparr>tcpSess := (tcpSess core)(i := None)\<rparr>, dev))
        else suppress_loop new P is (core, dev))"

definition suppressOldTcpSess :: "u8 \<Rightarrow> u32 \<Rightarrow> u16 \<Rightarrow> u32 \<Rightarrow> u16 \<Rightarrow> EkaCore \<times> EkaDev \<Rightarrow> (EkaCore \<times> EkaDev) outcome" where
  "suppressOldTcpSess newSessId srcIp srcPort dstIp dstPort cd =
     suppress_loop (unat newSessId) (\<lambda>s. s_srcIp s = srcIp \<and> s_srcPort s = srcPort \<and> s_dstIp s = dstIp \<and> s_dstPort s = dstPort)
       [0..<MAX_SESS_PER_CORE] cd"

text \<open>\<open>closeSock\<close> of the API: whether the socket was found. \<open>s_coreId\<close> and \<open>s_sessId\<close> of the session name its slot.\<close>

definition closeSock :: "int \<Rightarrow> cores \<times> EkaDev \<Rightarrow> (bool \<times> cores \<times> EkaDev) outcome" where
  "closeSock fd cd =
     (let (cores, dev) = cd in
      case findTcpSess_sock fd cores of None \<Rightarrow> Inr (False, cores, dev)
      | Some (c, i) \<Rightarrow>
        (case cores c of None \<Rightarrow> Inl InvalidAccess
         | Some core \<Rightarrow> (case tcpSess core i of None \<Rightarrow> Inl InvalidAccess
           | Some s \<Rightarrow> (case cores (unat (s_coreId s)) of None \<Rightarrow> Inl InvalidAccess
             | Some k \<Rightarrow>
                let cores = cores(unat (s_coreId s) := Some (k\<lparr>tcpSess := (tcpSess k)(unat (s_sessId s) := None)\<rparr>)) in
                obind (delete_EkaTcpSess s dev) (\<lambda>dev. Inr (True, cores, dev))))))"

section \<open>Packets\<close>

text \<open>Reading the type of a packet, and, of a TCP packet, its ports.\<close>

definition checked_tcp :: "u8 list \<Rightarrow> bool outcome" where
  "checked_tcp pkt =
     (if length pkt < 14 then Inl InvalidAccess
      else if be16toh (rd16 pkt 12) \<noteq> 0x0800 then Inr False
      else if length pkt < 24 then Inl InvalidAccess
      else if \<not> EKA_IS_TCP_PKT pkt then Inr False
      else if length pkt < HdrSize then Inl InvalidAccess
      else Inr True)"

definition sess_at :: "nat \<times> nat \<Rightarrow> cores \<Rightarrow> TcpSess outcome" where
  "sess_at ci cores =
     (case cores (fst ci) of None \<Rightarrow> Inl InvalidAccess
      | Some core \<Rightarrow> (case tcpSess core (snd ci) of None \<Rightarrow> Inl InvalidAccess | Some s \<Rightarrow> Inr s))"

definition set_sess :: "nat \<times> nat \<Rightarrow> TcpSess \<Rightarrow> cores \<Rightarrow> cores" where
  "set_sess ci s cores =
     (case cores (fst ci) of None \<Rightarrow> cores
      | Some core \<Rightarrow> cores(fst ci := Some (core\<lparr>tcpSess := (tcpSess core)(snd ci := Some s)\<rparr>)))"

text \<open>
  A frame of lwIP on the interface of core \<open>c\<close>; \<open>tot_len\<close> is the length of the whole chain, of which \<open>pkt\<close> is the first
  buffer. The result is whether the device was there.
\<close>

definition ekaLwipSend :: "nat \<Rightarrow> u8 list \<Rightarrow> nat \<Rightarrow> cores \<times> EkaDev \<Rightarrow> (bool \<times> cores \<times> EkaDev) outcome" where
  "ekaLwipSend c pkt tot_len cd =
     (let (cores, dev) = cd;
          via_ctl = obind (getControlTcpSess c cores) (\<lambda>ctl. obind (sendEthFrame ctl pkt dev) (\<lambda>(_, dev). Inr (True, cores, dev))) in
      if \<not> exc_active dev then Inr (False, cores, dev)
      else if cores c = None then on_error ''dev->core == NULL''
      else if length pkt \<noteq> tot_len then on_error ''IP fragmentation not supported''
      else obind (checked_tcp pkt) (\<lambda>tcp.
        if \<not> tcp then via_ctl
        else case findTcpSess (EKA_IPH_SRC pkt) (EKA_TCPH_SRC pkt) (EKA_IPH_DST pkt) (EKA_TCPH_DST pkt) cores of
          None \<Rightarrow> via_ctl
        | Some ci \<Rightarrow>
            obind (sess_at ci cores) (\<lambda>s.
            obind (getControlTcpSess (fst ci) cores) (\<lambda>ctl.
            obind (sendStackEthFrame ctl pkt (s, dev)) (\<lambda>(s, dev). Inr (True, set_sess ci s cores, dev))))))"

text \<open>What is given to the input of lwIP, which takes or drops it.\<close>

definition ekaPushLwipRxPkt :: "nat \<Rightarrow> u8 list \<Rightarrow> cores \<Rightarrow> (nat \<times> u8 list) list" where
  "ekaPushLwipRxPkt c pkt cores =
     (case cores c of None \<Rightarrow> [] | Some core \<Rightarrow> if pLwipNetIf core then [(c, pkt)] else [])"

definition broadcastMac :: "u8 list" where
  "broadcastMac = [0xFF, 0xFF, 0xFF, 0xFF, 0xFF, 0xFF]"

text \<open>\<open>seen\<close> is what the loop of \<open>updateRx\<close> sees, if it runs.\<close>

definition ekaProcessTcpRx :: "rx_round list \<Rightarrow> u8 list \<Rightarrow> cores \<Rightarrow> ((nat \<times> u8 list) list \<times> cores) outcome" where
  "ekaProcessTcpRx seen pkt cores =
     (if length pkt < 6 then Inl InvalidAccess
      else if take 6 pkt = broadcastMac then Inr (concat (map (\<lambda>c. ekaPushLwipRxPkt c pkt cores) [0..<MAX_CORES]), cores)
      else let rxCoreId = findCoreByMacSa pkt cores in
        if rxCoreId < 0 then Inr ([], cores)
        else obind (checked_tcp pkt) (\<lambda>tcp.
          if \<not> tcp then Inr (ekaPushLwipRxPkt (nat rxCoreId) pkt cores, cores)
          else case findTcpSess (EKA_IPH_DST pkt) (EKA_TCPH_DST pkt) (EKA_IPH_SRC pkt) (EKA_TCPH_SRC pkt) cores of
            None \<Rightarrow> Inr ([], cores)
          | Some ci \<Rightarrow>
              obind (sess_at ci cores) (\<lambda>s.
              obind (updateRx seen pkt s) (\<lambda>(acks, s).
              Inr (concat (map (\<lambda>p. ekaPushLwipRxPkt (unat (s_coreId s)) p cores) acks) @ ekaPushLwipRxPkt (nat rxCoreId) pkt cores,
                set_sess ci s cores)))))"

text \<open>The dummy write for a packet that the FPGA has sent; \<open>rounds\<close> is what the loop of \<open>lwipDummyWrite\<close> gets.\<close>

definition sendDummyFastPathPkt :: "(int \<times> bool \<times> bool) list \<Rightarrow> u8 list \<Rightarrow> bool \<Rightarrow> cores \<times> EkaDev \<Rightarrow> (int \<times> u8 list \<times> cores \<times> EkaDev) outcome" where
  "sendDummyFastPathPkt rounds payload fromHw cd =
     (let (cores, dev) = cd in
      if length payload < HdrSize then Inl InvalidAccess
      else let len = EKA_IPH_LEN payload - 20 - 20 in
        if unat len > MAX_PAYLOAD_SIZE then on_error ''TCP segment len > TCP_MSS''
        else case findTcpSess (EKA_IPH_SRC payload) (EKA_TCPH_SRC payload) (EKA_IPH_DST payload) (EKA_TCPH_DST payload) cores of
          None \<Rightarrow> on_error ''Tcp Session not found''
        | Some ci \<Rightarrow>
            if length payload < HdrSize + unat len then Inl InvalidAccess
            else obind (sess_at ci cores) (\<lambda>s.
              obind (lwipDummyWrite rounds (take (unat len) (drop HdrSize payload)) fromHw (s, dev)) (\<lambda>(rc, d, s, dev).
              Inr (rc, d, set_sess ci s cores, dev))))"

text \<open>
  One report of the card in the loop of \<open>ekaServThread\<close>: the header of the report lies over the first bytes of the packet.
  \<open>reportOnly\<close> is the mode of the EFC. The result is whether the loop goes on.
\<close>

definition DMA_TYPE_EPM :: u8 where "DMA_TYPE_EPM = 3"

definition serv_report :: "bool \<Rightarrow> (int \<times> bool \<times> bool) list \<Rightarrow> u8 list \<Rightarrow> report_q \<times> cores \<times> EkaDev \<Rightarrow> (bool \<times> report_q \<times> cores \<times> EkaDev) outcome" where
  "serv_report reportOnly rounds payload st =
     (let (q, cores, dev) = st in
      if length payload < 8 then Inl InvalidAccess
      else if payload ! 0 \<noteq> DMA_TYPE_EPM then on_error ''Unexpected dmaType''
      else if \<not> bit (payload ! 7) 4 then on_error ''feedbck_en==0''
      else let isHwFire = bit (payload ! 7) 1;
               report = (\<lambda>cores dev.
                 if bit (payload ! 7) 6 then obind (push payload (of_nat (length payload)) q) (\<lambda>(_, q). Inr (True, q, cores, dev))
                 else Inr (True, q, cores, dev))
           in if isHwFire \<and> reportOnly then report cores dev
              else obind (sendDummyFastPathPkt rounds payload isHwFire (cores, dev)) (\<lambda>(rc, _, cores, dev).
                if rc \<le> 0 then Inr (False, q, cores, dev) else report cores dev))"

section \<open>Actions of a session\<close>

lemma setTcpSess_ok:
  assumes "act_ok act" "getFrameType (act_type act) = Inr Tcp" "sess_ok s" "unat (act_payloadLen act) \<le> 1482"
  shows "\<exists>r. setTcpSess (Some s) (act, e0) = Inr r"
proof -
  define off where "off = act_heapOffs act"
  define l where "l = heap_from off e0"
  have "0 < actionHeapBudget (region ! act_regionId act)" using assms(1) budget_pos [of "act_regionId act"] by (simp add: act_ok_def)
  then have o: "off < 5341184" using act_ok_bounds(1) [OF assms(1)] by (simp add: off_def)
  have room: "slot_room off l" using o by (simp add: slot_room_def l_def heap_from_def MaxHeap_def)
  have e: "write_slot off l e0 = e0" unfolding l_def heap_from_def by (rule write_slot_self)
  define act1 where "act1 = act\<lparr>act_tcpSess := Some s, act_coreId := s_coreId s, act_sessId := s_sessId s\<rparr>"
  have a1: "act_type act1 = act_type act" "act_heapOffs act1 = off" "act_payloadLen act1 = act_payloadLen act" "act_ok act1"
    using assms(1) by (simp_all add: act1_def off_def act_ok_def)
  obtain c epm1 where nw: "setNwHdrs (s_macDa s) (s_macSa s) (s_srcIp s) (s_dstIp s) (s_srcPort s) (s_dstPort s) (act1, e0) =
      Inr (act1\<lparr>act_pktSize := 54 + act_payloadLen act, act_tcpCSum := c\<rparr>, epm1)"
    using setNwHdrs_frame [OF _ assms(3) room a1(2), of e0] assms(2,4) unfolding e a1 by auto
  have "act_ok (act1\<lparr>act_pktSize := 54 + act_payloadLen act, act_tcpCSum := c\<rparr>)" using a1(4) by (simp add: act_ok_def)
  then show ?thesis using nw setHwAction_ok by (fastforce simp: setTcpSess_def Let_def act1_def)
qed

text \<open>The regions of the sessions, and the actions of a session slot in the table.\<close>

definition full_idx :: "nat \<Rightarrow> nat \<Rightarrow> nat" where
  "full_idx c i = base_idx TcpTxFullPkt + (c * TOTAL_SESSIONS_PER_CORE + i)"

definition ack_idx :: "nat \<Rightarrow> nat \<Rightarrow> nat" where
  "ack_idx c i = base_idx TcpTxEmptyAck + (c * TOTAL_SESSIONS_PER_CORE + i)"

lemma tcp_region_values:
  "base_idx TcpTxFullPkt = 3072" "nActions (region ! TcpTxFullPkt) = 256" "TcpTxFullPkt < Total"
  "base_idx TcpTxEmptyAck = 3328" "nActions (region ! TcpTxEmptyAck) = 256" "TcpTxEmptyAck < Total"
  by (simp_all add: sum_loop_region TcpTxFullPkt_def TcpTxEmptyAck_def Total_def)
    (simp_all add: region_def NumEfcActions_def NumNewsActions_def NumTcpActions_def)

lemma sess_idx_inj:
  assumes "i < TOTAL_SESSIONS_PER_CORE" "j < TOTAL_SESSIONS_PER_CORE" "c < MAX_CORES" "d < MAX_CORES"
  shows "full_idx c i = full_idx d j \<longleftrightarrow> c = d \<and> i = j" "ack_idx c i = ack_idx d j \<longleftrightarrow> c = d \<and> i = j" "full_idx c i \<noteq> ack_idx d j"
proof -
  have lt: "i < 32" "j < 32" "c < 4" "d < 4" using assms by (simp_all add: TOTAL_SESSIONS_PER_CORE_def MAX_SESS_PER_CORE_def MAX_CORES_def)
  have T: "TOTAL_SESSIONS_PER_CORE = 32" by (simp add: TOTAL_SESSIONS_PER_CORE_def MAX_SESS_PER_CORE_def)
  have "(c * 32 + i) div 32 = c" "(d * 32 + j) div 32 = d" "(c * 32 + i) mod 32 = i" "(d * 32 + j) mod 32 = j"
    using lt(1,2) by simp_all
  then have inj: "c * 32 + i = d * 32 + j \<longleftrightarrow> c = d \<and> i = j" by metis
  show "full_idx c i = full_idx d j \<longleftrightarrow> c = d \<and> i = j" "ack_idx c i = ack_idx d j \<longleftrightarrow> c = d \<and> i = j"
    unfolding full_idx_def ack_idx_def T using inj by (simp_all only: add_left_cancel)
  have "c * 32 + i < 128" using lt by linarith
  then show "full_idx c i \<noteq> ack_idx d j" unfolding full_idx_def ack_idx_def T tcp_region_values by linarith
qed

definition tcp_ready :: "EkaEpm \<Rightarrow> bool" where
  "tcp_ready e \<longleftrightarrow> epmRegion e TcpTxFullPkt \<and> epmRegion e TcpTxEmptyAck \<and> epmTemplate e T_TcpFastPath \<noteq> None \<and> epmTemplate e T_Raw \<noteq> None"

definition tcp_action :: "EpmActionType \<Rightarrow> nat \<Rightarrow> bool" where
  "tcp_action t r \<longleftrightarrow> (t = TcpFullPkt \<or> t = TcpFastPath) \<and> r = TcpTxFullPkt \<or> t = TcpEmptyAck \<and> r = TcpTxEmptyAck"

lemma add_sess_action_ok:
  assumes "tcp_action t r" "tcp_ready (epm dev)" "table_ok (epm dev)" "sess_ok (EkaTcpSess.truncate s)"
    and "unat (s_coreId s) = c" "unat (s_sessId s) = i" "c < MAX_CORES" "i < TOTAL_SESSIONS_PER_CORE"
    and "a_table (epm dev) (base_idx r + (c * TOTAL_SESSIONS_PER_CORE + i)) = None"
  shows "\<exists>act e. add_sess_action t r s dev = Inr (base_idx r + (c * TOTAL_SESSIONS_PER_CORE + i), dev\<lparr>epm := e\<rparr>) \<and> act_type act = t \<and>
    a_table e = (a_table (epm dev))(base_idx r + (c * TOTAL_SESSIONS_PER_CORE + i) := Some act) \<and> tcp_ready e \<and> table_ok e"
proof -
  let ?a = "c * TOTAL_SESSIONS_PER_CORE + i" let ?gi = "base_idx r + ?a"
  have r: "r < Total" "?a < nActions (region ! r)" "epmRegion (epm dev) r"
    using assms(1,2,7,8)
    by (auto simp: tcp_action_def tcp_ready_def tcp_region_values TOTAL_SESSIONS_PER_CORE_def MAX_SESS_PER_CORE_def MAX_CORES_def)
  obtain T tm where T: "type_template t = Some T" "epmTemplate (epm dev) T = Some tm"
    using assms(1,2) by (auto simp: tcp_action_def tcp_ready_def)
  have reg: "t = TcpFullPkt \<or> t = TcpFastPath \<Longrightarrow> r = TcpTxFullPkt" "t = TcpEmptyAck \<Longrightarrow> r = TcpTxEmptyAck"
    using assms(1) by (auto simp: tcp_action_def)
  obtain e1 where add: "addAction t ?a (int r) (epm dev) = Inr (?gi, e1)"
    using addAction_ok [OF r(1,2,3) assms(9) T reg] by blast
  obtain act where act: "act_ok act" "act_type act = t" "act_payloadLen act = 0" "a_table e1 = (a_table (epm dev))(?gi := Some act)"
    "epmRegion e1 = epmRegion (epm dev)" "epmTemplate e1 = epmTemplate (epm dev)"
    using addAction_result [OF add r(2)] by blast
  have "getFrameType (act_type act) = Inr Tcp" using assms(1) act(2) by (auto simp: tcp_action_def getFrameType_def)
  then obtain act' e2 where set: "setTcpSess (Some (EkaTcpSess.truncate s)) (act, e1) = Inr (act', e2)"
    using setTcpSess_ok [OF act(1) _ assms(4), of e1] act(3) by auto
  note keep = sess_op.keeps [OF set]
  let ?e = "e2\<lparr>a_table := (a_table e2)(?gi := Some act')\<rparr>"
  have on: "on_action ?gi (setTcpSess (Some (EkaTcpSess.truncate s))) e1 = Inr ?e" using act(4) set by (simp add: on_action_def)
  have "table_ok ?e" using sess_op.on_action_ok [OF on] add_table_ok [OF add r(2) assms(3)] by blast
  moreover have "tcp_ready ?e" using keep act(5,6) assms(2) by (simp add: tcp_ready_def same_tables_def)
  moreover have "a_table ?e = (a_table (epm dev))(?gi := Some act')" using keep act(4) by (simp add: same_tables_def)
  moreover have "act_type act' = t" using keep act(2) by (simp add: same_id_def)
  moreover have "add_sess_action t r s dev = Inr (?gi, dev\<lparr>epm := ?e\<rparr>)"
    using add on assms(5,6) by (simp add: add_sess_action_def sess_actionIdx_def)
  ultimately show ?thesis by blast
qed

text \<open>A session in slot \<open>i\<close> of core \<open>c\<close> has the actions of the slot.\<close>

definition owns :: "nat \<Rightarrow> nat \<Rightarrow> TcpSess \<Rightarrow> EkaEpm \<Rightarrow> bool" where
  "owns c i s e \<longleftrightarrow> unat (s_coreId s) = c \<and> unat (s_sessId s) = i \<and> emptyAckAction s = Some (ack_idx c i) \<and>
     (if i = CONTROL_SESS_ID then fullPktAction s = Some (full_idx c i) \<and> fastPathAction s = None
      else fastPathAction s = Some (full_idx c i) \<and> fullPktAction s = None) \<and>
     (\<exists>a. a_table e (full_idx c i) = Some a \<and> act_type a = (if i = CONTROL_SESS_ID then TcpFullPkt else TcpFastPath)) \<and>
     (\<exists>a. a_table e (ack_idx c i) = Some a \<and> act_type a = TcpEmptyAck)"

lemma sess_types:
  "tcp_action (if i = CONTROL_SESS_ID then TcpFullPkt else TcpFastPath) TcpTxFullPkt" "tcp_action TcpEmptyAck TcpTxEmptyAck"
  by (simp_all add: tcp_action_def)

lemma new_EkaTcpSess_ok:
  assumes "0 \<le> sock0" "tcp_ready (epm dev)" "table_ok (epm dev)" "length macSa = 6"
    and "unat core = c" "unat sess = i" "c < MAX_CORES" "i < TOTAL_SESSIONS_PER_CORE"
    and "a_table (epm dev) (full_idx c i) = None" "a_table (epm dev) (ack_idx c i) = None"
  shows "\<exists>s e a b. new_EkaTcpSess True sock0 rcvWnd0 core sess srcIp dstIp dstPort macSa dev = Inr (s, dev\<lparr>epm := e\<rparr>) \<and>
    owns c i s e \<and> sock s = sock0 \<and> s_srcIp s = srcIp \<and> s_srcPort s = 0 \<and> s_dstIp s = dstIp \<and> s_dstPort s = dstPort \<and> \<not> connectionEstablished s \<and> tcpSndWndShift s = 0 \<and>
    a_table e = (a_table (epm dev))(full_idx c i := Some a, ack_idx c i := Some b) \<and> tcp_ready e \<and> table_ok e"
proof -
  define s where "s = \<lparr>s_coreId = core, s_sessId = sess, s_macDa = [0, 0, 0, 0, 0, 0], s_macSa = take 6 macSa, s_srcIp = srcIp, s_dstIp = dstIp,
            s_srcPort = 0, s_dstPort = dstPort, sock = - 1, fastPathAction = None, fullPktAction = None, emptyAckAction = None,
            tcpRcvWnd = rcvWnd0, tcpSndWnd = 0, tcpSndWndShift = 0, mss = 0, tcpLocalSeqNum = 0, tcpRemoteSeqNum = 0, tcpRemoteAckNum = 0,
            realTcpRemoteAckNum = 0, realFastPathBytes = 0, realDummyBytes = 0, realTxDriverBytes = 0, lastInsertedEmptyAck = 0,
            txLwipBp = False, connectionEstablished = False, blocking = False\<rparr>\<lparr>sock := sock0\<rparr>"
  let ?t = "if i = CONTROL_SESS_ID then TcpFullPkt else TcpFastPath"
  let ?s1 = "if i = CONTROL_SESS_ID then s\<lparr>fullPktAction := Some (full_idx c i)\<rparr> else s\<lparr>fastPathAction := Some (full_idx c i)\<rparr>"
  have s: "unat (s_coreId s) = c" "unat (s_sessId s) = i" "sess_ok (EkaTcpSess.truncate s)"
    using assms(4-6) by (simp_all add: s_def sess_ok_def EkaTcpSess.truncate_def)
  have s1: "unat (s_coreId ?s1) = c" "unat (s_sessId ?s1) = i" "sess_ok (EkaTcpSess.truncate ?s1)"
    using s by (simp_all add: EkaTcpSess.truncate_def)
  obtain a e1 where a: "add_sess_action ?t TcpTxFullPkt s dev = Inr (full_idx c i, dev\<lparr>epm := e1\<rparr>)" "act_type a = ?t"
    "a_table e1 = (a_table (epm dev))(full_idx c i := Some a)" "tcp_ready e1" "table_ok e1"
    using add_sess_action_ok [OF sess_types(1) [of i] assms(2,3) s(3,1,2) assms(7,8)] assms(9) unfolding full_idx_def by blast
  have free: "a_table (epm (dev\<lparr>epm := e1\<rparr>)) (ack_idx c i) = None"
    using a(3) assms(7,8,10) sess_idx_inj(3) [of i i c c] by (simp add: fun_upd_def)
  obtain b e where b: "add_sess_action TcpEmptyAck TcpTxEmptyAck ?s1 (dev\<lparr>epm := e1\<rparr>) = Inr (ack_idx c i, dev\<lparr>epm := e1\<rparr>\<lparr>epm := e\<rparr>)"
    "act_type b = TcpEmptyAck" "a_table e = (a_table e1)(ack_idx c i := Some b)" "tcp_ready e" "table_ok e"
    using add_sess_action_ok [OF sess_types(2) _ _ s1(3,1,2) assms(7,8), of "dev\<lparr>epm := e1\<rparr>"] a(4,5) free
    unfolding ack_idx_def EkaDev.select_convs EkaDev.update_convs by auto
  let ?s2 = "?s1\<lparr>emptyAckAction := Some (ack_idx c i)\<rparr>"
  have new: "new_EkaTcpSess True sock0 rcvWnd0 core sess srcIp dstIp dstPort macSa dev = Inr (?s2, dev\<lparr>epm := e\<rparr>)"
  proof -
    have "(if unat sess = CONTROL_SESS_ID
          then obind (add_sess_action TcpFullPkt TcpTxFullPkt s dev) (\<lambda>(gi, dev). Inr (s\<lparr>fullPktAction := Some gi\<rparr>, dev))
          else obind (add_sess_action TcpFastPath TcpTxFullPkt s dev) (\<lambda>(gi, dev). Inr (s\<lparr>fastPathAction := Some gi\<rparr>, dev))) =
        (Inr (?s1, dev\<lparr>epm := e1\<rparr>) :: (TcpSess \<times> EkaDev) outcome)"
      using a(1) assms(6) by (cases "i = CONTROL_SESS_ID") simp_all
    then show ?thesis using b(1) assms(1) unfolding new_EkaTcpSess_def Let_def s_def [symmetric] by simp
  qed
  have tab: "a_table e = (a_table (epm dev))(full_idx c i := Some a, ack_idx c i := Some b)" by (simp only: b(3) a(3))
  have ne: "full_idx c i \<noteq> ack_idx c i" using sess_idx_inj(3) assms(7,8) by blast
  then have "owns c i ?s2 e" using s a(2) b(2) unfolding owns_def tab by (simp add: s_def)
  moreover have "sock ?s2 = sock0" "s_srcIp ?s2 = srcIp" "s_srcPort ?s2 = 0" "s_dstIp ?s2 = dstIp" "s_dstPort ?s2 = dstPort" "\<not> connectionEstablished ?s2" "tcpSndWndShift ?s2 = 0"
    by (simp_all add: s_def)
  ultimately show ?thesis using new tab b(4,5) by blast
qed

lemma delete_EkaTcpSess_ok:
  assumes "unat (s_coreId s) = c" "unat (s_sessId s) = i" "c < MAX_CORES" "i < TOTAL_SESSIONS_PER_CORE" "tcp_ready (epm dev)" "table_ok (epm dev)"
  shows "\<exists>e. delete_EkaTcpSess s dev = Inr (dev\<lparr>epm := e\<rparr>) \<and>
    a_table e = (a_table (epm dev))(full_idx c i := None, ack_idx c i := None) \<and> tcp_ready e \<and> table_ok e"
proof -
  have del: "\<exists>e. deleteAction (c * TOTAL_SESSIONS_PER_CORE + i) (int r) e0 = Inr e \<and>
      a_table e = (a_table e0)(base_idx r + (c * TOTAL_SESSIONS_PER_CORE + i) := None) \<and> epmRegion e = epmRegion e0 \<and> epmTemplate e = epmTemplate e0"
    if r: "r = TcpTxFullPkt \<or> r = TcpTxEmptyAck" for e0 r
  proof -
    have "r < Total" "\<not> base_idx r + (c * TOTAL_SESSIONS_PER_CORE + i) \<ge> TotalEpmActions"
      using r assms(3,4) by (auto simp: tcp_region_values TotalEpmActions_def getTotalActions_def region_values
          TOTAL_SESSIONS_PER_CORE_def MAX_SESS_PER_CORE_def MAX_CORES_def)
    moreover have "(a_table e0)(k := None) = a_table e0" if "a_table e0 k = None" for k using that by auto
    ultimately show ?thesis by (auto simp: deleteAction_def Let_def)
  qed
  obtain e1 where e1: "deleteAction (c * TOTAL_SESSIONS_PER_CORE + i) (int TcpTxFullPkt) (epm dev) = Inr e1"
    "a_table e1 = (a_table (epm dev))(full_idx c i := None)" "epmRegion e1 = epmRegion (epm dev)" "epmTemplate e1 = epmTemplate (epm dev)"
    using del [of TcpTxFullPkt] unfolding full_idx_def by blast
  obtain e2 where e2: "deleteAction (c * TOTAL_SESSIONS_PER_CORE + i) (int TcpTxEmptyAck) e1 = Inr e2"
    "a_table e2 = (a_table e1)(ack_idx c i := None)" "epmRegion e2 = epmRegion e1" "epmTemplate e2 = epmTemplate e1"
    using del [of TcpTxEmptyAck] unfolding ack_idx_def by blast
  have "table_ok e2" using delete_table_ok [OF e1(1) assms(6)] delete_table_ok [OF e2(1)] by blast
  moreover have "tcp_ready e2" using assms(5) e1(3,4) e2(3,4) by (simp add: tcp_ready_def)
  moreover have "delete_EkaTcpSess s dev = Inr (dev\<lparr>epm := e2\<rparr>)"
    using e1(1) e2(1) assms(1,2) by (simp add: delete_EkaTcpSess_def sess_actionIdx_def)
  ultimately show ?thesis using e1(2) e2(2) by auto
qed

section \<open>The invariant of the tables\<close>

definition slot :: "cores \<Rightarrow> nat \<Rightarrow> nat \<Rightarrow> TcpSess option" where
  "slot cores c i = (case cores c of None \<Rightarrow> None | Some core \<Rightarrow> tcpSess core i)"

text \<open>The entries of the table of actions that belong to a slot are there exactly when the slot has a session, and are the session's.\<close>

definition slot_ok :: "EkaEpm \<Rightarrow> nat \<Rightarrow> nat \<Rightarrow> TcpSess option \<Rightarrow> bool" where
  "slot_ok e c i x \<longleftrightarrow>
     (case x of None \<Rightarrow> a_table e (full_idx c i) = None \<and> a_table e (ack_idx c i) = None | Some s \<Rightarrow> owns c i s e)"

definition core_ok :: "nat \<Rightarrow> EkaCore \<Rightarrow> bool" where
  "core_ok c core \<longleftrightarrow> c < MAX_CORES \<and> unat (coreId core) = c \<and> length (c_macSa core) = 6 \<and>
     (\<forall>i. tcpSess core i \<noteq> None \<longrightarrow> i < TOTAL_SESSIONS_PER_CORE)"

definition sess_inv :: "cores \<times> EkaDev \<Rightarrow> bool" where
  "sess_inv cd \<longleftrightarrow> tcp_ready (epm (snd cd)) \<and> table_ok (epm (snd cd)) \<and> (\<forall>c core. fst cd c = Some core \<longrightarrow> core_ok c core) \<and>
     (\<forall>c < MAX_CORES. \<forall>i < TOTAL_SESSIONS_PER_CORE. slot_ok (epm (snd cd)) c i (slot (fst cd) c i))"

lemma slot_ok_frame:
  assumes "a_table e' (full_idx c i) = a_table e (full_idx c i)" "a_table e' (ack_idx c i) = a_table e (ack_idx c i)"
  shows "slot_ok e' c i x = slot_ok e c i x"
  by (cases x) (simp_all only: slot_ok_def option.case owns_def assms)

lemma sess_inv_set:
  assumes inv: "sess_inv (cores, dev)" and c: "cores c = Some core" and i: "i < TOTAL_SESSIONS_PER_CORE"
    and e: "tcp_ready e" "table_ok e" "a_table e = (a_table (epm dev))(full_idx c i := fa, ack_idx c i := fb)"
    and x: "slot_ok e c i x"
  shows "sess_inv (cores(c := Some (core\<lparr>tcpSess := (tcpSess core)(i := x)\<rparr>)), dev\<lparr>epm := e\<rparr>)"
proof -
  let ?cores = "cores(c := Some (core\<lparr>tcpSess := (tcpSess core)(i := x)\<rparr>))"
  have cm: "c < MAX_CORES" using inv c by (auto simp: sess_inv_def core_ok_def)
  have core: "core_ok c core" using inv c by (simp add: sess_inv_def)
  have "slot_ok e d j (slot ?cores d j)" if d: "d < MAX_CORES" "j < TOTAL_SESSIONS_PER_CORE" for d j
  proof (cases "d = c \<and> j = i")
    case True
    then show ?thesis using x by (simp add: slot_def)
  next
    case False
    have "full_idx d j \<noteq> full_idx c i" "ack_idx d j \<noteq> ack_idx c i" "full_idx d j \<noteq> ack_idx c i" "ack_idx d j \<noteq> full_idx c i"
      using sess_idx_inj [OF d(2) i d(1) cm] sess_idx_inj(3) [OF i d(2) cm d(1)] False by auto
    then have "slot_ok e d j y = slot_ok (epm dev) d j y" for y by (intro slot_ok_frame) (simp_all add: e(3))
    moreover have "slot ?cores d j = slot cores d j" using False c by (auto simp: slot_def)
    ultimately show ?thesis using inv d by (simp add: sess_inv_def)
  qed
  moreover have "core_ok c (core\<lparr>tcpSess := (tcpSess core)(i := x)\<rparr>)" using core i by (auto simp: core_ok_def)
  ultimately show ?thesis using inv e(1,2) by (simp add: sess_inv_def)
qed

lemma free_loop_result:
  "free_loop tab [a..<b] = (if \<exists>i \<in> {a..<b}. tab i = None then Inr (LEAST i. a \<le> i \<and> tab i = None) else on_error ''No free Tcp Sessions to allocate'')"
proof (induction "b - a" arbitrary: a)
  case 0
  then show ?case by simp
next
  case (Suc n)
  then have l: "[a..<b] = a # [Suc a..<b]" "{a..<b} = insert a {Suc a..<b}" by (auto simp: upt_conv_Cons)
  have IH: "free_loop tab [Suc a..<b] = (if \<exists>i \<in> {Suc a..<b}. tab i = None then Inr (LEAST i. Suc a \<le> i \<and> tab i = None)
      else on_error ''No free Tcp Sessions to allocate'')" using Suc by simp
  show ?case
  proof (cases "tab a = None")
    case True
    then have "(LEAST i. a \<le> i \<and> tab i = None) = a" by (intro Least_equality) auto
    then show ?thesis using True by (simp add: l)
  next
    case False
    have "(a \<le> i \<and> tab i = None) = (Suc a \<le> i \<and> tab i = None)" for i using False by (cases "a = i") auto
    then have least: "(LEAST i. a \<le> i \<and> tab i = None) = (LEAST i. Suc a \<le> i \<and> tab i = None)" by (simp only:)
    have "(\<exists>i \<in> {a..<b}. tab i = None) = (\<exists>i \<in> {Suc a..<b}. tab i = None)" using False by (simp only: l(2)) blast
    moreover have "free_loop tab [a..<b] = free_loop tab [Suc a..<b]" using False by (simp only: l(1) free_loop.simps if_False)
    ultimately show ?thesis unfolding least using IH by simp
  qed
qed

lemma addTcpSess_ok:
  assumes inv: "sess_inv (cores, dev)" and c: "cores c = Some core" and s: "0 \<le> sock0"
    and i: "getFreeTcpSess core = Inr i"
  shows "\<exists>s e a b. addTcpSess True sock0 rcvWnd0 (core, dev) = Inr (i, core\<lparr>tcpSess := (tcpSess core)(i := Some s)\<rparr>, dev\<lparr>epm := e\<rparr>) \<and>
    i < MAX_SESS_PER_CORE \<and> tcpSess core i = None \<and> (\<forall>j < i. tcpSess core j \<noteq> None) \<and>
    owns c i s e \<and> sock s = sock0 \<and> s_srcIp s = c_srcIp core \<and> s_srcPort s = 0 \<and> s_dstIp s = 0 \<and> s_dstPort s = 0 \<and> tcpSndWndShift s = 0 \<and>
    a_table e = (a_table (epm dev))(full_idx c i := Some a, ack_idx c i := Some b) \<and> tcp_ready e \<and> table_ok e \<and>
    a_table (epm dev) (full_idx c i) = None \<and> a_table (epm dev) (ack_idx c i) = None"
proof -
  have ex: "\<exists>j \<in> {0..<MAX_SESS_PER_CORE}. tcpSess core j = None" and l: "i = (LEAST j. tcpSess core j = None)"
    using i by (auto simp: getFreeTcpSess_def free_loop_result on_error_def split: if_splits)
  have free: "tcpSess core i = None" using ex unfolding l by (auto intro: LeastI)
  have le: "i \<le> j" if "tcpSess core j = None" for j unfolding l using that by (rule Least_le)
  obtain j where "j < MAX_SESS_PER_CORE" "tcpSess core j = None" using ex by auto
  then have lt: "i < MAX_SESS_PER_CORE" using le [of j] by linarith
  then have i32: "i < TOTAL_SESSIONS_PER_CORE" by (simp add: TOTAL_SESSIONS_PER_CORE_def)
  have k: "c < MAX_CORES" "unat (coreId core) = c" "length (c_macSa core) = 6" using inv c by (auto simp: sess_inv_def core_ok_def)
  have "slot cores c i = None" using c free by (simp add: slot_def)
  moreover have "slot_ok (epm dev) c i (slot cores c i)" using inv k(1) i32 by (auto simp: sess_inv_def)
  ultimately have none: "a_table (epm dev) (full_idx c i) = None" "a_table (epm dev) (ack_idx c i) = None" by (simp_all add: slot_ok_def)
  have u: "unat (of_nat i :: u8) = i" using lt by (simp add: MAX_SESS_PER_CORE_def unat_of_nat take_bit_nat_eq_self_iff)
  have ready: "tcp_ready (epm dev)" "table_ok (epm dev)" using inv by (simp_all add: sess_inv_def)
  obtain s e a b where n: "new_EkaTcpSess True sock0 rcvWnd0 (coreId core) (of_nat i) (c_srcIp core) 0 0 (c_macSa core) dev = Inr (s, dev\<lparr>epm := e\<rparr>)"
    "owns c i s e" "sock s = sock0" "s_srcIp s = c_srcIp core" "s_srcPort s = 0" "s_dstIp s = 0" "s_dstPort s = 0" "tcp_ready e" "table_ok e"
    "a_table e = (a_table (epm dev))(full_idx c i := Some a, ack_idx c i := Some b)" "tcpSndWndShift s = 0"
    using new_EkaTcpSess_ok [OF s ready k(3,2) u k(1) i32 none] by blast
  have "addTcpSess True sock0 rcvWnd0 (core, dev) = Inr (i, core\<lparr>tcpSess := (tcpSess core)(i := Some s)\<rparr>, dev\<lparr>epm := e\<rparr>)"
    using i n(1) by (simp add: addTcpSess_def)
  moreover have "\<forall>j < i. tcpSess core j \<noteq> None" using le by fastforce
  ultimately show ?thesis using lt free n(2-11) none by blast
qed

section \<open>Looking up sessions\<close>

lemma sess_loop_SomeD: "sess_loop P tab is = Some i \<Longrightarrow> i \<in> set is \<and> (\<exists>s. tab i = Some s \<and> P s)"
  by (induction "is") (auto split: option.splits if_splits)

lemma sess_loop_None: "sess_loop P tab is = None \<longleftrightarrow> (\<forall>i \<in> set is. \<forall>s. tab i = Some s \<longrightarrow> \<not> P s)"
  by (induction "is") (auto split: option.splits)

lemma core_loop_SomeD:
  "core_loop P cores cs = Some (c, i) \<Longrightarrow> c \<in> set cs \<and> i < MAX_SESS_PER_CORE \<and> (\<exists>s. slot cores c i = Some s \<and> P s)"
  by (induction cs) (auto simp: core_findTcpSess_def slot_def split: option.splits dest!: sess_loop_SomeD)

lemma core_loop_None:
  "core_loop P cores cs = None \<longleftrightarrow> (\<forall>c \<in> set cs. \<forall>i < MAX_SESS_PER_CORE. \<forall>s. slot cores c i = Some s \<longrightarrow> \<not> P s)"
  by (induction cs) (auto simp: core_findTcpSess_def slot_def sess_loop_None split: option.splits dest!: sess_loop_SomeD)

text \<open>The first session with a property is found, in the order of the cores and of the slots of a core.\<close>

lemma sess_loop_first: "sess_loop P tab [0..<n] = Some i \<Longrightarrow> j < i \<Longrightarrow> tab j = Some s \<Longrightarrow> \<not> P s"
proof (induction n)
  case (Suc n)
  have app: "sess_loop P tab (xs @ ys) = (case sess_loop P tab xs of None \<Rightarrow> sess_loop P tab ys | Some k \<Rightarrow> Some k)" for xs ys
    by (induction xs) (auto split: option.splits)
  show ?case
  proof (cases "sess_loop P tab [0..<n]")
    case None
    then have "sess_loop P tab [n] = Some i" using Suc.prems(1) app [of "[0..<n]" "[n]"] by simp
    then have "i = n" using sess_loop_SomeD [of P tab "[n]" i] by simp
    then show ?thesis using None Suc.prems(2,3) by (auto simp: sess_loop_None)
  next
    case (Some k)
    then show ?thesis using Suc app [of "[0..<n]" "[n]"] by simp
  qed
qed simp

lemma core_loop_first:
  "core_loop P cores [0..<n] = Some (c, i) \<Longrightarrow> d < c \<and> j < MAX_SESS_PER_CORE \<or> d = c \<and> j < i \<Longrightarrow> slot cores d j = Some s \<Longrightarrow> \<not> P s"
proof (induction n)
  case (Suc n)
  have app: "core_loop P cores (xs @ ys) = (case core_loop P cores xs of None \<Rightarrow> core_loop P cores ys | Some k \<Rightarrow> Some k)" for xs ys
    by (induction xs) (auto split: option.splits)
  show ?case
  proof (cases "core_loop P cores [0..<n]")
    case None
    then have l: "core_loop P cores [n] = Some (c, i)" using Suc.prems(1) app [of "[0..<n]" "[n]"] by simp
    then have c: "c = n" using core_loop_SomeD [of P cores "[n]" c i] by simp
    show ?thesis
    proof (cases "d < c")
      case True
      then show ?thesis using None Suc.prems(2,3) c by (auto simp: core_loop_None)
    next
      case False
      then have j: "d = c" "j < i" using Suc.prems(2) by auto
      obtain core where core: "cores c = Some core" "tcpSess core j = Some s" using Suc.prems(3) j(1) by (auto simp: slot_def split: option.splits)
      then have "sess_loop P (tcpSess core) [0..<MAX_SESS_PER_CORE] = Some i"
        using l c by (auto simp: core_findTcpSess_def split: option.splits)
      then show ?thesis using sess_loop_first j(2) core(2) by blast
    qed
  next
    case (Some k)
    then show ?thesis using Suc app [of "[0..<n]" "[n]"] by simp
  qed
qed simp

text \<open>The only session with a property is found.\<close>

lemma core_loop_unique:
  assumes "c < MAX_CORES" "i < MAX_SESS_PER_CORE" "slot cores c i = Some s" "P s"
    and "\<And>d j s'. d < MAX_CORES \<Longrightarrow> j < MAX_SESS_PER_CORE \<Longrightarrow> slot cores d j = Some s' \<Longrightarrow> P s' \<Longrightarrow> d = c \<and> j = i"
  shows "core_loop P cores [0..<MAX_CORES] = Some (c, i)"
proof (cases "core_loop P cores [0..<MAX_CORES]")
  case None
  then show ?thesis using assms(1-4) by (auto simp: core_loop_None)
next
  case (Some dj)
  then show ?thesis using core_loop_SomeD [of P cores "[0..<MAX_CORES]" "fst dj" "snd dj"] assms(5) by (cases dj) auto
qed

section \<open>Closing\<close>

lemma closeSock_ok:
  assumes inv: "sess_inv (cores, dev)" and f: "findTcpSess_sock fd cores = Some (c, i)"
  shows "\<exists>core s e. cores c = Some core \<and> tcpSess core i = Some s \<and> sock s = fd \<and> i < MAX_SESS_PER_CORE \<and>
    closeSock fd (cores, dev) = Inr (True, cores(c := Some (core\<lparr>tcpSess := (tcpSess core)(i := None)\<rparr>)), dev\<lparr>epm := e\<rparr>) \<and>
    a_table e = (a_table (epm dev))(full_idx c i := None, ack_idx c i := None) \<and> tcp_ready e \<and> table_ok e"
proof -
  obtain s where s: "c < MAX_CORES" "i < MAX_SESS_PER_CORE" "slot cores c i = Some s" "sock s = fd"
    using core_loop_SomeD [OF f [unfolded findTcpSess_sock_def]] by (auto simp: myParams_sock_def)
  then obtain core where core: "cores c = Some core" "tcpSess core i = Some s" by (auto simp: slot_def split: option.splits)
  have i: "i < TOTAL_SESSIONS_PER_CORE" using s(2) by (simp add: TOTAL_SESSIONS_PER_CORE_def)
  have "slot_ok (epm dev) c i (slot cores c i)" using inv s(1) i by (simp add: sess_inv_def)
  then have o: "unat (s_coreId s) = c" "unat (s_sessId s) = i" using s(3) by (simp_all add: slot_ok_def owns_def)
  have ready: "tcp_ready (epm dev)" "table_ok (epm dev)" using inv by (simp_all add: sess_inv_def)
  obtain e where "delete_EkaTcpSess s dev = Inr (dev\<lparr>epm := e\<rparr>)" "a_table e = (a_table (epm dev))(full_idx c i := None, ack_idx c i := None)"
    "tcp_ready e" "table_ok e"
    using delete_EkaTcpSess_ok [OF o s(1) i ready] by blast
  moreover from this(1) have "closeSock fd (cores, dev) = Inr (True, cores(c := Some (core\<lparr>tcpSess := (tcpSess core)(i := None)\<rparr>)), dev\<lparr>epm := e\<rparr>)"
    using f core o by (simp add: closeSock_def Let_def)
  ultimately show ?thesis using core s(2,4) by blast
qed

lemma closeSock_inv:
  assumes inv: "sess_inv (cores, dev)"
  shows "\<exists>cores' dev'. closeSock fd (cores, dev) = Inr (findTcpSess_sock fd cores \<noteq> None, cores', dev') \<and> sess_inv (cores', dev') \<and>
    (case findTcpSess_sock fd cores of None \<Rightarrow> cores' = cores \<and> dev' = dev
     | Some (c, i) \<Rightarrow> c < MAX_CORES \<and> i < MAX_SESS_PER_CORE \<and> (\<exists>s. slot cores c i = Some s \<and> sock s = fd) \<and>
         (\<forall>d j. slot cores' d j = (if d = c \<and> j = i then None else slot cores d j)) \<and>
         a_table (epm dev') = (a_table (epm dev))(full_idx c i := None, ack_idx c i := None))"
proof (cases "findTcpSess_sock fd cores")
  case None
  then show ?thesis using inv by (simp add: closeSock_def)
next
  case (Some ci)
  obtain c i where ci: "ci = (c, i)" by fastforce
  obtain core s e where r: "cores c = Some core" "i < MAX_SESS_PER_CORE" "tcpSess core i = Some s" "sock s = fd"
    "closeSock fd (cores, dev) = Inr (True, cores(c := Some (core\<lparr>tcpSess := (tcpSess core)(i := None)\<rparr>)), dev\<lparr>epm := e\<rparr>)"
    "a_table e = (a_table (epm dev))(full_idx c i := None, ack_idx c i := None)" "tcp_ready e" "table_ok e"
    using closeSock_ok [OF inv Some [unfolded ci]] by blast
  have i: "i < TOTAL_SESSIONS_PER_CORE" using r(2) by (simp add: TOTAL_SESSIONS_PER_CORE_def)
  let ?cores = "cores(c := Some (core\<lparr>tcpSess := (tcpSess core)(i := None)\<rparr>))"
  have "slot_ok e c i None" by (simp add: slot_ok_def r(6))
  note inv' = sess_inv_set [OF inv r(1) i r(7,8,6) this]
  have c: "c < MAX_CORES" using inv r(1) by (auto simp: sess_inv_def core_ok_def)
  have s: "slot cores c i = Some s" using r(1,3) by (simp add: slot_def)
  have sl: "slot ?cores d j = (if d = c \<and> j = i then None else slot cores d j)" for d j using r(1) by (simp add: slot_def)
  have a: "a_table (epm (dev\<lparr>epm := e\<rparr>)) = (a_table (epm dev))(full_idx c i := None, ack_idx c i := None)" by (simp add: r(6))
  have "closeSock fd (cores, dev) = Inr (findTcpSess_sock fd cores \<noteq> None, ?cores, dev\<lparr>epm := e\<rparr>)" using r(5) Some by simp
  then show ?thesis using inv' c r(2,4) s sl a unfolding Some ci option.case prod.case by blast
qed

lemma suppress_loop_ok:
  assumes "sess_inv (cores, dev)" "cores c = Some core" "\<forall>i \<in> set is. i < MAX_SESS_PER_CORE" "distinct is"
  shows "\<exists>core' dev'. suppress_loop new P is (core, dev) = Inr (core', dev') \<and> sess_inv (cores(c := Some core'), dev') \<and>
    core' = core\<lparr>tcpSess := \<lambda>i. if i \<in> set is \<and> i \<noteq> new \<and> (\<exists>s. tcpSess core i = Some s \<and> P s) then None else tcpSess core i\<rparr>"
  using assms
proof (induction "is" arbitrary: cores dev core)
  case Nil
  have "cores(c := Some core) = cores" using Nil(2) by auto
  then have "sess_inv (cores(c := Some core), dev)" using Nil(1) by (simp only:)
  then show ?case by (simp del: fun_upd_apply)
next
  case (Cons i "is")
  define keep where "keep core = core\<lparr>tcpSess := \<lambda>j. if j \<in> set is \<and> j \<noteq> new \<and> (\<exists>s. tcpSess core j = Some s \<and> P s) then None else tcpSess core j\<rparr>"
    for core :: EkaCore
  have IH: "\<exists>dev'. suppress_loop new P is (core1, dev1) = Inr (keep core1, dev') \<and> sess_inv (cores1(c := Some (keep core1)), dev')"
    if "sess_inv (cores1, dev1)" "cores1 c = Some core1" for cores1 core1 dev1
  proof -
    have "\<forall>i \<in> set is. i < MAX_SESS_PER_CORE" "distinct is" using Cons.prems(3,4) by simp_all
    from Cons.IH [OF that this] show ?thesis unfolding keep_def by blast
  qed
  show ?case
  proof (cases "i \<noteq> new \<and> (\<exists>s. tcpSess core i = Some s \<and> P s)")
    case False
    then have "suppress_loop new P (i # is) (core, dev) = suppress_loop new P is (core, dev)" by (auto split: option.splits)
    moreover have "keep core = core\<lparr>tcpSess := \<lambda>j. if j \<in> set (i # is) \<and> j \<noteq> new \<and> (\<exists>s. tcpSess core j = Some s \<and> P s) then None else tcpSess core j\<rparr>"
      using False unfolding keep_def by (intro EkaCore.fold_congs refl ext) auto
    ultimately show ?thesis using IH [OF Cons.prems(1,2)] by metis
  next
    case True
    then obtain s where s: "i \<noteq> new" "tcpSess core i = Some s" "P s" by blast
    let ?core = "core\<lparr>tcpSess := (tcpSess core)(i := None)\<rparr>"
    have ready: "tcp_ready (epm dev)" "table_ok (epm dev)" "c < MAX_CORES" using Cons.prems(1,2) by (auto simp: sess_inv_def core_ok_def)
    have i: "i < TOTAL_SESSIONS_PER_CORE" using Cons.prems(3) by (simp add: TOTAL_SESSIONS_PER_CORE_def)
    have "slot_ok (epm dev) c i (slot cores c i)" using Cons.prems(1) ready(3) i by (simp add: sess_inv_def)
    then have o: "unat (s_coreId s) = c" "unat (s_sessId s) = i" using s(2) Cons.prems(2) by (simp_all add: slot_ok_def owns_def slot_def)
    obtain e where e: "delete_EkaTcpSess s dev = Inr (dev\<lparr>epm := e\<rparr>)" "a_table e = (a_table (epm dev))(full_idx c i := None, ack_idx c i := None)"
      "tcp_ready e" "table_ok e"
      using delete_EkaTcpSess_ok [OF o ready(3) i ready(1,2)] by blast
    have "slot_ok e c i None" by (simp add: slot_ok_def e(2))
    then have inv: "sess_inv (cores(c := Some ?core), dev\<lparr>epm := e\<rparr>)" by (rule sess_inv_set [OF Cons.prems(1,2) i e(3,4,2)])
    have susp: "suppress_loop new P (i # is) (core, dev) = suppress_loop new P is (?core, dev\<lparr>epm := e\<rparr>)" using s e(1) by simp
    define tab where "tab = (\<lambda>j. if j \<in> set (i # is) \<and> j \<noteq> new \<and> (\<exists>s. tcpSess core j = Some s \<and> P s) then None else tcpSess core j)"
    have "(\<lambda>j. if j \<in> set is \<and> j \<noteq> new \<and> (\<exists>s. tcpSess ?core j = Some s \<and> P s) then None else tcpSess ?core j) = tab"
    proof (rule ext)
      fix j
      show "(if j \<in> set is \<and> j \<noteq> new \<and> (\<exists>s. tcpSess ?core j = Some s \<and> P s) then None else tcpSess ?core j) = tab j"
        by (cases "j = i") (use s in \<open>auto simp: tab_def\<close>)
    qed
    then have "keep ?core = ?core\<lparr>tcpSess := tab\<rparr>" by (simp only: keep_def)
    then have kept: "keep ?core = core\<lparr>tcpSess := \<lambda>j. if j \<in> set (i # is) \<and> j \<noteq> new \<and> (\<exists>s. tcpSess core j = Some s \<and> P s) then None else tcpSess core j\<rparr>"
      unfolding tab_def [symmetric] by simp
    obtain dev' where "suppress_loop new P is (?core, dev\<lparr>epm := e\<rparr>) = Inr (keep ?core, dev')"
      "sess_inv (cores(c := Some ?core, c := Some (keep ?core)), dev')"
      using IH [OF inv, of ?core] by (auto simp del: fun_upd_upd)
    then have "suppress_loop new P (i # is) (core, dev) = Inr (keep ?core, dev')" "sess_inv (cores(c := Some (keep ?core)), dev')"
      by (simp_all only: fun_upd_upd susp)
    then show ?thesis unfolding kept by blast
  qed
qed

section \<open>The table of sessions\<close>

text \<open>
  C7. Sessions and their actions stay together: every session of a table has the two actions of its slot, its indices are those of
  the slot, and a free slot has no actions, so that no two sessions share an action. A core with fewer than 31 sessions
  gets a new session in its lowest free slot, with the socket, without touching the others; with 31 sessions the
  program aborts. Closing a socket always returns and says whether a session had it; if one had, the first slot, in the order of the
  cores and of the slots of a core, whose session has the socket is emptied, its two actions are deleted, and no other session and no
  other action is touched; if none had, nothing changes. Suppressing the old sessions of an address pair removes exactly those.
  All three keep the invariant.\<close>

theorem session_tables_correct:
  assumes "sess_inv (cores, dev)" and "cores c = Some core"
  shows "(0 \<le> sock0 \<and> (\<exists>i < MAX_SESS_PER_CORE. tcpSess core i = None) \<longrightarrow>
      (\<exists>i s dev'. addTcpSess True sock0 rcvWnd0 (core, dev) = Inr (i, core\<lparr>tcpSess := (tcpSess core)(i := Some s)\<rparr>, dev') \<and>
        i < MAX_SESS_PER_CORE \<and> tcpSess core i = None \<and> (\<forall>j < i. tcpSess core j \<noteq> None) \<and> sock s = sock0 \<and> owns c i s (epm dev') \<and>
        sess_inv (cores(c := Some (core\<lparr>tcpSess := (tcpSess core)(i := Some s)\<rparr>)), dev'))) \<and>
    ((\<forall>i < MAX_SESS_PER_CORE. tcpSess core i \<noteq> None) \<longrightarrow>
      addTcpSess True sock0 rcvWnd0 (core, dev) = on_error ''No free Tcp Sessions to allocate'') \<and>
    (\<exists>cores' dev'. closeSock fd (cores, dev) =
      Inr (\<exists>d < MAX_CORES. \<exists>i < MAX_SESS_PER_CORE. \<exists>s. slot cores d i = Some s \<and> sock s = fd, cores', dev') \<and> sess_inv (cores', dev') \<and>
      (if \<exists>d < MAX_CORES. \<exists>i < MAX_SESS_PER_CORE. \<exists>s. slot cores d i = Some s \<and> sock s = fd
       then \<exists>d < MAX_CORES. \<exists>i < MAX_SESS_PER_CORE. (\<exists>s. slot cores d i = Some s \<and> sock s = fd) \<and>
         (\<forall>d' j s. d' < d \<and> j < MAX_SESS_PER_CORE \<or> d' = d \<and> j < i \<longrightarrow> slot cores d' j = Some s \<longrightarrow> sock s \<noteq> fd) \<and>
         (\<forall>d' j. slot cores' d' j = (if d' = d \<and> j = i then None else slot cores d' j)) \<and>
         a_table (epm dev') = (a_table (epm dev))(full_idx d i := None, ack_idx d i := None)
       else cores' = cores \<and> dev' = dev)) \<and>
    (\<exists>core' dev'. suppressOldTcpSess new srcIp srcPort dstIp dstPort (core, dev) = Inr (core', dev') \<and>
      sess_inv (cores(c := Some core'), dev') \<and>
      core' = core\<lparr>tcpSess := \<lambda>i. if i < MAX_SESS_PER_CORE \<and> i \<noteq> unat new \<and>
        (\<exists>s. tcpSess core i = Some s \<and> myParams srcIp srcPort dstIp dstPort s) then None else tcpSess core i\<rparr>)"
proof (intro conjI impI)
  assume a: "0 \<le> sock0 \<and> (\<exists>i < MAX_SESS_PER_CORE. tcpSess core i = None)"
  then have "\<exists>j \<in> {0..<MAX_SESS_PER_CORE}. tcpSess core j = None" by auto
  then obtain i where i: "getFreeTcpSess core = Inr i" unfolding getFreeTcpSess_def free_loop_result by (simp only: if_True)
  obtain s e a b where n: "addTcpSess True sock0 rcvWnd0 (core, dev) = Inr (i, core\<lparr>tcpSess := (tcpSess core)(i := Some s)\<rparr>, dev\<lparr>epm := e\<rparr>)"
    "i < MAX_SESS_PER_CORE" "tcpSess core i = None" "\<forall>j < i. tcpSess core j \<noteq> None" "owns c i s e" "sock s = sock0"
    "tcp_ready e" "table_ok e" "a_table e = (a_table (epm dev))(full_idx c i := Some a, ack_idx c i := Some b)"
    using addTcpSess_ok [OF assms _ i] a by blast
  have "i < TOTAL_SESSIONS_PER_CORE" "slot_ok e c i (Some s)" using n(2,5) by (simp_all add: TOTAL_SESSIONS_PER_CORE_def slot_ok_def)
  then have "sess_inv (cores(c := Some (core\<lparr>tcpSess := (tcpSess core)(i := Some s)\<rparr>)), dev\<lparr>epm := e\<rparr>)"
    using sess_inv_set [OF assms _ n(7,8,9)] by blast
  then show "\<exists>i s dev'. addTcpSess True sock0 rcvWnd0 (core, dev) = Inr (i, core\<lparr>tcpSess := (tcpSess core)(i := Some s)\<rparr>, dev') \<and>
        i < MAX_SESS_PER_CORE \<and> tcpSess core i = None \<and> (\<forall>j < i. tcpSess core j \<noteq> None) \<and> sock s = sock0 \<and> owns c i s (epm dev') \<and>
        sess_inv (cores(c := Some (core\<lparr>tcpSess := (tcpSess core)(i := Some s)\<rparr>)), dev')"
    using n by (intro exI [of _ i] exI [of _ s] exI [of _ "dev\<lparr>epm := e\<rparr>"]) simp
next
  assume "\<forall>i < MAX_SESS_PER_CORE. tcpSess core i \<noteq> None"
  then have "\<not> (\<exists>i \<in> {0..<MAX_SESS_PER_CORE}. tcpSess core i = None)" by auto
  then have "getFreeTcpSess core = on_error ''No free Tcp Sessions to allocate''" unfolding getFreeTcpSess_def free_loop_result by (simp only: if_False)
  then show "addTcpSess True sock0 rcvWnd0 (core, dev) = on_error ''No free Tcp Sessions to allocate''"
    by (simp add: addTcpSess_def on_error_def)
next
  have "(\<exists>d < MAX_CORES. \<exists>i < MAX_SESS_PER_CORE. \<exists>s. slot cores d i = Some s \<and> sock s = fd) \<longleftrightarrow> findTcpSess_sock fd cores \<noteq> None"
    unfolding findTcpSess_sock_def core_loop_None myParams_sock_def Ball_def set_upt atLeast0LessThan lessThan_iff by blast
  note has = this
  obtain cores' dev' where cl: "closeSock fd (cores, dev) = Inr (findTcpSess_sock fd cores \<noteq> None, cores', dev')" "sess_inv (cores', dev')"
    "case findTcpSess_sock fd cores of None \<Rightarrow> cores' = cores \<and> dev' = dev
     | Some (c, i) \<Rightarrow> c < MAX_CORES \<and> i < MAX_SESS_PER_CORE \<and> (\<exists>s. slot cores c i = Some s \<and> sock s = fd) \<and>
         (\<forall>d j. slot cores' d j = (if d = c \<and> j = i then None else slot cores d j)) \<and>
         a_table (epm dev') = (a_table (epm dev))(full_idx c i := None, ack_idx c i := None)"
    using closeSock_inv [OF assms(1), of fd] by blast
  have "if findTcpSess_sock fd cores \<noteq> None
       then \<exists>d < MAX_CORES. \<exists>i < MAX_SESS_PER_CORE. (\<exists>s. slot cores d i = Some s \<and> sock s = fd) \<and>
         (\<forall>d' j s. d' < d \<and> j < MAX_SESS_PER_CORE \<or> d' = d \<and> j < i \<longrightarrow> slot cores d' j = Some s \<longrightarrow> sock s \<noteq> fd) \<and>
         (\<forall>d' j. slot cores' d' j = (if d' = d \<and> j = i then None else slot cores d' j)) \<and>
         a_table (epm dev') = (a_table (epm dev))(full_idx d i := None, ack_idx d i := None)
       else cores' = cores \<and> dev' = dev"
  proof (cases "findTcpSess_sock fd cores")
    case None
    then show ?thesis using cl(3) by simp
  next
    case (Some ci)
    obtain d i where ci: "ci = (d, i)" by fastforce
    have first: "d' < d \<and> j < MAX_SESS_PER_CORE \<or> d' = d \<and> j < i \<longrightarrow> slot cores d' j = Some s \<longrightarrow> sock s \<noteq> fd" for d' j s
      using core_loop_first [OF Some [unfolded ci findTcpSess_sock_def], of d' j s] by (auto simp: myParams_sock_def)
    show ?thesis using cl(3) first unfolding Some ci option.case prod.case by auto
  qed
  then show "\<exists>cores' dev'. closeSock fd (cores, dev) =
      Inr (\<exists>d < MAX_CORES. \<exists>i < MAX_SESS_PER_CORE. \<exists>s. slot cores d i = Some s \<and> sock s = fd, cores', dev') \<and> sess_inv (cores', dev') \<and>
      (if \<exists>d < MAX_CORES. \<exists>i < MAX_SESS_PER_CORE. \<exists>s. slot cores d i = Some s \<and> sock s = fd
       then \<exists>d < MAX_CORES. \<exists>i < MAX_SESS_PER_CORE. (\<exists>s. slot cores d i = Some s \<and> sock s = fd) \<and>
         (\<forall>d' j s. d' < d \<and> j < MAX_SESS_PER_CORE \<or> d' = d \<and> j < i \<longrightarrow> slot cores d' j = Some s \<longrightarrow> sock s \<noteq> fd) \<and>
         (\<forall>d' j. slot cores' d' j = (if d' = d \<and> j = i then None else slot cores d' j)) \<and>
         a_table (epm dev') = (a_table (epm dev))(full_idx d i := None, ack_idx d i := None)
       else cores' = cores \<and> dev' = dev)"
    unfolding has using cl(1,2) by blast
next
  let ?P = "\<lambda>s. s_srcIp s = srcIp \<and> s_srcPort s = srcPort \<and> s_dstIp s = dstIp \<and> s_dstPort s = dstPort"
  have p: "?P = myParams srcIp srcPort dstIp dstPort" by (auto simp: myParams_def fun_eq_iff)
  have m: "(i \<in> set [0..<MAX_SESS_PER_CORE]) = (i < MAX_SESS_PER_CORE)" for i by simp
  have "\<forall>i \<in> set [0..<MAX_SESS_PER_CORE]. i < MAX_SESS_PER_CORE" "distinct [0..<MAX_SESS_PER_CORE]" by simp_all
  from suppress_loop_ok [OF assms this, where new = "unat new" and P = "myParams srcIp srcPort dstIp dstPort"]
  show "\<exists>core' dev'. suppressOldTcpSess new srcIp srcPort dstIp dstPort (core, dev) = Inr (core', dev') \<and>
      sess_inv (cores(c := Some core'), dev') \<and>
      core' = core\<lparr>tcpSess := \<lambda>i. if i < MAX_SESS_PER_CORE \<and> i \<noteq> unat new \<and>
        (\<exists>s. tcpSess core i = Some s \<and> myParams srcIp srcPort dstIp dstPort s) then None else tcpSess core i\<rparr>"
    unfolding suppressOldTcpSess_def p m .
qed

definition demo_core :: EkaCore where
  "demo_core = \<lparr>coreId = 0, c_srcIp = 0x0100000a, c_macSa = [2, 0, 0, 0, 0, 2], connectedL1Switch = False, pLwipNetIf = True,
     tcpSess = (\<lambda>i. None)\<rparr>"

lemma tcp_started: "\<exists>e. tcp_ready e \<and> a_table e = (\<lambda>i. None)"
proof -
  have "\<not> epmRegion epm_start TcpTxFullPkt" by (simp add: epm_start_def)
  then obtain e1 where e1: "epmRegion e1 = (epmRegion epm_start)(TcpTxFullPkt := True)" "a_table e1 = (\<lambda>i. None)" "createRegion (int TcpTxFullPkt) epm_start = Inr e1"
    by (rule that [rotated 2, OF createRegion_run [OF tcp_region_values(3)]]) (simp_all add: epm_start_def)
  then have "\<not> epmRegion e1 TcpTxEmptyAck" by (simp add: epm_start_def TcpTxFullPkt_def TcpTxEmptyAck_def)
  then obtain e2 where e2: "epmRegion e2 = (epmRegion e1)(TcpTxEmptyAck := True)" "a_table e2 = (\<lambda>i. None)" "createRegion (int TcpTxEmptyAck) e1 = Inr e2"
    by (rule that [rotated 2, OF createRegion_run [OF tcp_region_values(6)]]) (simp_all add: e1(2))
  obtain fp raw ops where "InitDefaultTemplates e2 = Inr (e2\<lparr>epmTemplate := (epmTemplate e2)(T_TcpFastPath \<mapsto> fp, T_Raw \<mapsto> raw), hw := hw e2 @ ops\<rparr>)"
    using InitDefaultTemplates_run [of e2] by blast
  define e3 where "e3 = e2\<lparr>epmTemplate := (epmTemplate e2)(T_TcpFastPath \<mapsto> fp, T_Raw \<mapsto> raw), hw := hw e2 @ ops\<rparr>"
  have "epmRegion e3 = epmRegion e2" "a_table e3 = a_table e2" "epmTemplate e3 T_TcpFastPath \<noteq> None" "epmTemplate e3 T_Raw \<noteq> None"
    by (simp_all add: e3_def)
  then show ?thesis using e1 e2 by (intro exI [of _ e3]) (simp add: tcp_ready_def)
qed

lemma demo_inv: "\<exists>e. sess_inv ([0 \<mapsto> demo_core], demo_dev\<lparr>epm := e\<rparr>)"
proof -
  obtain e where e: "tcp_ready e" "a_table e = (\<lambda>i. None)" using tcp_started by blast
  have "table_ok e" by (simp add: table_ok_def e(2))
  then show ?thesis using e
    by (intro exI [of _ e]) (auto simp: sess_inv_def core_ok_def demo_core_def MAX_CORES_def slot_ok_def slot_def)
qed

text \<open>The first session of a core.\<close>

lemma demo_added:
  "\<exists>e s dev'. sess_inv ([0 \<mapsto> demo_core], demo_dev\<lparr>epm := e\<rparr>) \<and>
     addTcpSess True 7 0 (demo_core, demo_dev\<lparr>epm := e\<rparr>) = Inr (0, demo_core\<lparr>tcpSess := [0 \<mapsto> s]\<rparr>, dev') \<and>
     sess_inv ([0 \<mapsto> demo_core\<lparr>tcpSess := [0 \<mapsto> s]\<rparr>], dev') \<and> myParams 0x0100000a 0 0 0 s \<and> tcpSndWndShift s = 0"
proof -
  obtain e where e: "sess_inv ([0 \<mapsto> demo_core], demo_dev\<lparr>epm := e\<rparr>)" using demo_inv by blast
  have tab: "tcpSess demo_core = (\<lambda>i. None)" by (simp add: demo_core_def)
  have "[0..<MAX_SESS_PER_CORE] = 0 # [1..<MAX_SESS_PER_CORE]" by (simp add: MAX_SESS_PER_CORE_def upt_conv_Cons)
  then have g: "getFreeTcpSess demo_core = Inr 0" by (simp add: getFreeTcpSess_def tab)
  have c: "[0 \<mapsto> demo_core] 0 = Some demo_core" by simp
  obtain s e' a b where n: "addTcpSess True 7 0 (demo_core, demo_dev\<lparr>epm := e\<rparr>) =
      Inr (0, demo_core\<lparr>tcpSess := (tcpSess demo_core)(0 := Some s)\<rparr>, demo_dev\<lparr>epm := e\<rparr>\<lparr>epm := e'\<rparr>)"
    "owns 0 0 s e'" "s_srcIp s = c_srcIp demo_core" "s_srcPort s = 0" "s_dstIp s = 0" "s_dstPort s = 0" "tcp_ready e'" "table_ok e'"
    "a_table e' = (a_table (epm (demo_dev\<lparr>epm := e\<rparr>)))(full_idx 0 0 := Some a, ack_idx 0 0 := Some b)" "tcpSndWndShift s = 0"
    using addTcpSess_ok [OF e c _ g, of 7 0] by auto
  have "0 < TOTAL_SESSIONS_PER_CORE" "slot_ok e' 0 0 (Some s)" using n(2) by (simp_all add: TOTAL_SESSIONS_PER_CORE_def slot_ok_def)
  from sess_inv_set [OF e c this(1) n(7-9) this(2)] show ?thesis
    using e n(1,3-6,10) unfolding tab fun_upd_upd by (intro exI conjI) (assumption | simp add: myParams_def demo_core_def)+
qed

theorem session_tables_correct_witness:
  "\<exists>e i s dev'. addTcpSess True 7 0 (demo_core, demo_dev\<lparr>epm := e\<rparr>) = Inr (i, demo_core\<lparr>tcpSess := (tcpSess demo_core)(i := Some s)\<rparr>, dev') \<and>
     i < MAX_SESS_PER_CORE \<and> sock s = 7"
proof -
  obtain e where e: "sess_inv ([0 \<mapsto> demo_core], demo_dev\<lparr>epm := e\<rparr>)" using demo_inv by blast
  have "tcpSess demo_core j = None" for j by (simp add: demo_core_def)
  then have free: "0 \<le> (7 :: int) \<and> (\<exists>i < MAX_SESS_PER_CORE. tcpSess demo_core i = None)"
    by (intro conjI exI [of _ 0]) (simp_all add: MAX_SESS_PER_CORE_def)
  have "[0 \<mapsto> demo_core] 0 = Some demo_core" by simp
  from mp [OF conjunct1 [OF session_tables_correct [OF e this, of 7 0 0 0 0 0 0 0]] free] show ?thesis by blast
qed

text \<open>The addresses of a session are not touched.\<close>

lemma option_loop_same_sess: "option_loop opt n i s = Inr s' \<Longrightarrow> s_coreId s' = s_coreId s"
proof (induction opt n i s rule: option_loop.induct)
  case (1 opt n i s)
  from 1(3) [unfolded option_loop.simps [of opt n i s]] show ?case
    using 1(1,2) by (auto simp: on_error_def split: if_splits)
qed

lemma updateRx_same_sess:
  assumes "updateRx seen pkt s = Inr (ps, s')"
  shows "s_coreId s' = s_coreId s"
proof -
  obtain s1 qs s2 where w: "rx_wait seen pkt s1 = Inr (qs, s2)" "s_coreId s1 = s_coreId s"
    and p: "(if EKA_TCP_SYN pkt then processSynAck pkt s2 else Inr s2) = Inr s'"
    using assms by (auto simp: updateRx_def obind_Inr_iff Let_def split: if_splits)
  have "s_coreId s2 = s_coreId s1" using rx_wait_result [OF w(1)] by auto
  moreover have "s_coreId s' = s_coreId s2"
    using p option_loop_same_sess by (auto simp: processSynAck_def on_error_def split: if_splits)
  ultimately show ?thesis using w(2) by simp
qed

text \<open>
  C22. Closing undoes opening: a new session is the one that its socket finds, when no other session has this socket, and closing
  the socket gives the tables of all cores and the table of actions back as they were.\<close>

theorem close_undoes_add:
  assumes "sess_inv (cores, dev)" and "cores c = Some core" and "0 \<le> sock0"
    and "addTcpSess True sock0 rcvWnd0 (core, dev) = Inr (i, core', dev')"
    and "\<forall>d < MAX_CORES. \<forall>j < MAX_SESS_PER_CORE. \<forall>s. slot cores d j = Some s \<longrightarrow> sock s \<noteq> sock0"
  shows "findTcpSess_sock sock0 (cores(c := Some core')) = Some (c, i) \<and>
    (\<exists>dev''. closeSock sock0 (cores(c := Some core'), dev') = Inr (True, cores, dev'') \<and> a_table (epm dev'') = a_table (epm dev))"
proof -
  have "getFreeTcpSess core = Inr i" using assms(4) by (auto simp: addTcpSess_def obind_Inr_iff)
  then obtain s e a b where n: "addTcpSess True sock0 rcvWnd0 (core, dev) = Inr (i, core\<lparr>tcpSess := (tcpSess core)(i := Some s)\<rparr>, dev\<lparr>epm := e\<rparr>)"
    "i < MAX_SESS_PER_CORE" "tcpSess core i = None" "owns c i s e" "sock s = sock0" "tcp_ready e" "table_ok e"
    "a_table e = (a_table (epm dev))(full_idx c i := Some a, ack_idx c i := Some b)"
    "a_table (epm dev) (full_idx c i) = None" "a_table (epm dev) (ack_idx c i) = None"
    using addTcpSess_ok [OF assms(1-3)] by blast
  let ?core = "core\<lparr>tcpSess := (tcpSess core)(i := Some s)\<rparr>"
  have r: "core' = ?core" "dev' = dev\<lparr>epm := e\<rparr>" using n(1) assms(4) by simp_all
  have i: "i < TOTAL_SESSIONS_PER_CORE" "slot_ok e c i (Some s)" using n(2,4) by (simp_all add: TOTAL_SESSIONS_PER_CORE_def slot_ok_def)
  have inv: "sess_inv (cores(c := Some ?core), dev\<lparr>epm := e\<rparr>)" by (rule sess_inv_set [OF assms(1,2) i(1) n(6-8) i(2)])
  have c: "c < MAX_CORES" using assms(1,2) by (auto simp: sess_inv_def core_ok_def)
  have sl: "slot (cores(c := Some ?core)) d j = (if d = c \<and> j = i then Some s else slot cores d j)" for d j
    using assms(2) by (simp add: slot_def)
  have find: "findTcpSess_sock sock0 (cores(c := Some ?core)) = Some (c, i)"
    unfolding findTcpSess_sock_def
  proof (rule core_loop_unique [OF c n(2), of _ s])
    show "d = c \<and> j = i" if "d < MAX_CORES" "j < MAX_SESS_PER_CORE" "slot (cores(c := Some ?core)) d j = Some s'" "myParams_sock sock0 s'" for d j s'
      using that assms(5) unfolding sl by (auto simp: myParams_sock_def split: if_splits)
  qed (simp_all add: sl myParams_sock_def n(5) del: fun_upd_apply)
  from closeSock_ok [OF inv find] obtain e' where cl: "closeSock sock0 (cores(c := Some ?core), dev\<lparr>epm := e\<rparr>) =
      Inr (True, cores(c := Some ?core, c := Some (?core\<lparr>tcpSess := (tcpSess ?core)(i := None)\<rparr>)), dev\<lparr>epm := e\<rparr>\<lparr>epm := e'\<rparr>)"
    "a_table e' = (a_table e)(full_idx c i := None, ack_idx c i := None)" by auto
  have "(tcpSess core)(i := None) = tcpSess core" using n(3) by auto
  then have "?core\<lparr>tcpSess := (tcpSess ?core)(i := None)\<rparr> = core" by simp
  moreover have "cores(c := Some core) = cores" using assms(2) by auto
  ultimately have "cores(c := Some ?core, c := Some (?core\<lparr>tcpSess := (tcpSess ?core)(i := None)\<rparr>)) = cores" by (simp only: fun_upd_upd)
  moreover have "a_table e' = a_table (epm dev)" using n(9,10) by (auto simp: cl(2) n(8))
  ultimately show ?thesis using find cl(1) unfolding r by auto
qed

theorem close_undoes_add_witness:
  "\<exists>s dev' dev''. closeSock 7 ([0 \<mapsto> demo_core\<lparr>tcpSess := [0 \<mapsto> s]\<rparr>], dev') = Inr (True, [0 \<mapsto> demo_core], dev'')"
proof -
  obtain e s dev' where d: "sess_inv ([0 \<mapsto> demo_core], demo_dev\<lparr>epm := e\<rparr>)"
    "addTcpSess True 7 0 (demo_core, demo_dev\<lparr>epm := e\<rparr>) = Inr (0, demo_core\<lparr>tcpSess := [0 \<mapsto> s]\<rparr>, dev')"
    using demo_added by blast
  have none: "\<forall>d < MAX_CORES. \<forall>j < MAX_SESS_PER_CORE. \<forall>s. slot [0 \<mapsto> demo_core] d j = Some s \<longrightarrow> sock s \<noteq> 7"
    by (simp add: slot_def demo_core_def)
  have "[0 \<mapsto> demo_core] 0 = Some demo_core" "0 \<le> (7 :: int)" by simp_all
  from close_undoes_add [OF d(1) this d(2) none] show ?thesis unfolding fun_upd_upd by blast
qed

section \<open>Dispatch of received packets\<close>

lemma mac_loop_SomeD: "mac_loop mac cores cs = int r \<Longrightarrow> r \<in> set cs \<and> (\<exists>core. cores r = Some core \<and> c_macSa core = take 6 mac)"
  by (induction cs) (auto split: option.splits if_splits)

lemma set_sess_slot: "slot cores c i \<noteq> None \<Longrightarrow> slot (set_sess (c, i) s cores) d j = (if d = c \<and> j = i then Some s else slot cores d j)"
  by (auto simp: slot_def set_sess_def split: option.splits)


definition demo_rx :: "u8 list" where
  "demo_rx = [2, 0, 0, 0, 0, 2] @ replicate 6 4 @ [8, 0, 0x45, 0, 0, 40, 0, 0, 0x40, 0, 0x80, 6, 0, 0, 0, 0, 0, 0, 10, 0, 0, 1] @ replicate 20 0"


end
