(* ===== verification/Spec2Isabelle.thy ===== *)
theory Spec2Isabelle
  imports Chksum Ip4Addr Pbuf Timeouts Etharp EkaUserReportQ EkaFhQ EkaEpmRegion EkaPacket EkaHashEng EkaCore
begin

text \<open>
  The Ekaline BCS library sends and receives market traffic through an FPGA network card. Its own code
  (\<open>src/src\<close>) keeps the packets of the FPGA, their templates and checksums, the subscription tables and
  the queues of reports; the TCP/IP stack below its sessions is lwIP (\<open>src/LWIP\<close>), built with the options
  of \<open>src/src/lwipopts.h\<close>. This development models the parts of both that carry state or arithmetic.

  Conventions. A C function is an Isabelle function of the same name. Unsigned integers are words of their
  width where wrap-around matters, and numbers with their bound proved where it does not. Functions that can
  abort (\<open>LWIP_ASSERT\<close>, \<open>on_error\<close>), use memory that is not allocated, or run forever return an \<open>outcome\<close>:
  \<open>Inl\<close> the failure or \<open>Inr\<close> the result (theory \<open>Prelude\<close>). State is passed explicitly, as a record with the fields
  of the C structure. Memory that is shared is a store from addresses to objects.

  The theories, with the sources they follow:

  \<^item> \<open>Prelude\<close>: words, outcomes, byte copies. \<open>LwDef\<close>: \<open>core/def.c\<close>, byte order and strings.
  \<^item> \<open>Chksum\<close>: \<open>core/inet_chksum.c\<close>. The three versions of the checksum loop agree with each other and with
    the sum of RFC 1071, for chains of buffers and for pseudo headers.
  \<^item> \<open>Ip4Addr\<close>: \<open>core/ipv4/ip4_addr.c\<close>. Parsing and printing of addresses, netmasks, broadcast addresses.
  \<^item> \<open>Alloc\<close>: the interface of an allocator, a locale with the safety of its clients proved from the laws.
    \<open>Mem\<close> (\<open>core/mem.c\<close>, the heap as a list of blocks behind the byte offsets of the code) and \<open>Memp\<close>
    (\<open>core/memp.c\<close>, pools as free lists) interpret it.
  \<^item> \<open>PbufData\<close>, \<open>Pbuf\<close>: \<open>core/pbuf.c\<close>. Copying and searching on chains as lists; allocation, reference
    counting, cutting (with the heap block behind it) and headers on a store of buffers over the heap and the pools.
  \<^item> \<open>Timeouts\<close>: \<open>core/timeouts.c\<close> and the timer handling of \<open>src/src/EkaTcp.cpp\<close>.
  \<^item> \<open>Etharp\<close>: \<open>core/ipv4/etharp.c\<close> and \<open>netif/ethernet.c\<close>, the ARP table with its queues of packets.
  \<^item> \<open>EkaMacros\<close>, \<open>Fifo\<close>, \<open>EkaUserReportQ\<close>, \<open>EkaFhQ\<close>: \<open>eka_macros.h\<close>, \<open>EkaUserReportQ.cpp\<close>, \<open>eka_fh_q.h\<close>. The queues refine
    the bounded queue of the locale in \<open>Fifo\<close>.
  \<^item> \<open>EkaEpmRegion\<close>: \<open>EkaEpmRegion.h\<close>, the layout of the packet heap and the action table of the FPGA.
  \<^item> \<open>EkaPacket\<close>: \<open>EkaPacket.cpp\<close>, \<open>EkaCsumSSE.h\<close>: the library's checksums are lwIP's \<open>inet_chksum\<close>
    functions, up to the lengths that the theorems name.
  \<^item> \<open>EkaTemplates\<close>: \<open>EpmTemplate.cpp\<close>, \<open>EpmHwFieldsMap.h\<close>, \<open>Epm*Template.h\<close>: which bytes of a packet the FPGA fills in.
  \<^item> \<open>EkaWc\<close>: \<open>EkaWc.h\<close>, the copies to the card, as the list of the stores that it sees.
  \<^item> \<open>EkaEpmAction\<close>: \<open>EkaEpmAction.cpp\<close>. One action and its slot of the heap: which frame its operations build, what
    they leave alone, and that the FPGA's TCP checksum of the frame comes out right.
  \<^item> \<open>EkaEpm\<close>: \<open>EkaEpm.cpp\<close>, regions, templates and the table of actions. The locale \<open>action_op\<close> is the contract of the
    operations of an action, interpreted for each of them; the invariant of the table holds in every reachable state.
  \<^item> \<open>EkaTcp\<close>: \<open>EkaTcpSess.cpp\<close>, \<open>ekaNW.h\<close>, the data path of a TCP session: sequence numbers beyond 32 bits, flow control,
    dummy writes, the options of a SYN/ACK, inserted acknowledgements, frames of lwIP.
  \<^item> \<open>EkaCore\<close>: \<open>EkaCore.cpp\<close>, the lookups of \<open>EkaDev.cpp\<close>, the dispatch of packets in \<open>EkaTcp.cpp\<close> and \<open>EkaServThread.cpp\<close>. The
    tables of sessions and the table of actions agree, and packets reach their session.
  \<^item> \<open>EkaHashEng\<close>: \<open>EkaHashEng.h\<close>, \<open>EkaHashEngLine.h\<close>, the subscription hash table.

  Bounds and fuel. Loops that may not end (walks along the linked lists of \<open>Memp\<close>, \<open>Pbuf\<close>, \<open>Timeouts\<close>) are partial
  functions into \<open>option\<close>; that they end is part of the theorems about them. The checksum theorems hold up to
  \<open>0x20000\<close> bytes, above the 65535 that a length field can hold. The sizes of pools, tables and queues are
  those of \<open>lwipopts.h\<close> and of the classes. The loops of a session that wait for another thread or for lwIP
  (\<open>rx_wait\<close>, \<open>dummy_loop\<close>) run over the list of what each round sees and gets, every load of a counter that another
  thread changes on its own; a list that does not end the loop is
  the failure \<open>Diverges\<close>, and the theorems say which lists end it.

  Not modelled. The card's driver and tools (\<open>src/SmartNIC_SW\<close>), vendored libraries and test programs; lwIP
  modules that the configuration leaves out (IPv6, DHCP, AutoIP, PPP, applications); threads, sockets and
  semaphores of the operating system: operations are modelled in the order in which the locks let them run.
  Text output and statistics are left out throughout. Of the sessions, the calls of the socket interface of lwIP
  (\<open>bind\<close>, \<open>connect\<close>, \<open>recv\<close>, \<open>setBlocking\<close>) and the set-up of its network interfaces (\<open>initTcp\<close>) are left out,
  of a store to the card the check of its address. The configuration of the trading strategies, the
  multicast channels and the printing of reports are not modelled either.
\<close>

end
